(* ===== verification/Prelude.thy ===== *)
theory Prelude
  imports Main "HOL-Library.Word" "HOL-Library.List_Lexorder" "HOL-Library.AList"
begin

text \<open>
  Shared vocabulary of the development: machine types, byte strings with their
  lexicographic order, the outcomes of a Rust call (a value, an error, a panic), the
  comparison results of \<open>std::cmp::Ordering\<close>, range bounds of \<open>std::ops::Bound\<close>, the
  standard library's binary search over a slice, little-endian integers of the \<open>bytes\<close>
  buffers, and hash maps as association lists whose order stands for the iteration order.
\<close>

unbundle bit_operations_syntax

named_theorems model_simps \<open>unfolding rules of the small accessors of the model\<close>
named_theorems codec_simps \<open>round-trip rules of the encoders\<close>

section \<open>Machine types\<close>

type_synonym byte = "8 word"
type_synonym bytes = "byte list"
type_synonym u32 = "32 word"
type_synonym u64 = "64 word"
type_synonym txn_id = u64
type_synonym ts = u64

section \<open>Outcomes of a call\<close>

text \<open>
  A Rust function that returns \<open>Result\<close> ends with \<open>Ok\<close>, with \<open>Err\<close>, or it panics
  (an index out of range, an \<open>unwrap\<close> of \<open>None\<close>, a buffer read past its end).
\<close>

datatype ('e, 'a) result = Ok 'a | Err 'e | Panic

fun bind_result :: "('e, 'a) result \<Rightarrow> ('a \<Rightarrow> ('e, 'b) result) \<Rightarrow> ('e, 'b) result" where
  "bind_result (Ok x) f = f x"
| "bind_result (Err e) f = Err e"
| "bind_result Panic f = Panic"

lemma bind_result_eq_Ok [simp]:
  "bind_result m f = Ok y \<longleftrightarrow> (\<exists>x. m = Ok x \<and> f x = Ok y)"
  by (cases m) auto

text \<open>A slice index: out of range it panics.\<close>

definition slice_index :: "'a list \<Rightarrow> nat \<Rightarrow> ('e, 'a) result" where
  "slice_index xs i = (if i < length xs then Ok (xs ! i) else Panic)"

lemma slice_index_ok [simp]: "i < length xs \<Longrightarrow> slice_index xs i = Ok (xs ! i)"
  by (simp add: slice_index_def)

section \<open>Comparison results\<close>

datatype ordering = Less | Equal | Greater

definition cmp :: "'a::linorder \<Rightarrow> 'a \<Rightarrow> ordering" where
  "cmp a b = (if a < b then Less else if a = b then Equal else Greater)"

fun reverse_ordering :: "ordering \<Rightarrow> ordering" where
  "reverse_ordering Less = Greater"
| "reverse_ordering Equal = Equal"
| "reverse_ordering Greater = Less"

fun then_ordering :: "ordering \<Rightarrow> ordering \<Rightarrow> ordering" where
  "then_ordering Equal o2 = o2"
| "then_ordering o1 o2 = o1"

lemma cmp_eq_simps [simp]:
  "cmp a b = Less \<longleftrightarrow> a < b"
  "cmp a b = Equal \<longleftrightarrow> a = b"
  "cmp a b = Greater \<longleftrightarrow> b < a"
  by (auto simp: cmp_def)

lemma cmp_refl [simp]: "cmp a a = Equal"
  by simp

lemma reverse_cmp [simp]: "reverse_ordering (cmp a b) = cmp b a"
  by (auto simp: cmp_def)

section \<open>Byte strings in lexicographic order\<close>

lemma list_less_append [simp]:
  fixes p :: "'a::linorder list"
  shows "(p @ xs < p @ ys) = (xs < ys)"
  by (induction p) auto

lemma list_le_append [simp]:
  fixes p :: "'a::linorder list"
  shows "(p @ xs \<le> p @ ys) = (xs \<le> ys)"
  by (induction p) auto

lemma list_self_le_append [simp]:
  fixes p :: "'a::linorder list"
  shows "p \<le> p @ xs"
  using list_le_append [of p "[]" xs] by simp

lemma list_less_at_diff:
  fixes a b :: "'a::linorder list"
  assumes "take i a = take i b" "i < length a" "i < length b" "a ! i \<noteq> b ! i"
  shows "cmp a b = cmp (a ! i) (b ! i)"
proof -
  have "a = take i a @ a ! i # drop (Suc i) a" "b = take i a @ b ! i # drop (Suc i) b"
    using assms id_take_nth_drop [of i a] id_take_nth_drop [of i b] by auto
  then have "(a < b) = (a ! i < b ! i)" and "a \<noteq> b"
    using assms(4) list_less_append [of "take i a" "a ! i # drop (Suc i) a" "b ! i # drop (Suc i) b"]
    by auto
  then show ?thesis
    using assms(4) by (simp add: cmp_def)
qed

lemma list_cmp_prefix:
  fixes a b :: "'a::linorder list"
  assumes "take n a = take n b" "n = min (length a) (length b)"
  shows "cmp a b = cmp (length a) (length b)"
proof -
  consider "length a < length b" | "length a = length b" | "length b < length a"
    by linarith
  then show ?thesis
  proof cases
    case 1
    with assms have "b = a @ drop (length a) b"
      by (metis append_take_drop_id min.strict_order_iff take_all_iff dual_order.refl)
    with 1 have "a < b"
      using list_less_append [of a "[]" "drop (length a) b"]
      by (metis append_Nil2 bot_list_def bot.not_eq_extremum length_drop length_greater_0_conv list.size(3) zero_less_diff)
    with 1 show ?thesis by (simp add: cmp_def)
  next
    case 2
    with assms show ?thesis by simp
  next
    case 3
    with assms have "a = b @ drop (length b) a"
      by (metis append_take_drop_id min.strict_order_iff min.commute take_all_iff dual_order.refl)
    with 3 have "b < a"
      using list_less_append [of b "[]" "drop (length b) a"]
      by (metis append_Nil2 bot_list_def bot.not_eq_extremum length_drop length_greater_0_conv list.size(3) zero_less_diff)
    with 3 show ?thesis by (auto simp: cmp_def)
  qed
qed

section \<open>Range bounds\<close>

datatype 'a bound = Included 'a | Excluded 'a | Unbounded

fun above_start :: "'a::linorder bound \<Rightarrow> 'a \<Rightarrow> bool" where
  "above_start (Included s) k = (s \<le> k)"
| "above_start (Excluded s) k = (s < k)"
| "above_start Unbounded k = True"

fun below_end :: "'a::linorder bound \<Rightarrow> 'a \<Rightarrow> bool" where
  "below_end (Included e) k = (k \<le> e)"
| "below_end (Excluded e) k = (k < e)"
| "below_end Unbounded k = True"

definition in_bounds :: "'a::linorder bound \<Rightarrow> 'a bound \<Rightarrow> 'a \<Rightarrow> bool" where
  "in_bounds s e k = (above_start s k \<and> below_end e k)"

section \<open>Hash maps\<close>

text \<open>
  A \<open>HashMap\<close>, \<open>HashSet\<close> or \<open>DashMap\<close> is an association list (a list for a set) with
  distinct keys; the position in the list stands for the unspecified iteration order.
\<close>

type_synonym ('k, 'v) hmap = "('k \<times> 'v) list"

abbreviation hm_get :: "('k, 'v) hmap \<Rightarrow> 'k \<Rightarrow> 'v option" where
  "hm_get m k \<equiv> map_of m k"

abbreviation hm_insert :: "'k \<Rightarrow> 'v \<Rightarrow> ('k, 'v) hmap \<Rightarrow> ('k, 'v) hmap" where
  "hm_insert k v m \<equiv> AList.update k v m"

abbreviation hm_remove :: "'k \<Rightarrow> ('k, 'v) hmap \<Rightarrow> ('k, 'v) hmap" where
  "hm_remove k m \<equiv> AList.delete k m"

abbreviation hm_wf :: "('k, 'v) hmap \<Rightarrow> bool" where
  "hm_wf m \<equiv> distinct (map fst m)"

lemma hm_wf_insert [simp]: "hm_wf m \<Longrightarrow> hm_wf (hm_insert k v m)"
  by (rule distinct_update)

lemma hm_wf_remove [simp]: "hm_wf m \<Longrightarrow> hm_wf (hm_remove k m)"
  by (rule distinct_delete)

lemma hm_get_insert [simp]: "hm_get (hm_insert k v m) k' = (if k' = k then Some v else hm_get m k')"
  by (simp add: update_conv')

lemma hm_get_remove [simp]: "hm_get (hm_remove k m) k' = (if k' = k then None else hm_get m k')"
  by (simp add: delete_conv')

lemma hm_mem_get: "hm_wf m \<Longrightarrow> (k, v) \<in> set m \<longleftrightarrow> hm_get m k = Some v"
  by (simp add: map_of_eq_Some_iff)

lemma hm_list_all_get:
  "hm_wf m \<Longrightarrow> list_all P m \<longleftrightarrow> (\<forall>k v. hm_get m k = Some v \<longrightarrow> P (k, v))"
  by (auto simp: list_all_iff hm_mem_get [symmetric])

definition hs_insert :: "'k \<Rightarrow> 'k list \<Rightarrow> 'k list" where
  "hs_insert k s = (if k \<in> set s then s else s @ [k])"

definition hs_remove :: "'k \<Rightarrow> 'k list \<Rightarrow> 'k list" where
  "hs_remove k s = filter (\<lambda>x. x \<noteq> k) s"

lemma set_hs_insert [simp]: "set (hs_insert k s) = insert k (set s)"
  by (auto simp: hs_insert_def)

lemma set_hs_remove [simp]: "set (hs_remove k s) = set s - {k}"
  by (auto simp: hs_remove_def)

lemma distinct_hs [simp]:
  "distinct s \<Longrightarrow> distinct (hs_insert k s)"
  "distinct s \<Longrightarrow> distinct (hs_remove k s)"
  by (simp_all add: hs_insert_def hs_remove_def)

section \<open>Numbers as text\<close>

text \<open>The decimal rendering of an unsigned integer by \<open>Display\<close>.\<close>

fun show_nat :: "nat \<Rightarrow> string" where
  "show_nat n = (if n < 10 then [char_of (48 + n)] else show_nat (n div 10) @ [char_of (48 + n mod 10)])"

declare show_nat.simps [simp del]

section \<open>Binary search of a slice\<close>

text \<open>
  \<open>slice::binary_search_by\<close> of the standard library over the indices below \<open>n\<close>: \<open>Inr i\<close>
  is \<open>Ok(i)\<close>, \<open>Inl i\<close> is \<open>Err(i)\<close>. The interval is halved without an early exit, so of
  several equal elements the last one is returned.
\<close>

function bisect :: "(nat \<Rightarrow> ordering) \<Rightarrow> nat \<Rightarrow> nat \<Rightarrow> nat" where
  "bisect f base len =
     (if len > 1 then
        let half = len div 2; mid = base + half
        in bisect f (if f mid = Greater then base else mid) (len - half)
      else base)"
  by pat_completeness auto
termination
  by (relation "measure (\<lambda>(_, _, len). len)") auto

declare bisect.simps [simp del]

definition binary_search_by :: "(nat \<Rightarrow> ordering) \<Rightarrow> nat \<Rightarrow> nat + nat" where
  "binary_search_by f n =
     (if n = 0 then Inl 0
      else let base = bisect f 0 n in
           case f base of
             Equal \<Rightarrow> Inr base
           | Less \<Rightarrow> Inl (base + 1)
           | Greater \<Rightarrow> Inl base)"

text \<open>The comparator agrees with the order of the slice: first \<open>Less\<close>, then \<open>Equal\<close>, then \<open>Greater\<close>.\<close>

definition partitioned :: "(nat \<Rightarrow> ordering) \<Rightarrow> nat \<Rightarrow> bool" where
  "partitioned f n \<longleftrightarrow> (\<forall>i j. i < j \<longrightarrow> j < n \<longrightarrow>
     (f i = Greater \<longrightarrow> f j = Greater) \<and> (f j = Less \<longrightarrow> f i = Less))"

lemma bisect_range:
  assumes "0 < len" "base = 0 \<or> f base \<noteq> Greater"
    "\<And>j. base + len \<le> j \<Longrightarrow> j < n \<Longrightarrow> f j = Greater" "partitioned f n" "base + len \<le> n"
  shows "bisect f base len < n \<and> (bisect f base len = 0 \<or> f (bisect f base len) \<noteq> Greater) \<and>
    (\<forall>j. bisect f base len < j \<longrightarrow> j < n \<longrightarrow> f j = Greater)"
  using assms
proof (induction f base len rule: bisect.induct)
  case (1 f base len)
  show ?case
  proof (cases "len > 1")
    case False
    with "1.prems" have "len = 1" by simp
    with "1.prems" show ?thesis by (subst (1 2 3 4) bisect.simps) auto
  next
    case True
    let ?half = "len div 2" and ?mid = "base + len div 2"
    define nb where "nb = (if f ?mid = Greater then base else ?mid)"
    have half: "0 < ?half" "?half < len" "2 * ?half \<le> len" using True by auto
    have nb: "nb = 0 \<or> f nb \<noteq> Greater" "nb + (len - ?half) \<le> n" "0 < len - ?half"
      using half "1.prems"(2,5) by (auto simp: nb_def)
    have above: "f j = Greater" if j: "nb + (len - ?half) \<le> j" "j < n" for j
    proof (cases "f ?mid = Greater")
      case g: True
      then have "?mid \<le> j" using j half by (simp add: nb_def)
      then show ?thesis
        using g j(2) "1.prems"(4) unfolding partitioned_def by (metis le_neq_implies_less)
    next
      case False
      with j half have "base + len \<le> j" by (simp add: nb_def)
      with j(2) "1.prems"(3) show ?thesis by blast
    qed
    have "bisect f base len = bisect f nb (len - ?half)"
      using True by (subst bisect.simps) (simp add: Let_def nb_def)
    moreover have "bisect f nb (len - ?half) < n \<and>
        (bisect f nb (len - ?half) = 0 \<or> f (bisect f nb (len - ?half)) \<noteq> Greater) \<and>
        (\<forall>j. bisect f nb (len - ?half) < j \<longrightarrow> j < n \<longrightarrow> f j = Greater)"
      using "1.IH" [OF True refl refl, folded nb_def, OF nb(3,1) above "1.prems"(4) nb(2)] .
    ultimately show ?thesis by simp
  qed
qed

lemma binary_search_by_cases:
  assumes "partitioned f n"
  obtains (found) i where "binary_search_by f n = Inr i" "i < n" "f i = Equal"
      "\<And>j. i < j \<Longrightarrow> j < n \<Longrightarrow> f j = Greater"
    | (missing) i where "binary_search_by f n = Inl i" "i \<le> n"
      "\<And>j. j < i \<Longrightarrow> f j = Less" "\<And>j. i \<le> j \<Longrightarrow> j < n \<Longrightarrow> f j = Greater"
proof (cases "n = 0")
  case True
  then show thesis by (intro missing [of 0]) (auto simp: binary_search_by_def)
next
  case False
  let ?b = "bisect f 0 n"
  have b: "?b < n" "?b = 0 \<or> f ?b \<noteq> Greater" "\<And>j. ?b < j \<Longrightarrow> j < n \<Longrightarrow> f j = Greater"
    using bisect_range [of n 0 f n] False assms by simp_all
  show thesis
  proof (cases "f ?b")
    case Equal
    have "binary_search_by f n = Inr ?b"
      using False Equal by (simp add: binary_search_by_def Let_def)
    then show thesis using found [OF _ b(1) Equal] b(3) by blast
  next
    case Less
    have less: "f j = Less" if "j < ?b + 1" for j
    proof (cases "j = ?b")
      case False
      with that have "j < ?b" by simp
      with b(1) Less assms show ?thesis unfolding partitioned_def by blast
    qed (use Less in simp)
    have "binary_search_by f n = Inl (?b + 1)"
      using False Less by (simp add: binary_search_by_def Let_def)
    then show thesis
    proof (rule missing)
      show "?b + 1 \<le> n" using b(1) by simp
      show "f j = Greater" if "?b + 1 \<le> j" "j < n" for j using that b(3) by simp
    qed (rule less)
  next
    case Greater
    with b(2) have b0: "?b = 0" by blast
    have "f j = Greater" if "j < n" for j
      using that b(3) [of j] b0 Greater by (cases "j = 0") simp_all
    moreover have "binary_search_by f n = Inl 0"
      using False Greater b0 by (simp add: binary_search_by_def Let_def)
    ultimately show thesis
      by (intro missing [of 0]) simp_all
  qed
qed

lemma bisect_cong: "(\<And>i. i < n \<Longrightarrow> f i = g i) \<Longrightarrow> base + len \<le> n \<Longrightarrow> bisect f base len = bisect g base len"
proof (induction f base len rule: bisect.induct)
  case (1 f base len)
  show ?case
  proof (cases "len > 1")
    case True
    let ?mid = "base + len div 2"
    have "f ?mid = g ?mid" using True "1.prems" by auto
    moreover have "bisect f (if f ?mid = Greater then base else ?mid) (len - len div 2) =
        bisect g (if f ?mid = Greater then base else ?mid) (len - len div 2)"
      using "1.IH" [OF True refl refl] "1.prems" True by auto
    ultimately show ?thesis
      by (subst (1 2) bisect.simps) (simp add: Let_def)
  qed (simp add: bisect.simps)
qed

lemma bisect_less: "0 < len \<Longrightarrow> bisect f base len < base + len"
proof (induction f base len rule: bisect.induct)
  case (1 f base len)
  show ?case
  proof (cases "len > 1")
    case True
    have "bisect f (if f (base + len div 2) = Greater then base else base + len div 2)
        (len - len div 2) < base + len"
      using "1.IH" [OF True refl refl] True by (auto split: if_splits)
    then show ?thesis
      using True by (subst bisect.simps) (simp add: Let_def)
  qed (use "1.prems" in \<open>simp add: bisect.simps\<close>)
qed

lemma binary_search_by_cong:
  assumes "\<And>i. i < n \<Longrightarrow> f i = g i"
  shows "binary_search_by f n = binary_search_by g n"
proof (cases "n = 0")
  case False
  have "bisect f 0 n = bisect g 0 n"
    by (rule bisect_cong [of n]) (use assms in auto)
  moreover have "bisect g 0 n < n"
    using bisect_less [of n g 0] False by simp
  ultimately show ?thesis
    using assms by (simp add: binary_search_by_def Let_def)
qed (simp add: binary_search_by_def)

lemma unat_u64: "n < 2 ^ 64 \<Longrightarrow> unat (of_nat n :: u64) = n"
  by (simp add: unsigned_of_nat take_bit_nat_eq_self)

lemma of_nat_u64_inj: "i < 2 ^ 64 \<Longrightarrow> j < 2 ^ 64 \<Longrightarrow> (of_nat i :: u64) = of_nat j \<longleftrightarrow> i = j"
  by (metis unat_u64)

end
