(* ===== verification/Codec.thy ===== *)
theory Codec
  imports Prelude
begin

text \<open>
  The little-endian integers and length-prefixed byte strings that \<open>wal.rs\<close> and
  \<open>sstable.rs\<close> write with \<open>bytes::BufMut\<close> (\<open>put_u8\<close>, \<open>put_u32_le\<close>, \<open>put_u64_le\<close>,
  \<open>put_slice\<close>) and read with \<open>bytes::Buf\<close> and slice indexing. A read past the end of the
  buffer panics.
\<close>

section \<open>Integers\<close>

fun u32_of_le :: "byte \<Rightarrow> byte \<Rightarrow> byte \<Rightarrow> byte \<Rightarrow> u32" where
  "u32_of_le a b c d =
     ucast a OR push_bit 8 (ucast b) OR push_bit 16 (ucast c) OR push_bit 24 (ucast d)"

definition put_u32_le :: "u32 \<Rightarrow> bytes" where
  "put_u32_le w = [ucast w, ucast (drop_bit 8 w), ucast (drop_bit 16 w), ucast (drop_bit 24 w)]"

fun get_u32_le :: "bytes \<Rightarrow> ('e, u32 \<times> bytes) result" where
  "get_u32_le (a # b # c # d # rest) = Ok (u32_of_le a b c d, rest)"
| "get_u32_le _ = Panic"

definition put_u64_le :: "u64 \<Rightarrow> bytes" where
  "put_u64_le w = put_u32_le (ucast w) @ put_u32_le (ucast (drop_bit 32 w))"

definition get_u64_le :: "bytes \<Rightarrow> ('e, u64 \<times> bytes) result" where
  "get_u64_le bs =
     bind_result (get_u32_le bs) (\<lambda>(lo, bs1).
     bind_result (get_u32_le bs1) (\<lambda>(hi, bs2).
       Ok (ucast lo OR push_bit 32 (ucast hi), bs2)))"

fun get_u8 :: "bytes \<Rightarrow> ('e, byte \<times> bytes) result" where
  "get_u8 (b # rest) = Ok (b, rest)"
| "get_u8 [] = Panic"

text \<open>\<open>&buf[..n]\<close> followed by \<open>buf.advance(n)\<close>.\<close>

definition get_slice :: "nat \<Rightarrow> bytes \<Rightarrow> ('e, bytes \<times> bytes) result" where
  "get_slice n bs = (if n \<le> length bs then Ok (take n bs, drop n bs) else Panic)"

lemma length_put_u32_le [simp]: "length (put_u32_le w) = 4"
  by (simp add: put_u32_le_def)

lemma length_put_u64_le [simp]: "length (put_u64_le w) = 8"
  by (simp add: put_u64_le_def)

lemma u32_of_le_bytes:
  "u32_of_le (ucast w) (ucast (drop_bit 8 w)) (ucast (drop_bit 16 w)) (ucast (drop_bit 24 w)) = w"
proof (rule bit_word_eqI)
  fix n assume "n < LENGTH(32)"
  then have "n < 32" by simp
  then consider "n < 8" | "8 \<le> n" "n < 16" | "16 \<le> n" "n < 24" | "24 \<le> n" "n < 32"
    by linarith
  then show "bit (u32_of_le (ucast w) (ucast (drop_bit 8 w)) (ucast (drop_bit 16 w))
      (ucast (drop_bit 24 w))) n = bit w n"
    by cases (auto simp: bit_simps)
qed

lemma get_put_u32_le [simp, codec_simps]: "get_u32_le (put_u32_le w @ rest) = Ok (w, rest)"
  using u32_of_le_bytes [of w] by (simp add: put_u32_le_def)

lemma u64_halves: "ucast (ucast w :: u32) OR push_bit 32 (ucast (ucast (drop_bit 32 w) :: u32)) = (w :: u64)"
proof (rule bit_word_eqI)
  fix n assume "n < LENGTH(64)"
  then have "n < 64" by simp
  then consider "n < 32" | "32 \<le> n" "n < 64" by linarith
  then show "bit (ucast (ucast w :: u32) OR push_bit 32 (ucast (ucast (drop_bit 32 w) :: u32)) :: u64) n
      = bit w n"
    by cases (auto simp: bit_simps)
qed

lemma get_put_u64_le [simp, codec_simps]: "get_u64_le (put_u64_le w @ rest) = Ok (w, rest)"
  by (simp add: get_u64_le_def put_u64_le_def u64_halves)

lemma get_slice_append [simp, codec_simps]:
  "n = length s \<Longrightarrow> get_slice n (s @ rest) = Ok (s, rest)"
  by (simp add: get_slice_def)

lemma get_slice_all [simp]: "n = length s \<Longrightarrow> get_slice n s = Ok (s, [])"
  by (simp add: get_slice_def)

text \<open>A length cast \<open>as u32\<close> and back is exact below \<open>2^32\<close>.\<close>

definition len_u32 :: "'a list \<Rightarrow> u32" where
  "len_u32 xs = word_of_nat (length xs)"

lemma unat_len_u32 [simp]: "length xs < 2 ^ 32 \<Longrightarrow> unat (len_u32 xs) = length xs"
  by (simp add: len_u32_def unat_of_nat)

section \<open>Length-prefixed strings\<close>

definition put_bytes :: "bytes \<Rightarrow> bytes" where
  "put_bytes s = put_u32_le (len_u32 s) @ s"

definition get_bytes :: "bytes \<Rightarrow> ('e, bytes \<times> bytes) result" where
  "get_bytes bs = bind_result (get_u32_le bs) (\<lambda>(n, bs1). get_slice (unat n) bs1)"

lemma get_put_bytes [simp, codec_simps]:
  "length s < 2 ^ 32 \<Longrightarrow> get_bytes (put_bytes s @ rest) = Ok (s, rest)"
  by (simp add: get_bytes_def put_bytes_def)

lemma length_put_bytes [simp]: "length (put_bytes s) = 4 + length s"
  by (simp add: put_bytes_def)

section \<open>Sequences of encoded values\<close>

fun decode_times :: "(bytes \<Rightarrow> ('e, 'a \<times> bytes) result) \<Rightarrow> nat \<Rightarrow> bytes \<Rightarrow> ('e, 'a list \<times> bytes) result" where
  "decode_times dec 0 bs = Ok ([], bs)"
| "decode_times dec (Suc n) bs =
     bind_result (dec bs) (\<lambda>(x, bs1).
     bind_result (decode_times dec n bs1) (\<lambda>(xs, bs2). Ok (x # xs, bs2)))"

text \<open>
  The contract between an encoder and its decoder: on the values the encoder is meant for,
  decoding reads the value back and leaves what follows it.
\<close>

locale codec =
  fixes encode :: "'a \<Rightarrow> bytes"
    and decode :: "bytes \<Rightarrow> ('e, 'a \<times> bytes) result"
    and valid :: "'a \<Rightarrow> bool"
  assumes decode_encode: "valid x \<Longrightarrow> decode (encode x @ rest) = Ok (x, rest)"
begin

lemma decode_times_encode:
  "list_all valid xs \<Longrightarrow>
   decode_times decode (length xs) (concat (map encode xs) @ rest) = Ok (xs, rest)"
  by (induction xs) (simp_all add: decode_encode)

lemma encode_prefix_free:
  assumes "valid x" "valid y" "encode x @ r = encode y @ s"
  shows "x = y \<and> r = s"
  using decode_encode [OF assms(1), of r] decode_encode [OF assms(2), of s]
  unfolding assms(3) by simp

end

interpretation u32_codec: codec put_u32_le "get_u32_le :: bytes \<Rightarrow> ('e, u32 \<times> bytes) result" "\<lambda>_. True"
  by standard simp

interpretation u64_codec: codec put_u64_le "get_u64_le :: bytes \<Rightarrow> ('e, u64 \<times> bytes) result" "\<lambda>_. True"
  by standard simp

interpretation bytes_codec: codec put_bytes "get_bytes :: bytes \<Rightarrow> ('e, bytes \<times> bytes) result"
    "\<lambda>s. length s < 2 ^ 32"
  by standard simp

end
