(* ===== verification/Common_Error.thy ===== *)
theory Common_Error
  imports Prelude
begin

text \<open>
  \<open>crabstash-common/src/error.rs\<close>: the error type of the storage and transaction layers and
  the message each error displays. The payload of an I/O error is reduced to the kinds the
  code distinguishes.
\<close>

datatype io_error = UnexpectedEof | NotFound | OtherIo

datatype error =
    Io io_error
  | Corruption string
  | KeyNotFound
  | TransactionConflict
  | TransactionAborted
  | InvalidArgument string
  | LockTimeout
  | Deadlock
  | LockConflict
  | WriteSkew
  | PhantomRead
  | SerializableConflict

text \<open>\<open>Display\<close>; the text of an I/O error is the standard library's, a parameter.\<close>

fun display_error :: "(io_error \<Rightarrow> string) \<Rightarrow> error \<Rightarrow> string" where
  "display_error io (Io e) = ''I/O error: '' @ io e"
| "display_error io (Corruption msg) = ''Corruption: '' @ msg"
| "display_error io KeyNotFound = ''Key not found''"
| "display_error io TransactionConflict = ''Transaction conflict''"
| "display_error io TransactionAborted = ''Transaction aborted''"
| "display_error io (InvalidArgument msg) = ''Invalid argument: '' @ msg"
| "display_error io LockTimeout = ''Lock acquisition timed out''"
| "display_error io Deadlock = ''Deadlock detected''"
| "display_error io LockConflict = ''Lock conflict''"
| "display_error io WriteSkew = ''Write skew detected (serializable violation)''"
| "display_error io PhantomRead = ''Phantom read detected (serializable violation)''"
| "display_error io SerializableConflict =
     ''Serializable conflict (dangerous structure detected)''"

text \<open>\<open>source\<close> and the conversion of I/O errors.\<close>

fun error_source :: "error \<Rightarrow> io_error option" where
  "error_source (Io e) = Some e"
| "error_source _ = None"

definition error_from_io :: "io_error \<Rightarrow> error" where
  "error_from_io err = Io err"

lemma error_source_from_io [simp]: "error_source e = Some i \<longleftrightarrow> e = error_from_io i"
  by (cases e) (auto simp: error_from_io_def)

end
