(* ===== verification/Wal.thy ===== *)
theory Wal
  imports Codec Common_Error
begin

text \<open>
  \<open>crabstash-storage/src/wal.rs\<close>, the type \<open>Wal\<close>: encoding of records, appending through
  the buffered writer, the sync modes, and recovery. CRC-32 (\<open>crc32fast::hash\<close>) and LZ4
  (\<open>lz4_flex::compress_prepend_size\<close>, \<open>decompress_size_prepended\<close>) are parameters. The
  file is a byte string with the length known to be on disk; writes to it do not fail.
\<close>

section \<open>Records and options\<close>

definition COMPRESSION_FLAG :: byte where
  "COMPRESSION_FLAG = 0x80"

definition COMPRESSION_THRESHOLD :: nat where
  "COMPRESSION_THRESHOLD = 64"

datatype sync_mode = NoSync | Sync | DataSync | GroupSync

datatype record_type = Put | Delete

fun record_type_byte :: "record_type \<Rightarrow> byte" where
  "record_type_byte Put = 1"
| "record_type_byte Delete = 2"

definition record_type_of_byte :: "byte \<Rightarrow> (error, record_type) result" where
  "record_type_of_byte v =
     (let t = v AND NOT COMPRESSION_FLAG in
      if t = 1 then Ok Put
      else if t = 2 then Ok Delete
      else Err (Corruption ''Invalid record type''))"

record wal_record =
  rec_type :: record_type
  rec_key :: bytes
  rec_value :: "bytes option"
  rec_timestamp :: ts

record wal_options =
  sync_mode :: sync_mode
  enable_compression :: bool
  group_commit_interval_ms :: nat
  group_commit_size_bytes :: nat

definition default_wal_options :: wal_options where
  "default_wal_options = \<lparr>sync_mode = NoSync, enable_compression = False,
     group_commit_interval_ms = 0, group_commit_size_bytes = 0\<rparr>"

section \<open>The log file behind its buffered writer\<close>

text \<open>
  \<open>synced\<close> is the length of the file that \<open>sync_all\<close> or \<open>sync_data\<close> has put on disk;
  \<open>group_commit\<close> holds the pair of sequence numbers (pending, committed).
\<close>

record wal =
  wal_file :: bytes
  buffer :: bytes
  synced :: nat
  pending_bytes :: nat
  wal_opts :: wal_options
  group_commit :: "(u64 \<times> u64) option"

definition new_with_file :: "bytes \<Rightarrow> wal_options \<Rightarrow> wal" where
  "new_with_file contents opts =
     \<lparr>wal_file = contents, buffer = [], synced = 0, pending_bytes = 0, wal_opts = opts,
      group_commit = (if sync_mode opts = GroupSync then Some (0, 0) else None)\<rparr>"

text \<open>\<open>create\<close> truncates the file; \<open>open\<close> appends to what it holds.\<close>

definition create_with_options :: "wal_options \<Rightarrow> wal" where
  "create_with_options opts = new_with_file [] opts"

definition open_with_options :: "bytes \<Rightarrow> wal_options \<Rightarrow> wal" where
  "open_with_options contents opts = new_with_file contents opts"

text \<open>\<open>BufWriter\<close> of the standard library, with its default capacity.\<close>

definition BUF_CAPACITY :: nat where
  "BUF_CAPACITY = 8192"

definition flush_buffer :: "wal \<Rightarrow> wal" where
  "flush_buffer w = w\<lparr>wal_file := wal_file w @ buffer w, buffer := []\<rparr>"

definition write_all :: "bytes \<Rightarrow> wal \<Rightarrow> wal" where
  "write_all bs w =
     (let w1 = (if length (buffer w) + length bs > BUF_CAPACITY then flush_buffer w else w) in
      if length bs \<ge> BUF_CAPACITY then w1\<lparr>wal_file := wal_file w1 @ bs\<rparr>
      else w1\<lparr>buffer := buffer w1 @ bs\<rparr>)"

definition sync_all :: "wal \<Rightarrow> wal" where
  "sync_all w = w\<lparr>synced := length (wal_file w)\<rparr>"

section \<open>Encoding\<close>

definition encode_payload :: "wal_record \<Rightarrow> bytes" where
  "encode_payload r =
     put_u64_le (rec_timestamp r) @ put_u32_le (len_u32 (rec_key r)) @ rec_key r @
     (case rec_value r of
        Some value \<Rightarrow> put_u32_le (len_u32 value) @ value
      | None \<Rightarrow> [])"

definition encode_record :: "(bytes \<Rightarrow> bytes) \<Rightarrow> wal_options \<Rightarrow> wal_record \<Rightarrow> bytes" where
  "encode_record compress opts r =
     (let payload = encode_payload r;
          compressed = compress payload
      in if enable_compression opts \<and> length payload \<ge> COMPRESSION_THRESHOLD \<and>
            length compressed < length payload
         then (record_type_byte (rec_type r) OR COMPRESSION_FLAG) # compressed
         else record_type_byte (rec_type r) # payload)"

definition frame :: "(bytes \<Rightarrow> u32) \<Rightarrow> bytes \<Rightarrow> bytes" where
  "frame crc buf = put_u32_le (crc buf) @ put_u32_le (len_u32 buf) @ buf"

section \<open>Appending and syncing\<close>

definition mark_committed :: "wal \<Rightarrow> wal" where
  "mark_committed w =
     w\<lparr>group_commit := map_option (\<lambda>(pending, _). (pending, pending)) (group_commit w)\<rparr>"

definition maybe_sync_internal :: "wal \<Rightarrow> wal" where
  "maybe_sync_internal w =
     (case sync_mode (wal_opts w) of
        NoSync \<Rightarrow> w
      | Sync \<Rightarrow> (sync_all (flush_buffer w))\<lparr>pending_bytes := 0\<rparr>
      | DataSync \<Rightarrow> (sync_all (flush_buffer w))\<lparr>pending_bytes := 0\<rparr>
      | GroupSync \<Rightarrow>
          if pending_bytes w \<ge> group_commit_size_bytes (wal_opts w)
          then mark_committed ((sync_all (flush_buffer w))\<lparr>pending_bytes := 0\<rparr>)
          else w)"

definition write_record ::
  "(bytes \<Rightarrow> u32) \<Rightarrow> (bytes \<Rightarrow> bytes) \<Rightarrow> wal_record \<Rightarrow> wal \<Rightarrow> wal" where
  "write_record crc compress r w =
     (let buf = encode_record compress (wal_opts w) r;
          w1 = write_all (put_u32_le (crc buf)) w;
          w2 = write_all (put_u32_le (len_u32 buf)) w1;
          w3 = write_all buf w2
      in w3\<lparr>pending_bytes := pending_bytes w3 + 8 + length buf\<rparr>)"

definition append_internal ::
  "(bytes \<Rightarrow> u32) \<Rightarrow> (bytes \<Rightarrow> bytes) \<Rightarrow> wal_record \<Rightarrow> bool \<Rightarrow> wal \<Rightarrow> wal" where
  "append_internal crc compress r should_sync w =
     (let w1 = write_record crc compress r w in
      if should_sync then maybe_sync_internal w1 else w1)"

definition append :: "(bytes \<Rightarrow> u32) \<Rightarrow> (bytes \<Rightarrow> bytes) \<Rightarrow> wal_record \<Rightarrow> wal \<Rightarrow> wal" where
  "append crc compress r w = append_internal crc compress r True w"

definition append_batch ::
  "(bytes \<Rightarrow> u32) \<Rightarrow> (bytes \<Rightarrow> bytes) \<Rightarrow> wal_record list \<Rightarrow> wal \<Rightarrow> wal" where
  "append_batch crc compress rs w = maybe_sync_internal (fold (write_record crc compress) rs w)"

definition sync :: "wal \<Rightarrow> wal" where
  "sync w = mark_committed ((sync_all (flush_buffer w))\<lparr>pending_bytes := 0\<rparr>)"

definition flush :: "wal \<Rightarrow> wal" where
  "flush w = flush_buffer w"

text \<open>\<open>Drop\<close> stops the background thread and syncs; the file is what is left.\<close>

definition drop_wal :: "wal \<Rightarrow> bytes" where
  "drop_wal w = wal_file (sync w)"

section \<open>Recovery\<close>

definition parse_payload :: "record_type \<Rightarrow> bytes \<Rightarrow> (error, wal_record) result" where
  "parse_payload t payload =
     bind_result (get_u64_le payload) (\<lambda>(timestamp, b1).
     bind_result (get_u32_le b1) (\<lambda>(key_len, b2).
     bind_result (get_slice (unat key_len) b2) (\<lambda>(key, b3).
     bind_result
       (if t = Put then
          bind_result (get_u32_le b3) (\<lambda>(value_len, b4).
          bind_result (get_slice (unat value_len) b4) (\<lambda>(v, _). Ok (Some v)))
        else Ok None) (\<lambda>value.
     Ok \<lparr>rec_type = t, rec_key = key, rec_value = value, rec_timestamp = timestamp\<rparr>))))"

definition decode_data :: "(bytes \<Rightarrow> bytes option) \<Rightarrow> bool \<Rightarrow> bytes \<Rightarrow> (error, wal_record) result" where
  "decode_data decompress do_decompress data =
     bind_result (slice_index data 0) (\<lambda>type_byte.
     let is_compressed = (type_byte AND COMPRESSION_FLAG \<noteq> 0) in
     bind_result (record_type_of_byte type_byte) (\<lambda>t.
     bind_result
       (if is_compressed \<and> do_decompress then
          (case decompress (drop 1 data) of
             Some p \<Rightarrow> Ok p
           | None \<Rightarrow> Err (Corruption ''WAL decompression failed''))
        else Ok (drop 1 data)) (\<lambda>payload.
     parse_payload t payload)))"

text \<open>
  The read loop. A header of fewer than eight bytes ends it; a body that ends early is an
  I/O error, and a checksum that does not match is a corruption.
\<close>

function recover_loop ::
  "(bytes \<Rightarrow> u32) \<Rightarrow> (bytes \<Rightarrow> bytes option) \<Rightarrow> bool \<Rightarrow> bytes \<Rightarrow> wal_record list \<Rightarrow>
   (error, wal_record list) result" where
  "recover_loop crc decompress do_decompress bs records =
     (if length bs < 8 then Ok records
      else
        bind_result (get_u32_le bs) (\<lambda>(checksum, b1).
        bind_result (get_u32_le b1) (\<lambda>(len, _).
        let body = drop 8 bs in
        if length body < unat len then Err (Io UnexpectedEof)
        else
          let data = take (unat len) body in
          if crc data \<noteq> checksum then Err (Corruption ''WAL checksum mismatch'')
          else
            bind_result (decode_data decompress do_decompress data) (\<lambda>r.
              recover_loop crc decompress do_decompress (drop (unat len) body) (records @ [r])))))"
  by pat_completeness auto
termination
  by (relation "measure (\<lambda>(_, _, _, bs, _). length bs)") auto

declare recover_loop.simps [simp del]

definition recover_with_compression ::
  "(bytes \<Rightarrow> u32) \<Rightarrow> (bytes \<Rightarrow> bytes option) \<Rightarrow> bytes \<Rightarrow> bool \<Rightarrow> (error, wal_record list) result" where
  "recover_with_compression crc decompress contents do_decompress =
     recover_loop crc decompress do_decompress contents []"

definition recover ::
  "(bytes \<Rightarrow> u32) \<Rightarrow> (bytes \<Rightarrow> bytes option) \<Rightarrow> bytes \<Rightarrow> (error, wal_record list) result" where
  "recover crc decompress contents = recover_with_compression crc decompress contents True"

section \<open>Round trip of one record\<close>

definition lz4_ok :: "(bytes \<Rightarrow> bytes) \<Rightarrow> (bytes \<Rightarrow> bytes option) \<Rightarrow> bool" where
  "lz4_ok compress decompress \<longleftrightarrow> (\<forall>x. decompress (compress x) = Some x)"

text \<open>Records the callers build: a value exactly for \<open>Put\<close>, and lengths that fit \<open>u32\<close>.\<close>

definition record_ok :: "wal_record \<Rightarrow> bool" where
  "record_ok r \<longleftrightarrow>
     (rec_type r = Put \<longleftrightarrow> rec_value r \<noteq> None) \<and>
     length (rec_key r) + length (case rec_value r of Some v \<Rightarrow> v | None \<Rightarrow> []) + 17 < 2 ^ 32"

lemma parse_encode_payload:
  assumes "record_ok r"
  shows "parse_payload (rec_type r) (encode_payload r) = Ok r"
proof (cases "rec_value r")
  case None
  with assms have "rec_type r \<noteq> Put" "length (rec_key r) < 2 ^ 32"
    by (auto simp: record_ok_def)
  with None show ?thesis
    by (cases r) (simp add: parse_payload_def encode_payload_def)
next
  case (Some v)
  with assms have "rec_type r = Put" "length (rec_key r) < 2 ^ 32" "length v < 2 ^ 32"
    by (auto simp: record_ok_def)
  with Some show ?thesis
    by (cases r) (simp add: parse_payload_def encode_payload_def)
qed

lemma length_encode_payload:
  "length (encode_payload r) =
     12 + length (rec_key r) + (case rec_value r of Some v \<Rightarrow> 4 + length v | None \<Rightarrow> 0)"
  by (simp add: encode_payload_def split: option.split)

lemma length_encode_record:
  "record_ok r \<Longrightarrow> length (encode_record compress opts r) < 2 ^ 32"
  by (auto simp: record_ok_def encode_record_def Let_def length_encode_payload split: option.splits)

lemma type_byte_flag:
  "record_type_of_byte (record_type_byte t) = Ok t"
  "record_type_of_byte (record_type_byte t OR COMPRESSION_FLAG) = Ok t"
  "record_type_byte t AND COMPRESSION_FLAG = 0"
  "COMPRESSION_FLAG \<noteq> 0"
  by (cases t; simp add: record_type_of_byte_def COMPRESSION_FLAG_def)+

lemma decode_encode_record:
  assumes "record_ok r" "lz4_ok compress decompress"
  shows "decode_data decompress True (encode_record compress opts r) = Ok r"
  using assms parse_encode_payload [OF assms(1)]
  by (simp add: decode_data_def encode_record_def Let_def type_byte_flag lz4_ok_def)

lemma recover_loop_frame:
  assumes "record_ok r" "lz4_ok compress decompress"
  shows "recover_loop crc decompress True (frame crc (encode_record compress opts r) @ rest) acc =
           recover_loop crc decompress True rest (acc @ [r])"
proof -
  let ?buf = "encode_record compress opts r"
  have len: "unat (len_u32 ?buf) = length ?buf"
    using length_encode_record [OF assms(1)] by simp
  show ?thesis
    using decode_encode_record [OF assms, of opts] len
    by (subst recover_loop.simps) (simp add: frame_def Let_def)
qed

definition log_bytes ::
  "(bytes \<Rightarrow> u32) \<Rightarrow> (bytes \<Rightarrow> bytes) \<Rightarrow> wal_options \<Rightarrow> wal_record list \<Rightarrow> bytes" where
  "log_bytes crc compress opts rs = concat (map (\<lambda>r. frame crc (encode_record compress opts r)) rs)"

lemma log_bytes_simps [simp]:
  "log_bytes crc compress opts [] = []"
  "log_bytes crc compress opts (rs @ rs') = log_bytes crc compress opts rs @ log_bytes crc compress opts rs'"
  "log_bytes crc compress opts (r # rs) =
     frame crc (encode_record compress opts r) @ log_bytes crc compress opts rs"
  by (simp_all add: log_bytes_def)

lemma recover_loop_log:
  assumes "list_all record_ok rs" "lz4_ok compress decompress"
  shows "recover_loop crc decompress True (log_bytes crc compress opts rs @ rest) acc =
           recover_loop crc decompress True rest (acc @ rs)"
  using assms(1)
proof (induction rs arbitrary: acc)
  case (Cons r rs)
  then show ?case
    using recover_loop_frame [OF _ assms(2), of r crc opts] by simp
qed simp

lemma recover_loop_short: "length bs < 8 \<Longrightarrow> recover_loop crc decompress d bs acc = Ok acc"
  by (subst recover_loop.simps) simp

lemma recover_log:
  assumes "list_all record_ok rs" "lz4_ok compress decompress"
  shows "recover crc decompress (log_bytes crc compress opts rs) = Ok rs"
  using recover_loop_log [OF assms, of crc opts "[]" "[]"]
  by (simp add: recover_def recover_with_compression_def recover_loop_short)

section \<open>What the writer has written\<close>

definition stream :: "wal \<Rightarrow> bytes" where
  "stream w = wal_file w @ buffer w"

lemma stream_write_all [simp]: "stream (write_all bs w) = stream w @ bs"
proof (cases "length (buffer w) + length bs > BUF_CAPACITY")
  case False
  then have "length bs \<ge> BUF_CAPACITY \<Longrightarrow> length (buffer w) = 0" by linarith
  with False show ?thesis
    by (auto simp: stream_def write_all_def Let_def)
qed (simp add: stream_def write_all_def flush_buffer_def Let_def)

lemma stream_ops [simp]:
  "stream (flush_buffer w) = stream w"
  "stream (sync_all w) = stream w"
  "stream (mark_committed w) = stream w"
  "stream (w\<lparr>pending_bytes := n\<rparr>) = stream w"
  by (simp_all add: stream_def flush_buffer_def write_all_def sync_all_def mark_committed_def Let_def)

lemma stream_maybe_sync [simp]: "stream (maybe_sync_internal w) = stream w"
  by (simp add: maybe_sync_internal_def split: sync_mode.split)

lemma opts_ops [simp]:
  "wal_opts (flush_buffer w) = wal_opts w"
  "wal_opts (write_all bs w) = wal_opts w"
  "wal_opts (sync_all w) = wal_opts w"
  "wal_opts (mark_committed w) = wal_opts w"
  by (simp_all add: flush_buffer_def write_all_def sync_all_def mark_committed_def Let_def)

lemma opts_maybe_sync [simp]: "wal_opts (maybe_sync_internal w) = wal_opts w"
  by (simp add: maybe_sync_internal_def split: sync_mode.split)

lemma write_record_effect [simp]:
  "stream (write_record crc compress r w) =
     stream w @ frame crc (encode_record compress (wal_opts w) r)"
  "wal_opts (write_record crc compress r w) = wal_opts w"
  by (simp_all add: write_record_def Let_def frame_def)

lemma append_effect [simp]:
  "stream (append crc compress r w) = stream w @ frame crc (encode_record compress (wal_opts w) r)"
  "wal_opts (append crc compress r w) = wal_opts w"
  by (simp_all add: append_def append_internal_def Let_def)

lemma appends_effect:
  "stream (fold (append crc compress) rs w) = stream w @ log_bytes crc compress (wal_opts w) rs"
  "wal_opts (fold (append crc compress) rs w) = wal_opts w"
  by (induction rs arbitrary: w) simp_all

lemma write_records_effect:
  "stream (fold (write_record crc compress) rs w) = stream w @ log_bytes crc compress (wal_opts w) rs"
  "wal_opts (fold (write_record crc compress) rs w) = wal_opts w"
  by (induction rs arbitrary: w) simp_all

lemma append_batch_effect [simp]:
  "stream (append_batch crc compress rs w) = stream w @ log_bytes crc compress (wal_opts w) rs"
  "wal_opts (append_batch crc compress rs w) = wal_opts w"
  by (simp_all add: append_batch_def write_records_effect)

lemma created [simp]:
  "stream (create_with_options opts) = []"
  "wal_opts (create_with_options opts) = opts"
  "stream (open_with_options c opts) = c"
  "wal_opts (open_with_options c opts) = opts"
  by (simp_all add: create_with_options_def open_with_options_def new_with_file_def stream_def)

lemma drop_wal_stream: "drop_wal w = stream w"
  by (simp add: drop_wal_def sync_def mark_committed_def sync_all_def flush_buffer_def stream_def)

text \<open>In the two synchronous modes every append ends with all written bytes on disk.\<close>

definition all_synced :: "wal \<Rightarrow> bool" where
  "all_synced w \<longleftrightarrow> buffer w = [] \<and> synced w = length (wal_file w)"

lemma append_all_synced:
  "sync_mode (wal_opts w) = Sync \<or> sync_mode (wal_opts w) = DataSync \<Longrightarrow>
   all_synced (append crc compress r w)"
  by (auto simp: append_def append_internal_def Let_def maybe_sync_internal_def all_synced_def
        sync_all_def flush_buffer_def)

definition survives_crash :: "wal \<Rightarrow> bytes" where
  "survives_crash w = take (synced w) (wal_file w)"

section \<open>Concrete parameters for evaluation\<close>

definition sum_crc :: "bytes \<Rightarrow> u32" where
  "sum_crc bs = fold (\<lambda>b c. 31 * c + ucast b) bs 7"

definition stored_block :: "bytes \<Rightarrow> bytes" where
  "stored_block bs = 0 # bs"

definition load_stored_block :: "bytes \<Rightarrow> bytes option" where
  "load_stored_block bs = (case bs of [] \<Rightarrow> None | _ # rest \<Rightarrow> Some rest)"

lemma lz4_ok_stored_block: "lz4_ok stored_block load_stored_block"
  by (simp add: lz4_ok_def stored_block_def load_stored_block_def)

definition put_record :: "bytes \<Rightarrow> bytes \<Rightarrow> ts \<Rightarrow> wal_record" where
  "put_record k v t = \<lparr>rec_type = Put, rec_key = k, rec_value = Some v, rec_timestamp = t\<rparr>"

definition delete_record :: "bytes \<Rightarrow> ts \<Rightarrow> wal_record" where
  "delete_record k t = \<lparr>rec_type = Delete, rec_key = k, rec_value = None, rec_timestamp = t\<rparr>"

lemma record_ok_examples:
  "record_ok (put_record [1] [2, 3] 1)" "record_ok (delete_record [1] 2)"
  by (simp_all add: record_ok_def put_record_def delete_record_def)

section \<open>Properties\<close>

text \<open>
  C4: recovery returns what was logged. After any single and batched appends to a fresh
  log, in every sync mode, compressed or not, closing the log and recovering the file
  yields exactly the appended records in order.
\<close>

theorem recover_returns_appended:
  assumes "lz4_ok compress decompress" "list_all record_ok (rs @ batch)"
  shows "recover crc decompress
           (drop_wal (append_batch crc compress batch
              (fold (append crc compress) rs (create_with_options opts)))) = Ok (rs @ batch)"
  using recover_log [OF assms(2,1), of crc opts]
  by (simp add: drop_wal_stream appends_effect)

lemma recover_returns_appended_witness:
  "recover sum_crc load_stored_block
     (drop_wal (append_batch sum_crc stored_block [delete_record [1] 2]
        (fold (append sum_crc stored_block) [put_record [1] [2, 3] 1]
           (create_with_options (default_wal_options\<lparr>enable_compression := True\<rparr>)))))
   = Ok [put_record [1] [2, 3] 1, delete_record [1] 2]"
  using recover_returns_appended [OF lz4_ok_stored_block,
      of "[put_record [1] [2, 3] 1]" "[delete_record [1] 2]"]
  by (simp add: record_ok_examples)

text \<open>
  C29: a synchronous log keeps every acknowledged append. In the modes \<open>Sync\<close> and
  \<open>DataSync\<close> the bytes known to be on disk after an append recover to all the records
  appended so far, so a crash right after the call loses nothing.
\<close>

theorem synchronous_append_survives:
  assumes "sync_mode opts = Sync \<or> sync_mode opts = DataSync"
    "lz4_ok compress decompress" "list_all record_ok (rs @ [r])"
  shows "recover crc decompress
           (survives_crash (fold (append crc compress) (rs @ [r]) (create_with_options opts))) =
         Ok (rs @ [r])"
proof -
  let ?w = "fold (append crc compress) rs (create_with_options opts)"
  have "all_synced (append crc compress r ?w)"
    using assms(1) by (intro append_all_synced) (simp add: appends_effect)
  then have "survives_crash (append crc compress r ?w) = stream (append crc compress r ?w)"
    by (simp add: all_synced_def survives_crash_def stream_def)
  with recover_log [OF assms(3,2), of crc opts] show ?thesis
    by (simp add: appends_effect)
qed

lemma synchronous_append_survives_witness:
  "recover sum_crc load_stored_block
     (survives_crash (fold (append sum_crc stored_block)
        ([put_record [1] [2, 3] 1] @ [delete_record [1] 2])
        (create_with_options (default_wal_options\<lparr>sync_mode := Sync\<rparr>)))) =
   Ok ([put_record [1] [2, 3] 1] @ [delete_record [1] 2])"
  by (rule synchronous_append_survives [OF _ lz4_ok_stored_block])
     (simp_all add: record_ok_examples)

text \<open>
  A torn last record. When the file ends inside the frame of the last record, recovery
  returns the records before it only if the cut lies inside the eight header bytes; a cut
  in the body fails the whole recovery with an I/O error, complete records included.
\<close>

theorem torn_tail:
  assumes "lz4_ok compress decompress" "list_all record_ok (rs @ [r])"
    "n < length (frame crc (encode_record compress opts r))"
  shows "recover crc decompress
           (log_bytes crc compress opts rs @ take n (frame crc (encode_record compress opts r))) =
         (if n < 8 then Ok rs else Err (Io UnexpectedEof))"
proof -
  let ?buf = "encode_record compress opts r"
  let ?tail = "take n (frame crc ?buf)"
  have rs: "list_all record_ok rs" "record_ok r" using assms(2) by simp_all
  have "recover crc decompress (log_bytes crc compress opts rs @ ?tail) =
      recover_loop crc decompress True ?tail rs"
    using recover_loop_log [OF rs(1) assms(1), of crc opts ?tail "[]"]
    by (simp add: recover_def recover_with_compression_def)
  also have "\<dots> = (if n < 8 then Ok rs else Err (Io UnexpectedEof))"
  proof (cases "n < 8")
    case True
    then show ?thesis by (simp add: recover_loop_short)
  next
    case False
    then obtain k where n: "n = 8 + k" using le_Suc_ex not_less by blast
    then have "?tail = put_u32_le (crc ?buf) @ put_u32_le (len_u32 ?buf) @ take k ?buf"
      by (simp add: frame_def)
    moreover have "k < length ?buf"
      using assms(3) n by (simp add: frame_def)
    ultimately show ?thesis
      using False length_encode_record [OF rs(2), of compress opts]
      by (subst recover_loop.simps) simp
  qed
  finally show ?thesis .
qed

lemma torn_tail_witness:
  "recover sum_crc load_stored_block
     (log_bytes sum_crc stored_block default_wal_options [put_record [1] [2, 3] 1] @
      take 20 (frame sum_crc (encode_record stored_block default_wal_options (delete_record [1] 2)))) =
   Err (Io UnexpectedEof)"
proof -
  have "20 < length (frame sum_crc (encode_record stored_block default_wal_options (delete_record [1] 2)))"
    by (simp add: frame_def encode_record_def default_wal_options_def length_encode_payload
        delete_record_def)
  then show ?thesis
    using torn_tail [OF lz4_ok_stored_block, of "[put_record [1] [2, 3] 1]" "delete_record [1] 2"]
    by (simp add: record_ok_examples)
qed

text \<open>
  A damaged body is refused. If the bytes of a record's body are replaced by others of
  the same length that the checksum tells apart, recovery fails with a corruption error,
  and no record made of the damaged bytes is returned.
\<close>

theorem damaged_record_refused:
  assumes "lz4_ok compress decompress" "list_all record_ok (rs @ [r])"
    "length damaged = length (encode_record compress opts r)"
    "crc damaged \<noteq> crc (encode_record compress opts r)"
  shows "recover crc decompress
           (log_bytes crc compress opts rs @
            put_u32_le (crc (encode_record compress opts r)) @ put_u32_le (len_u32 damaged) @
            damaged @ rest) =
         Err (Corruption ''WAL checksum mismatch'')"
proof -
  let ?tail = "put_u32_le (crc (encode_record compress opts r)) @ put_u32_le (len_u32 damaged) @
            damaged @ rest"
  have rs: "list_all record_ok rs" "record_ok r" using assms(2) by simp_all
  have "length damaged < 2 ^ 32"
    using length_encode_record [OF rs(2)] assms(3) by simp
  then have "recover_loop crc decompress True ?tail rs = Err (Corruption ''WAL checksum mismatch'')"
    using assms(4) by (subst recover_loop.simps) simp
  then show ?thesis
    using recover_loop_log [OF rs(1) assms(1), of crc opts ?tail "[]"]
    by (simp add: recover_def recover_with_compression_def)
qed

lemma damaged_record_refused_witness:
  "recover sum_crc load_stored_block
     (log_bytes sum_crc stored_block default_wal_options [] @
      put_u32_le (sum_crc (encode_record stored_block default_wal_options (delete_record [] 0))) @
      put_u32_le (len_u32 (replicate 13 (0 :: byte))) @ replicate 13 0 @ []) =
   Err (Corruption ''WAL checksum mismatch'')"
proof (rule damaged_record_refused [OF lz4_ok_stored_block])
  show "list_all record_ok ([] @ [delete_record [] 0])"
    by (simp add: record_ok_def delete_record_def)
  show "length (replicate 13 (0 :: byte)) =
      length (encode_record stored_block default_wal_options (delete_record [] 0))"
    by code_simp
  show "sum_crc (replicate 13 0) \<noteq>
      sum_crc (encode_record stored_block default_wal_options (delete_record [] 0))"
    by code_simp
qed

end
