(* ===== verification/Manifest.thy ===== *)
theory Manifest
  imports Common_Error Prelude
begin

text \<open>
  \<open>crabstash-storage/src/manifest.rs\<close>: the text log that names the live sorted tables and the
  identifiers in use. A line is parsed by splitting it at colons, numbers by
  \<open>str::parse\<close>; both are modelled here, so reading back is about the bytes in the file.
  Writes to the file do not fail.
\<close>

section \<open>Text\<close>

text \<open>\<open>str::parse\<close> of an unsigned integer below \<open>bound\<close>.\<close>

definition digit_of :: "char \<Rightarrow> nat option" where
  "digit_of c = (let n = of_char c in if (48::nat) \<le> n \<and> n \<le> 57 then Some (n - 48) else None)"

fun parse_digits :: "nat \<Rightarrow> nat \<Rightarrow> string \<Rightarrow> nat option" where
  "parse_digits bound acc [] = Some acc"
| "parse_digits bound acc (c # cs) =
     (case digit_of c of
        Some d \<Rightarrow> if acc * 10 + d < bound then parse_digits bound (acc * 10 + d) cs else None
      | None \<Rightarrow> None)"

definition parse_uint :: "nat \<Rightarrow> string \<Rightarrow> nat option" where
  "parse_uint bound s =
     (case s of
        [] \<Rightarrow> None
      | c # cs \<Rightarrow>
          if c = CHR ''+'' then (if cs = [] then None else parse_digits bound 0 cs)
          else parse_digits bound 0 s)"

text \<open>\<open>line.split(':')\<close>, and \<open>lines\<close> of a buffered reader: a final newline ends no further line.\<close>

fun split_at :: "char \<Rightarrow> string \<Rightarrow> string list" where
  "split_at d [] = [[]]"
| "split_at d (c # cs) =
     (if c = d then [] # split_at d cs
      else case split_at d cs of p # ps \<Rightarrow> (c # p) # ps | [] \<Rightarrow> [[c]])"

definition strip_cr :: "string \<Rightarrow> string" where
  "strip_cr l = (if l \<noteq> [] \<and> last l = CHR 0x0D then butlast l else l)"

text \<open>A line that ended with a newline loses a carriage return before it, the last one does not.\<close>

definition text_lines :: "string \<Rightarrow> string list" where
  "text_lines s =
     (let parts = split_at CHR 0x0A s
      in map strip_cr (butlast parts) @ (if last parts = [] then [] else [last parts]))"

section \<open>State\<close>

record level_meta =
  lm_level :: u32
  lm_sst_ids :: "u64 list"

record manifest =
  mf_file :: string
  mf_levels :: "(u32, level_meta) hmap"
  next_sst_id :: u64
  next_wal_id :: u64

definition manifest_create :: manifest where
  "manifest_create = \<lparr>mf_file = [], mf_levels = [], next_sst_id = 1, next_wal_id = 1\<rparr>"

section \<open>Applying an entry\<close>

definition push_sst :: "u32 \<Rightarrow> u64 \<Rightarrow> manifest \<Rightarrow> manifest" where
  "push_sst level sst m =
     (let entry = (case hm_get (mf_levels m) level of
                     Some e \<Rightarrow> e
                   | None \<Rightarrow> \<lparr>lm_level = level, lm_sst_ids = []\<rparr>)
      in m\<lparr>mf_levels := hm_insert level (entry\<lparr>lm_sst_ids := lm_sst_ids entry @ [sst]\<rparr>) (mf_levels m),
           next_sst_id := max (next_sst_id m) (sst + 1)\<rparr>)"

definition drop_sst :: "u32 \<Rightarrow> u64 \<Rightarrow> manifest \<Rightarrow> manifest" where
  "drop_sst level sst m =
     (case hm_get (mf_levels m) level of
        Some entry \<Rightarrow> m\<lparr>mf_levels :=
            hm_insert level (entry\<lparr>lm_sst_ids := filter (\<lambda>x. x \<noteq> sst) (lm_sst_ids entry)\<rparr>) (mf_levels m)\<rparr>
      | None \<Rightarrow> m)"

definition note_wal :: "u64 \<Rightarrow> manifest \<Rightarrow> manifest" where
  "note_wal wal m = m\<lparr>next_wal_id := max (next_wal_id m) (wal + 1)\<rparr>"

section \<open>Loading\<close>

text \<open>\<open>parts[i].parse().unwrap()\<close>.\<close>

definition part_number :: "nat \<Rightarrow> string list \<Rightarrow> nat \<Rightarrow> (error, nat) result" where
  "part_number bound parts i =
     bind_result (slice_index parts i) (\<lambda>s. case parse_uint bound s of Some n \<Rightarrow> Ok n | None \<Rightarrow> Panic)"

definition load_line :: "string \<Rightarrow> manifest \<Rightarrow> (error, manifest) result" where
  "load_line line m =
     (let parts = split_at CHR '':'' line in
      if hd parts = ''SST'' then
        bind_result (part_number (2 ^ 32) parts 1) (\<lambda>level.
        bind_result (part_number (2 ^ 64) parts 2) (\<lambda>sst.
          Ok (push_sst (of_nat level) (of_nat sst) m)))
      else if hd parts = ''DEL'' then
        bind_result (part_number (2 ^ 32) parts 1) (\<lambda>level.
        bind_result (part_number (2 ^ 64) parts 2) (\<lambda>sst.
          Ok (drop_sst (of_nat level) (of_nat sst) m)))
      else if hd parts = ''WAL'' then
        bind_result (part_number (2 ^ 64) parts 1) (\<lambda>wal. Ok (note_wal (of_nat wal) m))
      else Ok m)"

fun load_lines :: "string list \<Rightarrow> manifest \<Rightarrow> (error, manifest) result" where
  "load_lines [] m = Ok m"
| "load_lines (l # ls) m = bind_result (load_line l m) (load_lines ls)"

text \<open>\<open>open\<close> creates the file when it is missing, which is the case of the empty text.\<close>

definition manifest_open :: "string \<Rightarrow> (error, manifest) result" where
  "manifest_open contents =
     load_lines (text_lines contents) (manifest_create\<lparr>mf_file := contents\<rparr>)"

section \<open>Logged updates\<close>

definition write_line :: "string \<Rightarrow> manifest \<Rightarrow> manifest" where
  "write_line l m = m\<lparr>mf_file := mf_file m @ l @ [CHR 0x0A]\<rparr>"

definition add_sst :: "u32 \<Rightarrow> u64 \<Rightarrow> manifest \<Rightarrow> manifest" where
  "add_sst level sst m =
     push_sst level sst
       (write_line (''SST:'' @ show_nat (unat level) @ '':'' @ show_nat (unat sst)) m)"

definition remove_sst :: "u32 \<Rightarrow> u64 \<Rightarrow> manifest \<Rightarrow> manifest" where
  "remove_sst level sst m =
     drop_sst level sst
       (write_line (''DEL:'' @ show_nat (unat level) @ '':'' @ show_nat (unat sst)) m)"

definition add_wal :: "u64 \<Rightarrow> manifest \<Rightarrow> manifest" where
  "add_wal wal m = note_wal wal (write_line (''WAL:'' @ show_nat (unat wal)) m)"

definition allocate_sst_id :: "manifest \<Rightarrow> u64 \<times> manifest" where
  "allocate_sst_id m = (next_sst_id m, m\<lparr>next_sst_id := next_sst_id m + 1\<rparr>)"

definition allocate_wal_id :: "manifest \<Rightarrow> u64 \<times> manifest" where
  "allocate_wal_id m = (next_wal_id m, m\<lparr>next_wal_id := next_wal_id m + 1\<rparr>)"

section \<open>Text round trips\<close>

lemma digit_of_digit: "d < 10 \<Longrightarrow> digit_of (char_of (48 + d)) = Some d"
  by (simp add: digit_of_def Let_def)

lemma parse_digits_append:
  "parse_digits bound acc (xs @ ys) = Option.bind (parse_digits bound acc xs) (\<lambda>a. parse_digits bound a ys)"
  by (induction xs arbitrary: acc) (auto split: option.split)

lemma parse_digits_show: "n < bound \<Longrightarrow> parse_digits bound 0 (show_nat n) = Some n"
proof (induction n rule: show_nat.induct)
  case (1 n)
  show ?case
  proof (cases "n < 10")
    case True
    with 1 show ?thesis by (subst show_nat.simps) (simp add: digit_of_digit)
  next
    case False
    then have "parse_digits bound 0 (show_nat (n div 10)) = Some (n div 10)"
      using 1 by (intro "1.IH") auto
    with False 1 show ?thesis
      by (subst show_nat.simps) (simp add: parse_digits_append digit_of_digit)
  qed
qed

lemma show_nat_digits: "c \<in> set (show_nat n) \<Longrightarrow> digit_of c \<noteq> None"
proof (induction n rule: show_nat.induct)
  case (1 n)
  then show ?case
    by (subst (asm) (2) show_nat.simps) (auto simp: digit_of_digit split: if_splits)
qed

lemma show_nat_nonempty [simp]: "show_nat n \<noteq> []"
  by (subst show_nat.simps) simp

lemma not_digit [simp]:
  "digit_of CHR '':'' = None" "digit_of CHR 0x0A = None" "digit_of CHR 0x0D = None" "digit_of CHR ''+'' = None"
  by (simp_all add: digit_of_def)

lemma show_nat_free [simp]:
  "CHR '':'' \<notin> set (show_nat n)" "CHR 0x0A \<notin> set (show_nat n)" "CHR 0x0D \<notin> set (show_nat n)"
  "CHR ''+'' \<notin> set (show_nat n)"
  using show_nat_digits by fastforce+

lemma parse_show [simp]: "n < bound \<Longrightarrow> parse_uint bound (show_nat n) = Some n"
  using parse_digits_show [of n bound] show_nat_free(4) [of n]
  by (cases "show_nat n") (auto simp: parse_uint_def)

lemma split_at_free [simp]: "d \<notin> set l \<Longrightarrow> split_at d l = [l]"
  by (induction l) auto

lemma split_at_append [simp]: "d \<notin> set l \<Longrightarrow> split_at d (l @ d # rest) = l # split_at d rest"
  by (induction l) auto

lemma split_at_nonempty [simp]: "split_at d s \<noteq> []"
  by (induction s) (auto split: list.split)

definition plain_line :: "string \<Rightarrow> bool" where
  "plain_line l \<longleftrightarrow> CHR 0x0A \<notin> set l \<and> CHR 0x0D \<notin> set l"

lemma split_lines:
  "list_all plain_line ls \<Longrightarrow> split_at CHR 0x0A (concat (map (\<lambda>l. l @ [CHR 0x0A]) ls)) = ls @ [[]]"
  by (induction ls) (auto simp: plain_line_def)

lemma text_lines_of:
  assumes "list_all plain_line ls"
  shows "text_lines (concat (map (\<lambda>l. l @ [CHR 0x0A]) ls)) = ls"
proof -
  have "map strip_cr ls = ls"
    using assms by (induction ls) (auto simp: plain_line_def strip_cr_def, metis last_in_set)
  then show ?thesis
    using split_lines [OF assms] by (simp add: text_lines_def Let_def)
qed

section \<open>Runs of updates\<close>

datatype manifest_op = AddSst u32 u64 | RemoveSst u32 u64 | AddWal u64 | AllocateSst | AllocateWal

fun run_op :: "manifest_op \<Rightarrow> manifest \<Rightarrow> manifest" where
  "run_op (AddSst l i) m = add_sst l i m"
| "run_op (RemoveSst l i) m = remove_sst l i m"
| "run_op (AddWal i) m = add_wal i m"
| "run_op AllocateSst m = snd (allocate_sst_id m)"
| "run_op AllocateWal m = snd (allocate_wal_id m)"

definition run_ops :: "manifest_op list \<Rightarrow> manifest" where
  "run_ops ops = fold run_op ops manifest_create"

fun op_line :: "manifest_op \<Rightarrow> string list" where
  "op_line (AddSst l i) = [''SST:'' @ show_nat (unat l) @ '':'' @ show_nat (unat i)]"
| "op_line (RemoveSst l i) = [''DEL:'' @ show_nat (unat l) @ '':'' @ show_nat (unat i)]"
| "op_line (AddWal i) = [''WAL:'' @ show_nat (unat i)]"
| "op_line _ = []"

text \<open>What an update does besides writing its line.\<close>

fun op_effect :: "manifest_op \<Rightarrow> manifest \<Rightarrow> manifest" where
  "op_effect (AddSst l i) m = push_sst l i m"
| "op_effect (RemoveSst l i) m = drop_sst l i m"
| "op_effect (AddWal i) m = note_wal i m"
| "op_effect _ m = m"

lemma unat_bounds [simp]:
  "unat (l :: u32) < 4294967296" "unat (i :: u64) < 18446744073709551616"
  using unsigned_less [of l, where 'a = nat] unsigned_less [of i, where 'a = nat] by simp_all

lemma load_op_line: "load_lines (op_line p) m = Ok (op_effect p m)"
  by (cases p) (simp_all add: load_line_def part_number_def Let_def slice_index_def)

lemma load_lines_append: "load_lines (xs @ ys) m = bind_result (load_lines xs m) (load_lines ys)"
proof (induction xs arbitrary: m)
  case (Cons x xs)
  then show ?case by (cases "load_line x m") simp_all
qed simp

lemma load_ops: "load_lines (concat (map op_line ops)) m = Ok (fold op_effect ops m)"
  by (induction ops arbitrary: m) (simp_all add: load_lines_append load_op_line del: bind_result_eq_Ok)

lemma op_line_plain: "list_all plain_line (concat (map op_line ops))"
proof (induction ops)
  case (Cons p ops)
  then show ?case by (cases p) (auto simp: plain_line_def)
qed simp

lemma effect_file [simp]:
  "mf_file (push_sst l i m) = mf_file m" "mf_file (drop_sst l i m) = mf_file m"
  "mf_file (note_wal i m) = mf_file m"
  by (simp_all add: push_sst_def drop_sst_def note_wal_def Let_def split: option.split)

lemma run_op_file: "mf_file (run_op p m) = mf_file m @ concat (map (\<lambda>l. l @ [CHR 0x0A]) (op_line p))"
  by (cases p) (simp_all add: add_sst_def remove_sst_def add_wal_def write_line_def
      allocate_sst_id_def allocate_wal_id_def)

lemma run_ops_file:
  "mf_file (fold run_op ops m) = mf_file m @ concat (map (\<lambda>l. l @ [CHR 0x0A]) (concat (map op_line ops)))"
  by (induction ops arbitrary: m) (simp_all add: run_op_file)

text \<open>The lines the updates write, and what is read back from them.\<close>

definition lines_of :: "manifest_op list \<Rightarrow> string" where
  "lines_of ops = concat (map (\<lambda>l. l @ [CHR 0x0A]) (concat (map op_line ops)))"

lemma lines_of_append [simp]: "lines_of (ops @ ops') = lines_of ops @ lines_of ops'"
  by (simp add: lines_of_def)

lemma open_lines:
  "manifest_open (lines_of ops) = Ok (fold op_effect ops (manifest_create\<lparr>mf_file := lines_of ops\<rparr>))"
proof -
  have "text_lines (lines_of ops) = concat (map op_line ops)"
    unfolding lines_of_def by (rule text_lines_of [OF op_line_plain])
  then show ?thesis by (simp add: manifest_open_def load_ops del: bind_result_eq_Ok)
qed

lemma run_ops_lines: "mf_file (run_ops ops) = lines_of ops"
  by (simp add: run_ops_def run_ops_file manifest_create_def lines_of_def)

text \<open>The reloaded manifest follows the one in memory; only allocations are not logged.\<close>

definition follows :: "bool \<Rightarrow> manifest \<Rightarrow> manifest \<Rightarrow> bool" where
  "follows exact m m' \<longleftrightarrow> mf_levels m' = mf_levels m \<and>
     (exact \<longrightarrow> next_sst_id m' = next_sst_id m \<and> next_wal_id m' = next_wal_id m)"

lemma follows_step:
  assumes "follows exact m m'" "exact \<longrightarrow> p \<noteq> AllocateSst \<and> p \<noteq> AllocateWal"
  shows "follows exact (run_op p m) (op_effect p m')"
  using assms
  by (cases p)
     (auto simp: follows_def add_sst_def remove_sst_def add_wal_def write_line_def allocate_sst_id_def
        allocate_wal_id_def push_sst_def drop_sst_def note_wal_def Let_def split: option.splits)

lemma follows_run:
  assumes "follows exact m m'" "exact \<longrightarrow> AllocateSst \<notin> set ops \<and> AllocateWal \<notin> set ops"
  shows "follows exact (fold run_op ops m) (fold op_effect ops m')"
  using assms
proof (induction ops arbitrary: m m')
  case (Cons p ops)
  then show ?case using follows_step [of exact m m' p] by auto
qed simp

text \<open>Identifiers in use are below the next one, but for the largest identifier, which has no successor.\<close>

definition ids_fresh :: "manifest \<Rightarrow> bool" where
  "ids_fresh m \<longleftrightarrow> (\<forall>l e i. hm_get (mf_levels m) l = Some e \<longrightarrow> i \<in> set (lm_sst_ids e) \<longrightarrow>
     i \<noteq> - 1 \<longrightarrow> i < next_sst_id m)"

lemma less_successor: "(i :: u64) \<noteq> - 1 \<Longrightarrow> i < i + 1"
proof -
  assume "i \<noteq> - 1"
  then have "1 + i \<noteq> 0" by (metis add.commute add_eq_0_iff)
  then have "unat (1 + i) = Suc (unat i)" by (rule unatSuc)
  then show ?thesis by (simp add: word_less_nat_alt add.commute)
qed

lemma ids_fresh_step: "ids_fresh m \<Longrightarrow> ids_fresh (op_effect p m)"
proof (cases p)
  case (AddSst l i)
  assume m: "ids_fresh m"
  show ?thesis
    unfolding ids_fresh_def
  proof (intro allI impI)
    fix l' e j assume *: "hm_get (mf_levels (op_effect p m)) l' = Some e" "j \<in> set (lm_sst_ids e)" "j \<noteq> - 1"
    have "j = i \<or> (\<exists>e'. hm_get (mf_levels m) l' = Some e' \<and> j \<in> set (lm_sst_ids e'))"
      using * AddSst by (auto simp: push_sst_def Let_def split: if_splits option.splits)
    then have "j < next_sst_id m \<or> j < i + 1"
      using m *(3) less_successor unfolding ids_fresh_def by blast
    with AddSst show "j < next_sst_id (op_effect p m)"
      by (auto simp: push_sst_def Let_def less_max_iff_disj)
  qed
next
  case (RemoveSst l i)
  assume m: "ids_fresh m"
  with RemoveSst show ?thesis
    unfolding ids_fresh_def by (auto simp: drop_sst_def split: option.splits if_splits)
qed (auto simp: ids_fresh_def note_wal_def)

lemma ids_fresh_run: "ids_fresh m \<Longrightarrow> ids_fresh (fold op_effect ops m)"
  by (induction ops arbitrary: m) (simp_all add: ids_fresh_step)

section \<open>Property\<close>

text \<open>
  C40: the manifest can be read back. Whatever tables and logs were added, removed and
  allocated since the manifest was created, opening the file again succeeds, gives the same
  tables on the same levels in the same order, and the next identifier it would allocate is
  above every table in use; without allocations that were never logged, the identifiers are
  the same as well.
\<close>

theorem manifest_reopen:
  "\<exists>m. manifest_open (mf_file (run_ops ops)) = Ok m \<and> mf_levels m = mf_levels (run_ops ops) \<and>
     (AllocateSst \<notin> set ops \<and> AllocateWal \<notin> set ops \<longrightarrow> m = run_ops ops) \<and>
     (\<forall>level e sst. hm_get (mf_levels m) level = Some e \<and> sst \<in> set (lm_sst_ids e) \<and> sst \<noteq> - 1 \<longrightarrow>
        sst < fst (allocate_sst_id m))"
proof -
  let ?file = "mf_file (run_ops ops)"
  let ?m0 = "manifest_create\<lparr>mf_file := ?file\<rparr>"
  let ?m = "fold op_effect ops ?m0"
  have "manifest_open ?file = Ok ?m" unfolding run_ops_lines by (rule open_lines)
  moreover have f: "follows exact (run_ops ops) ?m"
    if "exact \<longrightarrow> AllocateSst \<notin> set ops \<and> AllocateWal \<notin> set ops" for exact
    unfolding run_ops_def by (rule follows_run [OF _ that]) (simp add: follows_def)
  moreover have "mf_file (fold op_effect ops m) = mf_file m" for m
  proof (induction ops arbitrary: m)
    case (Cons p ops)
    then show ?case by (cases p) simp_all
  qed simp
  then have "mf_file ?m = ?file" by simp
  then have "?m = run_ops ops" if "AllocateSst \<notin> set ops \<and> AllocateWal \<notin> set ops"
    using f [of True] that by (auto simp: follows_def intro!: manifest.equality)
  moreover have "ids_fresh ?m"
    by (rule ids_fresh_run) (simp add: ids_fresh_def manifest_create_def)
  ultimately show ?thesis
    using f [of False] by (auto simp: follows_def ids_fresh_def allocate_sst_id_def)
qed

lemma manifest_reopen_witness:
  "\<exists>m. manifest_open (mf_file (run_ops [AddSst 0 1, AddWal 2, AddSst 0 3, RemoveSst 0 1])) = Ok m \<and>
     m = run_ops [AddSst 0 1, AddWal 2, AddSst 0 3, RemoveSst 0 1]"
  using manifest_reopen [of "[AddSst 0 1, AddWal 2, AddSst 0 3, RemoveSst 0 1]"] by auto

end
