(* ===== verification/Wal_Manager.thy ===== *)
theory Wal_Manager
  imports Wal Manifest
begin

text \<open>
  \<open>crabstash-storage/src/wal.rs\<close>, the type \<open>WalManager\<close>: a log cut into segment files by
  size, the archiving of old segments, and recovery over all segments, from a timestamp or up
  to one. A directory is a map from file names to contents. File operations do not fail.
\<close>

section \<open>Names\<close>

definition WAL_SEGMENT_PREFIX :: string where
  "WAL_SEGMENT_PREFIX = ''wal_''"

definition WAL_SEGMENT_EXT :: string where
  "WAL_SEGMENT_EXT = ''.log''"

definition strip_prefix :: "string \<Rightarrow> string \<Rightarrow> string option" where
  "strip_prefix p s = (if take (length p) s = p then Some (drop (length p) s) else None)"

definition strip_suffix :: "string \<Rightarrow> string \<Rightarrow> string option" where
  "strip_suffix p s = map_option rev (strip_prefix (rev p) (rev s))"

text \<open>The tests \<open>starts_with\<close> and \<open>ends_with\<close> before the strips say the same as the strips.\<close>

definition parse_segment_name :: "string \<Rightarrow> u64 option" where
  "parse_segment_name name =
     Option.bind (strip_prefix WAL_SEGMENT_PREFIX name) (\<lambda>s.
     Option.bind (strip_suffix WAL_SEGMENT_EXT s) (\<lambda>num_str.
       map_option of_nat (parse_uint (2 ^ 64) num_str)))"

text \<open>The format \<open>{:08}\<close> of the identifier.\<close>

definition pad8 :: "string \<Rightarrow> string" where
  "pad8 s = replicate (8 - length s) CHR ''0'' @ s"

definition segment_name :: "u64 \<Rightarrow> string" where
  "segment_name i = WAL_SEGMENT_PREFIX @ pad8 (show_nat (unat i)) @ WAL_SEGMENT_EXT"

type_synonym directory = "(string, bytes) hmap"

section \<open>State\<close>

definition DEFAULT_SEGMENT_SIZE :: u64 where
  "DEFAULT_SEGMENT_SIZE = 64 * 1024 * 1024"

text \<open>\<open>archiving\<close> stands for an archive directory being configured.\<close>

record wal_manager_options =
  wmo_wal_options :: wal_options
  segment_size_bytes :: u64
  archiving :: bool
  min_segments_to_keep :: nat

definition default_manager_options :: wal_manager_options where
  "default_manager_options = \<lparr>wmo_wal_options = default_wal_options, segment_size_bytes = DEFAULT_SEGMENT_SIZE,
     archiving = False, min_segments_to_keep = 2\<rparr>"

text \<open>\<open>wm_dir\<close> are the files of the log directory; the one being written is as in \<open>current_wal\<close>.\<close>

record wal_manager =
  current_wal :: wal
  current_segment :: u64
  current_size :: u64
  wm_dir :: directory
  wm_archive :: directory
  wm_options :: wal_manager_options
  first_segment :: u64

definition listed_segments :: "directory \<Rightarrow> u64 list" where
  "listed_segments d = List.map_filter (\<lambda>(name, _). parse_segment_name name) d"

definition find_latest_segment :: "directory \<Rightarrow> u64 \<times> u64" where
  "find_latest_segment d =
     (let ids = listed_segments d
      in if ids = [] then (1, 1) else (fold max ids 0, fold min ids (- 1)))"

definition manager_open :: "directory \<Rightarrow> directory \<Rightarrow> wal_manager_options \<Rightarrow> wal_manager" where
  "manager_open d archive opts =
     (let (segment_id, first) = find_latest_segment d;
          contents = (case hm_get d (segment_name segment_id) of Some c \<Rightarrow> c | None \<Rightarrow> [])
      in \<lparr>current_wal = open_with_options contents (wmo_wal_options opts), current_segment = segment_id,
          current_size = of_nat (length contents), wm_dir = d, wm_archive = archive, wm_options = opts,
          first_segment = first\<rparr>)"

text \<open>The files of the log directory when the manager is dropped.\<close>

definition manager_files :: "wal_manager \<Rightarrow> directory" where
  "manager_files m = hm_insert (segment_name (current_segment m)) (drop_wal (current_wal m)) (wm_dir m)"

section \<open>Rotation and archiving\<close>

definition archive_segment :: "nat \<Rightarrow> directory \<times> directory \<Rightarrow> directory \<times> directory" where
  "archive_segment i = (\<lambda>(d, archive).
     case hm_get d (segment_name (of_nat i)) of
       Some c \<Rightarrow> (hm_remove (segment_name (of_nat i)) d, hm_insert (segment_name (of_nat i)) c archive)
     | None \<Rightarrow> (d, archive))"

definition archive_old_segments :: "wal_manager \<Rightarrow> wal_manager" where
  "archive_old_segments m =
     (let keep = of_nat (min_segments_to_keep (wm_options m))
      in if \<not> archiving (wm_options m) \<or> current_segment m \<le> first_segment m + keep then m
         else
           let archive_up_to = current_segment m - keep;
               (d, archive) = fold archive_segment [unat (first_segment m)..<unat archive_up_to]
                 (wm_dir m, wm_archive m)
           in m\<lparr>wm_dir := d, wm_archive := archive, first_segment := archive_up_to\<rparr>)"

text \<open>The old log is synced and dropped; the new segment's file is created empty.\<close>

definition rotate_segment :: "wal_manager \<Rightarrow> wal_manager" where
  "rotate_segment m =
     (let m1 = m\<lparr>wm_dir := hm_insert (segment_name (current_segment m)) (drop_wal (sync (current_wal m))) (wm_dir m),
                 current_wal := create_with_options (wmo_wal_options (wm_options m)),
                 current_segment := current_segment m + 1,
                 current_size := 0\<rparr>
      in if archiving (wm_options m) then archive_old_segments m1 else m1)"

section \<open>Appending\<close>

definition estimated_size :: "wal_record \<Rightarrow> nat" where
  "estimated_size r =
     8 + 1 + 8 + 4 + length (rec_key r) + (case rec_value r of Some v \<Rightarrow> 4 + length v | None \<Rightarrow> 0)"

definition within_segment :: "wal_manager \<Rightarrow> nat \<Rightarrow> bool" where
  "within_segment m n \<longleftrightarrow> current_size m + of_nat n \<le> segment_size_bytes (wm_options m)"

definition count_bytes :: "nat \<Rightarrow> wal_manager \<Rightarrow> wal_manager" where
  "count_bytes n m = m\<lparr>current_size := current_size m + of_nat n\<rparr>"

definition manager_append ::
  "(bytes \<Rightarrow> u32) \<Rightarrow> (bytes \<Rightarrow> bytes) \<Rightarrow> wal_record \<Rightarrow> wal_manager \<Rightarrow> wal_manager" where
  "manager_append crc compress r m =
     (let n = estimated_size r;
          m1 = (if within_segment m n then m else rotate_segment m)
      in count_bytes n (m1\<lparr>current_wal := append crc compress r (current_wal m1)\<rparr>))"

text \<open>After a rotation the size of a batch is counted twice.\<close>

definition manager_append_batch ::
  "(bytes \<Rightarrow> u32) \<Rightarrow> (bytes \<Rightarrow> bytes) \<Rightarrow> wal_record list \<Rightarrow> wal_manager \<Rightarrow> wal_manager" where
  "manager_append_batch crc compress rs m =
     (let n = sum_list (map estimated_size rs)
      in if within_segment m n then
           count_bytes n (m\<lparr>current_wal := append_batch crc compress rs (current_wal m)\<rparr>)
         else
           let m1 = rotate_segment m
           in count_bytes n (count_bytes n (m1\<lparr>current_wal := append_batch crc compress rs (current_wal m1)\<rparr>)))"

definition manager_sync :: "wal_manager \<Rightarrow> wal_manager" where
  "manager_sync m = m\<lparr>current_wal := sync (current_wal m)\<rparr>"

definition list_segments :: "wal_manager \<Rightarrow> u64 list" where
  "list_segments m =
     sort (listed_segments (hm_insert (segment_name (current_segment m)) (wal_file (current_wal m)) (wm_dir m)))"

section \<open>Recovery\<close>

text \<open>A segment that cannot be recovered, or has no file of the canonical name, is skipped.\<close>

fun recover_files ::
  "(bytes \<Rightarrow> u32) \<Rightarrow> (bytes \<Rightarrow> bytes option) \<Rightarrow> (wal_record \<Rightarrow> bool) \<Rightarrow> bytes option list \<Rightarrow>
   (error, wal_record list) result" where
  "recover_files crc decompress keep [] = Ok []"
| "recover_files crc decompress keep (None # fs) = recover_files crc decompress keep fs"
| "recover_files crc decompress keep (Some c # fs) =
     (case recover crc decompress c of
        Ok rs \<Rightarrow> bind_result (recover_files crc decompress keep fs) (\<lambda>rs'. Ok (filter keep rs @ rs'))
      | Err e \<Rightarrow> recover_files crc decompress keep fs
      | Panic \<Rightarrow> Panic)"

definition recover_from_timestamp ::
  "(bytes \<Rightarrow> u32) \<Rightarrow> (bytes \<Rightarrow> bytes option) \<Rightarrow> directory \<Rightarrow> ts \<Rightarrow> (error, wal_record list) result" where
  "recover_from_timestamp crc decompress d min_timestamp =
     recover_files crc decompress (\<lambda>r. rec_timestamp r \<ge> min_timestamp)
       (map (\<lambda>i. hm_get d (segment_name i)) (sort (listed_segments d)))"

definition recover_all ::
  "(bytes \<Rightarrow> u32) \<Rightarrow> (bytes \<Rightarrow> bytes option) \<Rightarrow> directory \<Rightarrow> (error, wal_record list) result" where
  "recover_all crc decompress d = recover_from_timestamp crc decompress d 0"

text \<open>\<open>Vec::dedup_by_key\<close>: of neighbours with one key the first stays.\<close>

fun dedup_by_key :: "('a \<Rightarrow> 'k) \<Rightarrow> 'a list \<Rightarrow> 'a list" where
  "dedup_by_key f (x # y # xs) =
     (if f y = f x then dedup_by_key f (x # xs) else x # dedup_by_key f (y # xs))"
| "dedup_by_key f xs = xs"

definition segment_files :: "directory \<Rightarrow> (u64 \<times> bytes) list" where
  "segment_files d =
     List.map_filter (\<lambda>(name, c). map_option (\<lambda>i. (i, c)) (parse_segment_name name)) d"

definition recover_pitr ::
  "(bytes \<Rightarrow> u32) \<Rightarrow> (bytes \<Rightarrow> bytes option) \<Rightarrow> directory \<Rightarrow> directory \<Rightarrow> ts \<Rightarrow>
   (error, wal_record list) result" where
  "recover_pitr crc decompress d archive target_timestamp =
     recover_files crc decompress (\<lambda>r. rec_timestamp r \<le> target_timestamp)
       (map (\<lambda>(_, c). Some c) (dedup_by_key fst (sort_key fst (segment_files archive @ segment_files d))))"

end
