(* ===== verification/Wal_Segments.thy ===== *)
theory Wal_Segments
  imports Wal_Manager
begin

text \<open>
  What the segments of \<open>Wal_Manager\<close> hold: names round trip, the directories are the encoded
  runs of records in order, recovery over them returns every record, and the sizes of the
  segments stay within the limit.
\<close>

section \<open>Names\<close>

lemma strip_prefix_append [simp]: "strip_prefix p (p @ s) = Some s"
  by (simp add: strip_prefix_def)

lemma strip_suffix_append [simp]: "strip_suffix p (s @ p) = Some s"
  by (simp add: strip_suffix_def)

lemma parse_digits_zeros: "0 < b \<Longrightarrow> parse_digits b 0 (replicate n CHR ''0'' @ s) = parse_digits b 0 s"
  by (induction n) (simp_all add: digit_of_def)

lemma parse_pad8 [simp]:
  assumes "n < b"
  shows "parse_uint b (pad8 (show_nat n)) = Some n"
proof (cases "8 - length (show_nat n)")
  case 0
  then show ?thesis using assms by (simp add: pad8_def)
next
  case (Suc k)
  then have "pad8 (show_nat n) = CHR ''0'' # replicate k CHR ''0'' @ show_nat n" by (simp add: pad8_def)
  moreover have "parse_digits b 0 (CHR ''0'' # replicate k CHR ''0'' @ show_nat n) = Some n"
    using parse_digits_zeros [of b "Suc k" "show_nat n"] parse_digits_show [OF assms] assms by simp
  ultimately show ?thesis by (simp add: parse_uint_def)
qed

lemma parse_segment_name [simp]: "parse_segment_name (segment_name i) = Some i"
  by (simp add: parse_segment_name_def segment_name_def del: append_assoc)

lemma segment_name_inj [simp]: "segment_name i = segment_name j \<longleftrightarrow> i = j"
  by (metis option.inject parse_segment_name)

abbreviation sname :: "nat \<Rightarrow> string" where
  "sname i \<equiv> segment_name (of_nat i)"

lemma sname_inj: "i < 2 ^ 63 \<Longrightarrow> j < 2 ^ 63 \<Longrightarrow> sname i = sname j \<longleftrightarrow> i = j"
  by (simp add: of_nat_u64_inj)

section \<open>Directories of consecutive segments\<close>

definition holds :: "directory \<Rightarrow> nat \<Rightarrow> nat \<Rightarrow> (nat \<Rightarrow> bytes) \<Rightarrow> bool" where
  "holds d lo hi f \<longleftrightarrow> hm_wf d \<and> hi < 2 ^ 63 \<and>
     (\<forall>name c. hm_get d name = Some c \<longleftrightarrow> (\<exists>i. lo \<le> i \<and> i < hi \<and> name = sname i \<and> c = f i))"

lemma holds_get:
  assumes "holds d lo hi f" "i < 2 ^ 63"
  shows "hm_get d (sname i) = (if lo \<le> i \<and> i < hi then Some (f i) else None)"
proof (cases "lo \<le> i \<and> i < hi")
  case True
  with assms(1) show ?thesis unfolding holds_def by auto
next
  case False
  have "hm_get d (sname i) \<noteq> Some c" for c
  proof
    assume "hm_get d (sname i) = Some c"
    then obtain j where "lo \<le> j" "j < hi" "sname i = sname j" using assms(1) unfolding holds_def by metis
    moreover from this have "i = j" using sname_inj [of i j] assms unfolding holds_def by auto
    ultimately show False using False by simp
  qed
  then have "hm_get d (sname i) = None" by (metis not_Some_eq)
  with False show ?thesis by simp
qed

lemma holds_empty: "hi < 2 ^ 63 \<Longrightarrow> hi \<le> lo \<Longrightarrow> holds [] lo hi f"
  by (simp add: holds_def)

lemma holds_insert:
  assumes "holds d lo hi f" "lo \<le> hi" "Suc hi < 2 ^ 63" "f hi = c"
  shows "holds (hm_insert (sname hi) c d) lo (Suc hi) f"
  unfolding holds_def
proof (intro conjI allI)
  fix name c'
  have other: "sname i \<noteq> sname hi" if "i < hi" for i using sname_inj [of i hi] assms(3) that by simp
  show "hm_get (hm_insert (sname hi) c d) name = Some c' \<longleftrightarrow> (\<exists>i\<ge>lo. i < Suc hi \<and> name = sname i \<and> c' = f i)"
  proof (cases "name = sname hi")
    case True
    then have "(\<exists>i\<ge>lo. i < Suc hi \<and> name = sname i \<and> c' = f i) \<longleftrightarrow> c' = f hi"
      using other assms(2) by (metis less_Suc_eq)
    with True assms(4) show ?thesis by auto
  next
    case False
    with assms(1) show ?thesis by (auto simp: holds_def less_Suc_eq)
  qed
qed (use assms in \<open>simp_all add: holds_def\<close>)

lemma holds_remove:
  assumes "holds d lo hi f" "lo < hi"
  shows "holds (hm_remove (sname lo) d) (Suc lo) hi f"
  unfolding holds_def
proof (intro conjI allI)
  fix name c
  have lt: "i < 2 ^ 63" if "i < hi" for i using assms(1) that by (simp add: holds_def)
  have "name \<noteq> sname lo \<and> (\<exists>i\<ge>lo. i < hi \<and> name = sname i \<and> c = f i) \<longleftrightarrow>
      (\<exists>i\<ge>Suc lo. i < hi \<and> name = sname i \<and> c = f i)"
    using sname_inj lt assms(2) by (metis Suc_leI Suc_le_eq le_neq_implies_less less_imp_le nat_less_le)
  then show "hm_get (hm_remove (sname lo) d) name = Some c \<longleftrightarrow> (\<exists>i\<ge>Suc lo. i < hi \<and> name = sname i \<and> c = f i)"
    using assms(1) by (auto simp: holds_def)
qed (use assms in \<open>simp_all add: holds_def\<close>)

lemma holds_cong:
  assumes "holds d lo hi f" "\<And>i. lo \<le> i \<Longrightarrow> i < hi \<Longrightarrow> f i = g i"
  shows "holds d lo hi g"
  using assms unfolding holds_def by auto

text \<open>Archiving moves the segments from the first one on.\<close>

lemma archive_range:
  assumes "holds d lo hi f" "holds archive 1 lo f" "lo \<le> up" "up \<le> hi" "1 \<le> lo"
  shows "\<exists>d' archive'. fold archive_segment [lo..<up] (d, archive) = (d', archive') \<and>
    holds d' up hi f \<and> holds archive' 1 up f"
  using assms(3,4)
proof (induction up rule: dec_induct)
  case base
  with assms show ?case by simp
next
  case (step n)
  then obtain d' archive' where IH: "fold archive_segment [lo..<n] (d, archive) = (d', archive')"
    "holds d' n hi f" "holds archive' 1 n f" by auto
  have "n < 2 ^ 63" using IH(2) step.prems by (simp add: holds_def)
  then have "hm_get d' (sname n) = Some (f n)" using holds_get [OF IH(2)] step.prems by simp
  moreover have "Suc n < 2 ^ 63" using IH(2) step.prems by (simp add: holds_def)
  ultimately have "archive_segment n (d', archive') = (hm_remove (sname n) d', hm_insert (sname n) (f n) archive')"
    "holds (hm_remove (sname n) d') (Suc n) hi f" "holds (hm_insert (sname n) (f n) archive') 1 (Suc n) f"
    using step.hyps assms(5) holds_remove [OF IH(2)] holds_insert [OF IH(3), of "f n"] step.prems
    by (simp_all add: archive_segment_def)
  with IH(1) step.hyps show ?case by simp
qed

section \<open>Listing them\<close>

lemma map_filter_Some: "(\<And>x. x \<in> set xs \<Longrightarrow> f x = Some (g x)) \<Longrightarrow> List.map_filter f xs = map g xs"
  by (induction xs) (simp_all add: map_filter_simps)

lemma holds_entry:
  assumes "holds d lo hi f"
  shows "(name, c) \<in> set d \<longleftrightarrow> (\<exists>i. lo \<le> i \<and> i < hi \<and> name = sname i \<and> c = f i)"
  using assms unfolding holds_def by (simp add: hm_mem_get)

lemma segment_files_holds:
  assumes "holds d lo hi f"
  shows "set (segment_files d) = (\<lambda>i. (of_nat i, f i)) ` {lo..<hi}" "distinct (map fst (segment_files d))"
    "listed_segments d = map fst (segment_files d)"
proof -
  have p: "parse_segment_name (fst e) \<noteq> None" if "e \<in> set d" for e
    using that holds_entry [OF assms, of "fst e" "snd e"] by auto
  have sf: "segment_files d = map (\<lambda>(name, c). (the (parse_segment_name name), c)) d"
    unfolding segment_files_def using p by (intro map_filter_Some) force
  show "listed_segments d = map fst (segment_files d)"
  proof -
    have "listed_segments d = map (\<lambda>(name, c). the (parse_segment_name name)) d"
      unfolding listed_segments_def using p by (intro map_filter_Some) force
    then show ?thesis unfolding sf by (simp add: comp_def case_prod_unfold)
  qed
  show "set (segment_files d) = (\<lambda>i. (of_nat i, f i)) ` {lo..<hi}"
  proof (rule set_eqI, clarify)
    fix j c
    have "(j, c) \<in> set (segment_files d) \<longleftrightarrow> (\<exists>name. (name, c) \<in> set d \<and> j = the (parse_segment_name name))"
      unfolding sf by (auto simp: image_iff) force
    also have "\<dots> \<longleftrightarrow> (\<exists>i. lo \<le> i \<and> i < hi \<and> j = of_nat i \<and> c = f i)"
      using holds_entry [OF assms] by auto
    finally show "(j, c) \<in> set (segment_files d) \<longleftrightarrow> (j, c) \<in> (\<lambda>i. (of_nat i, f i)) ` {lo..<hi}" by auto
  qed
  have "inj_on (\<lambda>name. the (parse_segment_name name)) (set (map fst d))"
    using holds_entry [OF assms] by (auto simp: inj_on_def)
  moreover have "distinct (map fst d)" using assms by (simp add: holds_def)
  ultimately have "distinct (map (\<lambda>name. the (parse_segment_name name)) (map fst d))"
    by (subst distinct_map) blast
  then show "distinct (map fst (segment_files d))" unfolding sf by (simp add: comp_def case_prod_unfold)
qed

lemma of_nat_range:
  assumes "hi < 2 ^ 63"
  shows "sorted_wrt (<) (map (of_nat :: nat \<Rightarrow> u64) [lo..<hi])"
proof (rule sorted_wrt_map [THEN iffD2], rule sorted_wrt_mono_rel [of _ "(<)"])
  show "sorted_wrt (<) [lo..<hi]" by simp
  show "(of_nat i :: u64) < of_nat j" if "i \<in> set [lo..<hi]" "j \<in> set [lo..<hi]" "i < j" for i j
    using that assms by (simp add: word_less_nat_alt unat_u64)
qed

lemma sort_listed:
  assumes "holds d lo hi f"
  shows "sort (listed_segments d) = map of_nat [lo..<hi]"
proof (rule sorted_distinct_set_unique)
  have "hi < 2 ^ 63" using assms by (simp add: holds_def)
  then show "sorted (map (of_nat :: nat \<Rightarrow> u64) [lo..<hi])" "distinct (map (of_nat :: nat \<Rightarrow> u64) [lo..<hi])"
    using of_nat_range [of hi lo] strict_sorted_iff by blast+
  show "set (sort (listed_segments d)) = set (map of_nat [lo..<hi])" "distinct (sort (listed_segments d))"
    using segment_files_holds [OF assms] by (simp_all add: image_image)
qed simp

lemma dedup_distinct: "distinct (map f xs) \<Longrightarrow> dedup_by_key f xs = xs"
  by (induction f xs rule: dedup_by_key.induct) auto

lemma distinct_sort_key: "distinct (map f xs) \<Longrightarrow> distinct (map f (sort_key g xs))"
  by (simp add: distinct_map)

lemma sort_both:
  assumes "holds archive 1 lo f" "holds d lo hi f" "1 \<le> lo" "lo \<le> hi"
  shows "dedup_by_key fst (sort_key fst (segment_files archive @ segment_files d)) =
    map (\<lambda>i. (of_nat i, f i)) [1..<hi]"
proof -
  let ?l = "segment_files archive @ segment_files d" and ?r = "map (\<lambda>i. (of_nat i :: u64, f i)) [1..<hi]"
  note a = segment_files_holds [OF assms(1)] and b = segment_files_holds [OF assms(2)]
  have hi: "hi < 2 ^ 63" using assms(2) by (simp add: holds_def)
  have "{1..<lo} \<union> {lo..<hi} = {1..<hi}" using assms(3,4) by auto
  then have set: "set ?l = set ?r" by (simp add: a(1) b(1) flip: image_Un)
  have r: "sorted (map fst ?r)" "distinct (map fst ?r)"
    using of_nat_range [OF hi, of 1] strict_sorted_iff by (auto simp: comp_def)
  have "set (map fst (segment_files archive)) \<inter> set (map fst (segment_files d)) = {}"
  proof -
    have "(of_nat i :: u64) \<noteq> of_nat j" if "i < lo" "lo \<le> j" "j < hi" for i j
      using that hi by (simp add: of_nat_u64_inj)
    then show ?thesis by (auto simp: a(1) b(1))
  qed
  then have l: "distinct (map fst ?l)" using a(2) b(2) by simp
  then have ls: "distinct (map fst (sort_key fst ?l))" by (rule distinct_sort_key)
  have "inj_on fst (set (sort_key fst ?l) \<union> set ?r)"
    using l unfolding set_sort set [symmetric] Un_absorb distinct_map by (rule conjunct2)
  then have "sort_key fst ?l = ?r"
    using ls r set by (intro map_sorted_distinct_set_unique [where f = fst]) simp_all
  with dedup_distinct [OF ls] show ?thesis by simp
qed

section \<open>Recovering them\<close>

lemma recover_files_logs:
  assumes "lz4_ok compress decompress" "list_all (list_all record_ok) rss"
  shows "recover_files crc decompress keep (map (\<lambda>rs. Some (log_bytes crc compress opts rs)) rss) =
    Ok (filter keep (concat rss))"
  using assms(2) by (induction rss) (simp_all add: recover_log [OF _ assms(1)])

section \<open>Runs of the manager\<close>

datatype wal_op = AppendOne wal_record | AppendBatch "wal_record list" | SyncLog

fun op_records :: "wal_op \<Rightarrow> wal_record list" where
  "op_records (AppendOne r) = [r]"
| "op_records (AppendBatch rs) = rs"
| "op_records SyncLog = []"

fun run_wal_op :: "(bytes \<Rightarrow> u32) \<Rightarrow> (bytes \<Rightarrow> bytes) \<Rightarrow> wal_op \<Rightarrow> wal_manager \<Rightarrow> wal_manager" where
  "run_wal_op crc compress (AppendOne r) m = manager_append crc compress r m"
| "run_wal_op crc compress (AppendBatch rs) m = manager_append_batch crc compress rs m"
| "run_wal_op crc compress SyncLog m = manager_sync m"

definition run_wal_ops ::
  "(bytes \<Rightarrow> u32) \<Rightarrow> (bytes \<Rightarrow> bytes) \<Rightarrow> wal_manager_options \<Rightarrow> wal_op list \<Rightarrow> wal_manager" where
  "run_wal_ops crc compress opts ops = fold (run_wal_op crc compress) ops (manager_open [] [] opts)"

text \<open>
  The abstract log: the list of the operations of each segment, the last one being written.
  Segment \<open>i\<close> is entry \<open>i - 1\<close>.
\<close>

definition seg_bytes ::
  "(bytes \<Rightarrow> u32) \<Rightarrow> (bytes \<Rightarrow> bytes) \<Rightarrow> wal_options \<Rightarrow> wal_op list list \<Rightarrow> nat \<Rightarrow> bytes" where
  "seg_bytes crc compress opts segs i = log_bytes crc compress opts (concat (map op_records (segs ! (i - 1))))"

definition seg_inv ::
  "(bytes \<Rightarrow> u32) \<Rightarrow> (bytes \<Rightarrow> bytes) \<Rightarrow> wal_manager_options \<Rightarrow> wal_op list list \<Rightarrow> wal_manager \<Rightarrow> bool" where
  "seg_inv crc compress opts segs m \<longleftrightarrow> wm_options m = opts \<and> segs \<noteq> [] \<and>
     current_segment m = of_nat (length segs) \<and>
     wal_opts (current_wal m) = wmo_wal_options opts \<and>
     stream (current_wal m) = seg_bytes crc compress (wmo_wal_options opts) segs (length segs) \<and>
     (\<exists>f. first_segment m = of_nat f \<and> 1 \<le> f \<and> f \<le> length segs \<and>
        holds (wm_dir m) f (length segs) (seg_bytes crc compress (wmo_wal_options opts) segs) \<and>
        holds (wm_archive m) 1 f (seg_bytes crc compress (wmo_wal_options opts) segs))"

lemma seg_bytes_append:
  "i \<le> length segs \<Longrightarrow> 1 \<le> i \<Longrightarrow> seg_bytes crc compress opts (segs @ ss) i = seg_bytes crc compress opts segs i"
  by (cases i) (simp_all add: seg_bytes_def nth_append)

lemma sync_stream [simp]: "stream (sync w) = stream w" "wal_opts (sync w) = wal_opts w"
  by (simp_all add: sync_def mark_committed_def sync_all_def flush_buffer_def stream_def)

text \<open>A rotation starts a segment.\<close>

lemma rotate_segment_ok:
  assumes inv: "seg_inv crc compress opts segs m" and room: "Suc (length segs) < 2 ^ 63"
    and keep: "min_segments_to_keep opts < 2 ^ 62"
  shows "seg_inv crc compress opts (segs @ [[]]) (rotate_segment m)" "current_size (rotate_segment m) = 0"
proof -
  let ?b = "seg_bytes crc compress (wmo_wal_options opts)" and ?n = "length segs"
  from inv obtain f where f: "first_segment m = of_nat f" "1 \<le> f" "f \<le> ?n" "wm_options m = opts" "segs \<noteq> []"
    "holds (wm_dir m) f ?n (?b segs)" "holds (wm_archive m) 1 f (?b segs)" "current_segment m = of_nat ?n"
    "stream (current_wal m) = ?b segs ?n" unfolding seg_inv_def by blast
  let ?d = "hm_insert (segment_name (current_segment m)) (drop_wal (sync (current_wal m))) (wm_dir m)"
  have ext: "?b (segs @ [[]]) i = ?b segs i" if "1 \<le> i" "i \<le> ?n" for i
    using that by (intro seg_bytes_append)
  have d: "holds ?d f (Suc ?n) (?b (segs @ [[]]))"
    unfolding f(8) using f(2,3,9) room ext
    by (intro holds_insert holds_cong [OF f(6)]) (auto simp: drop_wal_stream)
  have a: "holds (wm_archive m) 1 f (?b (segs @ [[]]))"
    using f(3) ext by (intro holds_cong [OF f(7)]) auto
  let ?m1 = "m\<lparr>wm_dir := ?d, current_wal := create_with_options (wmo_wal_options (wm_options m)),
      current_segment := current_segment m + 1, current_size := 0\<rparr>"
  have m1: "seg_inv crc compress opts (segs @ [[]]) ?m1"
    using f d a by (auto simp: seg_inv_def seg_bytes_def add.commute intro!: exI [of _ f])
  have arch: "seg_inv crc compress opts (segs @ [[]]) (archive_old_segments ?m1) \<and>
      current_size (archive_old_segments ?m1) = 0"
  proof (cases "\<not> archiving opts \<or> current_segment ?m1 \<le> first_segment ?m1 + of_nat (min_segments_to_keep opts)")
    case True
    with m1 f(4) show ?thesis by (simp add: archive_old_segments_def Let_def)
  next
    case False
    let ?k = "min_segments_to_keep opts"
    have cur: "current_segment ?m1 = of_nat (Suc ?n)" "first_segment ?m1 + of_nat ?k = of_nat (f + ?k)"
      using f(1,8) by (simp_all add: add.commute)
    have lt: "f + ?k < Suc ?n"
      using False f(3) keep room unfolding cur by (simp add: word_le_nat_alt unat_u64 del: of_nat_add of_nat_Suc)
    then have up: "current_segment ?m1 - of_nat ?k = of_nat (Suc ?n - ?k)" unfolding cur by (simp add: of_nat_diff)
    have u: "unat (of_nat f :: u64) = f" "unat (of_nat (Suc ?n - ?k) :: u64) = Suc ?n - ?k"
      using f(3) room by (intro unat_u64; simp)+
    have le: "f \<le> Suc ?n - ?k" using lt by simp
    from archive_range [OF d a le diff_le_self f(2)]
    obtain d' a' where moved: "fold archive_segment [f..<Suc ?n - ?k] (?d, wm_archive m) = (d', a')"
      "holds d' (Suc ?n - ?k) (Suc ?n) (?b (segs @ [[]]))" "holds a' 1 (Suc ?n - ?k) (?b (segs @ [[]]))"
      by blast
    have "archive_old_segments ?m1 = ?m1\<lparr>wm_dir := d', wm_archive := a', first_segment := of_nat (Suc ?n - ?k)\<rparr>"
      using False moved(1) f(1,4) up u by (simp add: archive_old_segments_def Let_def)
    moreover have "seg_inv crc compress opts (segs @ [[]])
        (?m1\<lparr>wm_dir := d', wm_archive := a', first_segment := of_nat (Suc ?n - ?k)\<rparr>)"
      using m1 moved(2,3) lt f(2) by (auto simp: seg_inv_def intro!: exI [of _ "Suc ?n - ?k"])
    ultimately show ?thesis by simp
  qed
  show "seg_inv crc compress opts (segs @ [[]]) (rotate_segment m)" "current_size (rotate_segment m) = 0"
    using arch m1 f(4) by (simp_all add: rotate_segment_def Let_def)
qed

lemma write_segment_ok:
  assumes inv: "seg_inv crc compress opts (segs @ [seg]) m"
    and w: "stream w = stream (current_wal m) @ log_bytes crc compress (wmo_wal_options opts) (op_records p)"
      "wal_opts w = wal_opts (current_wal m)"
  shows "seg_inv crc compress opts (segs @ [seg @ [p]]) (m\<lparr>current_wal := w, current_size := n\<rparr>)"
proof -
  let ?b = "seg_bytes crc compress (wmo_wal_options opts)"
  have same: "?b (segs @ [seg @ [p]]) i = ?b (segs @ [seg]) i" if "1 \<le> i" "i < Suc (length segs)" for i
    using that by (cases i) (simp_all add: seg_bytes_def nth_append)
  have "?b (segs @ [seg @ [p]]) (Suc (length segs)) = ?b (segs @ [seg]) (Suc (length segs)) @
      log_bytes crc compress (wmo_wal_options opts) (op_records p)"
    by (simp add: seg_bytes_def)
  moreover obtain f where f: "first_segment m = of_nat f" "1 \<le> f" "f \<le> Suc (length segs)"
    "holds (wm_dir m) f (Suc (length segs)) (?b (segs @ [seg]))" "holds (wm_archive m) 1 f (?b (segs @ [seg]))"
    using inv by (auto simp: seg_inv_def)
  moreover have "holds (wm_dir m) f (Suc (length segs)) (?b (segs @ [seg @ [p]]))"
    using f(2) same by (intro holds_cong [OF f(4)]) simp
  moreover have "holds (wm_archive m) 1 f (?b (segs @ [seg @ [p]]))"
    using f(3) same by (intro holds_cong [OF f(5)]) simp
  ultimately show ?thesis using inv w by (simp add: seg_inv_def) blast
qed

section \<open>Sizes\<close>

definition op_size :: "wal_op \<Rightarrow> nat" where
  "op_size p = sum_list (map estimated_size (op_records p))"

lemma length_log_bytes: "length (log_bytes crc compress opts rs) \<le> sum_list (map estimated_size rs)"
proof (induction rs)
  case (Cons r rs)
  have "length (frame crc (encode_record compress opts r)) \<le> estimated_size r"
    by (auto simp: frame_def encode_record_def Let_def length_encode_payload estimated_size_def split: option.split)
  with Cons show ?case by simp
qed simp

definition seg_length ::
  "(bytes \<Rightarrow> u32) \<Rightarrow> (bytes \<Rightarrow> bytes) \<Rightarrow> wal_manager_options \<Rightarrow> wal_op list \<Rightarrow> nat" where
  "seg_length crc compress opts seg =
     length (log_bytes crc compress (wmo_wal_options opts) (concat (map op_records seg)))"

text \<open>
  The size kept is at least that of the file and at most twice what was appended; a segment
  is within the limit unless it holds a single operation.
\<close>

definition sizes_inv ::
  "(bytes \<Rightarrow> u32) \<Rightarrow> (bytes \<Rightarrow> bytes) \<Rightarrow> wal_manager_options \<Rightarrow> nat \<Rightarrow> wal_op list list \<Rightarrow> wal_manager \<Rightarrow> bool" where
  "sizes_inv crc compress opts n segs m \<longleftrightarrow>
     length (stream (current_wal m)) \<le> unat (current_size m) \<and> unat (current_size m) \<le> 2 * n \<and>
     (\<forall>seg \<in> set segs. seg_length crc compress opts seg \<le> unat (segment_size_bytes opts) \<or> length seg \<le> 1)"

lemma count_exact:
  assumes "unat (c :: u64) + n < 2 ^ 64"
  shows "unat (c + of_nat n) = unat c + n"
proof -
  have n: "unat (of_nat n :: u64) = n" using assms by (intro unat_u64) simp
  with assms show ?thesis by (subst unat_add_lem [THEN iffD1]) simp_all
qed

text \<open>An append writes to the segment it has found room in, or to the one it has rotated to.\<close>

lemma run_write:
  assumes "p \<noteq> SyncLog" "base = (if within_segment m (op_size p) then m else rotate_segment m)"
  obtains w n where "run_wal_op crc compress p m = base\<lparr>current_wal := w, current_size := n\<rparr>"
    "stream w = stream (current_wal base) @ log_bytes crc compress (wal_opts (current_wal base)) (op_records p)"
    "wal_opts w = wal_opts (current_wal base)"
    "n = current_size base + of_nat (op_size p) \<or>
     \<not> within_segment m (op_size p) \<and> n = current_size base + of_nat (op_size p) + of_nat (op_size p)"
proof (cases p)
  case (AppendOne r)
  show thesis
    by (rule that [where w = "append crc compress r (current_wal base)" and n = "current_size base + of_nat (op_size p)"])
      (use AppendOne assms(2) in \<open>simp_all add: manager_append_def count_bytes_def op_size_def Let_def\<close>)
next
  case (AppendBatch rs)
  let ?k = "of_nat (op_size p)"
  show thesis
    by (rule that [where w = "append_batch crc compress rs (current_wal base)"
          and n = "if within_segment m (op_size p) then current_size base + ?k else current_size base + ?k + ?k"])
      (use AppendBatch assms(2) in \<open>simp_all add: manager_append_batch_def count_bytes_def op_size_def Let_def\<close>)
qed (use assms(1) in simp)

lemma run_wal_op_ok:
  assumes inv: "seg_inv crc compress opts segs m" "sizes_inv crc compress opts k segs m"
    and room: "Suc (length segs) < 2 ^ 63" "2 * (k + op_size p) < 2 ^ 63" and keep: "min_segments_to_keep opts < 2 ^ 62"
  shows "\<exists>segs'. seg_inv crc compress opts segs' (run_wal_op crc compress p m) \<and>
    sizes_inv crc compress opts (k + op_size p) segs' (run_wal_op crc compress p m) \<and>
    length segs' \<le> Suc (length segs) \<and> concat segs' = concat segs @ (if p = SyncLog then [] else [p])"
proof (cases "p = SyncLog")
  case True
  then show ?thesis
    using inv by (intro exI [of _ segs]) (auto simp: seg_inv_def sizes_inv_def manager_sync_def op_size_def)
next
  case False
  let ?n = "op_size p" and ?len = "seg_length crc compress opts"
  have opts: "wm_options m = opts" "segs \<noteq> []" using inv(1) by (auto simp: seg_inv_def)
  define base where "base = (if within_segment m ?n then m else rotate_segment m)"
  obtain w n where r: "run_wal_op crc compress p m = base\<lparr>current_wal := w, current_size := n\<rparr>"
    "stream w = stream (current_wal base) @ log_bytes crc compress (wal_opts (current_wal base)) (op_records p)"
    "wal_opts w = wal_opts (current_wal base)"
    "n = current_size base + of_nat ?n \<or> \<not> within_segment m ?n \<and> n = current_size base + of_nat ?n + of_nat ?n"
    using run_write [OF False base_def] by metis
  have small: "unat (current_size m) + ?n < 2 ^ 63" using inv(2) room(2) by (simp add: sizes_inv_def)
  obtain before seg where bs: "seg_inv crc compress opts (before @ [seg]) base"
    "before @ [seg] = (if within_segment m ?n then segs else segs @ [[]])"
  proof (cases "within_segment m ?n")
    case True
    then show thesis
      using inv(1) opts(2) by (intro that [of "butlast segs" "last segs"]) (simp_all add: base_def)
  next
    case False
    then show thesis
      using rotate_segment_ok(1) [OF inv(1) room(1) keep] by (intro that [of segs "[]"]) (simp_all add: base_def)
  qed
  have wo: "wal_opts (current_wal base) = wmo_wal_options opts" using bs(1) by (simp add: seg_inv_def)
  have inv': "seg_inv crc compress opts (before @ [seg @ [p]]) (run_wal_op crc compress p m)"
    unfolding r(1) using r(2,3) wo by (intro write_segment_ok [OF bs(1)]) simp_all
  have sl: "length (stream (current_wal base)) = ?len seg"
    using bs(1) by (simp add: seg_inv_def seg_length_def seg_bytes_def)
  have grow: "?len (seg @ [p]) \<le> ?len seg + ?n"
    using length_log_bytes [of crc compress "wmo_wal_options opts" "op_records p"]
    by (simp add: seg_length_def op_size_def)
  have w: "length (stream w) = ?len (seg @ [p])"
    using inv' r(1) by (simp add: seg_inv_def seg_length_def seg_bytes_def)
  have "?len (seg @ [p]) \<le> unat n \<and> unat n \<le> 2 * (k + ?n) \<and> set before \<subseteq> set segs \<and>
      (?len (seg @ [p]) \<le> unat (segment_size_bytes opts) \<or> length (seg @ [p]) \<le> 1)"
  proof (cases "within_segment m ?n")
    case True
    then have "n = current_size m + of_nat ?n" "base = m" using r(4) by (simp_all add: base_def)
    moreover have "unat (current_size m + of_nat ?n) = unat (current_size m) + ?n"
      using small by (intro count_exact) simp
    moreover from this True opts(1) have "unat (current_size m) + ?n \<le> unat (segment_size_bytes opts)"
      by (simp add: within_segment_def word_le_nat_alt)
    moreover have "set before \<subseteq> set segs" using bs(2) True by (metis set_append sup.cobounded1)
    ultimately show ?thesis using inv(2) sl grow by (auto simp: sizes_inv_def)
  next
    case False
    then have c: "current_size base = 0" using rotate_segment_ok(2) [OF inv(1) room(1) keep] by (simp add: base_def)
    have b: "before = segs" "seg = []" using bs(2) False by simp_all
    have "unat (of_nat ?n :: u64) = ?n" using small by (intro unat_u64) simp
    moreover have "unat (of_nat ?n + of_nat ?n :: u64) = ?n + ?n"
      using room(2) unat_u64 [of "?n + ?n"] by simp
    ultimately have "unat n = ?n \<or> unat n = ?n + ?n" using r(4) c by auto
    moreover have "?len [] = 0" by (simp add: seg_length_def)
    ultimately show ?thesis using b grow by auto
  qed
  then have "sizes_inv crc compress opts (k + ?n) (before @ [seg @ [p]]) (run_wal_op crc compress p m)"
    using inv(2) w by (auto simp: sizes_inv_def r(1))
  moreover have "length (before @ [seg @ [p]]) \<le> Suc (length segs)" "concat (before @ [seg @ [p]]) = concat segs @ [p]"
    using bs(2) by (auto dest: arg_cong [of _ _ length] arg_cong [of _ _ concat] split: if_splits)
  ultimately show ?thesis using inv' False by (intro exI [of _ "before @ [seg @ [p]]"]) simp
qed

section \<open>From an empty directory\<close>

lemma manager_open_empty:
  "manager_open [] [] opts = \<lparr>current_wal = open_with_options [] (wmo_wal_options opts), current_segment = 1,
     current_size = 0, wm_dir = [], wm_archive = [], wm_options = opts, first_segment = 1\<rparr>"
  by (simp add: manager_open_def find_latest_segment_def listed_segments_def map_filter_simps)

lemma run_wal_ops_ok:
  assumes "length ops < 2 ^ 62" "sum_list (map op_size ops) < 2 ^ 62" "min_segments_to_keep opts < 2 ^ 62"
  shows "\<exists>segs. seg_inv crc compress opts segs (run_wal_ops crc compress opts ops) \<and>
    sizes_inv crc compress opts (sum_list (map op_size ops)) segs (run_wal_ops crc compress opts ops) \<and>
    length segs \<le> Suc (length ops) \<and> concat segs = filter (\<lambda>p. p \<noteq> SyncLog) ops"
  using assms(1,2)
proof (induction ops rule: rev_induct)
  case Nil
  have "seg_inv crc compress opts [[]] (manager_open [] [] opts)"
    unfolding manager_open_empty seg_inv_def
    by (auto simp: seg_bytes_def holds_empty intro!: exI [of _ 1])
  moreover have "sizes_inv crc compress opts 0 [[]] (manager_open [] [] opts)"
    unfolding manager_open_empty by (simp add: sizes_inv_def)
  ultimately show ?case by (intro exI [of _ "[[]]"]) (simp add: run_wal_ops_def)
next
  case (snoc p ops)
  then obtain segs where segs: "seg_inv crc compress opts segs (run_wal_ops crc compress opts ops)"
    "sizes_inv crc compress opts (sum_list (map op_size ops)) segs (run_wal_ops crc compress opts ops)"
    "length segs \<le> Suc (length ops)" "concat segs = filter (\<lambda>p. p \<noteq> SyncLog) ops" by auto
  have "Suc (length segs) < 2 ^ 63" "2 * (sum_list (map op_size ops) + op_size p) < 2 ^ 63"
    using segs(3) snoc.prems by simp_all
  from run_wal_op_ok [OF segs(1,2) this assms(3)] obtain segs' where
    "seg_inv crc compress opts segs' (run_wal_op crc compress p (run_wal_ops crc compress opts ops))"
    "sizes_inv crc compress opts (sum_list (map op_size ops) + op_size p) segs'
       (run_wal_op crc compress p (run_wal_ops crc compress opts ops))"
    "length segs' \<le> Suc (length segs)" "concat segs' = concat segs @ (if p = SyncLog then [] else [p])" by blast
  then show ?case using segs(3,4) by (intro exI [of _ segs']) (auto simp: run_wal_ops_def)
qed

lemma records_without_syncs: "concat (map op_records (filter (\<lambda>p. p \<noteq> SyncLog) ops)) = concat (map op_records ops)"
proof (induction ops)
  case (Cons p ops)
  then show ?case by (cases p) auto
qed simp

lemma concat_records:
  "concat (map (\<lambda>seg. concat (map op_records seg)) segs) = concat (map op_records (concat segs))"
  by (induction segs) simp_all

lemma never_archived:
  assumes "\<not> archiving opts"
  shows "first_segment (run_wal_ops crc compress opts ops) = 1"
proof -
  have rot: "wm_options (rotate_segment m) = wm_options m \<and> first_segment (rotate_segment m) = first_segment m"
    if "wm_options m = opts" for m
    using that assms by (simp add: rotate_segment_def Let_def)
  have "wm_options (run_wal_op crc compress p m) = opts \<and> first_segment (run_wal_op crc compress p m) = first_segment m"
    if "wm_options m = opts" for p m
    using that rot [OF that]
    by (cases p) (simp_all add: manager_append_def manager_append_batch_def count_bytes_def manager_sync_def Let_def)
  then have "wm_options (fold (run_wal_op crc compress) ops m) = opts \<and>
      first_segment (fold (run_wal_op crc compress) ops m) = first_segment m" if "wm_options m = opts" for m
    using that by (induction ops arbitrary: m) simp_all
  then show ?thesis by (simp add: run_wal_ops_def manager_open_empty)
qed

lemma closed_files:
  assumes inv: "seg_inv crc compress opts segs m" and room: "Suc (length segs) < 2 ^ 63"
  obtains f where "first_segment m = of_nat f" "1 \<le> f" "f \<le> length segs"
    "holds (manager_files m) f (Suc (length segs)) (seg_bytes crc compress (wmo_wal_options opts) segs)"
    "holds (wm_archive m) 1 f (seg_bytes crc compress (wmo_wal_options opts) segs)"
proof -
  from inv obtain f where f: "first_segment m = of_nat f" "1 \<le> f" "f \<le> length segs"
    "holds (wm_dir m) f (length segs) (seg_bytes crc compress (wmo_wal_options opts) segs)"
    "holds (wm_archive m) 1 f (seg_bytes crc compress (wmo_wal_options opts) segs)"
    "current_segment m = of_nat (length segs)"
    "stream (current_wal m) = seg_bytes crc compress (wmo_wal_options opts) segs (length segs)"
    unfolding seg_inv_def by blast
  have "holds (manager_files m) f (Suc (length segs)) (seg_bytes crc compress (wmo_wal_options opts) segs)"
    unfolding manager_files_def f(6) using room f(3) by (intro holds_insert [OF f(4)]) (simp_all add: drop_wal_stream f(7))
  with f show thesis by (intro that [of f]) simp_all
qed

lemma map_seg_bytes:
  "map (\<lambda>i. Some (seg_bytes crc compress opts segs i)) [Suc k..<Suc (length segs)] =
    map (\<lambda>rs. Some (log_bytes crc compress opts rs)) (map (\<lambda>seg. concat (map op_records seg)) (drop k segs))"
  by (rule nth_equalityI) (simp_all add: seg_bytes_def del: upt_Suc)

section \<open>Properties\<close>

text \<open>
  C26: nothing is lost in the segments. From empty directories, after any appends, batches and
  syncs, with every rotation and archiving they cause, the closed manager's files give all
  records back: point-in-time recovery over the log and the archive directory returns exactly
  the records up to the target, in order; recovery of the log directory alone returns, in
  order, those of the segments not archived, which are all if nothing is archived.
\<close>

theorem segments_recover_everything:
  assumes "lz4_ok compress decompress" "list_all record_ok (concat (map op_records ops))"
    "length ops < 2 ^ 62" "sum_list (map op_size ops) < 2 ^ 62" "min_segments_to_keep opts < 2 ^ 62"
    "m = run_wal_ops crc compress opts ops"
  shows "recover_pitr crc decompress (manager_files m) (wm_archive m) t =
      Ok (filter (\<lambda>r. rec_timestamp r \<le> t) (concat (map op_records ops))) \<and>
    (\<exists>old kept. concat (map op_records ops) = old @ kept \<and> (archiving opts \<or> old = []) \<and>
      recover_from_timestamp crc decompress (manager_files m) t = Ok (filter (\<lambda>r. t \<le> rec_timestamp r) kept))"
proof -
  let ?recs = "\<lambda>segs. map (\<lambda>seg. concat (map op_records seg)) segs" and ?o = "wmo_wal_options opts"
  obtain segs where segs: "seg_inv crc compress opts segs m" "length segs \<le> Suc (length ops)"
    "concat segs = filter (\<lambda>p. p \<noteq> SyncLog) ops"
    using run_wal_ops_ok [OF assms(3,4,5)] assms(6) by blast
  have all: "concat (?recs segs) = concat (map op_records ops)"
    using segs(3) by (simp add: concat_records records_without_syncs)
  have ok: "list_all (list_all record_ok) (?recs segs)"
    using assms(2) unfolding all [symmetric] by (auto simp: list_all_iff)
  have room: "Suc (length segs) < 2 ^ 63" using segs(2) assms(3) by simp
  obtain f where f: "first_segment m = of_nat f" "1 \<le> f" "f \<le> length segs"
    "holds (manager_files m) f (Suc (length segs)) (seg_bytes crc compress ?o segs)"
    "holds (wm_archive m) 1 f (seg_bytes crc compress ?o segs)"
    using closed_files [OF segs(1) room] by blast
  have pitr: "recover_pitr crc decompress (manager_files m) (wm_archive m) t =
      Ok (filter (\<lambda>r. rec_timestamp r \<le> t) (concat (map op_records ops)))"
    using recover_files_logs [OF assms(1) ok, of crc _ ?o] map_seg_bytes [of crc compress ?o segs 0]
      sort_both [OF f(5,4,2)] f(3)
    by (simp add: recover_pitr_def comp_def all del: upt_Suc)
  obtain g where g: "f = Suc g" using f(2) by (cases f) simp_all
  let ?old = "concat (?recs (take g segs))" and ?kept = "concat (?recs (drop g segs))"
  have "concat (?recs (take g segs @ drop g segs)) = ?old @ ?kept" by (simp only: map_append concat_append)
  then have split: "concat (map op_records ops) = ?old @ ?kept" using all by simp
  have "list_all (list_all record_ok) (?recs (drop g segs))"
    using ok by (auto simp: list_all_iff dest: in_set_dropD)
  note logs = recover_files_logs [OF assms(1) this, of crc "\<lambda>r. t \<le> rec_timestamp r" ?o]
  have "map (\<lambda>i. hm_get (manager_files m) (segment_name i)) (sort (listed_segments (manager_files m))) =
      map (\<lambda>i. Some (seg_bytes crc compress ?o segs i)) [f..<Suc (length segs)]"
    unfolding sort_listed [OF f(4)] map_map using holds_get [OF f(4)] room by (intro map_cong) auto
  also have "\<dots> = map (\<lambda>rs. Some (log_bytes crc compress ?o rs)) (?recs (drop g segs))"
    unfolding g by (rule map_seg_bytes)
  finally have rec: "recover_from_timestamp crc decompress (manager_files m) t =
      Ok (filter (\<lambda>r. t \<le> rec_timestamp r) ?kept)"
    using logs by (simp only: recover_from_timestamp_def)
  have "archiving opts \<or> ?old = []"
  proof (cases "archiving opts")
    case False
    then have "(of_nat f :: u64) = of_nat 1" using never_archived f(1) assms(6) by simp
    moreover have "f < 2 ^ 64" using f(3) room by simp
    ultimately have "f = 1" using of_nat_u64_inj [of f 1] by simp
    then show ?thesis using g by simp
  qed simp
  with pitr rec split show ?thesis by blast
qed

lemma segments_recover_everything_witness:
  "\<exists>opts m. min_segments_to_keep opts = 1 \<and> archiving opts \<and> segment_size_bytes opts = 40 \<and>
     m = run_wal_ops sum_crc stored_block opts
       [AppendOne (put_record [1] [2, 3] 1), AppendBatch [delete_record [1] 2, put_record [4] [5] 3], SyncLog] \<and>
     recover_pitr sum_crc load_stored_block (manager_files m) (wm_archive m) 2 =
       Ok [put_record [1] [2, 3] 1, delete_record [1] 2]"
proof -
  let ?opts = "default_manager_options\<lparr>min_segments_to_keep := 1, archiving := True, segment_size_bytes := 40\<rparr>"
  let ?ops = "[AppendOne (put_record [1] [2, 3] 1), AppendBatch [delete_record [1] 2, put_record [4] [5] 3], SyncLog]"
  have "list_all record_ok (concat (map op_records ?ops))"
    by (simp add: record_ok_def put_record_def delete_record_def)
  moreover have "sum_list (map op_size ?ops) < 2 ^ 62"
    by (simp add: op_size_def estimated_size_def put_record_def delete_record_def)
  moreover have "min_segments_to_keep ?opts < 2 ^ 62" "length ?ops < 2 ^ 62" by simp_all
  ultimately have "recover_pitr sum_crc load_stored_block (manager_files (run_wal_ops sum_crc stored_block ?opts ?ops))
      (wm_archive (run_wal_ops sum_crc stored_block ?opts ?ops)) 2 =
      Ok (filter (\<lambda>r. rec_timestamp r \<le> 2) (concat (map op_records ?ops)))"
    using segments_recover_everything [OF lz4_ok_stored_block _ _ _ _ refl] by blast
  then show ?thesis
    by (intro exI [of _ ?opts] exI [of _ "run_wal_ops sum_crc stored_block ?opts ?ops"])
      (simp add: put_record_def delete_record_def)
qed

text \<open>
  C27: the segments stay within the size limit. From empty directories, after any operations
  whose sizes add up to less than \<open>2 ^ 62\<close>, the size kept for the segment being written is not
  below what was written to it, and every file of the log and of the archive directory is no
  longer than the limit, unless it holds the records of a single append or batch.
\<close>

theorem segments_within_limit:
  assumes "length ops < 2 ^ 62" "sum_list (map op_size ops) < 2 ^ 62" "min_segments_to_keep opts < 2 ^ 62"
    "m = run_wal_ops crc compress opts ops"
  shows "length (drop_wal (current_wal m)) \<le> unat (current_size m) \<and>
    (\<forall>(name, c) \<in> set (manager_files m) \<union> set (wm_archive m). length c \<le> unat (segment_size_bytes opts) \<or>
       (\<exists>p \<in> set ops. c = log_bytes crc compress (wmo_wal_options opts) (op_records p)))"
proof -
  obtain segs where segs: "seg_inv crc compress opts segs m"
    "sizes_inv crc compress opts (sum_list (map op_size ops)) segs m" "length segs \<le> Suc (length ops)"
    "concat segs = filter (\<lambda>p. p \<noteq> SyncLog) ops"
    using run_wal_ops_ok [OF assms(1-3)] assms(4) by blast
  have room: "Suc (length segs) < 2 ^ 63" using segs(3) assms(1) by simp
  obtain f where f: "1 \<le> f" "f \<le> length segs"
    "holds (manager_files m) f (Suc (length segs)) (seg_bytes crc compress (wmo_wal_options opts) segs)"
    "holds (wm_archive m) 1 f (seg_bytes crc compress (wmo_wal_options opts) segs)"
    using closed_files [OF segs(1) room] by blast
  have seg: "length (seg_bytes crc compress (wmo_wal_options opts) segs i) \<le> unat (segment_size_bytes opts) \<or>
      (\<exists>p \<in> set ops. seg_bytes crc compress (wmo_wal_options opts) segs i =
         log_bytes crc compress (wmo_wal_options opts) (op_records p))" if "1 \<le> i" "i < Suc (length segs)" for i
  proof -
    have mem: "segs ! (i - 1) \<in> set segs" using that by (intro nth_mem) simp
    then have "seg_length crc compress opts (segs ! (i - 1)) \<le> unat (segment_size_bytes opts) \<or> length (segs ! (i - 1)) \<le> 1"
      using segs(2) unfolding sizes_inv_def by blast
    then consider "seg_length crc compress opts (segs ! (i - 1)) \<le> unat (segment_size_bytes opts)"
      | "segs ! (i - 1) = []" | p where "segs ! (i - 1) = [p]"
      by (cases "segs ! (i - 1)") auto
    then show ?thesis
    proof cases
      case (3 p)
      then have "p \<in> set (concat segs)" using mem by force
      then show ?thesis using segs(4) 3 by (auto simp: seg_bytes_def)
    qed (auto simp: seg_length_def seg_bytes_def)
  qed
  have "length c \<le> unat (segment_size_bytes opts) \<or>
       (\<exists>p \<in> set ops. c = log_bytes crc compress (wmo_wal_options opts) (op_records p))"
    if "(name, c) \<in> set (manager_files m) \<union> set (wm_archive m)" for name c
  proof -
    from that obtain i where "f \<le> i \<and> i < Suc (length segs) \<or> 1 \<le> i \<and> i < f"
      and c: "c = seg_bytes crc compress (wmo_wal_options opts) segs i"
      unfolding Un_iff holds_entry [OF f(3)] holds_entry [OF f(4)] by blast
    then have "1 \<le> i" "i < Suc (length segs)" using f(1,2) by auto
    from seg [OF this] show ?thesis unfolding c .
  qed
  moreover have "length (drop_wal (current_wal m)) \<le> unat (current_size m)"
    using segs(2) by (simp add: sizes_inv_def drop_wal_stream)
  ultimately show ?thesis by blast
qed

lemma segments_within_limit_witness:
  "\<exists>m. m = run_wal_ops sum_crc stored_block (default_manager_options\<lparr>segment_size_bytes := 40\<rparr>)
       [AppendOne (put_record [1] [2, 3] 1), AppendOne (put_record [4] [5] 3)] \<and>
     length (drop_wal (current_wal m)) \<le> unat (current_size m)"
proof -
  have "sum_list (map op_size [AppendOne (put_record [1] [2, 3] 1), AppendOne (put_record [4] [5] 3)]) < 2 ^ 62"
    by (simp add: op_size_def estimated_size_def put_record_def)
  from segments_within_limit [OF _ this _ refl, of "default_manager_options\<lparr>segment_size_bytes := 40\<rparr>" sum_crc stored_block]
  show ?thesis by (simp add: default_manager_options_def)
qed

text \<open>A batch that rotates is counted twice, so its segment is closed at half of the limit.\<close>

lemma rotating_batch_counted_twice:
  assumes "\<not> within_segment m (sum_list (map estimated_size rs))" "\<not> archiving (wm_options m)"
  shows "current_size (manager_append_batch crc compress rs m) = 2 * of_nat (sum_list (map estimated_size rs))"
  using assms by (simp add: manager_append_batch_def count_bytes_def rotate_segment_def Let_def)

end
