(* ===== verification/Deadlock.thy ===== *)
theory Deadlock
  imports Prelude
begin

text \<open>
  \<open>crabstash-lock/src/deadlock.rs\<close>: the wait-for graph, the search for a cycle (Tarjan's
  strongly connected components) and the choice of the victim. The detector threads that run
  \<open>detect_deadlock\<close> are modelled in \<open>Detector\<close>.
\<close>

record txn_info =
  ti_start_ts :: ts
  ti_lock_count :: nat
  ti_priority :: u32

text \<open>\<open>-1\<close> is \<open>u32::MAX\<close>.\<close>

definition default_txn_info :: txn_info where
  "default_txn_info = \<lparr>ti_start_ts = 0, ti_lock_count = 0, ti_priority = - 1\<rparr>"

record wait_graph =
  wg_edges :: "(txn_id, txn_id list) hmap"
  wg_txn_info :: "(txn_id, txn_info) hmap"

definition new_graph :: wait_graph where
  "new_graph = \<lparr>wg_edges = [], wg_txn_info = []\<rparr>"

definition graph_register :: "txn_id \<Rightarrow> ts \<Rightarrow> u32 \<Rightarrow> wait_graph \<Rightarrow> wait_graph" where
  "graph_register txn_id start_ts priority g =
     g\<lparr>wg_txn_info := hm_insert txn_id
         \<lparr>ti_start_ts = start_ts, ti_lock_count = 0, ti_priority = priority\<rparr> (wg_txn_info g)\<rparr>"

definition graph_unregister :: "txn_id \<Rightarrow> wait_graph \<Rightarrow> wait_graph" where
  "graph_unregister txn_id g =
     \<lparr>wg_edges = map (\<lambda>(w, hs). (w, hs_remove txn_id hs)) (hm_remove txn_id (wg_edges g)),
      wg_txn_info = hm_remove txn_id (wg_txn_info g)\<rparr>"

definition add_wait_edge :: "txn_id \<Rightarrow> txn_id \<Rightarrow> wait_graph \<Rightarrow> wait_graph" where
  "add_wait_edge waiter holder g =
     (if waiter = holder then g
      else g\<lparr>wg_edges := hm_insert waiter
               (hs_insert holder (case hm_get (wg_edges g) waiter of Some hs \<Rightarrow> hs | None \<Rightarrow> []))
               (wg_edges g)\<rparr>)"

definition remove_wait_edge :: "txn_id \<Rightarrow> txn_id \<Rightarrow> wait_graph \<Rightarrow> wait_graph" where
  "remove_wait_edge waiter holder g =
     (case hm_get (wg_edges g) waiter of
        Some hs \<Rightarrow>
          let hs' = hs_remove holder hs in
          g\<lparr>wg_edges := (if hs' = [] then hm_remove waiter (wg_edges g)
                         else hm_insert waiter hs' (wg_edges g))\<rparr>
      | None \<Rightarrow> g)"

definition remove_all_waits :: "txn_id \<Rightarrow> wait_graph \<Rightarrow> wait_graph" where
  "remove_all_waits waiter g = g\<lparr>wg_edges := hm_remove waiter (wg_edges g)\<rparr>"

definition increment_lock_count :: "txn_id \<Rightarrow> wait_graph \<Rightarrow> wait_graph" where
  "increment_lock_count txn_id g =
     (case hm_get (wg_txn_info g) txn_id of
        Some info \<Rightarrow> g\<lparr>wg_txn_info := hm_insert txn_id
            (info\<lparr>ti_lock_count := ti_lock_count info + 1\<rparr>) (wg_txn_info g)\<rparr>
      | None \<Rightarrow> g)"

definition decrement_lock_count :: "txn_id \<Rightarrow> wait_graph \<Rightarrow> wait_graph" where
  "decrement_lock_count txn_id g =
     (case hm_get (wg_txn_info g) txn_id of
        Some info \<Rightarrow> g\<lparr>wg_txn_info := hm_insert txn_id
            (info\<lparr>ti_lock_count := ti_lock_count info - 1\<rparr>) (wg_txn_info g)\<rparr>
      | None \<Rightarrow> g)"

section \<open>Strongly connected components\<close>

text \<open>The stack has its top at the head.\<close>

record tarjan_state =
  index_counter :: nat
  tj_stack :: "txn_id list"
  indices :: "(txn_id, nat) hmap"
  lowlinks :: "(txn_id, nat) hmap"
  on_stack :: "txn_id list"
  sccs :: "txn_id list list"

definition new_tarjan :: tarjan_state where
  "new_tarjan = \<lparr>index_counter = 0, tj_stack = [], indices = [], lowlinks = [], on_stack = [], sccs = []\<rparr>"

definition enter_vertex :: "txn_id \<Rightarrow> tarjan_state \<Rightarrow> tarjan_state" where
  "enter_vertex v st =
     st\<lparr>indices := hm_insert v (index_counter st) (indices st),
        lowlinks := hm_insert v (index_counter st) (lowlinks st),
        index_counter := index_counter st + 1,
        tj_stack := v # tj_stack st,
        on_stack := hs_insert v (on_stack st)\<rparr>"

text \<open>\<open>*low_v = (*low_v).min(n)\<close>; the \<open>unwrap\<close> of a missing entry panics (\<open>None\<close>).\<close>

definition lower_link :: "txn_id \<Rightarrow> nat option \<Rightarrow> tarjan_state \<Rightarrow> tarjan_state option" where
  "lower_link v n st =
     (case (n, hm_get (lowlinks st) v) of
        (Some m, Some low) \<Rightarrow> Some (st\<lparr>lowlinks := hm_insert v (min low m) (lowlinks st)\<rparr>)
      | _ \<Rightarrow> None)"

fun pop_component ::
  "txn_id \<Rightarrow> txn_id list \<Rightarrow> txn_id list \<Rightarrow> txn_id list \<Rightarrow> (txn_id list \<times> txn_id list \<times> txn_id list) option" where
  "pop_component v [] onst scc = None"
| "pop_component v (w # stk) onst scc =
     (if w = v then Some (stk, hs_remove w onst, scc @ [w])
      else pop_component v stk (hs_remove w onst) (scc @ [w]))"

definition close_vertex :: "txn_id \<Rightarrow> tarjan_state \<Rightarrow> tarjan_state option" where
  "close_vertex v st =
     (case (hm_get (lowlinks st) v, hm_get (indices st) v) of
        (Some low, Some idx) \<Rightarrow>
          if low = idx then
            map_option (\<lambda>(stk, onst, scc).
                st\<lparr>tj_stack := stk, on_stack := onst, sccs := sccs st @ [scc]\<rparr>)
              (pop_component v (tj_stack st) (on_stack st) [])
          else Some st
      | _ \<Rightarrow> None)"

text \<open>\<open>self.edges.get(&v)\<close>, with nothing to visit when it is missing.\<close>

definition successors :: "(txn_id, txn_id list) hmap \<Rightarrow> txn_id \<Rightarrow> txn_id list" where
  "successors edges v = (case hm_get edges v of Some hs \<Rightarrow> hs | None \<Rightarrow> [])"

text \<open>
  The recursion of \<open>strongconnect\<close>: \<open>todo\<close> are the successors of \<open>v\<close> the \<open>for\<close> loop has still
  to visit. \<open>None\<close>: a panic, or no return.
\<close>

partial_function (option) connect_loop ::
  "(txn_id, txn_id list) hmap \<Rightarrow> txn_id \<Rightarrow> txn_id list \<Rightarrow> tarjan_state \<Rightarrow> tarjan_state option" where
  "connect_loop edges v todo st =
     (case todo of
        [] \<Rightarrow> close_vertex v st
      | w # ws \<Rightarrow>
          if hm_get (indices st) w = None then
            Option.bind
              (connect_loop edges w (successors edges w) (enter_vertex w st))
              (\<lambda>st1. Option.bind (lower_link v (hm_get (lowlinks st1) w) st1)
                 (connect_loop edges v ws))
          else if w \<in> set (on_stack st) then
            Option.bind (lower_link v (hm_get (indices st) w) st) (connect_loop edges v ws)
          else connect_loop edges v ws st)"

definition strongconnect ::
  "(txn_id, txn_id list) hmap \<Rightarrow> txn_id \<Rightarrow> tarjan_state \<Rightarrow> tarjan_state option" where
  "strongconnect edges v st =
     connect_loop edges v (successors edges v) (enter_vertex v st)"

fun connect_all ::
  "(txn_id, txn_id list) hmap \<Rightarrow> txn_id list \<Rightarrow> tarjan_state \<Rightarrow> tarjan_state option" where
  "connect_all edges [] st = Some st"
| "connect_all edges (v # vs) st =
     (if hm_get (indices st) v = None
      then Option.bind (strongconnect edges v st) (connect_all edges vs)
      else connect_all edges vs st)"

section \<open>Victims\<close>

definition victim_order :: "txn_info \<Rightarrow> txn_info \<Rightarrow> ordering" where
  "victim_order a b =
     then_ordering (reverse_ordering (cmp (ti_priority a) (ti_priority b)))
       (then_ordering (reverse_ordering (cmp (ti_start_ts a) (ti_start_ts b)))
         (cmp (ti_lock_count a) (ti_lock_count b)))"

text \<open>\<open>sort_by\<close> is stable, so its first element is the first one no other precedes.\<close>

fun first_least :: "('a \<Rightarrow> 'a \<Rightarrow> ordering) \<Rightarrow> 'a \<Rightarrow> 'a list \<Rightarrow> 'a" where
  "first_least f m [] = m"
| "first_least f m (x # xs) = first_least f (if f x m = Less then x else m) xs"

definition select_victims :: "(txn_id, txn_info) hmap \<Rightarrow> txn_id list \<Rightarrow> txn_id list option" where
  "select_victims infos cycle =
     (let candidates = List.map_filter (\<lambda>id. map_option (\<lambda>info. (id, info)) (hm_get infos id)) cycle in
      case candidates of
        c # cs \<Rightarrow> Some [fst (first_least (\<lambda>a b. victim_order (snd a) (snd b)) c cs)]
      | [] \<Rightarrow> (case cycle of v # _ \<Rightarrow> Some [v] | [] \<Rightarrow> None))"

text \<open>The answer of \<open>detect_deadlock\<close>, behind the \<open>None\<close> of a panic or of no return.\<close>

definition detect_deadlock :: "wait_graph \<Rightarrow> txn_id list option option" where
  "detect_deadlock g =
     Option.bind (connect_all (wg_edges g) (map fst (wg_edges g)) new_tarjan) (\<lambda>st.
       case filter (\<lambda>scc. length scc > 1) (sccs st) of
         [] \<Rightarrow> Some None
       | scc # _ \<Rightarrow> map_option Some (select_victims (wg_txn_info g) scc))"

end
