(* ===== verification/Deadlock_Search.thy ===== *)
theory Deadlock_Search
  imports Deadlock
begin

text \<open>
  Correctness of the cycle search of \<open>deadlock.rs\<close>: Tarjan's algorithm on the wait-for graph
  returns, never panics, and its components are exactly the classes of mutually reachable
  transactions. The victim then lies on a cycle whenever there is one.
\<close>

section \<open>Reachability in the wait-for graph\<close>

definition waits :: "(txn_id, txn_id list) hmap \<Rightarrow> (txn_id \<times> txn_id) set" where
  "waits edges = {(v, w). w \<in> set (successors edges v)}"

definition vertices :: "(txn_id, txn_id list) hmap \<Rightarrow> txn_id set" where
  "vertices edges = set (map fst edges) \<union> (\<Union>v \<in> set (map fst edges). set (successors edges v))"

lemma finite_vertices [simp]: "finite (vertices edges)"
  by (simp add: vertices_def)

lemma successors_vertices: "w \<in> set (successors edges v) \<Longrightarrow> v \<in> set (map fst edges) \<and> w \<in> vertices edges"
proof -
  assume w: "w \<in> set (successors edges v)"
  then have "hm_get edges v \<noteq> None"
    by (cases "hm_get edges v") (auto simp: successors_def)
  then have "v \<in> set (map fst edges)"
    by (simp add: map_of_eq_None_iff)
  with w show ?thesis by (auto simp: vertices_def)
qed

lemma waits_iff [simp]: "(v, w) \<in> waits edges \<longleftrightarrow> w \<in> set (successors edges v)"
  by (simp add: waits_def)

abbreviation reaches :: "(txn_id, txn_id list) hmap \<Rightarrow> txn_id \<Rightarrow> txn_id \<Rightarrow> bool" where
  "reaches edges v w \<equiv> (v, w) \<in> (waits edges)\<^sup>*"

text \<open>A class of mutually reachable vertices.\<close>

definition component :: "(txn_id, txn_id list) hmap \<Rightarrow> txn_id set \<Rightarrow> bool" where
  "component edges C \<longleftrightarrow> (\<forall>x \<in> C. \<forall>y. y \<in> C \<longleftrightarrow> reaches edges x y \<and> reaches edges y x)"

lemma closed_reaches:
  assumes "reaches edges x y" "x \<in> A" "\<And>z. z \<in> A \<Longrightarrow> set (successors edges z) \<subseteq> A"
  shows "y \<in> A"
  using assms by (induction rule: rtrancl_induct) auto

section \<open>The invariant of the search\<close>

definition visited :: "tarjan_state \<Rightarrow> txn_id set" where
  "visited st = dom (hm_get (indices st))"

definition lowered :: "tarjan_state \<Rightarrow> txn_id set" where
  "lowered st = dom (hm_get (lowlinks st))"

abbreviation num :: "tarjan_state \<Rightarrow> txn_id \<Rightarrow> nat" where
  "num st v \<equiv> the (hm_get (indices st) v)"

abbreviation low :: "tarjan_state \<Rightarrow> txn_id \<Rightarrow> nat" where
  "low st v \<equiv> the (hm_get (lowlinks st) v)"

text \<open>
  The vertices of \<open>calls\<close> are those whose call has not ended. The stack is ordered by index;
  a vertex of it reaches a call below it, and is reached from every call below it.
\<close>

definition stack_ok :: "tarjan_state \<Rightarrow> bool" where
  "stack_ok st \<longleftrightarrow>
     sorted_wrt (\<lambda>a b. num st b < num st a) (tj_stack st) \<and>
     set (on_stack st) = set (tj_stack st) \<and> set (tj_stack st) \<subseteq> visited st \<and>
     visited st = lowered st \<and> (\<forall>v \<in> visited st. num st v < index_counter st)"

definition explored_ok :: "(txn_id, txn_id list) hmap \<Rightarrow> txn_id set \<Rightarrow> tarjan_state \<Rightarrow> bool" where
  "explored_ok edges calls st \<longleftrightarrow>
     calls \<subseteq> set (tj_stack st) \<and> visited st \<subseteq> vertices edges \<and>
     (\<forall>v \<in> visited st - calls. set (successors edges v) \<subseteq> visited st) \<and>
     (\<forall>v \<in> visited st - set (tj_stack st).
        set (successors edges v) \<subseteq> visited st - set (tj_stack st))"

definition linked_ok :: "(txn_id, txn_id list) hmap \<Rightarrow> txn_id set \<Rightarrow> tarjan_state \<Rightarrow> bool" where
  "linked_ok edges calls st \<longleftrightarrow>
     (\<forall>x \<in> set (tj_stack st). \<forall>y \<in> calls. num st y \<le> num st x \<longrightarrow> reaches edges y x) \<and>
     (\<forall>x \<in> set (tj_stack st). \<exists>y \<in> calls. num st y \<le> num st x \<and> reaches edges x y)"

definition sccs_ok :: "(txn_id, txn_id list) hmap \<Rightarrow> tarjan_state \<Rightarrow> bool" where
  "sccs_ok edges st \<longleftrightarrow>
     (\<forall>C \<in> set (sccs st). component edges (set C) \<and> distinct C) \<and>
     \<Union> (set ` set (sccs st)) = visited st - set (tj_stack st)"

definition search_ok :: "(txn_id, txn_id list) hmap \<Rightarrow> txn_id set \<Rightarrow> tarjan_state \<Rightarrow> bool" where
  "search_ok edges calls st \<longleftrightarrow>
     stack_ok st \<and> explored_ok edges calls st \<and> linked_ok edges calls st \<and> sccs_ok edges st"

text \<open>A call on \<open>v\<close> after the edges \<open>finished\<close>: what its low link bounds.\<close>

definition call_ok ::
  "(txn_id, txn_id list) hmap \<Rightarrow> txn_id \<Rightarrow> txn_id list \<Rightarrow> txn_id list \<Rightarrow> txn_id set \<Rightarrow> tarjan_state \<Rightarrow> bool" where
  "call_ok edges v up down finished st \<longleftrightarrow>
     tj_stack st = up @ v # down \<and> finished \<subseteq> visited st \<and>
     low st v \<le> num st v \<and>
     (\<exists>z \<in> set (tj_stack st). num st z = low st v \<and> reaches edges v z) \<and>
     (\<forall>a \<in> set up. \<forall>b \<in> set (successors edges a) \<inter> set down. low st v \<le> num st b) \<and>
     (\<forall>b \<in> finished \<inter> set down. low st v \<le> num st b)"

text \<open>What the end of a call leaves: everything known before is kept.\<close>

definition keeps :: "txn_id \<Rightarrow> tarjan_state \<Rightarrow> tarjan_state \<Rightarrow> bool" where
  "keeps v st st' \<longleftrightarrow> visited st \<subseteq> visited st' \<and>
     (\<forall>x \<in> visited st. num st' x = num st x \<and> (x \<noteq> v \<longrightarrow> low st' x = low st x))"

definition ended ::
  "(txn_id, txn_id list) hmap \<Rightarrow> txn_id \<Rightarrow> txn_id list \<Rightarrow> tarjan_state \<Rightarrow> bool" where
  "ended edges v down st \<longleftrightarrow>
     (tj_stack st = down \<and> low st v = num st v) \<or>
     (\<exists>up. tj_stack st = up @ down \<and> v \<in> set up \<and>
        (\<exists>z \<in> set down. num st z = low st v \<and> reaches edges v z) \<and>
        (\<forall>a \<in> set up. \<forall>b \<in> set (successors edges a) \<inter> set down. low st v \<le> num st b))"


lemma keeps_refl [simp]: "keeps v st st"
  by (simp add: keeps_def)

lemma keeps_trans: "keeps v a b \<Longrightarrow> keeps v b c \<Longrightarrow> keeps v a c"
  unfolding keeps_def by (metis (no_types, lifting) subset_iff)

lemma keeps_fresh: "keeps v a b \<Longrightarrow> keeps w b c \<Longrightarrow> w \<notin> visited a \<Longrightarrow> keeps v a c"
  unfolding keeps_def by (metis (no_types, lifting) subset_iff)

lemma stack_okD:
  assumes "stack_ok st"
  shows "sorted_wrt (\<lambda>a b. num st b < num st a) (tj_stack st)"
    "set (on_stack st) = set (tj_stack st)" "set (tj_stack st) \<subseteq> visited st"
    "visited st = lowered st"
    "v \<in> visited st \<Longrightarrow> num st v < index_counter st"
  using assms unfolding stack_ok_def by blast+

lemma explored_okD:
  assumes "explored_ok edges calls st"
  shows "calls \<subseteq> set (tj_stack st)" "visited st \<subseteq> vertices edges"
    "v \<in> visited st \<Longrightarrow> v \<notin> calls \<Longrightarrow> set (successors edges v) \<subseteq> visited st"
    "v \<in> visited st \<Longrightarrow> v \<notin> set (tj_stack st) \<Longrightarrow>
       set (successors edges v) \<subseteq> visited st - set (tj_stack st)"
  using assms unfolding explored_ok_def by simp_all

lemma linked_okD:
  assumes "linked_ok edges calls st" "x \<in> set (tj_stack st)"
  shows "y \<in> calls \<Longrightarrow> num st y \<le> num st x \<Longrightarrow> reaches edges y x"
    "\<exists>y \<in> calls. num st y \<le> num st x \<and> reaches edges x y"
  using assms unfolding linked_ok_def by simp_all

lemmas search_okD = stack_okD explored_okD linked_okD

lemma search_ok_parts:
  assumes "search_ok edges calls st"
  shows "stack_ok st" "explored_ok edges calls st" "linked_ok edges calls st" "sccs_ok edges st"
  using assms unfolding search_ok_def by simp_all

section \<open>Entering a vertex\<close>

lemma enter_simps [simp]:
  "tj_stack (enter_vertex w st) = w # tj_stack st"
  "set (on_stack (enter_vertex w st)) = insert w (set (on_stack st))"
  "visited (enter_vertex w st) = insert w (visited st)"
  "lowered (enter_vertex w st) = insert w (lowered st)"
  "index_counter (enter_vertex w st) = index_counter st + 1"
  "sccs (enter_vertex w st) = sccs st"
  "num (enter_vertex w st) v = (if v = w then index_counter st else num st v)"
  "low (enter_vertex w st) v = (if v = w then index_counter st else low st v)"
  by (auto simp: enter_vertex_def dom_def visited_def lowered_def)

lemma enter_keeps: "w \<notin> visited st \<Longrightarrow> keeps v st (enter_vertex w st)"
  by (auto simp: keeps_def)

lemma enter_ok:
  assumes "search_ok edges calls st" "w \<notin> visited st" "w \<in> vertices edges"
    "\<And>y. y \<in> calls \<Longrightarrow> reaches edges y w"
  shows "search_ok edges (insert w calls) (enter_vertex w st)"
    and "call_ok edges w [] (tj_stack st) {} (enter_vertex w st)"
proof -
  note ok = search_ok_parts [OF assms(1)]
  note st = stack_okD [OF ok(1)] and ex = explored_okD [OF ok(2)] and link = linked_okD [OF ok(3)]
  have new: "w \<notin> set (tj_stack st)" "w \<notin> calls" using assms(2) st(3) ex(1) by auto
  have lt: "num st x < index_counter st" if "x \<in> set (tj_stack st)" for x
    using st(3,5) that by blast
  have sorted: "sorted_wrt (\<lambda>a b. num (enter_vertex w st) b < num (enter_vertex w st) a) (tj_stack st)"
    using st(1) by (rule sorted_wrt_mono_rel [rotated]) (use new in auto)
  have "stack_ok (enter_vertex w st)"
    unfolding stack_ok_def using sorted lt new st(2-4)
    by (auto intro!: less_SucI st(5))
  moreover have "explored_ok edges (insert w calls) (enter_vertex w st)"
    unfolding explored_ok_def using ex assms(2,3) by auto
  moreover have "linked_ok edges (insert w calls) (enter_vertex w st)"
    unfolding linked_ok_def
  proof (intro conjI ballI impI)
    fix x y assume xy: "x \<in> set (tj_stack (enter_vertex w st))" "y \<in> insert w calls"
      "num (enter_vertex w st) y \<le> num (enter_vertex w st) x"
    show "reaches edges y x"
    proof (cases "x = w")
      case True with xy assms(4) show ?thesis by auto
    next
      case False
      with xy lt [of x] link(1) [of x y] show ?thesis by (auto split: if_splits)
    qed
  next
    fix x assume x: "x \<in> set (tj_stack (enter_vertex w st))"
    show "\<exists>y \<in> insert w calls. num (enter_vertex w st) y \<le> num (enter_vertex w st) x \<and> reaches edges x y"
    proof (cases "x = w")
      case False
      with x link(2) [of x] obtain y where "y \<in> calls" "num st y \<le> num st x" "reaches edges x y"
        by auto
      with False new show ?thesis by (intro bexI [of _ y]) auto
    qed simp
  qed
  moreover have "sccs_ok edges (enter_vertex w st)"
    using ok(4) assms(2) new unfolding sccs_ok_def by auto
  ultimately show "search_ok edges (insert w calls) (enter_vertex w st)"
    unfolding search_ok_def by blast
  show "call_ok edges w [] (tj_stack st) {} (enter_vertex w st)"
    by (auto simp: call_ok_def)
qed

section \<open>Lowering a link\<close>

definition lowered_to :: "txn_id \<Rightarrow> nat \<Rightarrow> tarjan_state \<Rightarrow> tarjan_state" where
  "lowered_to v m st = st\<lparr>lowlinks := hm_insert v (min (low st v) m) (lowlinks st)\<rparr>"

lemma lower_link_Some: "v \<in> lowered st \<Longrightarrow> lower_link v (Some m) st = Some (lowered_to v m st)"
  by (auto simp: lower_link_def lowered_to_def lowered_def)

lemma lowered_to_simps [simp]:
  "tj_stack (lowered_to v m st) = tj_stack st"
  "on_stack (lowered_to v m st) = on_stack st"
  "visited (lowered_to v m st) = visited st"
  "index_counter (lowered_to v m st) = index_counter st"
  "sccs (lowered_to v m st) = sccs st"
  "hm_get (indices (lowered_to v m st)) = hm_get (indices st)"
  "low (lowered_to v m st) x = (if x = v then min (low st v) m else low st x)"
  by (simp_all add: lowered_to_def visited_def)

lemma lowered_lowered_to [simp]: "v \<in> lowered st \<Longrightarrow> lowered (lowered_to v m st) = lowered st"
  by (auto simp: lowered_to_def lowered_def dom_if split: if_splits)

lemma search_ok_lowered_to [simp]:
  "v \<in> lowered st \<Longrightarrow> search_ok edges calls (lowered_to v m st) = search_ok edges calls st"
  by (simp add: search_ok_def stack_ok_def explored_ok_def linked_ok_def sccs_ok_def)

lemma keeps_lowered_to: "keeps v st (lowered_to v m st)"
  by (simp add: keeps_def)

section \<open>Closing a vertex\<close>

lemma pop_component_stack:
  "v \<notin> set up \<Longrightarrow> \<exists>onst'. pop_component v (up @ v # down) onst scc = Some (down, onst', scc @ up @ [v]) \<and>
     set onst' = set onst - insert v (set up)"
proof (induction up arbitrary: onst scc)
  case (Cons a up)
  from Cons.IH [of "hs_remove a onst" "scc @ [a]"] Cons.prems show ?case by auto
qed simp

lemma sorted_wrt_distinct: "sorted_wrt (\<lambda>a b. (f b :: nat) < f a) xs \<Longrightarrow> distinct xs"
  by (induction xs) auto

lemma call_stack:
  assumes "stack_ok st" "tj_stack st = up @ v # down"
  shows "x \<in> set up \<Longrightarrow> num st v < num st x" "x \<in> set down \<Longrightarrow> num st x < num st v"
    "v \<notin> set up" "v \<notin> set down" "set up \<inter> set down = {}"
proof -
  have sorted: "sorted_wrt (\<lambda>a b. num st b < num st a) (up @ v # down)"
    using assms by (simp add: stack_ok_def)
  then show up: "x \<in> set up \<Longrightarrow> num st v < num st x" for x by (simp add: sorted_wrt_append)
  from sorted show down: "x \<in> set down \<Longrightarrow> num st x < num st v" for x
    by (simp add: sorted_wrt_append)
  show "v \<notin> set up" "v \<notin> set down" using up [of v] down [of v] by auto
  show "set up \<inter> set down = {}" using up down by fastforce
qed

text \<open>When the low link of \<open>v\<close> is its index, the part of the stack from \<open>v\<close> up is a component.\<close>

lemma top_is_component:
  assumes "search_ok edges calls st" "call_ok edges v up down (set (successors edges v)) st"
    "v \<in> calls" "\<And>y. y \<in> calls \<Longrightarrow> num st y \<le> num st v" "low st v = num st v"
  shows "component edges (insert v (set up))"
    and "\<And>x. x \<in> insert v (set up) \<Longrightarrow>
           set (successors edges x) \<subseteq> visited st - set down"
proof -
  note ok = search_ok_parts [OF assms(1)]
  note st = stack_okD [OF ok(1)] and ex = explored_okD [OF ok(2)] and link = linked_okD [OF ok(3)]
  note call = assms(2) [unfolded call_ok_def]
  have stack: "tj_stack st = up @ v # down" using call by blast
  note pos = call_stack [OF ok(1) stack]
  let ?C = "insert v (set up)"
  have in_stack: "x \<in> set (tj_stack st)" "num st v \<le> num st x" if "x \<in> ?C" for x
    using that pos(1) stack by (auto intro: less_imp_le)
  have from_v: "reaches edges v x" if "x \<in> ?C" for x
    using link(1) [OF in_stack(1) [OF that] assms(3) in_stack(2) [OF that]] .
  have to_v: "reaches edges x v" if x: "x \<in> ?C" for x
  proof -
    obtain y where y: "y \<in> calls" "reaches edges x y" using link(2) [OF in_stack(1) [OF x]] by blast
    have "reaches edges y v" using link(1) [of v y] y(1) assms(4) stack by simp
    with y(2) show ?thesis by simp
  qed
  have out: "set (successors edges x) \<subseteq> visited st - set down" if x: "x \<in> ?C" for x
  proof
    fix b assume b: "b \<in> set (successors edges x)"
    have "b \<notin> set down"
    proof
      assume "b \<in> set down"
      then have "low st v \<le> num st b" using b x call by blast
      with pos(2) \<open>b \<in> set down\<close> assms(5) show False by fastforce
    qed
    moreover have "b \<in> visited st"
    proof (cases "x = v")
      case True with b call show ?thesis by blast
    next
      case False
      with x have "num st v < num st x" using pos(1) by blast
      then have "x \<notin> calls" using assms(4) [of x] by auto
      with b x in_stack(1) [OF x] st(3) ex(3) [of x] show ?thesis by blast
    qed
    ultimately show "b \<in> visited st - set down" by blast
  qed
  then show "x \<in> ?C \<Longrightarrow> set (successors edges x) \<subseteq> visited st - set down" for x .
  let ?fin = "visited st - set (tj_stack st)"
  have closed_fin: "z \<in> ?fin \<Longrightarrow> set (successors edges z) \<subseteq> ?fin" for z
    using ex(4) by blast
  have closed: "z \<in> ?C \<union> ?fin \<Longrightarrow> set (successors edges z) \<subseteq> ?C \<union> ?fin" for z
    using out [of z] closed_fin [of z] stack by auto
  have "y \<in> ?C" if x: "x \<in> ?C" and xy: "reaches edges x y" "reaches edges y x" for x y
  proof -
    have "y \<in> ?C \<union> ?fin"
      by (rule closed_reaches [OF xy(1) _ closed]) (use x in auto)
    moreover have "y \<notin> ?fin"
      using closed_reaches [OF xy(2) _ closed_fin] in_stack(1) [OF x] by blast
    ultimately show ?thesis by blast
  qed
  then show "component edges ?C"
    unfolding component_def using from_v to_v by (blast intro: rtrancl_trans)
qed

text \<open>The end of a call, when its component is popped and when it is left on the stack.\<close>

abbreviation call_post ::
  "(txn_id, txn_id list) hmap \<Rightarrow> txn_id set \<Rightarrow> txn_id \<Rightarrow> txn_id list \<Rightarrow> tarjan_state \<Rightarrow> tarjan_state \<Rightarrow> bool" where
  "call_post edges calls v down st st' \<equiv>
     search_ok edges (calls - {v}) st' \<and> keeps v st st' \<and> ended edges v down st'"

abbreviation call_pre ::
  "(txn_id, txn_id list) hmap \<Rightarrow> txn_id set \<Rightarrow> txn_id \<Rightarrow> txn_id list \<Rightarrow> txn_id list \<Rightarrow> txn_id set \<Rightarrow> tarjan_state \<Rightarrow> bool" where
  "call_pre edges calls v up down fin st \<equiv>
     search_ok edges calls st \<and> call_ok edges v up down fin st \<and> v \<in> calls \<and>
     (\<forall>y \<in> calls. num st y \<le> num st v)"

lemma close_vertex_eq:
  "v \<in> visited st \<Longrightarrow> v \<in> lowered st \<Longrightarrow> close_vertex v st =
     (if low st v = num st v
      then map_option (\<lambda>(stk, onst, scc). st\<lparr>tj_stack := stk, on_stack := onst, sccs := sccs st @ [scc]\<rparr>)
             (pop_component v (tj_stack st) (on_stack st) [])
      else Some st)"
  by (auto simp: close_vertex_def visited_def lowered_def)

lemma close_popped:
  assumes pre: "call_pre edges calls v up down (set (successors edges v)) st"
    and eq: "low st v = num st v"
  shows "\<exists>st'. close_vertex v st = Some st' \<and> call_post edges calls v down st st'"
proof -
  note ok = search_ok_parts [OF conjunct1 [OF pre]]
  note st = stack_okD [OF ok(1)] and ex = explored_okD [OF ok(2)] and link = linked_okD [OF ok(3)]
  have stack: "tj_stack st = up @ v # down" using pre by (simp add: call_ok_def)
  note pos = call_stack [OF ok(1) stack]
  have top: "component edges (insert v (set up))"
    "\<And>x. x \<in> insert v (set up) \<Longrightarrow> set (successors edges x) \<subseteq> visited st - set down"
    using top_is_component [of edges calls st v up down] pre eq by auto
  obtain onst' where onst': "pop_component v (up @ v # down) (on_stack st) [] = Some (down, onst', up @ [v])"
    "set onst' = set (on_stack st) - insert v (set up)"
    using pop_component_stack [OF pos(3), of down "on_stack st" "[]"] by auto
  define st' where "st' = st\<lparr>tj_stack := down, on_stack := onst', sccs := sccs st @ [up @ [v]]\<rparr>"
  have v: "v \<in> visited st" using stack st(3) by auto
  have same: "visited st' = visited st" "lowered st' = lowered st" "\<And>x. num st' x = num st x"
    "\<And>x. low st' x = low st x"
    by (simp_all add: st'_def visited_def lowered_def)
  have "close_vertex v st = Some st'"
    using v onst'(1) eq stack st(4) by (simp add: close_vertex_eq st'_def)
  moreover have "stack_ok st'"
    using st pos stack onst'(2) unfolding stack_ok_def same
    by (auto simp: st'_def sorted_wrt_append)
  moreover have "explored_ok edges (calls - {v}) st'"
    unfolding explored_ok_def same
  proof (intro conjI ballI)
    show "calls - {v} \<subseteq> set (tj_stack st')"
    proof
      fix y assume y: "y \<in> calls - {v}"
      with pre have "\<not> num st v < num st y" by (auto simp: not_less)
      with pos(1) have "y \<notin> set up" by blast
      with y ex(1) stack show "y \<in> set (tj_stack st')" by (auto simp: st'_def)
    qed
    show "visited st \<subseteq> vertices edges" by (rule ex(2))
    fix x assume x: "x \<in> visited st - (calls - {v})"
    then show "set (successors edges x) \<subseteq> visited st"
      using top(2) [of v] ex(3) [of x] by (cases "x = v") auto
  next
    fix x assume x: "x \<in> visited st - set (tj_stack st')"
    show "set (successors edges x) \<subseteq> visited st - set (tj_stack st')"
    proof (cases "x \<in> set (tj_stack st)")
      case True
      with x stack have "x \<in> insert v (set up)" by (auto simp: st'_def)
      with top(2) show ?thesis by (simp add: st'_def)
    next
      case False
      with x ex(4) [of x] stack show ?thesis by (auto simp: st'_def)
    qed
  qed
  moreover have "linked_ok edges (calls - {v}) st'"
    unfolding linked_ok_def same
  proof (intro conjI ballI impI)
    fix x y assume "x \<in> set (tj_stack st')" "y \<in> calls - {v}" "num st y \<le> num st x"
    then show "reaches edges y x" using link(1) [of x y] stack by (simp add: st'_def)
  next
    fix x assume x: "x \<in> set (tj_stack st')"
    then obtain y where y: "y \<in> calls" "num st y \<le> num st x" "reaches edges x y"
      using link(2) [of x] stack by (auto simp: st'_def)
    with x pos(2) [of x] have "y \<noteq> v" by (auto simp: st'_def)
    with y show "\<exists>y \<in> calls - {v}. num st y \<le> num st x \<and> reaches edges x y" by blast
  qed
  moreover have "sccs_ok edges st'"
  proof -
    have "distinct (up @ [v])"
      using sorted_wrt_distinct [OF st(1)] stack by simp
    moreover have "visited st - set down = (visited st - set (tj_stack st)) \<union> insert v (set up)"
      using stack pos(4,5) st(3) by auto
    ultimately show ?thesis
      using ok(4) top(1) unfolding sccs_ok_def same by (auto simp: st'_def)
  qed
  ultimately show ?thesis
    using eq same unfolding search_ok_def keeps_def ended_def by (auto simp: st'_def)
qed

lemma close_kept:
  assumes pre: "call_pre edges calls v up down (set (successors edges v)) st"
    and ne: "low st v \<noteq> num st v"
  shows "\<exists>st'. close_vertex v st = Some st' \<and> call_post edges calls v down st st'"
proof -
  note ok = search_ok_parts [OF conjunct1 [OF pre]]
  note st = stack_okD [OF ok(1)] and ex = explored_okD [OF ok(2)] and link = linked_okD [OF ok(3)]
  note call = conjunct1 [OF conjunct2 [OF pre], unfolded call_ok_def]
  have stack: "tj_stack st = up @ v # down" using call by blast
  note pos = call_stack [OF ok(1) stack]
  have less: "low st v < num st v" using call ne by simp
  have v: "v \<in> visited st" using stack st(3) by auto
  obtain z where z: "z \<in> set (tj_stack st)" "num st z = low st v" "reaches edges v z"
    using call by blast
  have z_down: "z \<in> set down"
    using z less pos(1) [of z] stack by auto
  obtain y0 where y0: "y0 \<in> calls" "num st y0 \<le> num st z" "reaches edges z y0"
    using link(2) [OF z(1)] by blast
  have y0_v: "y0 \<noteq> v" "num st y0 \<le> num st v" "reaches edges v y0"
    using y0 z less by auto
  have "close_vertex v st = Some st"
    using v st(4) less by (simp add: close_vertex_eq)
  moreover have "explored_ok edges (calls - {v}) st"
    unfolding explored_ok_def
  proof (intro conjI ballI)
    show "calls - {v} \<subseteq> set (tj_stack st)" "visited st \<subseteq> vertices edges" using ex(1,2) by auto
    show "set (successors edges x) \<subseteq> visited st" if "x \<in> visited st - (calls - {v})" for x
      using that ex(3) [of x] call by (cases "x = v") auto
  qed (use ex(4) in blast)
  moreover have "linked_ok edges (calls - {v}) st"
    unfolding linked_ok_def
  proof (intro conjI ballI impI)
    fix x y assume "x \<in> set (tj_stack st)" "y \<in> calls - {v}" "num st y \<le> num st x"
    then show "reaches edges y x" using link(1) [of x y] by simp
  next
    fix x assume x: "x \<in> set (tj_stack st)"
    then obtain y where y: "y \<in> calls" "num st y \<le> num st x" "reaches edges x y"
      using link(2) [of x] by blast
    show "\<exists>y \<in> calls - {v}. num st y \<le> num st x \<and> reaches edges x y"
    proof (cases "y = v")
      case True
      with y y0_v y0(1) show ?thesis by (intro bexI [of _ y0]) auto
    next
      case False
      with y show ?thesis by blast
    qed
  qed
  moreover have "ended edges v down st"
    unfolding ended_def
  proof (rule disjI2, intro exI [of _ "up @ [v]"] conjI)
    show "tj_stack st = (up @ [v]) @ down" using stack by simp
    show "\<exists>z \<in> set down. num st z = low st v \<and> reaches edges v z" using z z_down by blast
    show "\<forall>a \<in> set (up @ [v]). \<forall>b \<in> set (successors edges a) \<inter> set down. low st v \<le> num st b"
      using call by auto
  qed simp
  ultimately show ?thesis
    using ok unfolding search_ok_def by auto
qed

lemma close_ok:
  assumes "call_pre edges calls v up down (set (successors edges v)) st"
  shows "\<exists>st'. close_vertex v st = Some st' \<and> call_post edges calls v down st st'"
  using close_popped [OF assms] close_kept [OF assms] by blast

lemma call_lowered: "call_pre edges calls v up down fin st \<Longrightarrow> v \<in> lowered st"
  unfolding search_ok_def stack_ok_def explored_ok_def by blast

section \<open>One edge\<close>

lemma edge_to_stack:
  assumes pre: "call_pre edges calls v up down fin st"
    and w: "w \<in> set (successors edges v)" "w \<in> visited st" "w \<in> set (tj_stack st)"
  shows "call_pre edges calls v up down (insert w fin) (lowered_to v (num st w) st)"
proof -
  note call = conjunct1 [OF conjunct2 [OF pre], unfolded call_ok_def]
  have "\<exists>z \<in> set (tj_stack st). num st z = min (low st v) (num st w) \<and> reaches edges v z"
  proof (cases "low st v \<le> num st w")
    case True
    from call obtain z where "z \<in> set (tj_stack st)" "num st z = low st v" "reaches edges v z" by blast
    with True show ?thesis by (intro bexI [of _ z]) (auto simp: min_def)
  next
    case False
    with w show ?thesis by (intro bexI [of _ w]) (auto simp: min_def)
  qed
  moreover have "v \<in> lowered st"
    using call_lowered [OF pre] .
  ultimately show ?thesis
    using pre w unfolding call_ok_def by (auto simp: min_le_iff_disj)
qed

lemma edge_to_finished:
  assumes pre: "call_pre edges calls v up down fin st"
    and w: "w \<in> visited st" "w \<notin> set (tj_stack st)"
  shows "call_pre edges calls v up down (insert w fin) st"
  using assms unfolding call_ok_def by auto

lemma edge_to_new_pre:
  assumes pre: "call_pre edges calls v up down fin st"
    and w: "w \<in> set (successors edges v)" "w \<notin> visited st"
  shows "call_pre edges (insert w calls) w [] (tj_stack st) {} (enter_vertex w st)"
proof -
  note ok = search_ok_parts [OF conjunct1 [OF pre]]
  have "v \<in> set (tj_stack st)" using pre by (auto simp: call_ok_def)
  then have "reaches edges y w" if "y \<in> calls" for y
    using linked_okD(1) [OF ok(3)] that pre w(1) by (meson rtrancl.rtrancl_into_rtrancl waits_iff)
  moreover have "num st y \<le> index_counter st" if "y \<in> calls" for y
    using that stack_okD(3,5) [OF ok(1)] explored_okD(1) [OF ok(2)] by (meson less_imp_le subsetD)
  ultimately show ?thesis
    using enter_ok [of edges calls st w] pre w successors_vertices [OF w(1)] by auto
qed

lemma edge_to_new_post:
  assumes pre: "call_pre edges calls v up down fin st"
    and w: "w \<in> set (successors edges v)" "w \<notin> visited st"
    and post: "call_post edges (insert w calls) w (tj_stack st) (enter_vertex w st) st2"
  shows "\<exists>up'. call_pre edges calls v up' down (insert w fin) (lowered_to v (low st2 w) st2)"
    and "keeps v st (lowered_to v (low st2 w) st2)" and "v \<in> lowered st2"
    and "w \<in> visited st2" and "card (vertices edges - visited st2) < card (vertices edges - visited st)"
proof -
  let ?st1 = "enter_vertex w st" and ?st' = "lowered_to v (low st2 w) st2"
  note ok = search_ok_parts [OF conjunct1 [OF pre]] and ok2 = search_ok_parts [OF conjunct1 [OF post]]
  note call = conjunct1 [OF conjunct2 [OF pre], unfolded call_ok_def]
  note st = stack_okD [OF ok(1)]
  have stack: "tj_stack st = up @ v # down" using call by blast
  then have v: "v \<in> visited st" "v \<noteq> w" using st(3) w(2) by auto
  have kept: "visited st \<subseteq> visited st2" "w \<in> visited st2"
    "num st2 x = num st x" "low st2 x = low st x" if "x \<in> visited st" for x
    using post that w(2) by (auto simp: keeps_def)
  note num2 = kept(3)
  have sub2: "visited st \<subseteq> visited st2" "w \<in> visited st2" using kept v(1) by auto
  show lowered: "v \<in> lowered st2" "w \<in> visited st2"
    using sub2 v(1) stack_okD(4) [OF ok2(1)] by auto
  show keep: "keeps v st ?st'"
    using sub2(1) kept by (auto simp: keeps_def)
  show "card (vertices edges - visited st2) < card (vertices edges - visited st)"
    by (rule psubset_card_mono) (use sub2 w(2) successors_vertices [OF w(1)] in auto)
  have calls: "insert w calls - {w} = calls"
    using explored_okD(1) [OF ok(2)] st(3) w(2) by auto
  have num_w: "num st2 w = index_counter st" using post by (simp add: keeps_def)
  have on_stack: "num st2 x = num st x" if "x \<in> set (tj_stack st)" for x
    using that num2 st(3) by blast
  have low_v: "low st2 v = low st v" using kept(4) [OF v(1)] .
  have min_le: "min (low st v) (low st2 w) \<le> num st v" using call by (simp add: min_le_iff_disj)
  from post have "ended edges w (tj_stack st) st2" by blast
  then have "\<exists>up'. call_ok edges v up' down (insert w fin) ?st'"
    unfolding ended_def
  proof (elim disjE exE conjE)
    assume popped: "tj_stack st2 = tj_stack st" "low st2 w = num st2 w"
    have "low st v \<le> low st2 w"
      using call popped(2) num_w st(5) [OF v(1)] by simp
    then have "call_ok edges v up down (insert w fin) ?st'"
      using call popped(1) stack on_stack low_v sub2 w(2) st(3) on_stack
      unfolding call_ok_def by (auto simp: min_def)
    then show ?thesis ..
  next
    fix up2 assume up2: "tj_stack st2 = up2 @ tj_stack st" "w \<in> set up2"
      "\<exists>z \<in> set (tj_stack st). num st2 z = low st2 w \<and> reaches edges w z"
      "\<forall>a \<in> set up2. \<forall>b \<in> set (successors edges a) \<inter> set (tj_stack st). low st2 w \<le> num st2 b"
    from call obtain z1 where z1: "z1 \<in> set (tj_stack st)" "num st z1 = low st v" "reaches edges v z1"
      by blast
    from up2(3) obtain z2 where z2: "z2 \<in> set (tj_stack st)" "num st2 z2 = low st2 w" "reaches edges w z2"
      by blast
    have "\<exists>z \<in> set (tj_stack st). num st2 z = min (low st v) (low st2 w) \<and> reaches edges v z"
    proof (cases "low st v \<le> low st2 w")
      case True
      with z1 on_stack [OF z1(1)] show ?thesis by (intro bexI [of _ z1]) (auto simp: min_def)
    next
      case False
      from w(1) z2(3) have "reaches edges v z2" by (meson converse_rtrancl_into_rtrancl waits_iff)
      with False z2 show ?thesis by (intro bexI [of _ z2]) (auto simp: min_def)
    qed
    moreover have "min (low st v) (low st2 w) \<le> num st2 b"
      if "a \<in> set (up2 @ up)" "b \<in> set (successors edges a) \<inter> set down" for a b
    proof (cases "a \<in> set up2")
      case True
      with up2(4) that stack show ?thesis by (auto simp: min_le_iff_disj)
    next
      case False
      with that have "low st v \<le> num st b" using call by auto
      with on_stack [of b] that stack show ?thesis by (auto simp: min_le_iff_disj)
    qed
    moreover have "min (low st v) (low st2 w) \<le> num st2 b" if "b \<in> insert w fin \<inter> set down" for b
    proof -
      have "b \<in> visited st" using that st(3) stack by auto
      with that w(2) have "b \<in> fin \<inter> set down" by auto
      with call have "low st v \<le> num st b" by blast
      with on_stack [of b] that stack show ?thesis by (auto simp: min_le_iff_disj)
    qed
    moreover have "tj_stack st2 = (up2 @ up) @ v # down" using up2(1) stack by simp
    moreover have "insert w fin \<subseteq> visited st2" using call sub2 by auto
    ultimately have "call_ok edges v (up2 @ up) down (insert w fin) ?st'"
      using min_le low_v num2 [OF v(1)] up2(1) unfolding call_ok_def by auto
    then show ?thesis ..
  qed
  then show "\<exists>up'. call_pre edges calls v up' down (insert w fin) ?st'"
    using post pre calls lowered(1) on_stack explored_okD(1) [OF ok(2)] stack
    by auto
qed

section \<open>The search\<close>

lemma connect_loop_ok:
  assumes "card (vertices edges - visited st) \<le> n" "call_pre edges calls v up down fin st"
    "set (successors edges v) = fin \<union> set todo"
  shows "\<exists>st'. connect_loop edges v todo st = Some st' \<and> call_post edges calls v down st st'"
  using assms
proof (induction n arbitrary: calls v up down fin todo st rule: less_induct)
  case (less n)
  from less.prems show ?case
  proof (induction todo arbitrary: up fin st)
    case Nil
    then have "fin = set (successors edges v)" by simp
    with Nil.prems(2) have "\<exists>st'. close_vertex v st = Some st' \<and> call_post edges calls v down st st'"
      by (intro close_ok) blast
    then show ?case by (simp add: connect_loop.simps)
  next
    case (Cons w todo)
    have w: "w \<in> set (successors edges v)" and rest: "set (successors edges v) = insert w fin \<union> set todo"
      using Cons.prems(3) by auto
    note ok = search_ok_parts [OF conjunct1 [OF Cons.prems(2)]]
    have v: "v \<in> lowered st"
      using call_lowered [OF Cons.prems(2)] .
    consider (new) "w \<notin> visited st" | (stacked) "w \<in> visited st" "w \<in> set (on_stack st)"
      | (finished) "w \<in> visited st" "w \<notin> set (on_stack st)" by blast
    then show ?case
    proof cases
      case new
      let ?st1 = "enter_vertex w st"
      have wv: "w \<in> vertices edges" using successors_vertices [OF w] by blast
      have smaller: "card (vertices edges - visited ?st1) < n"
        by (rule less_le_trans [OF psubset_card_mono Cons.prems(1)]) (use new wv in auto)
      obtain st2 where st2: "connect_loop edges w (successors edges w) ?st1 = Some st2"
        "call_post edges (insert w calls) w (tj_stack st) ?st1 st2"
        using less.IH [OF smaller order_refl edge_to_new_pre [OF Cons.prems(2) w new], of "successors edges w"]
        by auto
      note post = edge_to_new_post [OF Cons.prems(2) w new st2(2)]
      obtain up' where up': "call_pre edges calls v up' down (insert w fin) (lowered_to v (low st2 w) st2)"
        using post(1) by blast
      have le: "card (vertices edges - visited (lowered_to v (low st2 w) st2)) \<le> n"
        using post(5) Cons.prems(1) by simp
      obtain st' where st': "connect_loop edges v todo (lowered_to v (low st2 w) st2) = Some st'"
        "call_post edges calls v down (lowered_to v (low st2 w) st2) st'"
        using Cons.IH [OF le up' rest] by blast
      have "w \<in> lowered st2"
        using post(4) stack_okD(4) [OF search_ok_parts(1) [OF conjunct1 [OF st2(2)]]] by simp
      then have "connect_loop edges v (w # todo) st = Some st'"
        using st2(1) st'(1) new lower_link_Some [OF post(3)]
        by (subst connect_loop.simps) (auto simp: visited_def lowered_def)
      with st'(2) keeps_trans [OF post(2)] show ?thesis by blast
    next
      case stacked
      have in_stack: "w \<in> set (tj_stack st)" using stacked stack_okD(2) [OF ok(1)] by simp
      obtain st' where st': "connect_loop edges v todo (lowered_to v (num st w) st) = Some st'"
        "call_post edges calls v down (lowered_to v (num st w) st) st'"
        using Cons.IH [OF _ edge_to_stack [OF Cons.prems(2) w stacked(1) in_stack] rest] Cons.prems(1) by auto
      have "connect_loop edges v (w # todo) st = Some st'"
        using st'(1) stacked lower_link_Some [OF v]
        by (subst connect_loop.simps) (auto simp: visited_def)
      with st'(2) keeps_trans [OF keeps_lowered_to] show ?thesis by blast
    next
      case finished
      have not_in_stack: "w \<notin> set (tj_stack st)" using finished stack_okD(2) [OF ok(1)] by simp
      have "connect_loop edges v (w # todo) st = connect_loop edges v todo st"
        using finished by (subst connect_loop.simps) (auto simp: visited_def)
      with Cons.IH [OF Cons.prems(1) edge_to_finished [OF Cons.prems(2) finished(1) not_in_stack] rest]
      show ?thesis by simp
    qed
  qed
qed

lemma connect_all_ok:
  assumes "search_ok edges {} st" "set vs \<subseteq> vertices edges"
  shows "\<exists>st'. connect_all edges vs st = Some st' \<and> search_ok edges {} st' \<and>
           visited st \<subseteq> visited st' \<and> set vs \<subseteq> visited st'"
  using assms
proof (induction vs arbitrary: st)
  case (Cons v vs)
  show ?case
  proof (cases "v \<in> visited st")
    case True
    then have "connect_all edges (v # vs) st = connect_all edges vs st"
      by (auto simp: visited_def)
    with Cons True show ?thesis by fastforce
  next
    case False
    have empty: "tj_stack st = []"
      using linked_okD(2) [OF search_ok_parts(3) [OF Cons.prems(1)]] by (cases "tj_stack st") auto
    have "call_pre edges {v} v [] [] {} (enter_vertex v st)"
      using enter_ok [OF Cons.prems(1) False] Cons.prems(2) empty by simp
    from connect_loop_ok [OF order_refl this, of "successors edges v"]
    obtain st1 where st1: "strongconnect edges v st = Some st1"
      "call_post edges {v} v [] (enter_vertex v st) st1"
      by (auto simp: strongconnect_def)
    have mono: "insert v (visited st) \<subseteq> visited st1" using st1(2) by (simp add: keeps_def)
    obtain st' where "connect_all edges vs st1 = Some st'" "search_ok edges {} st'"
      "visited st1 \<subseteq> visited st'" "set vs \<subseteq> visited st'"
      using Cons.IH [of st1] st1(2) Cons.prems(2) by auto
    moreover have "connect_all edges (v # vs) st = connect_all edges vs st1"
      using st1(1) False by (auto simp: visited_def)
    ultimately show ?thesis using mono by auto
  qed
qed simp

lemma search_ok_new [simp]: "search_ok edges {} new_tarjan"
  by (simp add: search_ok_def stack_ok_def explored_ok_def linked_ok_def sccs_ok_def
      new_tarjan_def visited_def lowered_def)

text \<open>The whole search: the components it lists are the classes of mutual reachability.\<close>

lemma search_result:
  "\<exists>st. connect_all edges (map fst edges) new_tarjan = Some st \<and>
     (\<forall>C \<in> set (sccs st). component edges (set C) \<and> distinct C) \<and>
     set (map fst edges) \<subseteq> \<Union> (set ` set (sccs st))"
proof -
  have "set (map fst edges) \<subseteq> vertices edges" by (simp add: vertices_def)
  from connect_all_ok [OF search_ok_new this]
  obtain st where st: "connect_all edges (map fst edges) new_tarjan = Some st" "search_ok edges {} st"
    "set (map fst edges) \<subseteq> visited st" by auto
  note ok = search_ok_parts [OF st(2)]
  have "tj_stack st = []"
    using linked_okD(2) [OF ok(3)] by (cases "tj_stack st") auto
  with ok(4) st show ?thesis by (auto simp: sccs_ok_def)
qed

text \<open>Two transactions wait for each other, directly or through others.\<close>

definition deadlocked :: "wait_graph \<Rightarrow> txn_id \<Rightarrow> txn_id \<Rightarrow> bool" where
  "deadlocked g v w \<longleftrightarrow> v \<noteq> w \<and> reaches (wg_edges g) v w \<and> reaches (wg_edges g) w v"

lemma deadlocked_component:
  assumes "component (wg_edges g) (set C)" "distinct C" "v \<in> set C"
  shows "(\<exists>w. deadlocked g v w) \<longleftrightarrow> length C > 1"
proof
  assume "\<exists>w. deadlocked g v w"
  then obtain w where w: "v \<noteq> w" "w \<in> set C"
    using assms(1,3) unfolding deadlocked_def component_def by blast
  with assms(3) have "card {v, w} \<le> card (set C)" by (intro card_mono) auto
  with w assms(2) show "length C > 1" by (simp add: distinct_card)
next
  assume "length C > 1"
  then have "set C \<noteq> {v}" using assms(2) distinct_card [of C] by auto
  with assms(3) obtain w where w: "w \<in> set C" "v \<noteq> w" by blast
  with assms(1,3) have "reaches (wg_edges g) v w \<and> reaches (wg_edges g) w v"
    unfolding component_def by blast
  with w show "\<exists>w. deadlocked g v w"
    unfolding deadlocked_def by blast
qed

lemma deadlocked_waits:
  assumes "deadlocked g v w"
  shows "v \<in> set (map fst (wg_edges g))"
proof -
  from assms obtain x where "x \<in> set (successors (wg_edges g) v)"
    unfolding deadlocked_def by (auto elim: converse_rtranclE)
  with successors_vertices show ?thesis by blast
qed

section \<open>The victim\<close>

lemma then_ordering_Less: "then_ordering x y = Less \<longleftrightarrow> x = Less \<or> x = Equal \<and> y = Less"
  by (cases x) simp_all

lemma victim_order_Less:
  "victim_order a b = Less \<longleftrightarrow> ti_priority b < ti_priority a \<or>
     ti_priority a = ti_priority b \<and> (ti_start_ts b < ti_start_ts a \<or>
       ti_start_ts a = ti_start_ts b \<and> ti_lock_count a < ti_lock_count b)"
  by (auto simp: victim_order_def then_ordering_Less)

lemma first_least_minimal:
  assumes "\<And>x y z. f x z = Less \<Longrightarrow> f x y = Less \<or> f y z = Less"
    "\<And>x y. f x y = Less \<Longrightarrow> f y x \<noteq> Less"
  shows "first_least f m xs \<in> set (m # xs) \<and> (\<forall>x \<in> set (m # xs). f x (first_least f m xs) \<noteq> Less)"
proof (induction xs arbitrary: m)
  case Nil
  then show ?case using assms(2) by auto
next
  case (Cons x xs)
  have key: "f m r \<noteq> Less \<and> f x r \<noteq> Less"
    if "f m m' \<noteq> Less" "f x m' \<noteq> Less" "f m' r \<noteq> Less" for m' r
    using that assms(1) [of m r m'] assms(1) [of x r m'] by blast
  let ?m = "if f x m = Less then x else m"
  let ?r = "first_least f ?m xs"
  have irr: "f y y \<noteq> Less" for y
    using assms(2) [of y y] by auto
  have m: "f m ?m \<noteq> Less" "f x ?m \<noteq> Less"
    using irr assms(2) [of x m] by simp_all
  have r: "?r \<in> set (?m # xs)" "\<And>y. y \<in> set (?m # xs) \<Longrightarrow> f y ?r \<noteq> Less"
    using Cons.IH [of ?m] by blast+
  have "f ?m ?r \<noteq> Less" by (rule r(2)) simp
  then have "f m ?r \<noteq> Less \<and> f x ?r \<noteq> Less"
    by (rule key [OF m])
  then have "f y ?r \<noteq> Less" if "y \<in> set (m # x # xs)" for y
    using that r(2) [of y] by (elim set_ConsD [THEN disjE] disjE) (simp_all only: list.set insert_iff simp_thms)
  moreover have "?r \<in> set (m # x # xs)"
    by (rule subsetD [OF _ r(1)]) auto
  ultimately have "?r \<in> set (m # x # xs) \<and> (\<forall>y \<in> set (m # x # xs). f y ?r \<noteq> Less)"
    by blast
  then show ?case unfolding first_least.simps .
qed

lemma select_victims_best:
  assumes "cycle \<noteq> []"
  shows "\<exists>v \<in> set cycle. select_victims infos cycle = Some [v] \<and>
     (\<forall>w \<in> set cycle. \<forall>b. hm_get infos w = Some b \<longrightarrow>
        (\<exists>a. hm_get infos v = Some a \<and> victim_order b a \<noteq> Less))"
proof -
  let ?cand = "List.map_filter (\<lambda>id. map_option (\<lambda>info. (id, info)) (hm_get infos id)) cycle"
  have cand: "(w, b) \<in> set ?cand \<longleftrightarrow> w \<in> set cycle \<and> hm_get infos w = Some b" for w b
    by (force simp: map_filter_def image_iff)
  show ?thesis
  proof (cases ?cand)
    case Nil
    with assms cand show ?thesis
      by (auto simp: select_victims_def neq_Nil_conv)
  next
    case (Cons c cs)
    let ?f = "\<lambda>a b. victim_order (snd a) (snd b)"
    let ?v = "first_least ?f c cs"
    obtain v a where v: "?v = (v, a)" by fastforce
    have best: "?v \<in> set ?cand \<and> (\<forall>x \<in> set ?cand. ?f x ?v \<noteq> Less)"
      unfolding Cons by (rule first_least_minimal) (auto simp: victim_order_Less)
    then have "v \<in> set cycle" "hm_get infos v = Some a" using cand v by simp_all
    moreover have "victim_order b a \<noteq> Less" if "w \<in> set cycle" "hm_get infos w = Some b" for w b
      using best that cand [of w b] v by fastforce
    moreover have "select_victims infos cycle = Some [v]"
      using v by (simp add: select_victims_def Cons)
    ultimately show ?thesis by blast
  qed
qed

section \<open>Properties\<close>

lemma detect_deadlock_cases:
  obtains (none) "detect_deadlock g = Some None" "\<And>v w. \<not> deadlocked g v w"
  | (cycle) C vs where "detect_deadlock g = Some (Some vs)" "select_victims (wg_txn_info g) C = Some vs"
      "length C > 1" "component (wg_edges g) (set C)" "distinct C"
proof -
  obtain st where st: "connect_all (wg_edges g) (map fst (wg_edges g)) new_tarjan = Some st"
    "\<And>C. C \<in> set (sccs st) \<Longrightarrow> component (wg_edges g) (set C) \<and> distinct C"
    "set (map fst (wg_edges g)) \<subseteq> \<Union> (set ` set (sccs st))"
    using search_result [of "wg_edges g"] by blast
  show thesis
  proof (cases "filter (\<lambda>scc. length scc > 1) (sccs st)")
    case Nil
    have "\<not> deadlocked g v w" for v w
    proof
      assume vw: "deadlocked g v w"
      with st(3) obtain C where C: "C \<in> set (sccs st)" "v \<in> set C"
        using deadlocked_waits [OF vw] by auto
      with vw deadlocked_component st(2) [OF C(1)] have "length C > 1" by blast
      with Nil C(1) show False by (auto simp: filter_empty_conv)
    qed
    with st(1) Nil none show thesis by (simp add: detect_deadlock_def)
  next
    case (Cons C Cs)
    then have "C \<in> set (filter (\<lambda>scc. length scc > 1) (sccs st))" by simp
    then have C: "C \<in> set (sccs st)" "length C > 1" by auto
    then obtain vs where "select_victims (wg_txn_info g) C = Some vs"
      using select_victims_best [of C "wg_txn_info g"] by fastforce
    with st(1) st(2) [OF C(1)] C Cons cycle show thesis by (simp add: detect_deadlock_def)
  qed
qed

text \<open>
  C35: deadlock detection ends and is exact. On every wait-for graph the search returns, none
  of its \<open>unwrap\<close>s fails, and it reports a victim exactly when two different transactions
  wait for each other, directly or through others.
\<close>

theorem deadlock_detection_exact:
  "\<exists>answer. detect_deadlock g = Some answer \<and>
     (answer \<noteq> None \<longleftrightarrow> (\<exists>v w. deadlocked g v w))"
proof (cases rule: detect_deadlock_cases [of g])
  case (cycle C vs)
  then obtain v where "v \<in> set C" by (cases C) auto
  with cycle deadlocked_component have "\<exists>w. deadlocked g v w" by blast
  with cycle show ?thesis by auto
qed simp

text \<open>
  The victim. A reported deadlock names one transaction. It is itself deadlocked with
  another one, and among the registered transactions it is deadlocked with it has the
  largest priority number, then the latest start, then the fewest locks.
\<close>

theorem victim_choice:
  assumes "detect_deadlock g = Some (Some vs)"
  shows "\<exists>v. vs = [v] \<and> (\<exists>w. deadlocked g v w) \<and>
     (\<forall>w b. deadlocked g v w \<longrightarrow> hm_get (wg_txn_info g) w = Some b \<longrightarrow>
        (\<exists>a. hm_get (wg_txn_info g) v = Some a \<and> ti_priority b \<le> ti_priority a \<and>
           (ti_priority b = ti_priority a \<longrightarrow> ti_start_ts b \<le> ti_start_ts a \<and>
             (ti_start_ts b = ti_start_ts a \<longrightarrow> ti_lock_count a \<le> ti_lock_count b))))"
proof (cases rule: detect_deadlock_cases [of g])
  case (cycle C vs')
  then have "C \<noteq> []" by auto
  from select_victims_best [OF this, of "wg_txn_info g"] cycle assms
  obtain v where v: "v \<in> set C" "vs = [v]" "\<And>w b. w \<in> set C \<Longrightarrow> hm_get (wg_txn_info g) w = Some b \<Longrightarrow>
      \<exists>a. hm_get (wg_txn_info g) v = Some a \<and> victim_order b a \<noteq> Less"
    by auto
  have "w \<in> set C" if "deadlocked g v w" for w
    using that cycle(4) v(1) unfolding deadlocked_def component_def by blast
  moreover have "\<exists>w. deadlocked g v w"
    using deadlocked_component [OF cycle(4,5) v(1)] cycle(3) by blast
  ultimately show ?thesis
    using v(2,3) by (fastforce simp: victim_order_Less not_less)
qed (use assms in simp)

lemma victim_choice_witness:
  "\<exists>v w. detect_deadlock (add_wait_edge 3 1 (add_wait_edge 1 2 (add_wait_edge 2 1
       (graph_register 1 5 0 (graph_register 2 6 0 new_graph))))) = Some (Some [v]) \<and>
     deadlocked (add_wait_edge 3 1 (add_wait_edge 1 2 (add_wait_edge 2 1
       (graph_register 1 5 0 (graph_register 2 6 0 new_graph))))) v w"
proof -
  let ?g = "add_wait_edge 3 1 (add_wait_edge 1 2 (add_wait_edge 2 1
       (graph_register 1 5 0 (graph_register 2 6 0 new_graph))))"
  have "deadlocked ?g 1 2"
    by (auto simp: deadlocked_def successors_def add_wait_edge_def new_graph_def graph_register_def
        hs_insert_def intro!: r_into_rtrancl)
  then obtain vs where "detect_deadlock ?g = Some (Some vs)"
    by (cases rule: detect_deadlock_cases [of ?g]) auto
  from victim_choice [OF this] this show ?thesis by blast
qed

end
