(* ===== verification/Detector.thy ===== *)
theory Detector
  imports Deadlock_Search
begin

text \<open>
  The detector of \<open>crabstash-lock/src/deadlock.rs\<close>: threads that search the shared wait-for
  graph again and again and send the victims on a channel. A step of a thread is one test of
  the shutdown flag, one search under the graph's mutex after the sleep, or one message; the
  other threads' operations on the graph, on the receiver and on the detector come in any
  order between the steps. How long a thread sleeps is not modelled.
\<close>

section \<open>State\<close>

datatype detector_thread = Checking | Sleeping | Sending "txn_id list" | Returned | Panicked

text \<open>
  The messages of the channel that were not received, as long as the receiver exists.
  \<open>dd_handle\<close> is the thread \<open>stop\<close> waits for; one replaced by a second \<open>start\<close> is detached.
\<close>

record deadlock_detector =
  dd_graph :: wait_graph
  dd_shutdown :: bool
  dd_interval :: nat
  dd_channel :: "txn_id list option"
  dd_threads :: "detector_thread list"
  dd_handle :: "nat option"

definition detector_new :: "wait_graph \<Rightarrow> nat \<Rightarrow> deadlock_detector" where
  "detector_new graph interval =
     \<lparr>dd_graph = graph, dd_shutdown = False, dd_interval = interval, dd_channel = Some [],
      dd_threads = [], dd_handle = None\<rparr>"

section \<open>Operations\<close>

definition detector_start :: "deadlock_detector \<Rightarrow> deadlock_detector" where
  "detector_start d =
     d\<lparr>dd_threads := dd_threads d @ [Checking], dd_handle := Some (length (dd_threads d))\<rparr>"

text \<open>The flag is set and the handle taken; then \<open>stop\<close> waits while \<open>joining\<close> holds.\<close>

definition detector_stop :: "deadlock_detector \<Rightarrow> nat option \<times> deadlock_detector" where
  "detector_stop d = (dd_handle d, d\<lparr>dd_shutdown := True, dd_handle := None\<rparr>)"

definition detector_drop :: "deadlock_detector \<Rightarrow> nat option \<times> deadlock_detector" where
  "detector_drop d = detector_stop d"

definition joining :: "nat option \<Rightarrow> deadlock_detector \<Rightarrow> bool" where
  "joining handle d \<longleftrightarrow>
     (case handle of None \<Rightarrow> False | Some i \<Rightarrow> dd_threads d ! i \<noteq> Returned \<and> dd_threads d ! i \<noteq> Panicked)"

definition send_victim :: "txn_id \<Rightarrow> deadlock_detector \<Rightarrow> deadlock_detector" where
  "send_victim v d = d\<lparr>dd_channel := map_option (\<lambda>msgs. msgs @ [v]) (dd_channel d)\<rparr>"

fun advance_thread :: "detector_thread \<Rightarrow> deadlock_detector \<Rightarrow> detector_thread \<times> deadlock_detector" where
  "advance_thread Checking d = (if dd_shutdown d then Returned else Sleeping, d)"
| "advance_thread Sleeping d =
     (case detect_deadlock (dd_graph d) of
        None \<Rightarrow> (Panicked, d)
      | Some None \<Rightarrow> (Checking, d)
      | Some (Some victims) \<Rightarrow> (Sending victims, d))"
| "advance_thread (Sending []) d = (Checking, d)"
| "advance_thread (Sending (v # vs)) d = (Sending vs, send_victim v d)"
| "advance_thread Returned d = (Returned, d)"
| "advance_thread Panicked d = (Panicked, d)"

datatype graph_op =
    RegisterTxn txn_id ts u32
  | UnregisterTxn txn_id
  | AddWaitEdge txn_id txn_id
  | RemoveWaitEdge txn_id txn_id
  | RemoveAllWaits txn_id
  | IncrementLocks txn_id
  | DecrementLocks txn_id

fun run_graph_op :: "graph_op \<Rightarrow> wait_graph \<Rightarrow> wait_graph" where
  "run_graph_op (RegisterTxn t s p) g = graph_register t s p g"
| "run_graph_op (UnregisterTxn t) g = graph_unregister t g"
| "run_graph_op (AddWaitEdge w h) g = add_wait_edge w h g"
| "run_graph_op (RemoveWaitEdge w h) g = remove_wait_edge w h g"
| "run_graph_op (RemoveAllWaits w) g = remove_all_waits w g"
| "run_graph_op (IncrementLocks t) g = increment_lock_count t g"
| "run_graph_op (DecrementLocks t) g = decrement_lock_count t g"

datatype detector_event =
  ThreadStep nat | GraphOp graph_op | ReceiveVictim | DropReceiver | StartDetector | StopDetector

fun detector_step :: "detector_event \<Rightarrow> deadlock_detector \<Rightarrow> deadlock_detector" where
  "detector_step (ThreadStep i) d =
     (if i < length (dd_threads d)
      then let (t, d') = advance_thread (dd_threads d ! i) d in d'\<lparr>dd_threads := (dd_threads d')[i := t]\<rparr>
      else d)"
| "detector_step (GraphOp p) d = d\<lparr>dd_graph := run_graph_op p (dd_graph d)\<rparr>"
| "detector_step ReceiveVictim d = d\<lparr>dd_channel := map_option tl (dd_channel d)\<rparr>"
| "detector_step DropReceiver d = d\<lparr>dd_channel := None\<rparr>"
| "detector_step StartDetector d = detector_start d"
| "detector_step StopDetector d = snd (detector_stop d)"

definition run_detector :: "detector_event list \<Rightarrow> deadlock_detector \<Rightarrow> deadlock_detector" where
  "run_detector es d = fold detector_step es d"

lemma run_detector_simps [simp]:
  "run_detector [] d = d" "run_detector (e # es) d = run_detector es (detector_step e d)"
  "run_detector (es @ es') d = run_detector es' (run_detector es d)"
  by (simp_all add: run_detector_def)

section \<open>The threads\<close>

text \<open>How many steps a thread makes at most once the flag is set; a search reports one victim.\<close>

fun steps_left :: "detector_thread \<Rightarrow> nat" where
  "steps_left Checking = 1"
| "steps_left Sleeping = 4"
| "steps_left (Sending vs) = length vs + 2"
| "steps_left Returned = 0"
| "steps_left Panicked = 0"

definition thread_ok :: "detector_thread \<Rightarrow> bool" where
  "thread_ok t \<longleftrightarrow> t \<noteq> Panicked \<and> steps_left t \<le> 4"

lemma one_victim: "detect_deadlock g = Some (Some vs) \<Longrightarrow> length vs = 1"
proof (cases rule: detect_deadlock_cases [of g])
  case (cycle C vs')
  then have "C \<noteq> []" by auto
  from select_victims_best [OF this, of "wg_txn_info g"] cycle(1,2)
  show "detect_deadlock g = Some (Some vs) \<Longrightarrow> length vs = 1" by auto
qed simp

lemma detect_deadlock_returns: "detect_deadlock g \<noteq> None"
  by (cases rule: detect_deadlock_cases [of g]) simp_all

lemma send_victim_simps [simp]:
  "dd_threads (send_victim v d) = dd_threads d" "dd_graph (send_victim v d) = dd_graph d"
  "dd_shutdown (send_victim v d) = dd_shutdown d"
  "dd_channel (send_victim v d) = map_option (\<lambda>msgs. msgs @ [v]) (dd_channel d)"
  by (simp_all add: send_victim_def)

lemma advance_thread_keeps [simp]:
  "dd_threads (snd (advance_thread t d)) = dd_threads d"
  "dd_shutdown (snd (advance_thread t d)) = dd_shutdown d"
  "dd_graph (snd (advance_thread t d)) = dd_graph d"
  by (cases "(t, d)" rule: advance_thread.cases; simp split: option.split)+

lemma advance_thread_ok:
  assumes "thread_ok t"
  shows "thread_ok (fst (advance_thread t d))"
  using assms detect_deadlock_returns [of "dd_graph d"]
  by (cases "(t, d)" rule: advance_thread.cases) (auto simp: thread_ok_def dest: one_victim split: option.split)

lemma advance_after_stop:
  assumes "thread_ok t" "dd_shutdown d"
  shows "steps_left (fst (advance_thread t d)) \<le> steps_left t - 1"
  using assms detect_deadlock_returns [of "dd_graph d"]
  by (cases "(t, d)" rule: advance_thread.cases) (auto dest: one_victim split: option.split)

definition threads_ok :: "deadlock_detector \<Rightarrow> bool" where
  "threads_ok d \<longleftrightarrow> (\<forall>t \<in> set (dd_threads d). thread_ok t)"

lemma thread_step_threads:
  "dd_threads (detector_step (ThreadStep i) d) =
     (if i < length (dd_threads d)
      then (dd_threads d)[i := fst (advance_thread (dd_threads d ! i) d)] else dd_threads d)"
  by (simp add: case_prod_unfold Let_def)

lemma step_threads_ok: "threads_ok d \<Longrightarrow> threads_ok (detector_step e d)"
proof (cases e)
  case (ThreadStep i)
  assume ok: "threads_ok d"
  have "thread_ok (fst (advance_thread (dd_threads d ! i) d))" if "i < length (dd_threads d)"
    using ok that by (intro advance_thread_ok) (simp add: threads_ok_def)
  with ok ThreadStep show ?thesis
    using set_update_subset_insert [of "dd_threads d" i]
    by (auto simp: threads_ok_def thread_step_threads simp del: detector_step.simps split: if_splits)
qed (auto simp: threads_ok_def detector_start_def detector_stop_def thread_ok_def)

lemma run_threads_ok: "threads_ok d \<Longrightarrow> threads_ok (run_detector es d)"
  by (induction es arbitrary: d) (simp_all add: step_threads_ok)

lemma new_threads_ok: "threads_ok (detector_new g interval)"
  by (simp add: threads_ok_def detector_new_def)

text \<open>Nothing resets the flag, and no thread is ever removed.\<close>

lemma step_monotone:
  "dd_shutdown d \<Longrightarrow> dd_shutdown (detector_step e d)"
  "length (dd_threads d) \<le> length (dd_threads (detector_step e d))"
  by (cases e; auto simp: detector_start_def detector_stop_def case_prod_unfold Let_def)+

lemma run_threads_grow: "length (dd_threads d) \<le> length (dd_threads (run_detector es d))"
  by (induction es arbitrary: d) (auto intro: order_trans [OF step_monotone(2)])

lemma other_step:
  "j < length (dd_threads d) \<Longrightarrow> e \<noteq> ThreadStep j \<Longrightarrow> dd_threads (detector_step e d) ! j = dd_threads d ! j"
  by (cases e) (auto simp: detector_start_def detector_stop_def case_prod_unfold Let_def nth_append)

lemma stopped_thread_steps:
  assumes "threads_ok d" "dd_shutdown d" "i < length (dd_threads d)"
  shows "steps_left (dd_threads (run_detector es d) ! i) \<le>
     steps_left (dd_threads d ! i) - length (filter ((=) (ThreadStep i)) es)"
  using assms
proof (induction es arbitrary: d)
  case (Cons e es)
  let ?d = "detector_step e d"
  have IH: "steps_left (dd_threads (run_detector es ?d) ! i) \<le>
      steps_left (dd_threads ?d ! i) - length (filter ((=) (ThreadStep i)) es)"
    using Cons.prems step_monotone [of d e] step_threads_ok [of d e]
    by (intro Cons.IH) auto
  have "steps_left (dd_threads ?d ! i) \<le> steps_left (dd_threads d ! i) - (if e = ThreadStep i then 1 else 0)"
  proof (cases "e = ThreadStep i")
    case True
    have "thread_ok (dd_threads d ! i)" using Cons.prems by (simp add: threads_ok_def)
    from advance_after_stop [OF this Cons.prems(2)] True Cons.prems(3) show ?thesis
      by (simp add: thread_step_threads del: detector_step.simps)
  next
    case False
    then show ?thesis using other_step [OF Cons.prems(3) False] by simp
  qed
  with IH show ?case by (cases "e = ThreadStep i") auto
qed simp

section \<open>A client that aborts the victims\<close>

text \<open>
  Thread \<open>i\<close> runs until it is back at the test of the flag, then a client takes the victim off
  the channel and unregisters it.
\<close>

definition serve_round :: "nat \<Rightarrow> deadlock_detector \<Rightarrow> deadlock_detector" where
  "serve_round i d =
     (let d1 = run_detector (replicate 4 (ThreadStep i)) d in
      case dd_channel d1 of
        Some (v # _) \<Rightarrow> run_detector [ReceiveVictim, GraphOp (UnregisterTxn v)] d1
      | _ \<Rightarrow> d1)"

definition deadlocked_txns :: "wait_graph \<Rightarrow> txn_id set" where
  "deadlocked_txns g = {v. \<exists>w. deadlocked g v w}"

lemma finite_deadlocked: "finite (deadlocked_txns g)"
proof (rule finite_subset)
  show "deadlocked_txns g \<subseteq> set (map fst (wg_edges g))"
    using deadlocked_waits unfolding deadlocked_txns_def by blast
qed simp

lemma unregister_edges:
  "hm_get (wg_edges (graph_unregister v g)) x =
     (if x = v then None else map_option (hs_remove v) (hm_get (wg_edges g) x))"
  by (simp add: graph_unregister_def map_of_map)

lemma successors_unregister:
  "successors (wg_edges (graph_unregister v g)) x =
     (if x = v then [] else hs_remove v (successors (wg_edges g) x))"
proof -
  have "(case map_option (hs_remove v) e of Some hs \<Rightarrow> hs | None \<Rightarrow> []) =
      hs_remove v (case e of Some hs \<Rightarrow> hs | None \<Rightarrow> [])" for e :: "txn_id list option"
    by (cases e) (simp_all add: hs_remove_def)
  then show ?thesis unfolding successors_def unregister_edges by auto
qed

lemma unregister_deadlocked:
  "deadlocked_txns (graph_unregister v g) \<subseteq> deadlocked_txns g - {v}"
proof
  let ?g = "graph_unregister v g"
  fix x assume "x \<in> deadlocked_txns ?g"
  then obtain w where w: "deadlocked ?g x w" by (auto simp: deadlocked_txns_def)
  have "waits (wg_edges ?g) \<subseteq> waits (wg_edges g)"
    using successors_unregister [of v g] by (auto simp: waits_def split: if_splits)
  from rtrancl_mono [OF this] w have "deadlocked g x w" by (auto simp: deadlocked_def)
  moreover have "x \<noteq> v"
  proof
    assume "x = v"
    with w have "(v, w) \<in> (waits (wg_edges ?g))\<^sup>*" "v \<noteq> w" by (simp_all add: deadlocked_def)
    then obtain y where "y \<in> set (successors (wg_edges ?g) v)" by (auto elim: converse_rtranclE)
    then show False by (simp add: successors_unregister)
  qed
  ultimately show "x \<in> deadlocked_txns g - {v}" by (auto simp: deadlocked_txns_def)
qed

lemma no_deadlocked: "deadlocked_txns g = {} \<Longrightarrow> detect_deadlock g = Some None"
proof (cases rule: detect_deadlock_cases [of g])
  case (cycle C vs)
  then obtain x where "x \<in> set C" by (cases C) auto
  with deadlocked_component [OF cycle(4,5)] cycle(3) have "x \<in> deadlocked_txns g"
    by (auto simp: deadlocked_txns_def)
  then show "deadlocked_txns g = {} \<Longrightarrow> detect_deadlock g = Some None" by simp
qed simp

lemma detected_victim:
  assumes "detect_deadlock g = Some (Some vs)"
  obtains v where "vs = [v]" "v \<in> deadlocked_txns g"
proof (cases rule: detect_deadlock_cases [of g])
  case (cycle C vs')
  then have "C \<noteq> []" by auto
  from select_victims_best [OF this, of "wg_txn_info g"] cycle(1,2) assms
  obtain v where "v \<in> set C" "vs = [v]" by auto
  with deadlocked_component [OF cycle(4,5)] cycle(3) that show thesis
    by (auto simp: deadlocked_txns_def)
qed (use assms in simp)

text \<open>Between the rounds the only thread is at its test and the channel is empty.\<close>

definition idle_detector :: "wait_graph \<Rightarrow> deadlock_detector \<Rightarrow> bool" where
  "idle_detector g d \<longleftrightarrow> dd_graph d = g \<and> \<not> dd_shutdown d \<and> dd_threads d = [Checking] \<and> dd_channel d = Some []"

lemma serve_round_cases:
  assumes "idle_detector g d"
  shows "deadlocked_txns g = {} \<and> idle_detector g (serve_round 0 d) \<or>
     (\<exists>v \<in> deadlocked_txns g. idle_detector (graph_unregister v g) (serve_round 0 d))"
proof (cases rule: detect_deadlock_cases [of g])
  case none
  with assms show ?thesis
    by (simp add: idle_detector_def serve_round_def eval_nat_numeral deadlocked_txns_def)
next
  case (cycle C vs)
  then obtain v where "vs = [v]" "v \<in> deadlocked_txns g" using detected_victim by blast
  with assms cycle(1) show ?thesis
    by (auto simp: idle_detector_def serve_round_def eval_nat_numeral intro!: bexI [of _ v])
qed

lemma serve_rounds:
  assumes "idle_detector g d" "card (deadlocked_txns g) \<le> n"
  shows "\<exists>vs. idle_detector (fold graph_unregister vs g) ((serve_round 0 ^^ n) d) \<and>
     deadlocked_txns (fold graph_unregister vs g) = {} \<and> distinct vs \<and> set vs \<subseteq> deadlocked_txns g"
  using assms
proof (induction n arbitrary: g d)
  case 0
  then have "deadlocked_txns g = {}" using finite_deadlocked [of g] by simp
  with 0 show ?case by (intro exI [of _ "[]"]) simp
next
  case (Suc n)
  from serve_round_cases [OF Suc.prems(1)] show ?case
  proof
    assume none: "deadlocked_txns g = {} \<and> idle_detector g (serve_round 0 d)"
    with Suc.IH [of g "serve_round 0 d"] show ?thesis by (simp add: funpow_swap1)
  next
    assume "\<exists>v \<in> deadlocked_txns g. idle_detector (graph_unregister v g) (serve_round 0 d)"
    then obtain v where v: "v \<in> deadlocked_txns g" "idle_detector (graph_unregister v g) (serve_round 0 d)"
      by blast
    have "card (deadlocked_txns (graph_unregister v g)) \<le> card (deadlocked_txns g - {v})"
      by (rule card_mono [OF _ unregister_deadlocked]) (simp add: finite_deadlocked)
    also have "\<dots> \<le> n" using Suc.prems(2) v(1) finite_deadlocked [of g] by simp
    finally obtain vs where vs: "idle_detector (fold graph_unregister vs (graph_unregister v g))
        ((serve_round 0 ^^ n) (serve_round 0 d))"
      "deadlocked_txns (fold graph_unregister vs (graph_unregister v g)) = {}" "distinct vs"
      "set vs \<subseteq> deadlocked_txns (graph_unregister v g)"
      using Suc.IH [OF v(2)] by blast
    with v(1) unregister_deadlocked [of v g] show ?thesis
      by (intro exI [of _ "v # vs"]) (auto simp: funpow_swap1)
  qed
qed

section \<open>Properties\<close>

text \<open>
  C13: deadlocks are cleared. On every wait-for graph a started detector whose victims are
  unregistered as they are reported leaves no deadlock after at most as many rounds as
  transactions were deadlocked; each of them is unregistered at most once, nobody else is,
  and the detector is then still running with no victim unread.
\<close>

theorem detector_clears_deadlocks:
  fixes g interval
  defines "d \<equiv> (serve_round 0 ^^ card (deadlocked_txns g))
     (run_detector [StartDetector] (detector_new g interval))"
  shows "(\<nexists>v w. deadlocked (dd_graph d) v w) \<and> detect_deadlock (dd_graph d) = Some None \<and>
     dd_threads d = [Checking] \<and> dd_channel d = Some [] \<and>
     (\<exists>vs. dd_graph d = fold graph_unregister vs g \<and> distinct vs \<and> set vs \<subseteq> deadlocked_txns g)"
proof -
  have "idle_detector g (run_detector [StartDetector] (detector_new g interval))"
    by (simp add: idle_detector_def detector_start_def detector_new_def)
  from serve_rounds [OF this order_refl] obtain vs where
    "idle_detector (fold graph_unregister vs g) d" "deadlocked_txns (fold graph_unregister vs g) = {}"
    "distinct vs" "set vs \<subseteq> deadlocked_txns g"
    unfolding d_def by blast
  moreover from this(2) have "detect_deadlock (fold graph_unregister vs g) = Some None"
    by (rule no_deadlocked)
  ultimately show ?thesis by (auto simp: idle_detector_def deadlocked_txns_def)
qed

text \<open>
  Stopping ends. Whatever was done to a detector before \<open>stop\<close> and whatever the other
  threads, the lock table and the receiver do afterwards, a thread of the detector has
  returned after four steps of its own, and so \<open>stop\<close> does not wait for it any longer.
\<close>

theorem stop_ends_threads:
  assumes "d = run_detector es (detector_new g interval)" "i < length (dd_threads d)"
    "4 \<le> length (filter ((=) (ThreadStep i)) es')"
  defines "d' \<equiv> run_detector es' (snd (detector_stop d))"
  shows "dd_threads d' ! i = Returned \<and> (fst (detector_stop d) = Some i \<longrightarrow> \<not> joining (Some i) d')"
proof -
  let ?d = "snd (detector_stop d)"
  have threads: "dd_threads ?d = dd_threads d" "dd_shutdown ?d" by (simp_all add: detector_stop_def)
  have ok: "threads_ok d" unfolding assms(1) by (rule run_threads_ok [OF new_threads_ok])
  then have ok': "threads_ok ?d" by (simp add: threads_ok_def threads)
  have "steps_left (dd_threads d ! i) \<le> 4" using ok assms(2) by (simp add: threads_ok_def thread_ok_def)
  with stopped_thread_steps [OF ok' threads(2), of i es'] assms(2,3) threads(1)
  have "steps_left (dd_threads d' ! i) = 0" by (simp add: d'_def)
  moreover have "i < length (dd_threads d')"
    using order_less_le_trans [OF _ run_threads_grow [of ?d es']] assms(2) by (simp add: d'_def threads)
  then have "thread_ok (dd_threads d' ! i)"
    using run_threads_ok [OF ok', of es'] by (simp add: d'_def threads_ok_def)
  ultimately have "dd_threads d' ! i = Returned"
    by (cases "dd_threads d' ! i") (simp_all add: thread_ok_def)
  then show ?thesis by (simp add: joining_def)
qed

lemma stop_ends_threads_witness:
  "dd_threads (run_detector [ThreadStep 0, GraphOp (AddWaitEdge 2 1), ThreadStep 0, ThreadStep 0, DropReceiver, ThreadStep 0]
     (snd (detector_stop (run_detector [StartDetector, ThreadStep 0]
        (detector_new (add_wait_edge 1 2 new_graph) 10))))) ! 0 = Returned"
proof -
  have "0 < length (dd_threads (run_detector [StartDetector, ThreadStep 0]
      (detector_new (add_wait_edge 1 2 new_graph) 10)))"
    by (simp add: detector_start_def detector_new_def)
  from stop_ends_threads [OF refl this,
      of "[ThreadStep 0, GraphOp (AddWaitEdge 2 1), ThreadStep 0, ThreadStep 0, DropReceiver, ThreadStep 0]"]
  show ?thesis by simp
qed

end
