(* ===== verification/Lock_Entry.thy ===== *)
theory Lock_Entry
  imports Prelude
begin

text \<open>
  \<open>crabstash-lock\<close>: the multi-granularity modes of \<open>lock_mode.rs\<close> and the lock of one key,
  \<open>lock_entry.rs\<close>. The blocking calls \<open>acquire\<close> and \<open>upgrade\<close> hold the \<open>holders\<close> mutex only
  inside atomic regions; what other threads do to the entry between two regions is an
  explicit schedule of such regions.
\<close>

section \<open>Lock modes\<close>

datatype lock_mode = S | X | IS | IX | SIX

fun is_compatible :: "lock_mode \<Rightarrow> lock_mode \<Rightarrow> bool" where
  "is_compatible IS IS = True"
| "is_compatible IS IX = True"
| "is_compatible IS S = True"
| "is_compatible IS SIX = True"
| "is_compatible IX IS = True"
| "is_compatible IX IX = True"
| "is_compatible S IS = True"
| "is_compatible S S = True"
| "is_compatible SIX IS = True"
| "is_compatible _ _ = False"

fun is_shared :: "lock_mode \<Rightarrow> bool" where
  "is_shared S = True"
| "is_shared IS = True"
| "is_shared _ = False"

fun is_exclusive :: "lock_mode \<Rightarrow> bool" where
  "is_exclusive X = True"
| "is_exclusive IX = True"
| "is_exclusive SIX = True"
| "is_exclusive _ = False"

fun can_upgrade_to :: "lock_mode \<Rightarrow> lock_mode \<Rightarrow> bool" where
  "can_upgrade_to S X = True"
| "can_upgrade_to S SIX = True"
| "can_upgrade_to IS IX = True"
| "can_upgrade_to IS S = True"
| "can_upgrade_to IS X = True"
| "can_upgrade_to IS SIX = True"
| "can_upgrade_to IX X = True"
| "can_upgrade_to IX SIX = True"
| "can_upgrade_to _ _ = False"

lemma is_compatible_sym: "is_compatible a b = is_compatible b a"
  by (cases a; cases b) simp_all

lemma is_compatible_X [simp]: "\<not> is_compatible X m" "\<not> is_compatible m X"
  by (cases m; simp)+

lemma is_exclusive_not_shared: "is_exclusive m \<longleftrightarrow> \<not> is_shared m"
  by (cases m) simp_all

section \<open>Errors and the state of an entry\<close>

datatype lock_error =
    Timeout | Deadlock | TransactionAborted | LockEscalationFailed
  | RangeConflict | RangeLocksDisabled | NotHeld | InvalidUpgrade

text \<open>The texts \<open>Display\<close> writes.\<close>

fun display_lock_mode :: "lock_mode \<Rightarrow> string" where
  "display_lock_mode S = ''S''"
| "display_lock_mode X = ''X''"
| "display_lock_mode IS = ''IS''"
| "display_lock_mode IX = ''IX''"
| "display_lock_mode SIX = ''SIX''"

fun display_lock_error :: "lock_error \<Rightarrow> string" where
  "display_lock_error Timeout = ''lock acquisition timed out''"
| "display_lock_error Deadlock = ''deadlock detected''"
| "display_lock_error TransactionAborted = ''transaction was aborted''"
| "display_lock_error LockEscalationFailed = ''lock escalation failed''"
| "display_lock_error RangeConflict = ''range lock conflict''"
| "display_lock_error RangeLocksDisabled = ''range locks are disabled''"
| "display_lock_error NotHeld = ''lock not held by transaction''"
| "display_lock_error InvalidUpgrade = ''invalid lock upgrade path''"

lemma display_lock_mode_inj: "display_lock_mode a = display_lock_mode b \<longleftrightarrow> a = b"
  by (cases a; cases b) simp_all

record lock_entry =
  entry_key :: bytes
  holders :: "(txn_id, lock_mode) hmap"
  wait_queue :: "txn_id list"

definition new_entry :: "bytes \<Rightarrow> lock_entry" where
  "new_entry k = \<lparr>entry_key = k, holders = [], wait_queue = []\<rparr>"

definition is_compatible_with_holders :: "(txn_id, lock_mode) hmap \<Rightarrow> txn_id \<Rightarrow> lock_mode \<Rightarrow> bool" where
  "is_compatible_with_holders hs txn_id mode =
     list_all (\<lambda>(id, held_mode). id = txn_id \<or> is_compatible mode held_mode) hs"

definition remove_from_queue :: "txn_id \<Rightarrow> lock_entry \<Rightarrow> lock_entry" where
  "remove_from_queue txn_id e = e\<lparr>wait_queue := filter (\<lambda>id. id \<noteq> txn_id) (wait_queue e)\<rparr>"

definition try_acquire :: "txn_id \<Rightarrow> lock_mode \<Rightarrow> lock_entry \<Rightarrow> bool \<times> lock_entry" where
  "try_acquire txn_id mode e =
     (if (case hm_get (holders e) txn_id of
            Some held_mode \<Rightarrow> held_mode = mode \<or> \<not> can_upgrade_to held_mode mode
          | None \<Rightarrow> False)
      then (True, e)
      else if is_compatible_with_holders (holders e) txn_id mode
      then (True, e\<lparr>holders := hm_insert txn_id mode (holders e)\<rparr>)
      else (False, e))"

definition release :: "txn_id \<Rightarrow> lock_entry \<Rightarrow> bool \<times> lock_entry" where
  "release txn_id e =
     (hm_get (holders e) txn_id \<noteq> None, e\<lparr>holders := hm_remove txn_id (holders e)\<rparr>)"

definition is_held_by :: "lock_entry \<Rightarrow> txn_id \<Rightarrow> bool" where
  "is_held_by e txn_id = (hm_get (holders e) txn_id \<noteq> None)"

definition get_mode :: "lock_entry \<Rightarrow> txn_id \<Rightarrow> lock_mode option" where
  "get_mode e txn_id = hm_get (holders e) txn_id"

definition holder_count :: "lock_entry \<Rightarrow> nat" where
  "holder_count e = length (holders e)"

definition waiter_count :: "lock_entry \<Rightarrow> nat" where
  "waiter_count e = length (wait_queue e)"

definition get_holders :: "lock_entry \<Rightarrow> (txn_id \<times> lock_mode) list" where
  "get_holders e = map (\<lambda>(id, mode). (id, mode)) (holders e)"

definition get_waiters :: "lock_entry \<Rightarrow> txn_id list" where
  "get_waiters e = wait_queue e"

section \<open>The blocking calls\<close>

text \<open>
  How a thread comes to a round of the waiting loop: before its deadline (or without one), at
  the deadline, which it finds passed after it has looked at the holders, or because the wait
  itself timed out. The loop looks at the holders before its first wait, so \<open>Timed_out\<close> in a
  first round is no run of the code; what is proved holds for it as well.
\<close>

datatype wakeup = In_time | Deadline_passed | Timed_out

text \<open>
  One round of the waiting loop, under the \<open>holders\<close> mutex: give up at once after a wait that
  timed out, grant, give up at the deadline, or park on the condition variable (\<open>None\<close>).
\<close>

definition acquire_round ::
  "txn_id \<Rightarrow> lock_mode \<Rightarrow> wakeup \<Rightarrow> lock_entry \<Rightarrow> (lock_error, unit) result option \<times> lock_entry" where
  "acquire_round txn_id mode wakeup e =
     (if wakeup = Timed_out then (Some (Err Timeout), remove_from_queue txn_id e)
      else if is_compatible_with_holders (holders e) txn_id mode
      then (Some (Ok ()), remove_from_queue txn_id
              (e\<lparr>holders := hm_insert txn_id mode (holders e)\<rparr>))
      else if wakeup = Deadline_passed then (Some (Err Timeout), remove_from_queue txn_id e)
      else (None, e))"

text \<open>\<open>upgrade\<close> tests the holders' modes against the target, the other way round.\<close>

definition upgrade_round ::
  "txn_id \<Rightarrow> lock_mode \<Rightarrow> wakeup \<Rightarrow> lock_entry \<Rightarrow> (lock_error, unit) result option \<times> lock_entry" where
  "upgrade_round txn_id target_mode wakeup e =
     (if wakeup = Timed_out then (Some (Err Timeout), remove_from_queue txn_id e)
      else if list_all (\<lambda>(id, mode). id = txn_id \<or> is_compatible mode target_mode) (holders e)
      then (Some (Ok ()), remove_from_queue txn_id
              (e\<lparr>holders := hm_insert txn_id target_mode (holders e)\<rparr>))
      else if wakeup = Deadline_passed then (Some (Err Timeout), remove_from_queue txn_id e)
      else (None, e))"

definition upgrade_check ::
  "txn_id \<Rightarrow> lock_mode \<Rightarrow> lock_entry \<Rightarrow> (lock_error, unit) result option" where
  "upgrade_check txn_id target_mode e =
     (case hm_get (holders e) txn_id of
        Some current_mode \<Rightarrow>
          if current_mode = target_mode then Some (Ok ())
          else if \<not> can_upgrade_to current_mode target_mode then Some (Err InvalidUpgrade)
          else None
      | None \<Rightarrow> Some (Err NotHeld))"

definition enqueue_back :: "txn_id \<Rightarrow> lock_entry \<Rightarrow> lock_entry" where
  "enqueue_back txn_id e = e\<lparr>wait_queue := wait_queue e @ [txn_id]\<rparr>"

definition enqueue_front :: "txn_id \<Rightarrow> lock_entry \<Rightarrow> lock_entry" where
  "enqueue_front txn_id e = e\<lparr>wait_queue := txn_id # wait_queue e\<rparr>"

text \<open>The atomic regions another thread can execute on the entry.\<close>

datatype entry_action =
    TryAcquire txn_id lock_mode
  | EnqueueBack txn_id
  | EnqueueFront txn_id
  | AcquireRound txn_id lock_mode wakeup
  | UpgradeRound txn_id lock_mode wakeup
  | Release txn_id

fun run_action :: "entry_action \<Rightarrow> lock_entry \<Rightarrow> lock_entry" where
  "run_action (TryAcquire t m) e = snd (try_acquire t m e)"
| "run_action (EnqueueBack t) e = enqueue_back t e"
| "run_action (EnqueueFront t) e = enqueue_front t e"
| "run_action (AcquireRound t m w) e = snd (acquire_round t m w e)"
| "run_action (UpgradeRound t m w) e = snd (upgrade_round t m w e)"
| "run_action (Release t) e = snd (release t e)"

definition run_actions :: "entry_action list \<Rightarrow> lock_entry \<Rightarrow> lock_entry" where
  "run_actions acts e = fold run_action acts e"

text \<open>
  A schedule lists, for each round of the loop, what the other threads did before this
  thread got the mutex again, and how it came to it. \<open>None\<close>: the schedule ended while the
  thread was parked.
\<close>

type_synonym schedule = "(entry_action list \<times> wakeup) list"

fun wait_loop ::
  "(wakeup \<Rightarrow> lock_entry \<Rightarrow> (lock_error, unit) result option \<times> lock_entry) \<Rightarrow> schedule \<Rightarrow>
   lock_entry \<Rightarrow> (lock_error, unit) result option \<times> lock_entry" where
  "wait_loop round [] e = (None, e)"
| "wait_loop round ((acts, w) # sched) e =
     (case round w (run_actions acts e) of
        (Some r, e') \<Rightarrow> (Some r, e')
      | (None, e') \<Rightarrow> wait_loop round sched e')"

definition acquire ::
  "txn_id \<Rightarrow> lock_mode \<Rightarrow> schedule \<Rightarrow> lock_entry \<Rightarrow> (lock_error, unit) result option \<times> lock_entry" where
  "acquire txn_id mode sched e =
     (case try_acquire txn_id mode e of
        (True, e') \<Rightarrow> (Some (Ok ()), e')
      | (False, e') \<Rightarrow> wait_loop (acquire_round txn_id mode) sched (enqueue_back txn_id e'))"

definition upgrade ::
  "txn_id \<Rightarrow> lock_mode \<Rightarrow> schedule \<Rightarrow> lock_entry \<Rightarrow> (lock_error, unit) result option \<times> lock_entry" where
  "upgrade txn_id target_mode sched e =
     (case upgrade_check txn_id target_mode e of
        Some r \<Rightarrow> (Some r, e)
      | None \<Rightarrow> wait_loop (upgrade_round txn_id target_mode) sched (enqueue_front txn_id e))"

section \<open>Holders are pairwise compatible\<close>

definition holders_ok :: "lock_entry \<Rightarrow> bool" where
  "holders_ok e \<longleftrightarrow> hm_wf (holders e) \<and>
     (\<forall>t1 t2 m1 m2. t1 \<noteq> t2 \<longrightarrow> hm_get (holders e) t1 = Some m1 \<longrightarrow>
        hm_get (holders e) t2 = Some m2 \<longrightarrow> is_compatible m1 m2)"

lemma holders_okD:
  "holders_ok e \<Longrightarrow> hm_get (holders e) t1 = Some m1 \<Longrightarrow> hm_get (holders e) t2 = Some m2 \<Longrightarrow>
   t1 \<noteq> t2 \<Longrightarrow> is_compatible m1 m2"
  unfolding holders_ok_def by blast

lemma holders_ok_new [simp]: "holders_ok (new_entry k)"
  by (simp add: holders_ok_def new_entry_def)

lemma holders_ok_queue [simp]: "holders_ok (e\<lparr>wait_queue := q\<rparr>) = holders_ok e"
  by (simp add: holders_ok_def)

lemma compatible_with_holders_iff:
  assumes "holders_ok e"
  shows "is_compatible_with_holders (holders e) t m \<longleftrightarrow>
           (\<forall>t' m'. hm_get (holders e) t' = Some m' \<longrightarrow> t' \<noteq> t \<longrightarrow> is_compatible m m')"
  using assms
  by (auto simp: is_compatible_with_holders_def holders_ok_def hm_list_all_get)

lemma holders_ok_grant:
  assumes "holders_ok e"
    "\<And>t' m'. hm_get (holders e) t' = Some m' \<Longrightarrow> t' \<noteq> t \<Longrightarrow> is_compatible m m'"
  shows "holders_ok (e\<lparr>holders := hm_insert t m (holders e)\<rparr>)"
  using assms is_compatible_sym by (fastforce simp: holders_ok_def split: if_splits)

lemma holders_ok_compatible_grant:
  assumes "holders_ok e" "is_compatible_with_holders (holders e) t m"
  shows "holders_ok (e\<lparr>holders := hm_insert t m (holders e)\<rparr>)"
  using assms by (intro holders_ok_grant) (auto simp: compatible_with_holders_iff)

lemma holders_ok_remove_from_queue [simp]: "holders_ok (remove_from_queue t e) = holders_ok e"
  by (simp add: remove_from_queue_def)

lemma holders_ok_try_acquire: "holders_ok e \<Longrightarrow> holders_ok (snd (try_acquire t m e))"
  by (simp add: try_acquire_def holders_ok_compatible_grant)

lemma holders_ok_acquire_round: "holders_ok e \<Longrightarrow> holders_ok (snd (acquire_round t m x e))"
  by (simp add: acquire_round_def holders_ok_compatible_grant)

lemma upgrade_round_test:
  "list_all (\<lambda>(id, mode). id = t \<or> is_compatible mode m) hs = is_compatible_with_holders hs t m"
  by (simp add: is_compatible_with_holders_def is_compatible_sym [of m])

lemma upgrade_round_eq_acquire_round: "upgrade_round = acquire_round"
  by (intro ext) (simp add: upgrade_round_def acquire_round_def upgrade_round_test)

lemma holders_ok_release: "holders_ok e \<Longrightarrow> holders_ok (snd (release t e))"
  by (auto simp: holders_ok_def release_def split: if_splits)

lemma holders_ok_run_action: "holders_ok e \<Longrightarrow> holders_ok (run_action a e)"
  by (cases a)
     (simp_all add: holders_ok_try_acquire holders_ok_acquire_round holders_ok_release
        upgrade_round_eq_acquire_round enqueue_back_def enqueue_front_def)

lemma holders_ok_run_actions: "holders_ok e \<Longrightarrow> holders_ok (run_actions acts e)"
  unfolding run_actions_def by (induction acts arbitrary: e) (simp_all add: holders_ok_run_action)

lemma holders_ok_wait_loop:
  "holders_ok e \<Longrightarrow> holders_ok (snd (wait_loop (acquire_round t m) sched e))"
proof (induction sched arbitrary: e)
  case (Cons step sched)
  obtain acts x where step: "step = (acts, x)" by (cases step)
  obtain r e' where round: "acquire_round t m x (run_actions acts e) = (r, e')"
    by (cases "acquire_round t m x (run_actions acts e)")
  have "holders_ok e'"
    using holders_ok_acquire_round [OF holders_ok_run_actions [OF Cons.prems], of t m x acts] round
    by simp
  then show ?case
    using Cons.IH step round by (cases r) auto
qed simp

lemma holders_ok_acquire: "holders_ok e \<Longrightarrow> holders_ok (snd (acquire t m sched e))"
  using holders_ok_try_acquire [of e t m]
  by (auto simp: acquire_def enqueue_back_def holders_ok_wait_loop split: prod.split bool.split)

lemma holders_ok_upgrade: "holders_ok e \<Longrightarrow> holders_ok (snd (upgrade t m sched e))"
  by (auto simp: upgrade_def enqueue_front_def holders_ok_wait_loop
        upgrade_round_eq_acquire_round split: option.split)

lemmas holders_ok_ops =
  holders_ok_try_acquire holders_ok_release holders_ok_acquire holders_ok_upgrade

section \<open>What the calls answer\<close>

text \<open>
  A mode covers another when it excludes at least the modes the other one excludes. A grant
  of \<open>try_acquire\<close> leaves the transaction with a mode that covers the requested one, but for
  three pairs that have no upgrade path and are answered \<open>true\<close> with nothing granted.
\<close>

definition covers :: "lock_mode \<Rightarrow> lock_mode \<Rightarrow> bool" where
  "covers a b \<longleftrightarrow> list_all (\<lambda>m. is_compatible a m \<longrightarrow> is_compatible b m) [S, X, IS, IX, SIX]"

definition ungranted_pairs :: "(lock_mode \<times> lock_mode) list" where
  "ungranted_pairs = [(S, IX), (IX, S), (SIX, X)]"

lemma covers_iff: "covers a b \<longleftrightarrow> (\<forall>m. is_compatible a m \<longrightarrow> is_compatible b m)"
proof
  assume c: "covers a b"
  show "\<forall>m. is_compatible a m \<longrightarrow> is_compatible b m"
  proof
    fix m show "is_compatible a m \<longrightarrow> is_compatible b m"
      using c by (cases m) (auto simp: covers_def)
  qed
qed (simp add: covers_def)

lemma covers_refl [simp]: "covers m m"
  by (simp add: covers_iff)

lemma upgrade_covers: "can_upgrade_to a b \<Longrightarrow> covers b a"
  by (cases a; cases b) (simp_all add: covers_def)

lemma no_upgrade_cases:
  "\<not> can_upgrade_to held m \<longleftrightarrow> covers held m \<or> (held, m) \<in> set ungranted_pairs"
  by (cases held; cases m) (simp_all add: covers_def ungranted_pairs_def)

lemma try_acquire_true:
  assumes "try_acquire t m e = (True, e')"
  obtains held where "get_mode e' t = Some held"
    "covers held m \<or> (held, m) \<in> set ungranted_pairs"
proof (cases "holders e' = holders e \<and> (\<exists>held. hm_get (holders e) t = Some held)")
  case True
  then obtain held where held: "hm_get (holders e) t = Some held" by blast
  show thesis
  proof (cases "held = m \<or> \<not> can_upgrade_to held m")
    case h: True
    then have "covers held m \<or> (held, m) \<in> set ungranted_pairs"
      using no_upgrade_cases by (metis covers_refl)
    with True held show thesis by (intro that) (auto simp: get_mode_def)
  next
    case False
    with assms held have "get_mode e' t = Some m"
      by (auto simp: try_acquire_def get_mode_def split: if_splits)
    then show thesis using that by (metis covers_refl)
  qed
next
  case False
  with assms have "get_mode e' t = Some m"
    by (auto simp: try_acquire_def get_mode_def split: if_splits option.splits)
  then show thesis using that by (metis covers_refl)
qed

lemma acquire_round_answers:
  "acquire_round t m x e = (r, e') \<Longrightarrow>
     (r = Some (Ok ()) \<and> get_mode e' t = Some m \<and> t \<notin> set (wait_queue e')) \<or>
     (r = Some (Err Timeout) \<and> x \<noteq> In_time \<and> holders e' = holders e \<and> t \<notin> set (wait_queue e')) \<or>
     (r = None \<and> e' = e \<and> x = In_time)"
  by (cases x) (auto simp: acquire_round_def remove_from_queue_def get_mode_def split: if_splits)

text \<open>Whether a round of the schedule ends the wait for time.\<close>

definition runs_out :: "schedule \<Rightarrow> bool" where
  "runs_out sched = list_ex (\<lambda>(acts, w). w \<noteq> In_time) sched"

lemma wait_loop_answers:
  assumes "wait_loop (acquire_round t m) sched e = (Some r, e')"
  shows "t \<notin> set (wait_queue e') \<and>
    (r = Ok () \<and> get_mode e' t = Some m \<or> r = Err Timeout \<and> runs_out sched)"
  using assms
proof (induction sched arbitrary: e)
  case (Cons step sched)
  obtain acts x where step: "step = (acts, x)" by (cases step)
  obtain r0 e0 where round: "acquire_round t m x (run_actions acts e) = (r0, e0)"
    by (cases "acquire_round t m x (run_actions acts e)")
  note acquire_round_answers [OF round]
  then show ?case
    using Cons step round by (cases r0) (auto simp: runs_out_def)
qed simp

text \<open>A thread is still parked at the end of a schedule only if no deadline passed.\<close>

lemma wait_loop_parked:
  assumes "wait_loop (acquire_round t m) sched e = (None, e')"
  shows "\<not> runs_out sched"
  using assms
proof (induction sched arbitrary: e)
  case (Cons step sched)
  obtain acts x where step: "step = (acts, x)" by (cases step)
  obtain r0 e0 where round: "acquire_round t m x (run_actions acts e) = (r0, e0)"
    by (cases "acquire_round t m x (run_actions acts e)")
  from acquire_round_answers [OF round] Cons step round show ?case by (auto simp: runs_out_def)
qed (simp add: runs_out_def)

section \<open>Properties\<close>

text \<open>
  C5: mutual exclusion. However the threads interleave their attempts, waits, timeouts,
  upgrades and releases on a key, two transactions that hold the key at the same time hold
  compatible modes, so nobody shares a key with an \<open>X\<close> holder.
\<close>

theorem holders_never_conflict:
  assumes "get_mode (run_actions acts (new_entry k)) t1 = Some m1"
    "get_mode (run_actions acts (new_entry k)) t2 = Some m2" "t1 \<noteq> t2"
  shows "is_compatible m1 m2 \<and> m1 \<noteq> X \<and> m2 \<noteq> X"
proof -
  have "is_compatible m1 m2"
    using holders_okD [OF holders_ok_run_actions [OF holders_ok_new]] assms
    unfolding get_mode_def by blast
  then show ?thesis by auto
qed

lemma holders_never_conflict_witness:
  "is_compatible SIX IS \<and> SIX \<noteq> X \<and> IS \<noteq> X"
proof -
  let ?acts = "[TryAcquire 1 S, TryAcquire 2 IS, TryAcquire 3 X, EnqueueFront 1,
                UpgradeRound 1 SIX In_time]"
  have "get_mode (run_actions ?acts (new_entry [])) 1 = Some SIX"
    "get_mode (run_actions ?acts (new_entry [])) 2 = Some IS"
    by code_simp+
  then show ?thesis by (rule holders_never_conflict) simp
qed

text \<open>
  C28: what \<open>acquire\<close> answers, under every schedule of the other threads. If the deadline passes
  at all during the schedule, the call ends. It ends with a grant, after which the transaction
  holds a mode that excludes at least what the requested mode excludes, or one of the three
  \<open>ungranted_pairs\<close>, or with \<open>Timeout\<close>, which needs a deadline that passed; it never panics,
  leaves nothing of the transaction in the wait queue, and keeps the holders compatible.
\<close>

theorem acquire_answers:
  assumes "holders_ok e" "t \<notin> set (wait_queue e)" "acquire t m sched e = (answer, e')"
  shows "holders_ok e' \<and>
    (case answer of
       None \<Rightarrow> \<not> runs_out sched
     | Some r \<Rightarrow> t \<notin> set (wait_queue e') \<and>
         (r = Ok () \<and> (\<exists>held. get_mode e' t = Some held \<and>
                          (covers held m \<or> (held, m) \<in> set ungranted_pairs)) \<or>
          r = Err Timeout \<and> runs_out sched))"
proof -
  have ok: "holders_ok e'"
    using holders_ok_acquire [OF assms(1), of t m sched] assms(3) by simp
  obtain b e1 where tried: "try_acquire t m e = (b, e1)" by (cases "try_acquire t m e")
  show ?thesis
  proof (cases b)
    case True
    with tried assms(3) have "answer = Some (Ok ())" "try_acquire t m e = (True, e')"
      by (auto simp: acquire_def)
    moreover from this(2) have "wait_queue e' = wait_queue e"
      by (auto simp: try_acquire_def split: if_splits)
    moreover obtain held where "get_mode e' t = Some held" "covers held m \<or> (held, m) \<in> set ungranted_pairs"
      using try_acquire_true [OF calculation(2)] by blast
    ultimately show ?thesis using ok assms(2) by auto
  next
    case False
    with tried assms(3)
    have loop: "wait_loop (acquire_round t m) sched (enqueue_back t e1) = (answer, e')"
      by (simp add: acquire_def)
    show ?thesis
    proof (cases answer)
      case None
      with loop wait_loop_parked ok show ?thesis by simp
    next
      case (Some r)
      with wait_loop_answers [of t m sched _ r e'] loop ok show ?thesis by auto
    qed
  qed
qed

lemma acquire_answers_witness:
  "\<exists>e'. acquire 2 X [([], In_time), ([Release 1], In_time)]
           (snd (try_acquire 1 S (new_entry [7]))) = (Some (Ok ()), e') \<and>
        holders_ok e' \<and> 2 \<notin> set (wait_queue e')"
proof -
  let ?e = "snd (try_acquire 1 S (new_entry [7]))"
  let ?sched = "[([], In_time), ([Release 1], In_time)]"
  have ok: "holders_ok ?e" by (rule holders_ok_try_acquire) simp
  have q: "2 \<notin> set (wait_queue ?e)" by code_simp
  have "fst (acquire 2 X ?sched ?e) = Some (Ok ())" by code_simp
  then obtain e' where "acquire 2 X ?sched ?e = (Some (Ok ()), e')"
    by (cases "acquire 2 X ?sched ?e") auto
  with acquire_answers [OF ok q this] show ?thesis by auto
qed

text \<open>
  \<open>upgrade\<close> on every branch. Without a lock it is refused with \<open>NotHeld\<close>; the held
  mode itself is accepted unchanged; a target that is no upgrade is refused with
  \<open>InvalidUpgrade\<close>; otherwise the call ends with the target granted or with \<open>Timeout\<close>,
  and the transaction no longer waits.
\<close>

theorem upgrade_answers:
  assumes "upgrade t m sched e = (Some r, e')"
  shows "case get_mode e t of
      None \<Rightarrow> r = Err NotHeld \<and> e' = e
    | Some current \<Rightarrow>
        if current = m then r = Ok () \<and> e' = e
        else if \<not> can_upgrade_to current m then r = Err InvalidUpgrade \<and> e' = e
        else t \<notin> set (wait_queue e') \<and>
          (r = Ok () \<and> get_mode e' t = Some m \<or> r = Err Timeout \<and> runs_out sched)"
proof (cases "upgrade_check t m e")
  case None
  with assms have "wait_loop (acquire_round t m) sched (enqueue_front t e) = (Some r, e')"
    by (simp add: upgrade_def upgrade_round_eq_acquire_round)
  from wait_loop_answers [OF this] None show ?thesis
    by (auto simp: upgrade_check_def get_mode_def split: option.splits if_splits)
next
  case (Some r')
  with assms show ?thesis
    by (auto simp: upgrade_def upgrade_check_def get_mode_def split: option.splits if_splits)
qed

lemma upgrade_answers_witness:
  "\<exists>e'. upgrade 1 X [([Release 2], In_time)]
           (run_actions [TryAcquire 1 S, TryAcquire 2 S] (new_entry [])) = (Some (Ok ()), e') \<and>
        1 \<notin> set (wait_queue e') \<and> get_mode e' 1 = Some X"
proof -
  let ?e = "run_actions [TryAcquire 1 S, TryAcquire 2 S] (new_entry [])"
  have "fst (upgrade 1 X [([Release 2], In_time)] ?e) = Some (Ok ())" by code_simp
  then obtain e' where e': "upgrade 1 X [([Release 2], In_time)] ?e = (Some (Ok ()), e')"
    by (cases "upgrade 1 X [([Release 2], In_time)] ?e") auto
  have "get_mode ?e 1 = Some S" by code_simp
  with upgrade_answers [OF e'] e' show ?thesis by auto
qed

text \<open>
  Three requests are answered \<open>true\<close> although nothing is granted. A holder of \<open>S\<close>
  that asks for \<open>IX\<close>, of \<open>IX\<close> that asks for \<open>S\<close>, or of \<open>SIX\<close> that asks for \<open>X\<close>
  keeps its old mode, and that mode does not exclude what the requested one must exclude:
  another transaction can still be granted a mode the request was to keep out.
\<close>

theorem ungranted_request_answered_true:
  assumes "(held, m) \<in> set ungranted_pairs" "get_mode e t = Some held"
  shows "try_acquire t m e = (True, e) \<and> \<not> covers held m \<and>
    (\<exists>other. is_compatible held other \<and> \<not> is_compatible m other)"
proof -
  have "\<not> covers held m" "\<not> can_upgrade_to held m" "held \<noteq> m"
    using assms(1) by (auto simp: ungranted_pairs_def covers_def)
  with assms(2) show ?thesis
    by (auto simp: try_acquire_def get_mode_def covers_iff)
qed

lemma ungranted_request_answered_true_witness:
  "try_acquire 1 X (snd (try_acquire 1 SIX (new_entry []))) =
     (True, snd (try_acquire 1 SIX (new_entry []))) \<and> \<not> covers SIX X \<and>
   (\<exists>other. is_compatible SIX other \<and> \<not> is_compatible X other)"
proof -
  have "(SIX, X) \<in> set ungranted_pairs" by (simp add: ungranted_pairs_def)
  moreover have "get_mode (snd (try_acquire 1 SIX (new_entry []))) 1 = Some SIX" by code_simp
  ultimately show ?thesis by (rule ungranted_request_answered_true)
qed

end
