(* ===== verification/Range_Lock.thy ===== *)
theory Range_Lock
  imports Lock_Entry "HOL-Library.Tree" "HOL-Library.Multiset"
begin

text \<open>
  \<open>crabstash-lock/src/range_lock.rs\<close>: range locks and the interval tree that indexes them.
  The tree is a vector of nodes that name their children by index, as in the code; the
  proofs relate it to a binary tree of indices. Contents are specified by the locale
  \<open>overlap_index\<close>, which the lock table uses.
\<close>

section \<open>Range lock entries\<close>

record range_lock =
  rl_txn_id :: txn_id
  rl_mode :: lock_mode
  rl_start :: "bytes bound"
  rl_end :: "bytes bound"

definition new_range_lock :: "txn_id \<Rightarrow> lock_mode \<Rightarrow> bytes bound \<Rightarrow> bytes bound \<Rightarrow> range_lock" where
  "new_range_lock txn_id mode s e =
     \<lparr>rl_txn_id = txn_id, rl_mode = mode, rl_start = s, rl_end = e\<rparr>"

definition contains_key :: "range_lock \<Rightarrow> bytes \<Rightarrow> bool" where
  "contains_key r key =
     (let after_start = (case rl_start r of
            Included s \<Rightarrow> key \<ge> s
          | Excluded s \<Rightarrow> key > s
          | Unbounded \<Rightarrow> True);
          before_end = (case rl_end r of
            Included e \<Rightarrow> key \<le> e
          | Excluded e \<Rightarrow> key < e
          | Unbounded \<Rightarrow> True)
      in after_start \<and> before_end)"

fun is_before :: "bytes bound \<Rightarrow> bytes bound \<Rightarrow> bool" where
  "is_before Unbounded _ = False"
| "is_before _ Unbounded = False"
| "is_before (Included e) (Included s) = (e < s)"
| "is_before (Included e) (Excluded s) = (e \<le> s)"
| "is_before (Excluded e) (Included s) = (e \<le> s)"
| "is_before (Excluded e) (Excluded s) = (e \<le> s)"

fun is_after :: "bytes bound \<Rightarrow> bytes bound \<Rightarrow> bool" where
  "is_after Unbounded _ = False"
| "is_after _ Unbounded = False"
| "is_after (Included s) (Included e) = (s > e)"
| "is_after (Included s) (Excluded e) = (s \<ge> e)"
| "is_after (Excluded s) (Included e) = (s \<ge> e)"
| "is_after (Excluded s) (Excluded e) = (s \<ge> e)"

definition overlaps :: "range_lock \<Rightarrow> bytes bound \<Rightarrow> bytes bound \<Rightarrow> bool" where
  "overlaps r other_start other_end =
     (\<not> is_before (rl_end r) other_start \<and> \<not> is_after (rl_start r) other_end)"

section \<open>The interval tree\<close>

record interval_node =
  node_entry :: range_lock
  max_end :: bytes
  left_idx :: "nat option"
  right_idx :: "nat option"

type_synonym interval_tree = "interval_node list"

definition empty_tree :: interval_tree where
  "empty_tree = []"

definition SENTINEL :: bytes where
  "SENTINEL = replicate 256 0xFF"

fun bound_to_bytes :: "bytes bound \<Rightarrow> bytes" where
  "bound_to_bytes (Included b) = b"
| "bound_to_bytes (Excluded b) = b"
| "bound_to_bytes Unbounded = SENTINEL"

fun compare_starts :: "bytes bound \<Rightarrow> bytes bound \<Rightarrow> ordering" where
  "compare_starts Unbounded Unbounded = Equal"
| "compare_starts Unbounded _ = Less"
| "compare_starts _ Unbounded = Greater"
| "compare_starts (Included a) (Included b) = cmp a b"
| "compare_starts (Included a) (Excluded b) = (if a \<le> b then Less else Greater)"
| "compare_starts (Excluded a) (Included b) = (if a < b then Less else Greater)"
| "compare_starts (Excluded a) (Excluded b) = cmp a b"

fun bound_less_than :: "bytes \<Rightarrow> bytes bound \<Rightarrow> bool" where
  "bound_less_than m Unbounded = False"
| "bound_less_than m (Included s) = (m < s)"
| "bound_less_than m (Excluded s) = (m \<le> s)"

fun bound_greater_than :: "bytes bound \<Rightarrow> bytes bound \<Rightarrow> bool" where
  "bound_greater_than Unbounded _ = False"
| "bound_greater_than _ Unbounded = False"
| "bound_greater_than (Included s) (Included e) = (s > e)"
| "bound_greater_than (Included s) (Excluded e) = (s \<ge> e)"
| "bound_greater_than (Excluded s) (Included e) = (s > e)"
| "bound_greater_than (Excluded s) (Excluded e) = (s \<ge> e)"

definition new_node :: "range_lock \<Rightarrow> bytes \<Rightarrow> interval_node" where
  "new_node entry m = \<lparr>node_entry = entry, max_end = m, left_idx = None, right_idx = None\<rparr>"

text \<open>
  The descent of \<open>insert\<close>. \<open>None\<close>: an index out of range (a panic) or a cycle of child
  indices (no return); \<open>insert_tree_ok\<close> below excludes both.
\<close>

partial_function (option) insert_descend ::
  "interval_tree \<Rightarrow> range_lock \<Rightarrow> bytes \<Rightarrow> nat \<Rightarrow> nat \<Rightarrow> interval_tree option" where
  "insert_descend nodes entry m new_idx idx =
     (if idx < length nodes then
        let node = nodes ! idx;
            node' = (if m > max_end node then node\<lparr>max_end := m\<rparr> else node);
            nodes' = nodes[idx := node']
        in if compare_starts (rl_start entry) (rl_start (node_entry node)) = Less then
             (case left_idx node of
                Some l \<Rightarrow> insert_descend nodes' entry m new_idx l
              | None \<Rightarrow> Some (nodes'[idx := node'\<lparr>left_idx := Some new_idx\<rparr>]))
           else
             (case right_idx node of
                Some r \<Rightarrow> insert_descend nodes' entry m new_idx r
              | None \<Rightarrow> Some (nodes'[idx := node'\<lparr>right_idx := Some new_idx\<rparr>]))
      else None)"

definition insert_tree :: "range_lock \<Rightarrow> interval_tree \<Rightarrow> interval_tree option" where
  "insert_tree entry nodes =
     (let m = bound_to_bytes (rl_end entry) in
      if nodes = [] then Some [new_node entry m]
      else map_option (\<lambda>nodes'. nodes' @ [new_node entry m])
             (insert_descend nodes entry m (length nodes) 0))"

partial_function (option) find_overlapping_recursive ::
  "interval_tree \<Rightarrow> nat \<Rightarrow> bytes bound \<Rightarrow> bytes bound \<Rightarrow> range_lock list \<Rightarrow> range_lock list option" where
  "find_overlapping_recursive nodes idx s e results =
     (if idx < length nodes then
        let node = nodes ! idx in
        if bound_less_than (max_end node) s then Some results
        else
          Option.bind
            (case left_idx node of
               Some l \<Rightarrow> find_overlapping_recursive nodes l s e results
             | None \<Rightarrow> Some results)
            (\<lambda>results1.
               let results2 = (if overlaps (node_entry node) s e
                               then results1 @ [node_entry node] else results1)
               in if \<not> bound_greater_than (rl_start (node_entry node)) e then
                    (case right_idx node of
                       Some r \<Rightarrow> find_overlapping_recursive nodes r s e results2
                     | None \<Rightarrow> Some results2)
                  else Some results2)
      else None)"

definition find_overlapping ::
  "interval_tree \<Rightarrow> bytes bound \<Rightarrow> bytes bound \<Rightarrow> range_lock list option" where
  "find_overlapping nodes s e =
     (if nodes = [] then Some [] else find_overlapping_recursive nodes 0 s e [])"

definition find_containing_key :: "interval_tree \<Rightarrow> bytes \<Rightarrow> range_lock list option" where
  "find_containing_key nodes key = find_overlapping nodes (Included key) (Included key)"

fun insert_all :: "range_lock list \<Rightarrow> interval_tree \<Rightarrow> interval_tree option" where
  "insert_all [] nodes = Some nodes"
| "insert_all (entry # entries) nodes = Option.bind (insert_tree entry nodes) (insert_all entries)"

definition rebuild :: "interval_tree \<Rightarrow> interval_tree option" where
  "rebuild nodes = (if nodes = [] then Some [] else insert_all (map node_entry nodes) [])"

definition remove_by_txn :: "txn_id \<Rightarrow> interval_tree \<Rightarrow> interval_tree option" where
  "remove_by_txn txn_id nodes =
     rebuild (filter (\<lambda>node. rl_txn_id (node_entry node) \<noteq> txn_id) nodes)"

definition tree_is_empty :: "interval_tree \<Rightarrow> bool" where
  "tree_is_empty nodes = (nodes = [])"

definition tree_len :: "interval_tree \<Rightarrow> nat" where
  "tree_len nodes = length nodes"

section \<open>Overlap and containment\<close>

lemma contains_key_in_bounds: "contains_key r k \<longleftrightarrow> in_bounds (rl_start r) (rl_end r) k"
  by (cases "rl_start r"; cases "rl_end r") (auto simp: contains_key_def in_bounds_def)

lemma overlaps_point:
  "overlaps r (Included k) (Included k) \<longleftrightarrow> contains_key r k"
  by (cases "rl_start r"; cases "rl_end r")
     (auto simp: overlaps_def contains_key_def not_less not_le)

lemma common_key_overlaps:
  assumes "contains_key r k" "in_bounds s e k"
  shows "overlaps r s e"
  using assms
  by (cases "rl_start r"; cases "rl_end r"; cases s; cases e)
     (auto simp: overlaps_def contains_key_def in_bounds_def)

section \<open>The vector of nodes as a binary tree\<close>

fun repr :: "interval_tree \<Rightarrow> nat option \<Rightarrow> nat tree \<Rightarrow> bool" where
  "repr nodes oi Leaf = (oi = None)"
| "repr nodes oi (Node l i r) =
     (oi = Some i \<and> i < length nodes \<and>
      repr nodes (left_idx (nodes ! i)) l \<and> repr nodes (right_idx (nodes ! i)) r)"

abbreviation start_at :: "interval_tree \<Rightarrow> nat \<Rightarrow> bytes bound" where
  "start_at nodes i \<equiv> rl_start (node_entry (nodes ! i))"

abbreviation end_at :: "interval_tree \<Rightarrow> nat \<Rightarrow> bytes bound" where
  "end_at nodes i \<equiv> rl_end (node_entry (nodes ! i))"

fun ordered :: "interval_tree \<Rightarrow> nat tree \<Rightarrow> bool" where
  "ordered nodes Leaf = True"
| "ordered nodes (Node l i r) =
     (ordered nodes l \<and> ordered nodes r \<and>
      (\<forall>j \<in> set_tree r. compare_starts (start_at nodes j) (start_at nodes i) \<noteq> Less) \<and>
      (\<forall>j \<in> set_tree (Node l i r). bound_to_bytes (end_at nodes j) \<le> max_end (nodes ! i)))"

definition tree_ok :: "interval_tree \<Rightarrow> bool" where
  "tree_ok nodes \<longleftrightarrow>
     (\<exists>t. repr nodes (if nodes = [] then None else Some 0) t \<and> ordered nodes t \<and>
          distinct (inorder t) \<and> set_tree t = {..<length nodes})"

definition tree_entries :: "interval_tree \<Rightarrow> range_lock list" where
  "tree_entries nodes = map node_entry nodes"

lemma repr_bound: "repr nodes oi t \<Longrightarrow> set_tree t \<subseteq> {..<length nodes}"
  by (induction t arbitrary: oi) auto

lemma repr_frame:
  "repr nodes oi t \<Longrightarrow> (\<And>j. j \<in> set_tree t \<Longrightarrow> j < length nodes' \<and> nodes' ! j = nodes ! j) \<Longrightarrow>
   repr nodes' oi t"
  by (induction t arbitrary: oi) auto

lemma ordered_frame:
  "ordered nodes t \<Longrightarrow> (\<And>j. j \<in> set_tree t \<Longrightarrow> nodes' ! j = nodes ! j) \<Longrightarrow> ordered nodes' t"
  by (induction t) auto

text \<open>
  A vector that differs from the old one at \<open>i\<close>, inside one subtree, and by the new last
  node still represents the other subtree.
\<close>

lemma subtree_frame:
  assumes "repr nodes oi t" "ordered nodes t" "length nodes' = length nodes"
    "\<And>j. j \<in> set_tree t \<Longrightarrow> nodes' ! j = nodes ! j"
  shows "repr (nodes' @ [n]) oi t" "ordered (nodes' @ [n]) t"
proof -
  have same: "j < length (nodes' @ [n]) \<and> (nodes' @ [n]) ! j = nodes ! j" if "j \<in> set_tree t" for j
    using repr_bound [OF assms(1)] assms(3,4) that by (auto simp: nth_append)
  show "repr (nodes' @ [n]) oi t"
    using repr_frame [OF assms(1) same] .
  show "ordered (nodes' @ [n]) t"
    using ordered_frame [OF assms(2)] same by blast
qed

definition inserts_into ::
  "interval_tree \<Rightarrow> range_lock \<Rightarrow> nat tree \<Rightarrow> nat option \<Rightarrow> interval_tree \<Rightarrow> nat tree \<Rightarrow> bool" where
  "inserts_into nodes entry t oi nodes' t' \<longleftrightarrow>
     (let n = new_node entry (bound_to_bytes (rl_end entry)) in
      length nodes' = length nodes \<and> map node_entry nodes' = map node_entry nodes \<and>
      (\<forall>j. j \<notin> set_tree t \<longrightarrow> nodes' ! j = nodes ! j) \<and>
      repr (nodes' @ [n]) oi t' \<and> ordered (nodes' @ [n]) t' \<and>
      set_tree t' = insert (length nodes) (set_tree t) \<and> distinct (inorder t'))"

lemma same_entries:
  assumes "map node_entry nodes' = map node_entry nodes" "j < length nodes"
  shows "node_entry (nodes' ! j) = node_entry (nodes ! j)"
  using assms by (metis length_map nth_map)

lemma ordered_children:
  assumes "ordered nodes (Node l i r)"
  shows "\<And>j. j \<in> set_tree r \<Longrightarrow> compare_starts (start_at nodes j) (start_at nodes i) \<noteq> Less"
    "\<And>j. j = i \<or> j \<in> set_tree l \<or> j \<in> set_tree r \<Longrightarrow> bound_to_bytes (end_at nodes j) \<le> max_end (nodes ! i)"
  using assms by auto

lemma insert_node_right_or_left:
  fixes entry nodes
  defines "m \<equiv> bound_to_bytes (rl_end entry)"
  assumes ordl: "ordered nodes (Node l i r)" and i: "i < length nodes"
    and bound: "set_tree l \<union> set_tree r \<subseteq> {..<length nodes}"
    and dist: "distinct (inorder (Node l i r))"
    and len: "length nodes' = length nodes"
    and ents: "map node_entry nodes' = map node_entry nodes"
    and me: "max_end (nodes' ! i) = (if m > max_end (nodes ! i) then m else max_end (nodes ! i))"
    and l': "ordered (nodes' @ [new_node entry m]) l'"
    and r': "ordered (nodes' @ [new_node entry m]) r'"
    and repl: "repr (nodes' @ [new_node entry m]) (left_idx (nodes' ! i)) l'"
    and repr: "repr (nodes' @ [new_node entry m]) (right_idx (nodes' ! i)) r'"
    and dl: "distinct (inorder l')" and dr: "distinct (inorder r')"
    and child: "set_tree l' = insert (length nodes) (set_tree l) \<and> r' = r \<or>
          set_tree r' = insert (length nodes) (set_tree r) \<and> l' = l \<and>
          compare_starts (rl_start entry) (start_at nodes i) \<noteq> Less"
    and same: "\<And>j. j \<notin> set_tree (Node l i r) \<Longrightarrow> nodes' ! j = nodes ! j"
  shows "inserts_into nodes entry (Node l i r) (Some i) nodes' (Node l' i r')"
proof -
  let ?n = "new_node entry m" and ?nodes = "nodes' @ [new_node entry m]"
  have at_old: "node_entry (?nodes ! j) = node_entry (nodes ! j)" if "j < length nodes" for j
    using that len same_entries [OF ents that] by (simp add: nth_append)
  have at_new: "node_entry (?nodes ! length nodes) = entry"
    using len by (simp add: nth_append new_node_def)
  have at_i: "?nodes ! i = nodes' ! i"
    using i len by (simp add: nth_append)
  have sets: "set_tree (Node l' i r') = insert (length nodes) (set_tree (Node l i r))"
    using child by auto
  have ends: "bound_to_bytes (end_at ?nodes j) \<le> max_end (?nodes ! i)"
    if "j \<in> set_tree (Node l' i r')" for j
  proof (cases "j = length nodes")
    case True
    then have "bound_to_bytes (end_at ?nodes j) = m"
      using at_new m_def by simp
    with me at_i show ?thesis by auto
  next
    case False
    with that sets have j: "j = i \<or> j \<in> set_tree l \<or> j \<in> set_tree r" by auto
    with i bound have "j < length nodes" by auto
    with ordered_children(2) [OF ordl j] me show ?thesis
      by (auto simp: at_old at_i)
  qed
  have starts: "compare_starts (start_at ?nodes j) (start_at ?nodes i) \<noteq> Less"
    if "j \<in> set_tree r'" for j
  proof (cases "j = length nodes")
    case True
    with child that bound i show ?thesis
      by (auto simp: at_new at_old)
  next
    case False
    with child that have "j \<in> set_tree r" by auto
    with bound ordered_children(1) [OF ordl] i show ?thesis
      by (auto simp: at_old)
  qed
  have "length nodes \<notin> set_tree l \<union> set_tree r"
    using bound by auto
  then have "distinct (inorder (Node l' i r'))"
    using child dist dl dr i by auto
  moreover have "repr ?nodes (Some i) (Node l' i r')"
    using i len repl repr by (simp add: at_i)
  moreover have "ordered ?nodes (Node l' i r')"
    using l' r' ends starts by simp
  ultimately show ?thesis
    using len ents same sets unfolding inserts_into_def Let_def m_def by blast
qed

lemma new_leaf:
  assumes "length nodes' = length nodes" "m = bound_to_bytes (rl_end entry)"
  shows "repr (nodes' @ [new_node entry m]) (Some (length nodes)) (Node Leaf (length nodes) Leaf)"
    "ordered (nodes' @ [new_node entry m]) (Node Leaf (length nodes) Leaf)"
  using assms by (simp_all add: nth_append new_node_def)

lemma repr_None [simp]: "repr nodes None t = (t = Leaf)"
  by (cases t) auto

lemma insert_descend_correct:
  fixes entry
  defines "m \<equiv> bound_to_bytes (rl_end entry)"
  assumes "repr nodes (Some idx) t" "ordered nodes t" "distinct (inorder t)"
  shows "\<exists>nodes' t'. insert_descend nodes entry m (length nodes) idx = Some nodes' \<and>
           inserts_into nodes entry t (Some idx) nodes' t'"
  using assms(2-)
proof (induction t arbitrary: nodes idx)
  case Leaf
  then show ?case by simp
next
  case (Node l i r)
  let ?node = "nodes ! i"
  let ?node' = "if m > max_end ?node then ?node\<lparr>max_end := m\<rparr> else ?node"
  let ?nodes1 = "nodes[i := ?node']"
  let ?n = "new_node entry m"
  have idx: "idx = i" and i: "i < length nodes"
    and rl: "repr nodes (left_idx ?node) l" and rr: "repr nodes (right_idx ?node) r"
    using Node.prems(1) by auto
  have ol: "ordered nodes l" and or: "ordered nodes r" using Node.prems(2) by auto
  have dist: "distinct (inorder l)" "distinct (inorder r)" "i \<notin> set_tree l" "i \<notin> set_tree r"
    "set_tree l \<inter> set_tree r = {}"
    using Node.prems(3) by auto
  have bound: "set_tree l \<union> set_tree r \<subseteq> {..<length nodes}"
    using repr_bound rl rr by blast
  have same1: "?nodes1 ! j = nodes ! j" if "j \<noteq> i" for j
    using that by simp
  have ents1: "map node_entry ?nodes1 = map node_entry nodes"
    using i by (intro nth_equalityI) (auto simp: nth_list_update)
  have rl1: "repr ?nodes1 (left_idx ?node) l" and ol1: "ordered ?nodes1 l"
    using repr_frame [OF rl, of ?nodes1] ordered_frame [OF ol, of ?nodes1] same1 dist(3) bound
    by (metis UnI1 length_list_update lessThan_iff subsetD)+
  have rr1: "repr ?nodes1 (right_idx ?node) r" and or1: "ordered ?nodes1 r"
    using repr_frame [OF rr, of ?nodes1] ordered_frame [OF or, of ?nodes1] same1 dist(4) bound
    by (metis UnI2 length_list_update lessThan_iff subsetD)+
  have m: "m = bound_to_bytes (rl_end entry)" by (simp add: m_def)
  have me1: "max_end ?node' = (if m > max_end ?node then m else max_end ?node)" by simp
  note combine = insert_node_right_or_left [OF Node.prems(2) i bound Node.prems(3), of _ entry,
      folded m_def]
  show ?case
  proof (cases "compare_starts (rl_start entry) (rl_start (node_entry ?node)) = Less")
    case less: True
    show ?thesis
    proof (cases "left_idx ?node")
      case None
      let ?nodes2 = "?nodes1[i := ?node'\<lparr>left_idx := Some (length nodes)\<rparr>]"
      have l: "l = Leaf" using None rl by simp
      have ents: "map node_entry ?nodes2 = map node_entry nodes"
        using i by (intro nth_equalityI) (auto simp: nth_list_update)
      have same: "?nodes2 ! j = nodes ! j" if "j \<noteq> i" for j
        using that by simp
      have len2: "length ?nodes2 = length nodes" by simp
      have same_r: "?nodes2 ! j = nodes ! j" if "j \<in> set_tree r" for j
        using that dist(4) by (intro same) auto
      have at_i: "max_end (?nodes2 ! i) = max_end ?node'" "left_idx (?nodes2 ! i) = Some (length nodes)"
        "right_idx (?nodes2 ! i) = right_idx ?node"
        using i by auto
      have "inserts_into nodes entry (Node l i r) (Some i) ?nodes2
              (Node (Node Leaf (length nodes) Leaf) i r)"
      proof (rule combine)
        show "max_end (?nodes2 ! i) = (if m > max_end ?node then m else max_end ?node)"
          unfolding at_i by (rule me1)
        show "repr (?nodes2 @ [?n]) (left_idx (?nodes2 ! i)) (Node Leaf (length nodes) Leaf)"
          "ordered (?nodes2 @ [?n]) (Node Leaf (length nodes) Leaf)"
          unfolding at_i using new_leaf [OF len2 m] by auto
        show "repr (?nodes2 @ [?n]) (right_idx (?nodes2 ! i)) r" "ordered (?nodes2 @ [?n]) r"
          unfolding at_i using subtree_frame [OF rr or len2 same_r] by auto
      qed (use ents dist l same in \<open>auto simp del: list_update_overwrite\<close>)
      then show ?thesis
        using idx i less None by (subst insert_descend.simps) (auto simp: Let_def)
    next
      case (Some c)
      with rl1 ol1 dist(1) obtain nodes2 l' where
        eq: "insert_descend ?nodes1 entry m (length ?nodes1) c = Some nodes2"
        and into: "inserts_into ?nodes1 entry l (Some c) nodes2 l'"
        using Node.IH(1) [of ?nodes1 c] by auto
      note into = into [unfolded inserts_into_def Let_def, folded m_def]
      have at_i: "nodes2 ! i = ?node'" using into dist(3) i by simp
      have same: "nodes2 ! j = nodes ! j" if "j \<noteq> i" "j \<notin> set_tree l" for j
        using into that by simp
      have ents: "map node_entry nodes2 = map node_entry nodes"
        using into ents1 by metis
      have r2: "repr (nodes2 @ [?n]) (right_idx ?node) r" "ordered (nodes2 @ [?n]) r"
        using subtree_frame [OF rr or, of nodes2 ?n] into same dist(4,5)
        by (metis IntI empty_iff length_list_update)+
      have "inserts_into nodes entry (Node l i r) (Some i) nodes2 (Node l' i r)"
        by (rule combine) (use ents same at_i Some into r2 dist(2) me1 in auto)
      then show ?thesis
        using idx i less Some eq by (subst insert_descend.simps) (auto simp: Let_def)
    qed
  next
    case notless: False
    show ?thesis
    proof (cases "right_idx ?node")
      case None
      let ?nodes2 = "?nodes1[i := ?node'\<lparr>right_idx := Some (length nodes)\<rparr>]"
      have r: "r = Leaf" using None rr by simp
      have ents: "map node_entry ?nodes2 = map node_entry nodes"
        using i by (intro nth_equalityI) (auto simp: nth_list_update)
      have same: "?nodes2 ! j = nodes ! j" if "j \<noteq> i" for j
        using that by simp
      have len2: "length ?nodes2 = length nodes" by simp
      have same_l: "?nodes2 ! j = nodes ! j" if "j \<in> set_tree l" for j
        using that dist(3) by (intro same) auto
      have at_i: "max_end (?nodes2 ! i) = max_end ?node'" "left_idx (?nodes2 ! i) = left_idx ?node"
        "right_idx (?nodes2 ! i) = Some (length nodes)"
        using i by auto
      have "inserts_into nodes entry (Node l i r) (Some i) ?nodes2
              (Node l i (Node Leaf (length nodes) Leaf))"
      proof (rule combine)
        show "max_end (?nodes2 ! i) = (if m > max_end ?node then m else max_end ?node)"
          unfolding at_i by (rule me1)
        show "repr (?nodes2 @ [?n]) (right_idx (?nodes2 ! i)) (Node Leaf (length nodes) Leaf)"
          "ordered (?nodes2 @ [?n]) (Node Leaf (length nodes) Leaf)"
          unfolding at_i using new_leaf [OF len2 m] by auto
        show "repr (?nodes2 @ [?n]) (left_idx (?nodes2 ! i)) l" "ordered (?nodes2 @ [?n]) l"
          unfolding at_i using subtree_frame [OF rl ol len2 same_l] by auto
      qed (use ents dist r same notless in \<open>auto simp del: list_update_overwrite\<close>)
      then show ?thesis
        using idx i notless None by (subst insert_descend.simps) (auto simp: Let_def)
    next
      case (Some c)
      with rr1 or1 dist(2) obtain nodes2 r' where
        eq: "insert_descend ?nodes1 entry m (length ?nodes1) c = Some nodes2"
        and into: "inserts_into ?nodes1 entry r (Some c) nodes2 r'"
        using Node.IH(2) [of ?nodes1 c] by auto
      note into = into [unfolded inserts_into_def Let_def, folded m_def]
      have at_i: "nodes2 ! i = ?node'" using into dist(4) i by simp
      have same: "nodes2 ! j = nodes ! j" if "j \<noteq> i" "j \<notin> set_tree r" for j
        using into that by simp
      have ents: "map node_entry nodes2 = map node_entry nodes"
        using into ents1 by metis
      have l2: "repr (nodes2 @ [?n]) (left_idx ?node) l" "ordered (nodes2 @ [?n]) l"
        using subtree_frame [OF rl ol, of nodes2 ?n] into same dist(3,5)
        by (metis IntI empty_iff length_list_update)+
      have "inserts_into nodes entry (Node l i r) (Some i) nodes2 (Node l i r')"
        by (rule combine) (use ents same at_i Some into l2 dist(1) me1 notless in auto)
      then show ?thesis
        using idx i notless Some eq by (subst insert_descend.simps) (auto simp: Let_def)
    qed
  qed
qed

section \<open>Insertion, search and removal keep and read the contents\<close>

lemma tree_ok_empty [simp]: "tree_ok []"
  unfolding tree_ok_def by (intro exI [of _ Leaf]) simp

lemma insert_tree_ok:
  assumes "tree_ok nodes"
  shows "\<exists>nodes'. insert_tree entry nodes = Some nodes' \<and> tree_ok nodes' \<and>
           tree_entries nodes' = tree_entries nodes @ [entry]"
proof (cases "nodes = []")
  case True
  let ?n = "new_node entry (bound_to_bytes (rl_end entry))"
  have "tree_ok [?n]"
    unfolding tree_ok_def by (intro exI [of _ "Node Leaf 0 Leaf"]) (auto simp: new_node_def)
  with True show ?thesis
    by (auto simp: insert_tree_def tree_entries_def new_node_def)
next
  case False
  with assms obtain t where t: "repr nodes (Some 0) t" "ordered nodes t" "distinct (inorder t)"
    "set_tree t = {..<length nodes}"
    by (auto simp: tree_ok_def)
  obtain nodes' t' where
    eq: "insert_descend nodes entry (bound_to_bytes (rl_end entry)) (length nodes) 0 = Some nodes'"
    and into: "inserts_into nodes entry t (Some 0) nodes' t'"
    using insert_descend_correct [OF t(1-3)] by blast
  let ?nodes = "nodes' @ [new_node entry (bound_to_bytes (rl_end entry))]"
  have "tree_ok ?nodes"
    unfolding tree_ok_def using into t(4)
    by (intro exI [of _ t']) (auto simp: inserts_into_def Let_def lessThan_Suc)
  moreover have "tree_entries ?nodes = tree_entries nodes @ [entry]"
    using into by (simp add: inserts_into_def Let_def tree_entries_def new_node_def)
  ultimately show ?thesis
    using False eq by (auto simp: insert_tree_def Let_def)
qed

lemma insert_all_ok:
  assumes "tree_ok nodes"
  shows "\<exists>nodes'. insert_all entries nodes = Some nodes' \<and> tree_ok nodes' \<and>
           tree_entries nodes' = tree_entries nodes @ entries"
  using assms
proof (induction entries arbitrary: nodes)
  case (Cons e entries)
  from insert_tree_ok [OF Cons.prems, of e] obtain n1 where
    n1: "insert_tree e nodes = Some n1" "tree_ok n1" "tree_entries n1 = tree_entries nodes @ [e]"
    by blast
  with Cons.IH [OF n1(2)] show ?case by auto
qed simp

lemma remove_by_txn_ok:
  "\<exists>nodes'. remove_by_txn t nodes = Some nodes' \<and> tree_ok nodes' \<and>
     tree_entries nodes' = filter (\<lambda>r. rl_txn_id r \<noteq> t) (tree_entries nodes)"
proof -
  let ?keep = "filter (\<lambda>n. rl_txn_id (node_entry n) \<noteq> t) nodes"
  have entries: "map node_entry ?keep = filter (\<lambda>r. rl_txn_id r \<noteq> t) (tree_entries nodes)"
    by (simp add: tree_entries_def filter_map comp_def)
  show ?thesis
    using insert_all_ok [OF tree_ok_empty, of "map node_entry ?keep"] entries
    by (auto simp: remove_by_txn_def rebuild_def tree_entries_def)
qed

text \<open>A search start that does not lie beyond the stand-in for an unbounded end.\<close>

definition within_sentinel :: "bytes bound \<Rightarrow> bool" where
  "within_sentinel s = (case s of
     Included k \<Rightarrow> k \<le> SENTINEL
   | Excluded k \<Rightarrow> k < SENTINEL
   | Unbounded \<Rightarrow> True)"

lemma length_le_sentinel:
  "length (k :: bytes) \<le> n \<Longrightarrow> k \<le> replicate n 0xFF"
proof (induction k arbitrary: n)
  case (Cons b k)
  then obtain n' where "n = Suc n'" "length k \<le> n'"
    by (cases n) auto
  moreover have "b \<le> 0xFF"
    using unsigned_less [of b, where 'a = nat] by (simp add: word_le_nat_alt)
  ultimately show ?case
    using Cons.IH by (auto simp: le_less)
qed simp

lemma within_sentinel_short: "length k \<le> 256 \<Longrightarrow> within_sentinel (Included k)"
  using length_le_sentinel [of k 256] by (simp add: within_sentinel_def SENTINEL_def)

lemma max_end_prune:
  assumes "bound_less_than m s" "bound_to_bytes (rl_end r) \<le> m"
    "within_sentinel s \<or> rl_end r \<noteq> Unbounded"
  shows "\<not> overlaps r s e"
  using assms
  by (cases "rl_end r"; cases s)
     (auto simp: overlaps_def within_sentinel_def not_less not_le)

lemma start_prune:
  assumes "bound_greater_than n e" "compare_starts (rl_start r) n \<noteq> Less"
  shows "\<not> overlaps r s e"
  using assms
  by (cases n; cases e; cases "rl_start r")
     (auto simp: overlaps_def not_less not_le cmp_def split: if_splits)

lemma find_recursive_correct:
  assumes "repr nodes (Some idx) t" "ordered nodes t"
    "within_sentinel s \<or> (\<forall>j \<in> set_tree t. end_at nodes j \<noteq> Unbounded)"
  shows "find_overlapping_recursive nodes idx s e results =
           Some (results @ filter (\<lambda>r. overlaps r s e)
                   (map (\<lambda>j. node_entry (nodes ! j)) (inorder t)))"
  using assms
proof (induction t arbitrary: idx results)
  case (Node l i r)
  let ?es = "\<lambda>t. filter (\<lambda>r. overlaps r s e) (map (\<lambda>j. node_entry (nodes ! j)) (inorder t))"
  have idx: "idx = i" "i < length nodes" using Node.prems(1) by auto
  have repr: "repr nodes (left_idx (nodes ! i)) l" "repr nodes (right_idx (nodes ! i)) r"
    using Node.prems(1) by auto
  have child: "\<And>j. j \<in> set_tree r \<Longrightarrow> compare_starts (start_at nodes j) (start_at nodes i) \<noteq> Less"
    "\<And>j. j \<in> set_tree (Node l i r) \<Longrightarrow> bound_to_bytes (end_at nodes j) \<le> max_end (nodes ! i)"
    using Node.prems(2) by auto
  show ?case
  proof (cases "bound_less_than (max_end (nodes ! i)) s")
    case True
    have "\<not> overlaps (node_entry (nodes ! j)) s e" if "j \<in> set_tree (Node l i r)" for j
      using max_end_prune [OF True child(2) [OF that]] Node.prems(3) that by blast
    then have "?es (Node l i r) = []"
      by (auto simp: filter_empty_conv)
    with True idx show ?thesis
      by (subst find_overlapping_recursive.simps) simp
  next
    case False
    have left: "(case left_idx (nodes ! i) of
             Some l \<Rightarrow> find_overlapping_recursive nodes l s e results
           | None \<Rightarrow> Some results) = Some (results @ ?es l)"
      using Node.IH(1) repr(1) Node.prems(2,3) by (cases "left_idx (nodes ! i)") auto
    have right: "(case right_idx (nodes ! i) of
             Some r \<Rightarrow> find_overlapping_recursive nodes r s e res
           | None \<Rightarrow> Some res) = Some (res @ ?es r)" for res
      using Node.IH(2) repr(2) Node.prems(2,3) by (cases "right_idx (nodes ! i)") auto
    have cut: "?es r = []" if "bound_greater_than (start_at nodes i) e"
      using start_prune [OF that child(1)] by (auto simp: filter_empty_conv)
    show ?thesis
      using False idx cut
      by (subst find_overlapping_recursive.simps) (auto simp: Let_def left right)
  qed
qed simp

lemma tree_ok_entries_inorder:
  assumes "repr nodes (if nodes = [] then None else Some 0) t" "distinct (inorder t)"
    "set_tree t = {..<length nodes}"
  shows "mset (map (\<lambda>j. node_entry (nodes ! j)) (inorder t)) = mset (tree_entries nodes)"
proof -
  have "mset (inorder t) = mset [0..<length nodes]"
    using set_eq_iff_mset_eq_distinct [OF assms(2), of "[0..<length nodes]"] assms(3)
    by (auto simp: atLeast0LessThan)
  then have "mset (map (\<lambda>j. node_entry (nodes ! j)) (inorder t)) =
      mset (map (\<lambda>j. node_entry (nodes ! j)) [0..<length nodes])"
    by (metis mset_map)
  also have "map (\<lambda>j. node_entry (nodes ! j)) [0..<length nodes] = tree_entries nodes"
    by (intro nth_equalityI) (auto simp: tree_entries_def)
  finally show ?thesis .
qed

lemma find_overlapping_ok:
  assumes "tree_ok nodes"
    "within_sentinel s \<or> (\<forall>r \<in> set (tree_entries nodes). rl_end r \<noteq> Unbounded)"
  shows "\<exists>rs. find_overlapping nodes s e = Some rs \<and>
           mset rs = mset (filter (\<lambda>r. overlaps r s e) (tree_entries nodes))"
proof (cases "nodes = []")
  case True
  then show ?thesis by (simp add: find_overlapping_def tree_entries_def)
next
  case False
  with assms(1) obtain t where t: "repr nodes (Some 0) t" "ordered nodes t" "distinct (inorder t)"
    "set_tree t = {..<length nodes}"
    by (auto simp: tree_ok_def)
  have "within_sentinel s \<or> (\<forall>j \<in> set_tree t. end_at nodes j \<noteq> Unbounded)"
    using assms(2) t(4) by (auto simp: tree_entries_def)
  note find = find_recursive_correct [OF t(1,2) this, of e "[]"]
  show ?thesis
    using False find tree_ok_entries_inorder [of nodes t] t
    by (auto simp: find_overlapping_def mset_filter)
qed

section \<open>The interface of the index\<close>

text \<open>
  What the lock table relies on: a bag of range locks that grows by one on insertion, loses
  one transaction's locks on removal, and answers an overlap query with the stored locks
  that overlap, for query starts in the index's domain.
\<close>

locale overlap_index =
  fixes empty :: "'t"
    and insert :: "range_lock \<Rightarrow> 't \<Rightarrow> 't option"
    and remove :: "txn_id \<Rightarrow> 't \<Rightarrow> 't option"
    and find :: "'t \<Rightarrow> bytes bound \<Rightarrow> bytes bound \<Rightarrow> range_lock list option"
    and entries :: "'t \<Rightarrow> range_lock list"
    and invar :: "'t \<Rightarrow> bool"
    and domain :: "bytes bound \<Rightarrow> bool"
  assumes empty_invar: "invar empty"
    and empty_entries: "entries empty = []"
    and insert_law: "invar t \<Longrightarrow>
          \<exists>t'. insert r t = Some t' \<and> invar t' \<and> entries t' = entries t @ [r]"
    and remove_law: "invar t \<Longrightarrow>
          \<exists>t'. remove x t = Some t' \<and> invar t' \<and>
               entries t' = filter (\<lambda>r. rl_txn_id r \<noteq> x) (entries t)"
    and find_law: "invar t \<Longrightarrow> domain s \<Longrightarrow>
          \<exists>rs. find t s e = Some rs \<and> mset rs = mset (filter (\<lambda>r. overlaps r s e) (entries t))"
begin

lemma insertD:
  "invar t \<Longrightarrow> insert r t = Some t' \<Longrightarrow> invar t' \<and> entries t' = entries t @ [r]"
  using insert_law [of t r] by auto

lemma removeD:
  "invar t \<Longrightarrow> remove x t = Some t' \<Longrightarrow>
   invar t' \<and> entries t' = filter (\<lambda>r. rl_txn_id r \<noteq> x) (entries t)"
  using remove_law [of t x] by auto

lemma find_set:
  assumes "invar t" "domain s" "find t s e = Some rs"
  shows "set rs = {r \<in> set (entries t). overlaps r s e}"
proof -
  from find_law [OF assms(1,2), of e] assms(3)
  have "mset rs = mset (filter (\<lambda>r. overlaps r s e) (entries t))" by simp
  then have "set rs = set (filter (\<lambda>r. overlaps r s e) (entries t))"
    by (rule mset_eq_setD)
  then show ?thesis by auto
qed

text \<open>A lock is found by every query that shares a key with it.\<close>

lemma find_common_key:
  assumes "invar t" "domain s" "find t s e = Some rs"
    "r \<in> set (entries t)" "contains_key r k" "in_bounds s e k"
  shows "r \<in> set rs"
  using find_set [OF assms(1-3)] assms(4) common_key_overlaps [OF assms(5,6)] by auto

lemma find_key:
  assumes "invar t" "domain (Included k)" "find t (Included k) (Included k) = Some rs"
  shows "set rs = {r \<in> set (entries t). contains_key r k}"
  using find_set [OF assms] by (simp add: overlaps_point)

end

interpretation it: overlap_index empty_tree insert_tree remove_by_txn find_overlapping
  tree_entries tree_ok within_sentinel
proof (standard, goal_cases)
  case 1 show ?case by (simp add: empty_tree_def)
next
  case 2 show ?case by (simp add: empty_tree_def tree_entries_def)
next
  case (3 t r) then show ?case by (rule insert_tree_ok)
next
  case (4 t x) show ?case by (rule remove_by_txn_ok)
next
  case (5 t s e) then show ?case by (intro find_overlapping_ok) simp_all
qed

section \<open>Properties\<close>

definition build_tree :: "range_lock list \<Rightarrow> interval_tree option" where
  "build_tree rs = insert_all rs empty_tree"

lemma build_tree_ok:
  "build_tree rs = Some t \<Longrightarrow> tree_ok t \<and> tree_entries t = rs"
  using insert_all_ok [OF it.empty_invar, of rs] it.empty_entries
  by (auto simp: build_tree_def)

lemma build_tree_Some: "\<exists>t. build_tree rs = Some t"
  using insert_all_ok [OF it.empty_invar, of rs] by (auto simp: build_tree_def)

text \<open>
  C24: the interval tree is an exact index. Whatever locks are inserted, the descents and
  the pruned search end without an index out of range, and the search returns exactly the
  stored locks that overlap the query, each as often as it was inserted, provided the
  query does not start beyond the 256-byte stand-in for an unbounded end.
\<close>

theorem interval_tree_exact:
  assumes "within_sentinel s"
  shows "\<exists>t found. build_tree rs = Some t \<and> find_overlapping t s e = Some found \<and>
           mset found = mset (filter (\<lambda>r. overlaps r s e) rs)"
  using build_tree_Some [of rs] build_tree_ok [of rs] it.find_law assms by metis

lemma interval_tree_exact_witness:
  "\<exists>t found. build_tree [new_range_lock 1 X (Included [3]) Unbounded,
       new_range_lock 2 S (Included [1]) (Excluded [4])] = Some t \<and>
     find_overlapping t (Included [2]) (Included [3]) = Some found \<and>
     mset found = mset (filter (\<lambda>r. overlaps r (Included [2]) (Included [3]))
       [new_range_lock 1 X (Included [3]) Unbounded,
        new_range_lock 2 S (Included [1]) (Excluded [4])])"
proof -
  have "within_sentinel (Included [2])"
    by (rule within_sentinel_short) simp
  then show ?thesis by (rule interval_tree_exact)
qed

text \<open>
  A key of at most 256 bytes is looked up exactly: the entries returned for it are the
  stored locks whose range contains it, and the removal of a transaction's locks leaves
  exactly the locks of the other transactions.
\<close>

theorem key_lookup_after_removal:
  assumes "length key \<le> 256" "build_tree rs = Some t"
  shows "\<exists>t' found. remove_by_txn txn t = Some t' \<and> find_containing_key t' key = Some found \<and>
           set found = {r \<in> set rs. rl_txn_id r \<noteq> txn \<and> contains_key r key}"
proof -
  have t: "tree_ok t" "tree_entries t = rs"
    using build_tree_ok [OF assms(2)] by auto
  obtain t' where t': "remove_by_txn txn t = Some t'" "tree_ok t'"
    "tree_entries t' = filter (\<lambda>r. rl_txn_id r \<noteq> txn) rs"
    using it.remove_law [OF t(1), of txn] t(2) by auto
  have "within_sentinel (Included key)"
    using assms(1) by (rule within_sentinel_short)
  with t'(2) obtain found where "find_overlapping t' (Included key) (Included key) = Some found"
    "set found = {r \<in> set (tree_entries t'). contains_key r key}"
    using it.find_law it.find_key by metis
  with t' show ?thesis
    by (auto simp: find_containing_key_def)
qed

lemma key_lookup_after_removal_witness:
  "\<exists>t t' found. build_tree [new_range_lock 1 X (Included [1]) (Excluded [9]),
        new_range_lock 2 S Unbounded (Included [5])] = Some t \<and>
     remove_by_txn 1 t = Some t' \<and> find_containing_key t' [4] = Some found \<and>
     set found = {new_range_lock 2 S Unbounded (Included [5])}"
proof -
  let ?rs = "[new_range_lock 1 X (Included [1]) (Excluded [9]),
        new_range_lock 2 S Unbounded (Included [5])]"
  obtain t where t: "build_tree ?rs = Some t" using build_tree_Some by blast
  have "{r \<in> set ?rs. rl_txn_id r \<noteq> 1 \<and> contains_key r [4]} =
      {new_range_lock 2 S Unbounded (Included [5])}"
    by (auto simp: new_range_lock_def contains_key_def)
  then show ?thesis
    using key_lookup_after_removal [OF _ t, of "[4]" 1] t by auto
qed

text \<open>
  Beyond the stand-in the index is wrong. A lock on everything, held by another
  transaction, contains a key of 257 bytes \<open>0xFF\<close>, but the search for that key returns
  nothing, so its exclusive holder is not seen.
\<close>

theorem unbounded_range_missed:
  "\<exists>t. build_tree [new_range_lock 1 X Unbounded Unbounded] = Some t \<and>
       contains_key (new_range_lock 1 X Unbounded Unbounded) (replicate 257 0xFF) \<and>
       find_containing_key t (replicate 257 0xFF) = Some []"
proof -
  let ?r = "new_range_lock 1 X Unbounded Unbounded"
  let ?t = "[new_node ?r SENTINEL]"
  have "SENTINEL < (replicate 257 0xFF :: bytes)"
    using list_less_append [of SENTINEL "[]" "[0xFF]"]
    by (simp add: SENTINEL_def replicate_append_same flip: replicate_Suc)
  then have "find_containing_key ?t (replicate 257 0xFF) = Some []"
    unfolding find_containing_key_def find_overlapping_def
    by (subst find_overlapping_recursive.simps) (simp add: new_node_def)
  moreover have "build_tree [?r] = Some ?t"
    by (simp add: build_tree_def empty_tree_def insert_tree_def new_range_lock_def)
  moreover have "contains_key ?r (replicate 257 0xFF)"
    by (simp add: contains_key_def new_range_lock_def)
  ultimately show ?thesis by blast
qed

end
