(* ===== verification/Escalation.thy ===== *)
theory Escalation
  imports Prelude
begin

text \<open>
  \<open>crabstash-lock/src/escalation.rs\<close>: the thresholds of lock escalation and the state kept
  for each transaction. The atomics are read and written under the calls of one transaction.
\<close>

record escalation_config =
  warning_threshold :: nat
  auto_escalate_threshold :: nat
  emergency_threshold :: nat

definition default_escalation_config :: escalation_config where
  "default_escalation_config =
     \<lparr>warning_threshold = 1000, auto_escalate_threshold = 5000, emergency_threshold = 10000\<rparr>"

record escalation_state =
  key_lock_count :: nat
  locked_keys :: "bytes list"
  escalated :: bool
  warning_logged :: bool

definition new_escalation_state :: escalation_state where
  "new_escalation_state =
     \<lparr>key_lock_count = 0, locked_keys = [], escalated = False, warning_logged = False\<rparr>"

definition record_key_lock :: "bytes \<Rightarrow> escalation_state \<Rightarrow> escalation_state" where
  "record_key_lock key s =
     s\<lparr>key_lock_count := key_lock_count s + 1, locked_keys := locked_keys s @ [key]\<rparr>"

definition get_lock_count :: "escalation_state \<Rightarrow> nat" where
  "get_lock_count s = key_lock_count s"

definition is_escalated :: "escalation_state \<Rightarrow> bool" where
  "is_escalated s = escalated s"

text \<open>\<open>swap(true)\<close>: whether this call set the flag, and the state with the flag set.\<close>

definition mark_escalated :: "escalation_state \<Rightarrow> bool \<times> escalation_state" where
  "mark_escalated s = (\<not> escalated s, s\<lparr>escalated := True\<rparr>)"

definition compute_bounding_range :: "escalation_state \<Rightarrow> (bytes bound \<times> bytes bound) option" where
  "compute_bounding_range s =
     (case locked_keys s of
        [] \<Rightarrow> None
      | k # ks \<Rightarrow> Some (Included (fold min ks k), Included (fold max ks k)))"

definition clear_escalation :: "escalation_state \<Rightarrow> escalation_state" where
  "clear_escalation s =
     \<lparr>key_lock_count = 0, locked_keys = [], escalated = False, warning_logged = False\<rparr>"

datatype escalation_action = NoAction | Warn | Escalate | ForceEscalate

definition check_escalation :: "nat \<Rightarrow> escalation_config \<Rightarrow> escalation_action" where
  "check_escalation count config =
     (if count \<ge> emergency_threshold config then ForceEscalate
      else if count \<ge> auto_escalate_threshold config then Escalate
      else if count \<ge> warning_threshold config then Warn
      else NoAction)"

definition handle_escalation_action ::
  "escalation_action \<Rightarrow> escalation_state \<Rightarrow> bool \<times> escalation_state" where
  "handle_escalation_action action s =
     (case action of
        NoAction \<Rightarrow> (False, s)
      | Warn \<Rightarrow> (False, s\<lparr>warning_logged := True\<rparr>)
      | Escalate \<Rightarrow> mark_escalated s
      | ForceEscalate \<Rightarrow> mark_escalated s)"

lemma fold_min_le: "fold min ks (k :: 'a::linorder) \<le> k \<and> (\<forall>x \<in> set ks. fold min ks k \<le> x)"
  by (induction ks arbitrary: k) (auto, (meson min.boundedE)+)

lemma fold_max_ge: "k \<le> fold max ks (k :: 'a::linorder) \<and> (\<forall>x \<in> set ks. x \<le> fold max ks k)"
  by (induction ks arbitrary: k) (auto, (meson max.boundedE)+)

text \<open>Calls of \<open>record_key_lock\<close> followed by the escalation check, as the lock table makes them.\<close>

definition note_lock :: "escalation_config \<Rightarrow> bytes \<Rightarrow> escalation_state \<Rightarrow> bool \<times> escalation_state" where
  "note_lock config key s =
     (let s1 = record_key_lock key s in
      handle_escalation_action (check_escalation (get_lock_count s1) config) s1)"

fun note_locks :: "escalation_config \<Rightarrow> bytes list \<Rightarrow> escalation_state \<Rightarrow> nat \<times> escalation_state" where
  "note_locks config [] s = (0, s)"
| "note_locks config (k # ks) s =
     (let (fired, s1) = note_lock config k s; (n, s2) = note_locks config ks s1
      in ((if fired then 1 else 0) + n, s2))"

lemma note_lock_effect:
  "note_lock config k s = (fired, s1) \<Longrightarrow>
   locked_keys s1 = locked_keys s @ [k] \<and> key_lock_count s1 = key_lock_count s + 1 \<and>
   (fired \<longleftrightarrow> \<not> escalated s \<and> min (auto_escalate_threshold config) (emergency_threshold config)
      \<le> key_lock_count s + 1) \<and>
   (escalated s1 \<longleftrightarrow> escalated s \<or> fired)"
  by (auto simp: note_lock_def Let_def record_key_lock_def get_lock_count_def mark_escalated_def
      handle_escalation_action_def check_escalation_def split: if_splits escalation_action.splits)

lemma note_locks_effect:
  "note_locks config ks s = (n, s1) \<Longrightarrow>
   locked_keys s1 = locked_keys s @ ks \<and> key_lock_count s1 = key_lock_count s + length ks \<and>
   n = (if \<not> escalated s \<and> ks \<noteq> [] \<and> min (auto_escalate_threshold config) (emergency_threshold config)
          \<le> key_lock_count s + length ks then 1 else 0)"
proof (induction ks arbitrary: s n s1)
  case (Cons k ks)
  obtain fired s2 where s2: "note_lock config k s = (fired, s2)" by fastforce
  obtain m s3 where s3: "note_locks config ks s2 = (m, s3)" by fastforce
  from Cons.prems s2 s3 have n: "n = (if fired then 1 else 0) + m" "s1 = s3" by simp_all
  from note_lock_effect [OF s2] Cons.IH [OF s3] n show ?case
    by (cases fired; cases ks) auto
qed simp

text \<open>
  C38: escalation fires once. While a transaction takes key locks, escalation is reported at
  most once, exactly when the count reaches the smaller of the two escalation thresholds,
  and the range to lock then contains every key the transaction has locked.
\<close>

theorem escalation_once_and_covering:
  assumes "note_locks config (k # ks) new_escalation_state = (n, s)"
  shows "n = (if min (auto_escalate_threshold config) (emergency_threshold config) \<le> length (k # ks)
              then 1 else 0) \<and>
    (\<exists>lo hi. compute_bounding_range s = Some (Included lo, Included hi) \<and>
       (\<forall>x \<in> set (k # ks). lo \<le> x \<and> x \<le> hi))"
proof -
  have s: "locked_keys s = k # ks" "n = (if min (auto_escalate_threshold config)
      (emergency_threshold config) \<le> length (k # ks) then 1 else 0)"
    using note_locks_effect [OF assms] by (simp_all add: new_escalation_state_def)
  then show ?thesis
    using fold_min_le [of ks k] fold_max_ge [of k ks]
    by (auto simp: compute_bounding_range_def)
qed

lemma escalation_once_and_covering_witness:
  "\<exists>lo hi. compute_bounding_range (snd (note_locks
       \<lparr>warning_threshold = 1, auto_escalate_threshold = 2, emergency_threshold = 9\<rparr>
       [[5], [3], [8]] new_escalation_state)) = Some (Included lo, Included hi) \<and> lo \<le> [5] \<and> [5] \<le> hi"
proof -
  let ?c = "\<lparr>warning_threshold = 1, auto_escalate_threshold = 2, emergency_threshold = 9\<rparr>"
  obtain n s where "note_locks ?c [[5], [3], [8]] new_escalation_state = (n, s)" by fastforce
  from escalation_once_and_covering [OF this] this show ?thesis by auto
qed

end
