(* ===== verification/Lock_Table.thy ===== *)
theory Lock_Table
  imports Range_Lock Deadlock Escalation
begin

text \<open>
  \<open>crabstash-lock/src/lock_table.rs\<close> and the \<open>LockManager\<close> of \<open>lib.rs\<close>: the key locks, the
  interval tree of range locks, the wait-for graph and the escalation states behind one
  interface. Each call is split into the regions that run under one lock; a call that waits
  takes a schedule of what the other threads do to its entry. \<open>None\<close> is a call that does not
  return: it is still parked when the schedule ends, or a tree search left its node vector.
\<close>

section \<open>State\<close>

record lock_config =
  lock_timeout_ms :: u64
  deadlock_check_interval_ms :: u64
  enable_range_locks :: bool
  lc_escalation :: escalation_config

definition default_lock_config :: lock_config where
  "default_lock_config =
     \<lparr>lock_timeout_ms = 10000, deadlock_check_interval_ms = 10, enable_range_locks = True,
      lc_escalation = default_escalation_config\<rparr>"

record lock_table =
  key_locks :: "(bytes, lock_entry) hmap"
  range_locks :: interval_tree
  waiter_graph :: wait_graph
  escalations :: "(txn_id, escalation_state) hmap"
  lt_config :: lock_config

definition new_table :: "lock_config \<Rightarrow> lock_table" where
  "new_table config =
     \<lparr>key_locks = [], range_locks = empty_tree, waiter_graph = new_graph, escalations = [],
      lt_config = config\<rparr>"

definition register_txn :: "txn_id \<Rightarrow> ts \<Rightarrow> u32 \<Rightarrow> lock_table \<Rightarrow> lock_table" where
  "register_txn txn_id start_ts priority tbl =
     tbl\<lparr>waiter_graph := graph_register txn_id start_ts priority (waiter_graph tbl),
         escalations := hm_insert txn_id new_escalation_state (escalations tbl)\<rparr>"

definition unregister_txn :: "txn_id \<Rightarrow> lock_table \<Rightarrow> lock_table" where
  "unregister_txn txn_id tbl =
     tbl\<lparr>waiter_graph := graph_unregister txn_id (waiter_graph tbl),
         escalations := hm_remove txn_id (escalations tbl)\<rparr>"

section \<open>Range locks\<close>

definition key_in_range :: "bytes \<Rightarrow> bytes bound \<Rightarrow> bytes bound \<Rightarrow> bool" where
  "key_in_range key s e =
     (let after_start = (case s of Included b \<Rightarrow> key \<ge> b | Excluded b \<Rightarrow> key > b | Unbounded \<Rightarrow> True);
          before_end = (case e of Included b \<Rightarrow> key \<le> b | Excluded b \<Rightarrow> key < b | Unbounded \<Rightarrow> True)
      in after_start \<and> before_end)"

definition range_blocks :: "txn_id \<Rightarrow> lock_mode \<Rightarrow> range_lock \<Rightarrow> bool" where
  "range_blocks txn_id mode r = (rl_txn_id r \<noteq> txn_id \<and> \<not> is_compatible mode (rl_mode r))"

definition holder_blocks :: "txn_id \<Rightarrow> lock_mode \<Rightarrow> txn_id \<times> lock_mode \<Rightarrow> bool" where
  "holder_blocks txn_id mode h = (fst h \<noteq> txn_id \<and> \<not> is_compatible mode (snd h))"

definition lock_range ::
  "txn_id \<Rightarrow> bytes bound \<Rightarrow> bytes bound \<Rightarrow> lock_mode \<Rightarrow> lock_table \<Rightarrow>
   ((lock_error, unit) result \<times> lock_table) option" where
  "lock_range txn_id s e mode tbl =
     (if \<not> enable_range_locks (lt_config tbl) then Some (Err RangeLocksDisabled, tbl)
      else Option.bind (find_overlapping (range_locks tbl) s e) (\<lambda>overlapping.
        if list_ex (range_blocks txn_id mode) overlapping then Some (Err RangeConflict, tbl)
        else if list_ex (\<lambda>(_, key_entry). key_in_range (entry_key key_entry) s e \<and>
               list_ex (holder_blocks txn_id mode) (get_holders key_entry)) (key_locks tbl)
        then Some (Err RangeConflict, tbl)
        else map_option (\<lambda>tree. (Ok (), tbl\<lparr>range_locks := tree\<rparr>))
               (insert_tree (new_range_lock txn_id mode s e) (range_locks tbl))))"

section \<open>Key locks\<close>

text \<open>
  A granted key lock is counted for escalation; when the count calls for it the bounding range
  of the transaction's keys is locked in mode \<open>X\<close>, and the answer of that attempt is dropped.
\<close>

definition record_lock_acquired :: "txn_id \<Rightarrow> bytes \<Rightarrow> lock_table \<Rightarrow> lock_table option" where
  "record_lock_acquired txn_id key tbl =
     map_option (\<lambda>tbl2. tbl2\<lparr>waiter_graph := increment_lock_count txn_id (waiter_graph tbl2)\<rparr>)
       (case hm_get (escalations tbl) txn_id of
          None \<Rightarrow> Some tbl
        | Some state \<Rightarrow>
            let state1 = record_key_lock key state;
                action = check_escalation (get_lock_count state1) (lc_escalation (lt_config tbl));
                (fired, state2) = handle_escalation_action action state1;
                tbl1 = tbl\<lparr>escalations := hm_insert txn_id state2 (escalations tbl)\<rparr>
            in case (fired, compute_bounding_range state2) of
                 (True, Some (s, e)) \<Rightarrow> map_option snd (lock_range txn_id s e X tbl1)
               | _ \<Rightarrow> Some tbl1)"

text \<open>The first region: is the key covered by another transaction's range lock?\<close>

definition check_range_locks :: "txn_id \<Rightarrow> bytes \<Rightarrow> lock_mode \<Rightarrow> lock_table \<Rightarrow> (lock_error, unit) result option" where
  "check_range_locks txn_id key mode tbl =
     (if enable_range_locks (lt_config tbl)
      then map_option (\<lambda>conflicting.
             if list_ex (range_blocks txn_id mode) conflicting then Err RangeConflict else Ok ())
           (find_containing_key (range_locks tbl) key)
      else Some (Ok ()))"

definition entry_or_insert :: "bytes \<Rightarrow> lock_table \<Rightarrow> lock_entry" where
  "entry_or_insert key tbl = (case hm_get (key_locks tbl) key of Some e \<Rightarrow> e | None \<Rightarrow> new_entry key)"

text \<open>The rest of the call, which takes the key's lock.\<close>

definition take_key_lock ::
  "txn_id \<Rightarrow> bytes \<Rightarrow> lock_mode \<Rightarrow> schedule \<Rightarrow> lock_table \<Rightarrow>
   ((lock_error, unit) result \<times> lock_table) option" where
  "take_key_lock txn_id key mode sched tbl =
     (case try_acquire txn_id mode (entry_or_insert key tbl) of
        (True, e) \<Rightarrow>
          map_option (\<lambda>t. (Ok (), t))
            (record_lock_acquired txn_id key (tbl\<lparr>key_locks := hm_insert key e (key_locks tbl)\<rparr>))
      | (False, e) \<Rightarrow>
          let holder_ids = map fst (get_holders e);
              waiting = tbl\<lparr>key_locks := hm_insert key e (key_locks tbl),
                            waiter_graph := fold (add_wait_edge txn_id) holder_ids (waiter_graph tbl)\<rparr>;
              (answer, e') = acquire txn_id mode sched e;
              woken = waiting\<lparr>key_locks := hm_insert key e' (key_locks waiting),
                  waiter_graph := fold (remove_wait_edge txn_id) holder_ids (waiter_graph waiting)\<rparr>
          in case answer of
               None \<Rightarrow> None
             | Some (Ok _) \<Rightarrow> map_option (\<lambda>t. (Ok (), t)) (record_lock_acquired txn_id key woken)
             | Some r \<Rightarrow> Some (r, woken))"

definition lock_key ::
  "txn_id \<Rightarrow> bytes \<Rightarrow> lock_mode \<Rightarrow> schedule \<Rightarrow> lock_table \<Rightarrow>
   ((lock_error, unit) result \<times> lock_table) option" where
  "lock_key txn_id key mode sched tbl =
     Option.bind (check_range_locks txn_id key mode tbl) (\<lambda>r.
       case r of
         Ok _ \<Rightarrow> take_key_lock txn_id key mode sched tbl
       | _ \<Rightarrow> Some (r, tbl))"

definition upgrade_lock ::
  "txn_id \<Rightarrow> bytes \<Rightarrow> schedule \<Rightarrow> lock_table \<Rightarrow> ((lock_error, unit) result \<times> lock_table) option" where
  "upgrade_lock txn_id key sched tbl =
     (case hm_get (key_locks tbl) key of
        None \<Rightarrow> Some (Err NotHeld, tbl)
      | Some e \<Rightarrow>
          (case upgrade txn_id X sched e of
             (None, _) \<Rightarrow> None
           | (Some r, e') \<Rightarrow> Some (r, tbl\<lparr>key_locks := hm_insert key e' (key_locks tbl)\<rparr>)))"

definition release_all :: "txn_id \<Rightarrow> lock_table \<Rightarrow> lock_table option" where
  "release_all txn_id tbl =
     map_option (\<lambda>tree.
         unregister_txn txn_id (tbl\<lparr>
           key_locks := map (\<lambda>(k, e). (k, snd (release txn_id e))) (key_locks tbl),
           range_locks := tree,
           waiter_graph := remove_all_waits txn_id (waiter_graph tbl)\<rparr>))
       (remove_by_txn txn_id (range_locks tbl))"

definition check_range_conflict :: "txn_id \<Rightarrow> bytes \<Rightarrow> lock_mode \<Rightarrow> lock_table \<Rightarrow> bool option" where
  "check_range_conflict txn_id key mode tbl =
     (if \<not> enable_range_locks (lt_config tbl) then Some False
      else map_option (list_ex (range_blocks txn_id mode)) (find_containing_key (range_locks tbl) key))"

definition check_conflict :: "txn_id \<Rightarrow> bytes \<Rightarrow> lock_mode \<Rightarrow> lock_table \<Rightarrow> bool option" where
  "check_conflict txn_id key mode tbl =
     (if (case hm_get (key_locks tbl) key of
            Some e \<Rightarrow> list_ex (holder_blocks txn_id mode) (get_holders e)
          | None \<Rightarrow> False)
      then Some True
      else if enable_range_locks (lt_config tbl)
      then map_option (list_ex (range_blocks txn_id mode)) (find_containing_key (range_locks tbl) key)
      else Some False)"

section \<open>The lock manager\<close>

text \<open>
  \<open>LockManager\<close> fills in the configured timeout and returns guards. What happens during a wait
  depends on the timeout, so the schedule is a function of it.
\<close>

record lock_guard =
  guard_txn_id :: txn_id
  guard_key :: bytes
  guard_mode :: lock_mode

record range_lock_guard =
  range_guard_txn_id :: txn_id
  range_guard_start :: "bytes bound"
  range_guard_end :: "bytes bound"
  range_guard_mode :: lock_mode

definition effective_timeout :: "u64 option \<Rightarrow> lock_table \<Rightarrow> u64" where
  "effective_timeout timeout tbl = (case timeout of Some t \<Rightarrow> t | None \<Rightarrow> lock_timeout_ms (lt_config tbl))"

definition manager_register_txn :: "txn_id \<Rightarrow> ts \<Rightarrow> lock_table \<Rightarrow> lock_table" where
  "manager_register_txn txn_id start_ts tbl = register_txn txn_id start_ts 0 tbl"

fun with_guard :: "'g \<Rightarrow> (lock_error, unit) result \<Rightarrow> (lock_error, 'g) result" where
  "with_guard g (Ok _) = Ok g"
| "with_guard g (Err e) = Err e"
| "with_guard g Panic = Panic"

definition manager_lock_key ::
  "txn_id \<Rightarrow> bytes \<Rightarrow> lock_mode \<Rightarrow> u64 option \<Rightarrow> (u64 \<Rightarrow> schedule) \<Rightarrow> lock_table \<Rightarrow>
   ((lock_error, lock_guard) result \<times> lock_table) option" where
  "manager_lock_key txn_id key mode timeout sched tbl =
     map_option (\<lambda>(r, t). (with_guard \<lparr>guard_txn_id = txn_id, guard_key = key, guard_mode = mode\<rparr> r, t))
       (lock_key txn_id key mode (sched (effective_timeout timeout tbl)) tbl)"

definition manager_lock_range ::
  "txn_id \<Rightarrow> bytes bound \<Rightarrow> bytes bound \<Rightarrow> lock_mode \<Rightarrow> lock_table \<Rightarrow>
   ((lock_error, range_lock_guard) result \<times> lock_table) option" where
  "manager_lock_range txn_id s e mode tbl =
     map_option (\<lambda>(r, t). (with_guard \<lparr>range_guard_txn_id = txn_id, range_guard_start = s,
          range_guard_end = e, range_guard_mode = mode\<rparr> r, t))
       (lock_range txn_id s e mode tbl)"

definition manager_upgrade_lock ::
  "txn_id \<Rightarrow> bytes \<Rightarrow> u64 option \<Rightarrow> (u64 \<Rightarrow> schedule) \<Rightarrow> lock_table \<Rightarrow>
   ((lock_error, unit) result \<times> lock_table) option" where
  "manager_upgrade_lock txn_id key timeout sched tbl =
     upgrade_lock txn_id key (sched (effective_timeout timeout tbl)) tbl"

definition manager_register_txn_with_priority ::
  "txn_id \<Rightarrow> ts \<Rightarrow> u32 \<Rightarrow> lock_table \<Rightarrow> lock_table" where
  "manager_register_txn_with_priority txn_id start_ts priority tbl =
     register_txn txn_id start_ts priority tbl"

definition manager_release_all :: "txn_id \<Rightarrow> lock_table \<Rightarrow> lock_table option" where
  "manager_release_all txn_id tbl = release_all txn_id tbl"

definition manager_check_conflict :: "txn_id \<Rightarrow> bytes \<Rightarrow> lock_mode \<Rightarrow> lock_table \<Rightarrow> bool option" where
  "manager_check_conflict txn_id key mode tbl = check_conflict txn_id key mode tbl"

definition manager_check_range_conflict ::
  "txn_id \<Rightarrow> bytes \<Rightarrow> lock_mode \<Rightarrow> lock_table \<Rightarrow> bool option" where
  "manager_check_range_conflict txn_id key mode tbl = check_range_conflict txn_id key mode tbl"

section \<open>Claims on a key\<close>

text \<open>Who holds a key, by a lock of its own or by a range lock that contains it.\<close>

definition claims :: "lock_table \<Rightarrow> bytes \<Rightarrow> (txn_id \<times> lock_mode) set" where
  "claims tbl k =
     {(t, m). \<exists>e. hm_get (key_locks tbl) k = Some e \<and> hm_get (holders e) t = Some m} \<union>
     {(rl_txn_id r, rl_mode r) | r. r \<in> set (tree_entries (range_locks tbl)) \<and> contains_key r k}"

definition table_ok :: "lock_table \<Rightarrow> bool" where
  "table_ok tbl \<longleftrightarrow> tree_ok (range_locks tbl) \<and>
     (enable_range_locks (lt_config tbl) \<or> tree_entries (range_locks tbl) = []) \<and>
     hm_wf (key_locks tbl) \<and>
     (\<forall>k e. hm_get (key_locks tbl) k = Some e \<longrightarrow> entry_key e = k \<and> holders_ok e) \<and>
     (\<forall>t st. hm_get (escalations tbl) t = Some st \<longrightarrow> (\<forall>k \<in> set (locked_keys st). length k \<le> 256))"

definition exclusion_ok :: "lock_table \<Rightarrow> bool" where
  "exclusion_ok tbl \<longleftrightarrow> (\<forall>k t1 m1 t2 m2. length k \<le> 256 \<longrightarrow> (t1, m1) \<in> claims tbl k \<longrightarrow>
     (t2, m2) \<in> claims tbl k \<longrightarrow> t1 \<noteq> t2 \<longrightarrow> is_compatible m1 m2)"

lemma table_okD:
  assumes "table_ok tbl"
  shows "tree_ok (range_locks tbl)"
    "enable_range_locks (lt_config tbl) \<or> tree_entries (range_locks tbl) = []"
    "hm_wf (key_locks tbl)"
    "hm_get (key_locks tbl) k = Some e \<Longrightarrow> entry_key e = k \<and> holders_ok e"
    "hm_get (escalations tbl) t = Some st \<Longrightarrow> key \<in> set (locked_keys st) \<Longrightarrow> length key \<le> 256"
  using assms unfolding table_ok_def by blast+

text \<open>A new claim is allowed when it is compatible with the claims of the others.\<close>

lemma exclusion_ok_add:
  assumes "exclusion_ok tbl"
    "\<And>k. claims tbl' k \<subseteq> claims tbl k \<union> (if P k then {(t, m)} else {})"
    "\<And>k t' m'. length k \<le> 256 \<Longrightarrow> P k \<Longrightarrow> (t', m') \<in> claims tbl k \<Longrightarrow> t' \<noteq> t \<Longrightarrow> is_compatible m m'"
  shows "exclusion_ok tbl'"
  unfolding exclusion_ok_def
proof (intro allI impI)
  fix k t1 m1 t2 m2
  assume *: "length k \<le> 256" "(t1, m1) \<in> claims tbl' k" "(t2, m2) \<in> claims tbl' k" "t1 \<noteq> t2"
  then have "(t1, m1) \<in> claims tbl k \<or> P k \<and> (t1, m1) = (t, m)"
    "(t2, m2) \<in> claims tbl k \<or> P k \<and> (t2, m2) = (t, m)"
    using assms(2) [of k] by (auto split: if_splits)
  with * show "is_compatible m1 m2"
    using assms(1,3) is_compatible_sym unfolding exclusion_ok_def by (metis prod.inject)
qed

lemma exclusion_ok_mono:
  "exclusion_ok tbl \<Longrightarrow> (\<And>k. claims tbl' k \<subseteq> claims tbl k) \<Longrightarrow> exclusion_ok tbl'"
  unfolding exclusion_ok_def by (meson subsetD)

lemma claims_simps [simp]:
  "claims (tbl\<lparr>waiter_graph := g\<rparr>) = claims tbl"
  "claims (tbl\<lparr>escalations := es\<rparr>) = claims tbl"
  by (intro ext, simp add: claims_def)+

lemma key_in_range_bounds: "key_in_range k s e = in_bounds s e k"
  by (cases s; cases e) (simp_all add: key_in_range_def in_bounds_def)

text \<open>No other transaction's range lock on the key conflicts: what the first region checks.\<close>

definition ranges_allow :: "txn_id \<Rightarrow> lock_mode \<Rightarrow> bytes \<Rightarrow> lock_table \<Rightarrow> bool" where
  "ranges_allow t m k tbl \<longleftrightarrow>
     (\<forall>r \<in> set (tree_entries (range_locks tbl)). contains_key r k \<longrightarrow> rl_txn_id r \<noteq> t \<longrightarrow>
        is_compatible m (rl_mode r))"

lemma check_range_locks_exact:
  assumes "table_ok tbl" "length k \<le> 256"
  shows "check_range_locks t k m tbl =
     Some (if ranges_allow t m k tbl then Ok () else Err RangeConflict)"
proof (cases "enable_range_locks (lt_config tbl)")
  case False
  with table_okD(2) [OF assms(1)] show ?thesis
    by (simp add: check_range_locks_def ranges_allow_def)
next
  case True
  have dom: "within_sentinel (Included k)" by (rule within_sentinel_short [OF assms(2)])
  note tree = table_okD(1) [OF assms(1)]
  from it.find_law [OF tree dom, of "Included k"] obtain rs where
    rs: "find_overlapping (range_locks tbl) (Included k) (Included k) = Some rs" by blast
  from it.find_key [OF tree dom rs] have
    "list_ex (range_blocks t m) rs \<longleftrightarrow> \<not> ranges_allow t m k tbl"
    by (auto simp: list_ex_iff range_blocks_def ranges_allow_def)
  with True rs show ?thesis
    unfolding check_range_locks_def find_containing_key_def by simp
qed

lemma holders_ok_wf: "holders_ok e \<Longrightarrow> hm_wf (holders e)"
  unfolding holders_ok_def by blast

lemma holders_list:
  "holders_ok e \<Longrightarrow> (t, m) \<in> set (get_holders e) \<longleftrightarrow> hm_get (holders e) t = Some m"
  using hm_mem_get [of "holders e" t m] by (auto simp: get_holders_def dest!: holders_ok_wf)

lemma lock_range_ok:
  assumes ok: "table_ok tbl" "exclusion_ok tbl" and dom: "within_sentinel s"
  shows "\<exists>r tbl'. lock_range t s e m tbl = Some (r, tbl') \<and> table_ok tbl' \<and> exclusion_ok tbl' \<and>
     key_locks tbl' = key_locks tbl \<and> escalations tbl' = escalations tbl \<and> lt_config tbl' = lt_config tbl"
proof (cases "enable_range_locks (lt_config tbl)")
  case False
  with ok show ?thesis by (auto simp: lock_range_def)
next
  case True
  note tree = table_okD(1) [OF ok(1)]
  from it.find_law [OF tree dom, of e] obtain rs where
    rs: "find_overlapping (range_locks tbl) s e = Some rs" by blast
  let ?r = "new_range_lock t m s e"
  from it.insert_law [OF tree, of ?r] obtain tree' where
    tree': "insert_tree ?r (range_locks tbl) = Some tree'" "tree_ok tree'"
    "tree_entries tree' = tree_entries (range_locks tbl) @ [?r]" by blast
  let ?tbl = "tbl\<lparr>range_locks := tree'\<rparr>"
  show ?thesis
  proof (cases "list_ex (range_blocks t m) rs \<or> list_ex (\<lambda>(_, key_entry).
      key_in_range (entry_key key_entry) s e \<and> list_ex (holder_blocks t m) (get_holders key_entry)) (key_locks tbl)")
    case True
    with \<open>enable_range_locks (lt_config tbl)\<close> rs ok show ?thesis
      by (auto simp: lock_range_def)
  next
    case free: False
    have "table_ok ?tbl"
      using ok(1) tree'(2) True unfolding table_ok_def by simp
    moreover have "exclusion_ok ?tbl"
      using ok(2)
    proof (rule exclusion_ok_add [where P = "in_bounds s e" and t = t and m = m])
      show "claims ?tbl k \<subseteq> claims tbl k \<union> (if in_bounds s e k then {(t, m)} else {})" for k
        using tree'(3) by (auto simp: claims_def new_range_lock_def contains_key_in_bounds)
    next
      fix k t' m' assume k: "in_bounds s e k" "(t', m') \<in> claims tbl k" "t' \<noteq> t"
      from k(2) show "is_compatible m m'"
        unfolding claims_def
      proof (elim UnE CollectE exE conjE case_prodE)
        fix ta ma e' assume h: "(t', m') = (ta, ma)" "hm_get (key_locks tbl) k = Some e'"
          "hm_get (holders e') ta = Some ma"
        have e': "entry_key e' = k" "holders_ok e'" using table_okD(4) [OF ok(1) h(2)] by auto
        with h have "(t', m') \<in> set (get_holders e')" by (simp add: holders_list)
        moreover have "(k, e') \<in> set (key_locks tbl)" using h(2) by (rule map_of_SomeD)
        ultimately show ?thesis
          using free k(1,3) e' by (fastforce simp: list_ex_iff holder_blocks_def key_in_range_bounds)
      next
        fix r assume r: "(t', m') = (rl_txn_id r, rl_mode r)"
          "r \<in> set (tree_entries (range_locks tbl))" "contains_key r k"
        from it.find_common_key [OF tree dom rs r(2,3) k(1)] free r(1) k(3)
        show ?thesis by (auto simp: list_ex_iff range_blocks_def)
      qed
    qed
    ultimately show ?thesis
      using True rs free tree'(1) by (auto simp: lock_range_def)
  qed
qed

lemma fold_min_in: "fold min ks (k :: 'a::linorder) \<in> set (k # ks)"
  by (induction ks arbitrary: k) (auto simp: min_def)

lemma note_lock_keys:
  assumes "handle_escalation_action a (record_key_lock key st) = (fired, st2)"
  shows "locked_keys st2 = locked_keys st @ [key]"
  using assms by (cases a) (auto simp: handle_escalation_action_def record_key_lock_def mark_escalated_def)

lemma bounding_range_start:
  assumes "compute_bounding_range st = Some (s, e)" "\<And>k. k \<in> set (locked_keys st) \<Longrightarrow> length k \<le> 256"
  shows "within_sentinel s"
proof -
  from assms(1) obtain k ks where k: "locked_keys st = k # ks" "s = Included (fold min ks k)"
    by (auto simp: compute_bounding_range_def split: list.splits)
  from assms(2) [of "fold min ks k"] fold_min_in [of ks k] k show ?thesis
    by (simp add: within_sentinel_short)
qed

lemma record_lock_acquired_ok:
  assumes ok: "table_ok tbl" "exclusion_ok tbl" and key: "length key \<le> 256"
  shows "\<exists>tbl'. record_lock_acquired t key tbl = Some tbl' \<and> table_ok tbl' \<and> exclusion_ok tbl'"
proof (cases "hm_get (escalations tbl) t")
  case None
  have "table_ok (tbl\<lparr>waiter_graph := g\<rparr>)" for g
    using ok(1) by (simp add: table_ok_def)
  with ok(2) None show ?thesis
    by (simp add: record_lock_acquired_def exclusion_ok_def)
next
  case (Some st)
  let ?st1 = "record_key_lock key st"
  let ?action = "check_escalation (get_lock_count ?st1) (lc_escalation (lt_config tbl))"
  obtain fired st2 where st2: "handle_escalation_action ?action ?st1 = (fired, st2)" by fastforce
  let ?tbl1 = "tbl\<lparr>escalations := hm_insert t st2 (escalations tbl)\<rparr>"
  have short: "length k \<le> 256" if "k \<in> set (locked_keys st2)" for k
    using that note_lock_keys [OF st2] table_okD(5) [OF ok(1) Some] key by auto
  have ok1: "table_ok ?tbl1" "exclusion_ok ?tbl1"
    using ok short unfolding table_ok_def by (simp_all add: exclusion_ok_def)
  have graph: "table_ok (tbl'\<lparr>waiter_graph := g\<rparr>) = table_ok tbl'"
    "exclusion_ok (tbl'\<lparr>waiter_graph := g\<rparr>) = exclusion_ok tbl'" for tbl' g
    by (simp_all add: table_ok_def exclusion_ok_def)
  have no_range: ?thesis if "\<not> fired \<or> compute_bounding_range st2 = None"
    using that ok1 st2 Some
    by (cases fired) (auto simp: record_lock_acquired_def Let_def graph)
  show ?thesis
  proof (cases "fired \<and> compute_bounding_range st2 \<noteq> None")
    case True
    then obtain s e where se: "fired" "compute_bounding_range st2 = Some (s, e)" by auto
    from lock_range_ok [OF ok1 bounding_range_start [OF se(2) short], of t e X]
    obtain r tbl' where "lock_range t s e X ?tbl1 = Some (r, tbl')" "table_ok tbl'" "exclusion_ok tbl'"
      by auto
    with st2 Some se show ?thesis
      by (auto simp: record_lock_acquired_def Let_def graph)
  qed (use no_range in blast)
qed

text \<open>The effect of a grant on a key's entry.\<close>

lemma try_acquire_effect:
  assumes "try_acquire t m e = (b, e')" "holders_ok e"
  shows "entry_key e' = entry_key e \<and> holders_ok e' \<and>
     (\<forall>t' m'. hm_get (holders e') t' = Some m' \<longrightarrow> hm_get (holders e) t' = Some m' \<or>
        b \<and> (t', m') = (t, m) \<and> is_compatible_with_holders (holders e) t m)"
  using assms holders_ok_try_acquire [OF assms(2), of t m]
  by (auto simp: try_acquire_def split: if_splits option.splits)

text \<open>With nobody else running, a conflicting request waits until its deadline.\<close>

lemma acquire_alone:
  assumes "try_acquire t m e = (False, e')"
  shows "acquire t m [([], Deadline_passed)] e = (Some (Err Timeout), remove_from_queue t (enqueue_back t e'))"
  using assms
  by (auto simp: try_acquire_def acquire_def run_actions_def acquire_round_def enqueue_back_def
      split: if_splits option.splits)

lemma put_entry_ok:
  assumes ok: "table_ok tbl" "exclusion_ok tbl" and allow: "ranges_allow t m key tbl"
    and e': "entry_key e' = key" "holders_ok e'"
    "\<And>t' m'. hm_get (holders e') t' = Some m' \<Longrightarrow>
       hm_get (holders (entry_or_insert key tbl)) t' = Some m' \<or>
       (t', m') = (t, m) \<and> is_compatible_with_holders (holders (entry_or_insert key tbl)) t m"
  shows "table_ok (tbl\<lparr>key_locks := hm_insert key e' (key_locks tbl)\<rparr>) \<and>
         exclusion_ok (tbl\<lparr>key_locks := hm_insert key e' (key_locks tbl)\<rparr>)"
proof
  let ?tbl = "tbl\<lparr>key_locks := hm_insert key e' (key_locks tbl)\<rparr>"
  let ?e = "entry_or_insert key tbl"
  show "table_ok ?tbl"
    using ok(1) e'(1,2) unfolding table_ok_def by (auto split: if_splits)
  have e: "hm_get (holders ?e) t' = Some m' \<Longrightarrow> (t', m') \<in> claims tbl key" for t' m'
    by (auto simp: claims_def entry_or_insert_def new_entry_def split: option.splits)
  show "exclusion_ok ?tbl"
    using ok(2)
  proof (rule exclusion_ok_add [where t = t and m = m and
        P = "\<lambda>k. k = key \<and> is_compatible_with_holders (holders ?e) t m"])
    show "claims ?tbl k \<subseteq> claims tbl k \<union>
        (if k = key \<and> is_compatible_with_holders (holders ?e) t m then {(t, m)} else {})" for k
      using e'(3) e by (cases "k = key") (fastforce simp: claims_def)+
  next
    fix k t' m'
    assume k: "k = key \<and> is_compatible_with_holders (holders ?e) t m" "(t', m') \<in> claims tbl k" "t' \<noteq> t"
    have "holders_ok ?e"
      using table_okD(4) [OF ok(1)] by (auto simp: entry_or_insert_def split: option.splits)
    from compatible_with_holders_iff [OF this] k allow show "is_compatible m m'"
      by (auto simp: claims_def entry_or_insert_def ranges_allow_def)
  qed
qed

lemma graph_irrelevant:
  "table_ok (tbl\<lparr>waiter_graph := g\<rparr>) = table_ok tbl"
  "exclusion_ok (tbl\<lparr>waiter_graph := g\<rparr>) = exclusion_ok tbl"
  by (simp_all add: table_ok_def exclusion_ok_def)

lemma lock_key_alone_ok:
  assumes ok: "table_ok tbl" "exclusion_ok tbl" and key: "length key \<le> 256"
  shows "\<exists>r tbl'. lock_key t key m [([], Deadline_passed)] tbl = Some (r, tbl') \<and> table_ok tbl' \<and> exclusion_ok tbl'"
proof (cases "ranges_allow t m key tbl")
  case False
  with ok check_range_locks_exact [OF ok(1) key] show ?thesis by (simp add: lock_key_def)
next
  case True
  let ?e = "entry_or_insert key tbl"
  have e: "entry_key ?e = key" "holders_ok ?e"
    using table_okD(4) [OF ok(1)]
    by (auto simp: entry_or_insert_def new_entry_def [of key] split: option.splits)
       (simp add: holders_ok_def)
  obtain b e' where e': "try_acquire t m ?e = (b, e')" by fastforce
  note eff = try_acquire_effect [OF e' e(2)]
  have step: "lock_key t key m [([], Deadline_passed)] tbl = take_key_lock t key m [([], Deadline_passed)] tbl"
    using True by (simp add: lock_key_def check_range_locks_exact [OF ok(1) key])
  show ?thesis
  proof (cases b)
    case granted: True
    let ?tbl = "tbl\<lparr>key_locks := hm_insert key e' (key_locks tbl)\<rparr>"
    have "table_ok ?tbl \<and> exclusion_ok ?tbl"
      using eff e(1) by (intro put_entry_ok [OF ok True]) auto
    with record_lock_acquired_ok [OF _ _ key, of ?tbl t] granted e' step show ?thesis
      by (auto simp: take_key_lock_def)
  next
    case False
    with e' have fails: "try_acquire t m ?e = (False, e')" by simp
    then have same: "e' = ?e" by (auto simp: try_acquire_def split: if_splits option.splits)
    let ?e2 = "remove_from_queue t (enqueue_back t e')"
    have "table_ok (tbl\<lparr>key_locks := hm_insert key ?e2 (key_locks tbl)\<rparr>) \<and>
        exclusion_ok (tbl\<lparr>key_locks := hm_insert key ?e2 (key_locks tbl)\<rparr>)"
      using e same by (intro put_entry_ok [OF ok True]) (auto simp: remove_from_queue_def enqueue_back_def)
    moreover have "hm_insert key ?e2 (hm_insert key e' (key_locks tbl)) = hm_insert key ?e2 (key_locks tbl)"
      by simp
    ultimately show ?thesis
      using fails same step acquire_alone [OF fails]
      by (auto simp: take_key_lock_def Let_def graph_irrelevant)
  qed
qed

text \<open>An upgrade looks at the holders of the key only; without range locks that is everybody.\<close>

lemma upgrade_alone:
  assumes "upgrade t X [([], Deadline_passed)] e = (answer, e')" "holders_ok e"
  shows "answer \<noteq> None" "entry_key e' = entry_key e" "holders_ok e'"
    "hm_get (holders e') t' = Some m' \<Longrightarrow> hm_get (holders e) t' = Some m' \<or>
       (t', m') = (t, X) \<and> is_compatible_with_holders (holders e) t X"
  using assms holders_ok_upgrade [OF assms(2), of t X "[([], Deadline_passed)]"]
  by (cases "upgrade_check t X e"; auto simp: upgrade_def run_actions_def upgrade_round_eq_acquire_round
      acquire_round_def enqueue_front_def remove_from_queue_def split: if_splits)+

lemma upgrade_lock_alone_ok:
  assumes ok: "table_ok tbl" "exclusion_ok tbl" and no_ranges: "\<not> enable_range_locks (lt_config tbl)"
  shows "\<exists>r tbl'. upgrade_lock t key [([], Deadline_passed)] tbl = Some (r, tbl') \<and> table_ok tbl' \<and>
    exclusion_ok tbl'"
proof (cases "hm_get (key_locks tbl) key")
  case (Some e)
  have e: "entry_key e = key" "holders_ok e" using table_okD(4) [OF ok(1) Some] by auto
  obtain answer e' where e': "upgrade t X [([], Deadline_passed)] e = (answer, e')" by fastforce
  note up = upgrade_alone [OF e' e(2)]
  have "ranges_allow t X key tbl" using table_okD(2) [OF ok(1)] no_ranges by (simp add: ranges_allow_def)
  moreover have "entry_or_insert key tbl = e" using Some by (simp add: entry_or_insert_def)
  ultimately have "table_ok (tbl\<lparr>key_locks := hm_insert key e' (key_locks tbl)\<rparr>) \<and>
      exclusion_ok (tbl\<lparr>key_locks := hm_insert key e' (key_locks tbl)\<rparr>)"
    using up(2-4) e(1) by (intro put_entry_ok [OF ok]) simp_all
  with Some e' up(1) show ?thesis by (auto simp: upgrade_lock_def)
qed (use ok in \<open>simp add: upgrade_lock_def\<close>)

lemma release_all_ok:
  assumes ok: "table_ok tbl" "exclusion_ok tbl"
  shows "\<exists>tbl'. release_all t tbl = Some tbl' \<and> table_ok tbl' \<and> exclusion_ok tbl' \<and>
     (\<forall>k. claims tbl' k = {c \<in> claims tbl k. fst c \<noteq> t})"
proof -
  note tree = table_okD(1) [OF ok(1)]
  from it.remove_law [OF tree, of t] obtain tree' where tree': "remove_by_txn t (range_locks tbl) = Some tree'"
    "tree_ok tree'" "tree_entries tree' = filter (\<lambda>r. rl_txn_id r \<noteq> t) (tree_entries (range_locks tbl))"
    by blast
  let ?locks = "map (\<lambda>(k, e). (k, snd (release t e))) (key_locks tbl)"
  obtain tbl' where tbl': "release_all t tbl = Some tbl'" "key_locks tbl' = ?locks" "range_locks tbl' = tree'"
    "lt_config tbl' = lt_config tbl" "escalations tbl' = hm_remove t (escalations tbl)"
    using tree'(1) by (auto simp: release_all_def unregister_txn_def)
  have get: "hm_get ?locks k = map_option (\<lambda>e. snd (release t e)) (hm_get (key_locks tbl) k)" for k
    by (simp add: map_of_map)
  have entry: "entry_key (snd (release t e)) = k \<and> holders_ok (snd (release t e))"
    if "hm_get (key_locks tbl) k = Some e" for k e
    using table_okD(4) [OF ok(1) that] holders_ok_release by (simp add: release_def)
  have "table_ok tbl'"
    unfolding table_ok_def tbl' get
  proof (intro conjI allI impI ballI)
    show "enable_range_locks (lt_config tbl) \<or> tree_entries tree' = []"
      using table_okD(2) [OF ok(1)] tree'(3) by auto
    show "hm_wf ?locks" using table_okD(3) [OF ok(1)] by (simp add: comp_def case_prod_unfold)
  qed (use entry tree'(2) table_okD(5) [OF ok(1)] in \<open>auto split: if_splits\<close>)
  moreover have claims: "claims tbl' k = {c \<in> claims tbl k. fst c \<noteq> t}" for k
    unfolding claims_def tbl' get using tree'(3) by (auto simp: release_def split: if_splits)
  moreover have "exclusion_ok tbl'"
    by (rule exclusion_ok_mono [OF ok(2)]) (auto simp: claims)
  ultimately show ?thesis using tbl'(1) by blast
qed

section \<open>Runs of calls\<close>

text \<open>Calls that do not overlap in time: each waits, if it must, until its deadline.\<close>

datatype table_call =
    RegisterTxn txn_id ts u32
  | LockKey txn_id bytes lock_mode
  | LockRange txn_id "bytes bound" "bytes bound" lock_mode
  | UpgradeLock txn_id bytes
  | ReleaseAll txn_id

fun run_call :: "table_call \<Rightarrow> lock_table \<Rightarrow> lock_table option" where
  "run_call (RegisterTxn t start p) tbl = Some (register_txn t start p tbl)"
| "run_call (LockKey t k m) tbl = map_option snd (lock_key t k m [([], Deadline_passed)] tbl)"
| "run_call (LockRange t s e m) tbl = map_option snd (lock_range t s e m tbl)"
| "run_call (UpgradeLock t k) tbl = map_option snd (upgrade_lock t k [([], Deadline_passed)] tbl)"
| "run_call (ReleaseAll t) tbl = release_all t tbl"

fun run_calls :: "table_call list \<Rightarrow> lock_table \<Rightarrow> lock_table option" where
  "run_calls [] tbl = Some tbl"
| "run_calls (c # cs) tbl = Option.bind (run_call c tbl) (run_calls cs)"

text \<open>
  Keys of at most 256 bytes, ranges that do not start beyond the stand-in of an unbounded end,
  and upgrades only where range locks are disabled, since an upgrade ignores them
  (\<open>upgrade_bypasses_ranges\<close>).
\<close>

fun call_in_domain :: "lock_config \<Rightarrow> table_call \<Rightarrow> bool" where
  "call_in_domain config (LockKey t k m) = (length k \<le> 256)"
| "call_in_domain config (LockRange t s e m) = within_sentinel s"
| "call_in_domain config (UpgradeLock t k) = (\<not> enable_range_locks config)"
| "call_in_domain config _ = True"

text \<open>No call changes the configuration.\<close>

lemma lock_range_config: "lock_range t s e m tbl = Some (r, tbl') \<Longrightarrow> lt_config tbl' = lt_config tbl"
  by (auto simp: lock_range_def split: if_splits Option.bind_splits)

lemma record_config: "record_lock_acquired t key tbl = Some tbl' \<Longrightarrow> lt_config tbl' = lt_config tbl"
  by (auto simp: record_lock_acquired_def Let_def dest!: lock_range_config
      split: option.splits prod.splits bool.splits)

lemma run_call_config: "run_call c tbl = Some tbl' \<Longrightarrow> lt_config tbl' = lt_config tbl"
  by (cases c)
    (auto simp: register_txn_def unregister_txn_def release_all_def lock_key_def take_key_lock_def upgrade_lock_def Let_def
      dest!: lock_range_config record_config
      split: Option.bind_splits result.splits prod.splits bool.splits option.splits)

lemma run_call_ok:
  assumes "table_ok tbl" "exclusion_ok tbl" "call_in_domain (lt_config tbl) c"
  shows "\<exists>tbl'. run_call c tbl = Some tbl' \<and> table_ok tbl' \<and> exclusion_ok tbl'"
proof (cases c)
  case (RegisterTxn t start p)
  with assms show ?thesis
    by (auto simp: register_txn_def table_ok_def exclusion_ok_def new_escalation_state_def split: if_splits)
next
  case (LockKey t k m)
  with assms lock_key_alone_ok [OF assms(1,2), of k t m] show ?thesis by auto
next
  case (LockRange t s e m)
  with assms lock_range_ok [OF assms(1,2), of s t e m] show ?thesis by auto
next
  case (UpgradeLock t k)
  with assms upgrade_lock_alone_ok [OF assms(1,2), of t k] show ?thesis by auto
next
  case (ReleaseAll t)
  with release_all_ok [OF assms(1,2), of t] show ?thesis by auto
qed

lemma run_calls_ok:
  assumes "table_ok tbl" "exclusion_ok tbl" "list_all (call_in_domain (lt_config tbl)) calls"
  shows "\<exists>tbl'. run_calls calls tbl = Some tbl' \<and> table_ok tbl' \<and> exclusion_ok tbl'"
  using assms
proof (induction calls arbitrary: tbl)
  case (Cons c calls)
  then obtain tbl' where "run_call c tbl = Some tbl'" "table_ok tbl'" "exclusion_ok tbl'"
    using run_call_ok [of tbl c] by auto
  with Cons run_call_config [of c tbl tbl'] show ?case by simp
qed simp

lemma new_table_ok: "table_ok (new_table config)" "exclusion_ok (new_table config)"
  "lt_config (new_table config) = config"
  using it.empty_invar it.empty_entries
  by (simp_all add: new_table_def table_ok_def exclusion_ok_def claims_def)

section \<open>Properties\<close>

text \<open>
  C36: two-level mutual exclusion. After any sequence of registrations, requests for keys of at
  most 256 bytes and for ranges that do not start beyond the stand-in of an unbounded end
  (escalations to range locks included), releases, and, if range locks are disabled, upgrades,
  none of which overlap in time, no call has gone astray in the interval tree, and two
  transactions that both claim a key of at most 256 bytes, each by its own lock on the key or by
  a range that contains the key, claim it in compatible modes.
\<close>

theorem lock_claims_compatible:
  assumes "list_all (call_in_domain config) calls"
  shows "\<exists>tbl. run_calls calls (new_table config) = Some tbl \<and>
     (\<forall>k t1 m1 t2 m2. length k \<le> 256 \<and> (t1, m1) \<in> claims tbl k \<and> (t2, m2) \<in> claims tbl k \<and>
        t1 \<noteq> t2 \<longrightarrow> is_compatible m1 m2)"
  using run_calls_ok [OF new_table_ok(1,2), unfolded new_table_ok(3), OF assms] unfolding exclusion_ok_def by blast

text \<open>
  C37: releasing. Whatever was locked before, \<open>release_all\<close> removes every claim of the
  transaction on every key, its own locks and its ranges, keeps every claim of the others,
  and leaves no wait edge and no escalation state of the transaction behind.
\<close>

theorem release_all_frees:
  assumes "list_all (call_in_domain config) calls" "run_calls calls (new_table config) = Some tbl"
  shows "\<exists>tbl'. release_all t tbl = Some tbl' \<and>
     (\<forall>k. claims tbl' k = {(t', m) \<in> claims tbl k. t' \<noteq> t}) \<and>
     hm_get (wg_edges (waiter_graph tbl')) t = None \<and> hm_get (escalations tbl') t = None"
proof -
  from run_calls_ok [OF new_table_ok(1,2), unfolded new_table_ok(3), OF assms(1)] assms(2) have ok: "table_ok tbl" "exclusion_ok tbl"
    by auto
  from release_all_ok [OF ok, of t] obtain tbl' where tbl': "release_all t tbl = Some tbl'"
    "\<And>k. claims tbl' k = {c \<in> claims tbl k. fst c \<noteq> t}" by blast
  then have "hm_get (wg_edges (waiter_graph tbl')) t = None \<and> hm_get (escalations tbl') t = None"
    by (auto simp: release_all_def unregister_txn_def graph_unregister_def remove_all_waits_def map_of_map)
  with tbl' show ?thesis by auto
qed

lemma lock_claims_compatible_witness:
  "\<exists>tbl. run_calls [LockKey 1 [5] X, LockRange 2 (Included [1]) Unbounded S, LockKey 2 [6] S,
       LockKey 1 [6] IS, ReleaseAll 1] (new_table default_lock_config) = Some tbl"
proof -
  have "list_all (call_in_domain default_lock_config) [LockKey 1 [5] X, LockRange 2 (Included [1]) Unbounded S,
      LockKey 2 [6] S, LockKey 1 [6] IS, ReleaseAll 1]"
    by (simp add: within_sentinel_short)
  from lock_claims_compatible [OF this] show ?thesis by blast
qed

lemma release_all_frees_witness:
  "\<exists>tbl tbl'. run_calls [LockKey 1 [5] X] (new_table default_lock_config) = Some tbl \<and>
     release_all 1 tbl = Some tbl' \<and> (1, X) \<in> claims tbl [5] \<and> (1, X) \<notin> claims tbl' [5]"
proof -
  have dom: "list_all (call_in_domain default_lock_config) [LockKey 1 [5] X]" by simp
  obtain tbl where tbl: "run_calls [LockKey 1 [5] X] (new_table default_lock_config) = Some tbl"
    "(1, X) \<in> claims tbl [5]"
    by (simp add: lock_key_def check_range_locks_def new_table_def find_containing_key_def
        find_overlapping_def empty_tree_def take_key_lock_def entry_or_insert_def new_entry_def
        try_acquire_def is_compatible_with_holders_def record_lock_acquired_def claims_def
        default_lock_config_def)
  from release_all_frees [OF dom tbl(1), of 1] tbl show ?thesis by fastforce
qed

text \<open>
  An upgrade bypasses range locks. A transaction that shares a key with another
  transaction's shared range lock is upgraded to exclusive at once, since \<open>upgrade_lock\<close> looks
  only at the holders of the key itself: both then claim the key, in modes \<open>X\<close> and \<open>S\<close>.
\<close>

theorem upgrade_bypasses_ranges:
  "\<exists>tbl tbl'. run_calls [LockKey 1 k S, LockRange 2 (Included k) (Included k) S]
        (new_table default_lock_config) = Some tbl \<and>
     upgrade_lock 1 k [([], In_time)] tbl = Some (Ok (), tbl') \<and>
     {(1, X), (2, S)} \<subseteq> claims tbl' k"
  by (simp add: lock_key_def check_range_locks_def new_table_def find_containing_key_def
        find_overlapping_def empty_tree_def take_key_lock_def entry_or_insert_def new_entry_def
        try_acquire_def is_compatible_with_holders_def record_lock_acquired_def claims_def
        default_lock_config_def lock_range_def get_holders_def holder_blocks_def insert_tree_def
        upgrade_lock_def upgrade_def upgrade_check_def enqueue_front_def run_actions_def
        upgrade_round_def remove_from_queue_def new_range_lock_def new_node_def tree_entries_def
        contains_key_def)

text \<open>
  The range check and the acquisition of the key are not one step. When another
  transaction locks the range between the two, both requests are granted in mode \<open>X\<close>.
\<close>

theorem key_and_range_race:
  "\<exists>tbl tbl'. check_range_locks 1 k X (new_table default_lock_config) = Some (Ok ()) \<and>
     lock_range 2 (Included k) (Included k) X (new_table default_lock_config) = Some (Ok (), tbl) \<and>
     take_key_lock 1 k X [] tbl = Some (Ok (), tbl') \<and>
     {(1, X), (2, X)} \<subseteq> claims tbl' k"
  by (simp add: check_range_locks_def new_table_def find_containing_key_def
        find_overlapping_def empty_tree_def take_key_lock_def entry_or_insert_def new_entry_def
        try_acquire_def is_compatible_with_holders_def record_lock_acquired_def claims_def
        default_lock_config_def lock_range_def get_holders_def insert_tree_def
        new_range_lock_def new_node_def tree_entries_def contains_key_def)

end
