(* ===== verification/Lock_Waits.thy ===== *)
theory Lock_Waits
  imports Detector Lock_Table
begin

text \<open>
  Calls of \<open>lock_key\<close> (\<open>crabstash-lock/src/lock_table.rs\<close>) that overlap: each call is a
  sequence of steps, one per critical section, and the steps of all transactions interleave
  freely with one another and with \<open>register_txn\<close>, \<open>lock_range\<close> and \<open>release_all\<close>. What the
  deadlock detector sees of the calls that wait.
\<close>

section \<open>Calls in progress\<close>

text \<open>
  Where a call stands: past the range check; before \<open>try_acquire\<close>; after its refusal; with the
  holders read; with the edges added, before \<open>acquire\<close>; refused again, before the wait queue;
  in the waiting loop; with an answer, before the edges are removed; with the lock granted,
  before \<open>record_lock_acquired\<close>, which is one step.
\<close>

datatype lock_pc =
    Checked
  | Requesting
  | Refused
  | Noted "txn_id list"
  | Entering "txn_id list"
  | Queueing "txn_id list"
  | Parked "txn_id list"
  | Leaving "txn_id list" "(lock_error, unit) result"
  | Recording

record lock_call =
  call_key :: bytes
  call_mode :: lock_mode
  call_pc :: lock_pc

text \<open>A transaction makes one call at a time.\<close>

record lock_system =
  sys_table :: lock_table
  sys_calls :: "(txn_id, lock_call) hmap"

definition new_system :: "lock_config \<Rightarrow> lock_system" where
  "new_system config = \<lparr>sys_table = new_table config, sys_calls = []\<rparr>"

definition put_entry_at :: "bytes \<Rightarrow> lock_entry \<Rightarrow> lock_table \<Rightarrow> lock_table" where
  "put_entry_at key e tbl = tbl\<lparr>key_locks := hm_insert key e (key_locks tbl)\<rparr>"

text \<open>The range check. \<open>None\<close>: the transaction is in a call, or the check does not return.\<close>

definition begin_lock :: "txn_id \<Rightarrow> bytes \<Rightarrow> lock_mode \<Rightarrow> lock_system \<Rightarrow> lock_system option" where
  "begin_lock t key mode sys =
     (if hm_get (sys_calls sys) t \<noteq> None then None
      else map_option (\<lambda>r. case r of
          Ok _ \<Rightarrow> sys\<lparr>sys_calls := hm_insert t \<lparr>call_key = key, call_mode = mode, call_pc = Checked\<rparr>
                      (sys_calls sys)\<rparr>
        | _ \<Rightarrow> sys)
        (check_range_locks t key mode (sys_table sys)))"

definition goto :: "txn_id \<Rightarrow> lock_call \<Rightarrow> lock_pc \<Rightarrow> lock_table \<Rightarrow> lock_system \<Rightarrow> lock_system" where
  "goto t c pc tbl sys =
     sys\<lparr>sys_table := tbl, sys_calls := hm_insert t (c\<lparr>call_pc := pc\<rparr>) (sys_calls sys)\<rparr>"

definition return_from :: "txn_id \<Rightarrow> lock_table \<Rightarrow> lock_system \<Rightarrow> lock_system" where
  "return_from t tbl sys = sys\<lparr>sys_table := tbl, sys_calls := hm_remove t (sys_calls sys)\<rparr>"

text \<open>One critical section of the call of \<open>t\<close>; \<open>w\<close> is how it comes to a round of the waiting loop.\<close>

definition advance_call :: "txn_id \<Rightarrow> wakeup \<Rightarrow> lock_call \<Rightarrow> lock_system \<Rightarrow> lock_system option" where
  "advance_call t w c sys =
     (let tbl = sys_table sys; key = call_key c; mode = call_mode c; e = entry_or_insert key tbl in
      case call_pc c of
        Checked \<Rightarrow> Some (goto t c Requesting (put_entry_at key e tbl) sys)
      | Requesting \<Rightarrow>
          (case try_acquire t mode e of
             (True, e') \<Rightarrow> Some (goto t c Recording (put_entry_at key e' tbl) sys)
           | (False, e') \<Rightarrow> Some (goto t c Refused (put_entry_at key e' tbl) sys))
      | Refused \<Rightarrow> Some (goto t c (Noted (map fst (get_holders e))) tbl sys)
      | Noted hs \<Rightarrow> Some (goto t c (Entering hs)
            (tbl\<lparr>waiter_graph := fold (add_wait_edge t) hs (waiter_graph tbl)\<rparr>) sys)
      | Entering hs \<Rightarrow>
          (case try_acquire t mode e of
             (True, e') \<Rightarrow> Some (goto t c (Leaving hs (Ok ())) (put_entry_at key e' tbl) sys)
           | (False, e') \<Rightarrow> Some (goto t c (Queueing hs) (put_entry_at key e' tbl) sys))
      | Queueing hs \<Rightarrow> Some (goto t c (Parked hs) (put_entry_at key (enqueue_back t e) tbl) sys)
      | Parked hs \<Rightarrow>
          (case acquire_round t mode w e of
             (Some r, e') \<Rightarrow> Some (goto t c (Leaving hs r) (put_entry_at key e' tbl) sys)
           | (None, e') \<Rightarrow> Some (goto t c (Parked hs) (put_entry_at key e' tbl) sys))
      | Leaving hs r \<Rightarrow>
          (let tbl' = tbl\<lparr>waiter_graph := fold (remove_wait_edge t) hs (waiter_graph tbl)\<rparr> in
           case r of
             Ok _ \<Rightarrow> Some (goto t c Recording tbl' sys)
           | _ \<Rightarrow> Some (return_from t tbl' sys))
      | Recording \<Rightarrow> map_option (\<lambda>tbl'. return_from t tbl' sys) (record_lock_acquired t key tbl))"

datatype lock_event =
    BeginLock txn_id bytes lock_mode
  | Advance txn_id wakeup
  | TakeRange txn_id "bytes bound" "bytes bound" lock_mode
  | Register txn_id ts u32
  | FinishTxn txn_id

fun lock_event_step :: "lock_event \<Rightarrow> lock_system \<Rightarrow> lock_system option" where
  "lock_event_step (BeginLock t key mode) sys = begin_lock t key mode sys"
| "lock_event_step (Advance t w) sys =
     Option.bind (hm_get (sys_calls sys) t) (\<lambda>c. advance_call t w c sys)"
| "lock_event_step (TakeRange t s e mode) sys =
     map_option (\<lambda>(_, tbl). sys\<lparr>sys_table := tbl\<rparr>) (lock_range t s e mode (sys_table sys))"
| "lock_event_step (Register t start p) sys = Some (sys\<lparr>sys_table := register_txn t start p (sys_table sys)\<rparr>)"
| "lock_event_step (FinishTxn t) sys =
     map_option (\<lambda>tbl. sys\<lparr>sys_table := tbl\<rparr>) (release_all t (sys_table sys))"

fun run_lock_events :: "lock_event list \<Rightarrow> lock_system \<Rightarrow> lock_system option" where
  "run_lock_events [] sys = Some sys"
| "run_lock_events (ev # evs) sys = Option.bind (lock_event_step ev sys) (run_lock_events evs)"

lemma run_lock_events_append:
  "run_lock_events (xs @ ys) sys = Option.bind (run_lock_events xs sys) (run_lock_events ys)"
proof (induction xs arbitrary: sys)
  case (Cons x xs)
  then show ?case by (cases "lock_event_step x sys") simp_all
qed simp

text \<open>A call that nobody interferes with is \<open>lock_key\<close> with a loop of one round.\<close>

lemma update_twice: "hm_insert k v (hm_insert k w m) = hm_insert k v m"
  by (induction m) auto

lemma put_entry_simps [simp]:
  "waiter_graph (put_entry_at key e tbl) = waiter_graph tbl"
  "put_entry_at key e (put_entry_at key e' tbl) = put_entry_at key e tbl"
  "entry_or_insert key (put_entry_at key e tbl) = e"
  "entry_or_insert key (tbl\<lparr>waiter_graph := g\<rparr>) = entry_or_insert key tbl"
  "put_entry_at key e (tbl\<lparr>waiter_graph := g\<rparr>) = (put_entry_at key e tbl)\<lparr>waiter_graph := g\<rparr>"
  by (simp_all add: put_entry_at_def entry_or_insert_def update_twice)

lemma remove_inserted: "hm_remove k (hm_insert k v m) = hm_remove k m"
  by (induction m) auto

lemma goto_simps [simp]:
  "hm_get (sys_calls (goto t c pc tbl sys)) t = Some (c\<lparr>call_pc := pc\<rparr>)"
  "sys_table (goto t c pc tbl sys) = tbl"
  "goto t c pc tbl (goto t c' pc' tbl' sys) = goto t c pc tbl sys"
  "goto t (c\<lparr>call_pc := pc'\<rparr>) pc tbl sys = goto t c pc tbl sys"
  "return_from t tbl (goto t c pc tbl' sys) = return_from t tbl sys"
  by (simp_all add: goto_def return_from_def update_twice remove_inserted)

lemma return_unlisted: "hm_get (sys_calls sys) t = None \<Longrightarrow> return_from t tbl sys = sys\<lparr>sys_table := tbl\<rparr>"
  by (simp add: return_from_def delete_id map_of_eq_None_iff)

lemma solo_step:
  "run_lock_events (replicate (Suc n) (Advance t b)) (goto t c pc tbl sys) =
   Option.bind (advance_call t b (c\<lparr>call_pc := pc\<rparr>) (goto t c pc tbl sys)) (run_lock_events (replicate n (Advance t b)))"
  by simp

lemma refused_again:
  "try_acquire t mode e = (False, e') \<Longrightarrow> e' = e \<and> \<not> is_compatible_with_holders (holders e) t mode"
  by (auto simp: try_acquire_def split: if_splits option.splits)

text \<open>The part of the call after a refusal.\<close>

lemma solo_refused:
  assumes idle: "hm_get (sys_calls sys) t = None" and c: "call_key c = key" "call_mode c = mode"
    and e': "try_acquire t mode (entry_or_insert key (sys_table sys)) = (False, entry_or_insert key (sys_table sys))"
    and taken: "take_key_lock t key mode [([], b)] (sys_table sys) = Some (r, tbl')"
  shows "\<exists>n. run_lock_events (replicate n (Advance t b)) (goto t c Checked (sys_table sys) sys) = Some (sys\<lparr>sys_table := tbl'\<rparr>)"
proof -
  let ?tbl = "sys_table sys"
  let ?e = "entry_or_insert key ?tbl"
  let ?hs = "map fst (get_holders ?e)"
  let ?woken = "\<lambda>e. (put_entry_at key e ?tbl)\<lparr>waiter_graph :=
      fold (remove_wait_edge t) ?hs (fold (add_wait_edge t) ?hs (waiter_graph ?tbl))\<rparr>"
  obtain x e2 where round: "acquire_round t mode b (enqueue_back t ?e) = (Some x, e2)"
    "(case x of Ok _ \<Rightarrow> map_option (\<lambda>t. (Ok (), t)) (record_lock_acquired t key (?woken e2))
        | _ \<Rightarrow> Some (x, ?woken e2)) = Some (r, tbl')"
    using taken e'
    by (auto simp: take_key_lock_def acquire_def run_actions_def put_entry_at_def update_twice Let_def
        split: prod.splits option.splits result.splits)
  have "run_lock_events (replicate (Suc (Suc (Suc (Suc (Suc (Suc (Suc n))))))) (Advance t b)) (goto t c Checked ?tbl sys) =
      run_lock_events (replicate n (Advance t b))
        (goto t c (Leaving ?hs x) ((put_entry_at key e2 ?tbl)\<lparr>waiter_graph := fold (add_wait_edge t) ?hs (waiter_graph ?tbl)\<rparr>) sys)" for n
    using e' round(1) by (simp add: solo_step advance_call_def Let_def c del: replicate_Suc)
  note parked = this
  show ?thesis
  proof (cases x)
    case (Ok u)
    with round(2) idle have "run_lock_events (replicate (Suc (Suc 0)) (Advance t b))
        (goto t c (Leaving ?hs x) ((put_entry_at key e2 ?tbl)\<lparr>waiter_graph := fold (add_wait_edge t) ?hs (waiter_graph ?tbl)\<rparr>) sys) =
        Some (sys\<lparr>sys_table := tbl'\<rparr>)"
      by (auto simp add: solo_step advance_call_def Let_def c return_unlisted simp del: replicate_Suc)
    with parked show ?thesis by metis
  next
    case (Err y)
    with round(2) idle parked [of "Suc 0"] show ?thesis
      by (intro exI [of _ "Suc (Suc (Suc (Suc (Suc (Suc (Suc (Suc 0)))))))"])
        (auto simp add: solo_step advance_call_def return_unlisted Let_def c simp del: replicate_Suc)
  next
    case Panic
    with round(2) idle parked [of "Suc 0"] show ?thesis
      by (intro exI [of _ "Suc (Suc (Suc (Suc (Suc (Suc (Suc (Suc 0)))))))"])
        (auto simp add: solo_step advance_call_def return_unlisted Let_def c simp del: replicate_Suc)
  qed
qed

lemma solo_call:
  assumes idle: "hm_get (sys_calls sys) t = None"
    and call: "lock_key t key mode [([], b)] (sys_table sys) = Some (r, tbl')"
  shows "\<exists>n. run_lock_events (BeginLock t key mode # replicate n (Advance t b)) sys = Some (sys\<lparr>sys_table := tbl'\<rparr>)"
proof -
  define c where "c = \<lparr>call_key = key, call_mode = mode, call_pc = Checked\<rparr>"
  then have c: "call_key c = key" "call_mode c = mode" by simp_all
  let ?tbl = "sys_table sys"
  let ?e = "entry_or_insert key ?tbl"
  obtain r0 where r0: "check_range_locks t key mode ?tbl = Some r0" using call by (auto simp: lock_key_def bind_eq_Some_conv)
  show ?thesis
  proof (cases "r0 = Ok ()")
    case False
    with r0 call idle have "run_lock_events (BeginLock t key mode # replicate 0 (Advance t b)) sys =
        Some (sys\<lparr>sys_table := tbl'\<rparr>)"
      by (auto simp: lock_key_def begin_lock_def split: result.splits)
    then show ?thesis by blast
  next
    case True
    then have taken: "take_key_lock t key mode [([], b)] ?tbl = Some (r, tbl')"
      using r0 call by (simp add: lock_key_def)
    have begun: "run_lock_events (BeginLock t key mode # evs) sys = run_lock_events evs (goto t c Checked ?tbl sys)" for evs
      using r0 True idle by (simp add: begin_lock_def goto_def c_def)
    obtain ok e' where asked: "try_acquire t mode ?e = (ok, e')" by fastforce
    show ?thesis
    proof (cases ok)
      case True
      with taken asked have "record_lock_acquired t key (put_entry_at key e' ?tbl) = Some tbl'"
        by (auto simp: take_key_lock_def put_entry_at_def)
      with True asked idle have "run_lock_events (replicate (Suc (Suc (Suc 0))) (Advance t b)) (goto t c Checked ?tbl sys) =
          Some (sys\<lparr>sys_table := tbl'\<rparr>)"
        by (simp add: solo_step advance_call_def Let_def c return_unlisted del: replicate_Suc)
      then show ?thesis unfolding begun by blast
    next
      case False
      with asked refused_again [of t mode ?e] have e': "try_acquire t mode ?e = (False, ?e)" by simp
      from solo_refused [OF idle c this taken] show ?thesis unfolding begun .
    qed
  qed
qed

section \<open>The edges of a graph\<close>

abbreviation edges_from :: "lock_table \<Rightarrow> txn_id \<Rightarrow> txn_id list" where
  "edges_from tbl t \<equiv> successors (wg_edges (waiter_graph tbl)) t"

lemma add_edge_successors:
  "successors (wg_edges (add_wait_edge w h g)) x =
     (if x = w \<and> w \<noteq> h then hs_insert h (successors (wg_edges g) x) else successors (wg_edges g) x)"
  by (simp add: add_wait_edge_def successors_def)

lemma remove_edge_successors:
  "successors (wg_edges (remove_wait_edge w h g)) x =
     (if x = w then hs_remove h (successors (wg_edges g) x) else successors (wg_edges g) x)"
  by (cases "hm_get (wg_edges g) w") (simp_all add: remove_wait_edge_def successors_def Let_def hs_remove_def)

lemma add_edges_successors:
  "set (successors (wg_edges (fold (add_wait_edge t) hs g)) x) =
     (if x = t then set (successors (wg_edges g) x) \<union> (set hs - {t}) else set (successors (wg_edges g) x))"
  by (induction hs arbitrary: g) (auto simp: add_edge_successors)

lemma remove_edges_successors:
  "set (successors (wg_edges (fold (remove_wait_edge t) hs g)) x) =
     (if x = t then set (successors (wg_edges g) x) - set hs else set (successors (wg_edges g) x))"
  by (induction hs arbitrary: g) (auto simp: remove_edge_successors)

lemma increment_edges [simp]: "wg_edges (increment_lock_count t g) = wg_edges g"
  by (simp add: increment_lock_count_def split: option.split)

lemma lock_range_graph: "lock_range t s e m tbl = Some (r, tbl') \<Longrightarrow> waiter_graph tbl' = waiter_graph tbl"
  by (auto simp: lock_range_def split: if_splits Option.bind_splits)


lemma record_graph:
  "record_lock_acquired t key tbl = Some tbl' \<Longrightarrow> wg_edges (waiter_graph tbl') = wg_edges (waiter_graph tbl)"
  by (auto simp: record_lock_acquired_def Let_def dest!: lock_range_graph split: option.splits prod.splits bool.splits)

lemma release_edges:
  assumes "release_all u tbl = Some tbl'"
  shows "set (edges_from tbl' t) \<subseteq> set (edges_from tbl t)"
proof -
  have g: "waiter_graph tbl' = graph_unregister u (remove_all_waits u (waiter_graph tbl))"
    using assms by (auto simp: release_all_def unregister_txn_def)
  have "successors (wg_edges (remove_all_waits u g)) t = (if t = u then [] else successors (wg_edges g) t)" for g
    by (simp add: remove_all_waits_def successors_def)
  then show ?thesis by (auto simp: g successors_unregister)
qed

section \<open>Edges belong to waiting calls\<close>

fun noted :: "lock_pc \<Rightarrow> txn_id list" where
  "noted Checked = []"
| "noted Requesting = []"
| "noted Refused = []"
| "noted (Noted hs) = []"
| "noted (Entering hs) = hs"
| "noted (Queueing hs) = hs"
| "noted (Parked hs) = hs"
| "noted (Leaving hs r) = hs"
| "noted Recording = []"

definition noted_by :: "lock_system \<Rightarrow> txn_id \<Rightarrow> txn_id list" where
  "noted_by sys t = (case hm_get (sys_calls sys) t of Some c \<Rightarrow> noted (call_pc c) | None \<Rightarrow> [])"

definition edges_noted :: "lock_system \<Rightarrow> bool" where
  "edges_noted sys \<longleftrightarrow> (\<forall>t. set (edges_from (sys_table sys) t) \<subseteq> set (noted_by sys t))"

lemma noted_by_ops [simp]:
  "noted_by (goto t c pc tbl sys) u = (if u = t then noted pc else noted_by sys u)"
  "noted_by (return_from t tbl sys) u = (if u = t then [] else noted_by sys u)"
  "sys_table (goto t c pc tbl sys) = tbl" "sys_table (return_from t tbl sys) = tbl"
  "noted_by (sys\<lparr>sys_table := tbl\<rparr>) u = noted_by sys u"
  by (simp_all add: noted_by_def goto_def return_from_def)

lemma begin_lock_cases:
  assumes "begin_lock t key mode sys = Some sys'"
  obtains (refused) "hm_get (sys_calls sys) t = None" "sys' = sys"
  | (begun) "hm_get (sys_calls sys) t = None"
      "sys' = goto t \<lparr>call_key = key, call_mode = mode, call_pc = Checked\<rparr> Checked (sys_table sys) sys"
proof -
  obtain r where r: "check_range_locks t key mode (sys_table sys) = Some r" and none: "hm_get (sys_calls sys) t = None"
    using assms by (auto simp: begin_lock_def split: if_splits)
  show thesis
  proof (cases r)
    case (Ok x)
    with r none assms show thesis by (intro begun) (simp_all add: begin_lock_def goto_def)
  next
    case (Err x)
    with r none assms show thesis by (intro refused) (simp_all add: begin_lock_def)
  next
    case Panic
    with r none assms show thesis by (intro refused) (simp_all add: begin_lock_def)
  qed
qed

text \<open>A step of \<open>t\<close> leaves the edges of the others alone, and its own noted.\<close>

lemma edges_noted_step:
  assumes "edges_noted sys"
    "\<And>u. u \<noteq> t \<Longrightarrow> set (edges_from (sys_table sys') u) = set (edges_from (sys_table sys) u) \<and>
       noted_by sys' u = noted_by sys u"
    "set (edges_from (sys_table sys) t) \<subseteq> set (noted_by sys t) \<Longrightarrow>
       set (edges_from (sys_table sys') t) \<subseteq> set (noted_by sys' t)"
  shows "edges_noted sys'"
  unfolding edges_noted_def
proof
  fix u
  show "set (edges_from (sys_table sys') u) \<subseteq> set (noted_by sys' u)"
  proof (cases "u = t")
    case True
    with assms(1,3) show ?thesis by (simp add: edges_noted_def)
  next
    case False
    from assms(2) [OF this] assms(1) show ?thesis by (simp add: edges_noted_def)
  qed
qed

lemma begin_edges_noted:
  assumes "edges_noted sys" "begin_lock t key mode sys = Some sys'"
  shows "edges_noted sys'"
  using assms(2)
proof (cases rule: begin_lock_cases)
  case begun
  then have "noted_by sys t = []" by (simp add: noted_by_def)
  with begun show ?thesis by (intro edges_noted_step [OF assms(1), of t]) simp_all
qed (use assms(1) in simp)

lemma advance_edges_noted:
  assumes inv: "edges_noted sys" and c: "hm_get (sys_calls sys) t = Some c"
    and step: "advance_call t w c sys = Some sys'"
  shows "edges_noted sys'"
proof (rule edges_noted_step [OF inv, of t])
  let ?tbl = "sys_table sys"
  have own: "noted_by sys t = noted (call_pc c)" using c by (simp add: noted_by_def)
  have kept: "u \<noteq> t \<Longrightarrow> noted_by sys' u = noted_by sys u" for u
    using step by (auto simp: advance_call_def Let_def split: lock_pc.splits prod.splits bool.splits result.splits option.splits)
  show "set (edges_from (sys_table sys') u) = set (edges_from ?tbl u) \<and> noted_by sys' u = noted_by sys u"
    if "u \<noteq> t" for u
    using step kept [OF that] that
    by (auto simp: advance_call_def Let_def add_edges_successors remove_edges_successors
        dest!: record_graph split: lock_pc.splits prod.splits bool.splits result.splits option.splits)
  assume "set (edges_from ?tbl t) \<subseteq> set (noted_by sys t)"
  then show "set (edges_from (sys_table sys') t) \<subseteq> set (noted_by sys' t)"
    using step unfolding own
    by (auto simp: advance_call_def Let_def add_edges_successors remove_edges_successors
        dest!: record_graph split: lock_pc.splits prod.splits bool.splits result.splits option.splits)
qed

text \<open>Registering a transaction and locking a range change no edge.\<close>

lemma range_keeps_edges:
  assumes "lock_event_step (TakeRange t s e mode) sys = Some sys'"
  shows "edges_from (sys_table sys') u = edges_from (sys_table sys) u" "noted_by sys' u = noted_by sys u"
  using assms by (auto dest!: lock_range_graph)

lemma register_keeps_edges:
  assumes "lock_event_step (Register t start p) sys = Some sys'"
  shows "edges_from (sys_table sys') u = edges_from (sys_table sys) u" "noted_by sys' u = noted_by sys u"
  using assms by (auto simp: register_txn_def graph_register_def)

lemma event_edges_noted:
  assumes inv: "edges_noted sys" and step: "lock_event_step ev sys = Some sys'"
  shows "edges_noted sys'"
proof (cases ev)
  case (BeginLock t key mode)
  with step begin_edges_noted [OF inv] show ?thesis by simp
next
  case (Advance t w)
  with step obtain c where "hm_get (sys_calls sys) t = Some c" "advance_call t w c sys = Some sys'"
    by (auto simp: bind_eq_Some_conv)
  with advance_edges_noted [OF inv] show ?thesis by blast
next
  case (TakeRange t s e mode)
  note same = range_keeps_edges [OF step [unfolded this]]
  from inv show ?thesis unfolding edges_noted_def same .
next
  case (Register t start p)
  note same = register_keeps_edges [OF step [unfolded this]]
  from inv show ?thesis unfolding edges_noted_def same .
next
  case (FinishTxn t)
  with step obtain tbl where tbl: "release_all t (sys_table sys) = Some tbl" "sys' = sys\<lparr>sys_table := tbl\<rparr>" by auto
  with inv release_edges [OF tbl(1)] show ?thesis by (fastforce simp: edges_noted_def)
qed

lemma run_edges_noted:
  "edges_noted sys \<Longrightarrow> run_lock_events evs sys = Some sys' \<Longrightarrow> edges_noted sys'"
proof (induction evs arbitrary: sys)
  case (Cons ev evs)
  then show ?case using event_edges_noted by (auto simp: bind_eq_Some_conv)
qed simp

lemma new_edges: "edges_from (new_table config) t = []"
  by (simp add: new_table_def new_graph_def successors_def)

lemma new_edges_noted: "edges_noted (new_system config)"
  by (simp add: edges_noted_def new_system_def new_edges)

section \<open>Until somebody finishes, every noted holder has its edge\<close>

definition edges_complete :: "lock_system \<Rightarrow> bool" where
  "edges_complete sys \<longleftrightarrow> (\<forall>t. set (noted_by sys t) - {t} \<subseteq> set (edges_from (sys_table sys) t))"

lemma edges_complete_step:
  assumes "edges_complete sys"
    "\<And>u. u \<noteq> t \<Longrightarrow> set (edges_from (sys_table sys) u) \<subseteq> set (edges_from (sys_table sys') u) \<and>
       noted_by sys' u = noted_by sys u"
    "set (noted_by sys t) - {t} \<subseteq> set (edges_from (sys_table sys) t) \<Longrightarrow>
       set (noted_by sys' t) - {t} \<subseteq> set (edges_from (sys_table sys') t)"
  shows "edges_complete sys'"
  unfolding edges_complete_def
proof
  fix u
  show "set (noted_by sys' u) - {u} \<subseteq> set (edges_from (sys_table sys') u)"
  proof (cases "u = t")
    case True
    with assms(1,3) show ?thesis by (simp add: edges_complete_def)
  next
    case False
    from assms(2) [OF this] assms(1) show ?thesis by (fastforce simp: edges_complete_def)
  qed
qed

lemma advance_edges_complete:
  assumes inv: "edges_complete sys" and c: "hm_get (sys_calls sys) t = Some c"
    and step: "advance_call t w c sys = Some sys'"
  shows "edges_complete sys'"
proof (rule edges_complete_step [OF inv, of t])
  let ?tbl = "sys_table sys"
  have own: "noted_by sys t = noted (call_pc c)" using c by (simp add: noted_by_def)
  show "set (edges_from ?tbl u) \<subseteq> set (edges_from (sys_table sys') u) \<and> noted_by sys' u = noted_by sys u"
    if "u \<noteq> t" for u
    using step that
    by (auto simp: advance_call_def Let_def add_edges_successors remove_edges_successors
        dest!: record_graph split: lock_pc.splits prod.splits bool.splits result.splits option.splits)
  assume "set (noted_by sys t) - {t} \<subseteq> set (edges_from ?tbl t)"
  then show "set (noted_by sys' t) - {t} \<subseteq> set (edges_from (sys_table sys') t)"
    using step unfolding own
    by (auto simp: advance_call_def Let_def add_edges_successors remove_edges_successors
        dest!: record_graph split: lock_pc.splits prod.splits bool.splits result.splits option.splits)
qed

fun finishes :: "lock_event \<Rightarrow> bool" where
  "finishes (FinishTxn t) = True"
| "finishes _ = False"

lemma run_edges_complete:
  "edges_complete sys \<Longrightarrow> run_lock_events evs sys = Some sys' \<Longrightarrow> \<not> list_ex finishes evs \<Longrightarrow> edges_complete sys'"
proof (induction evs arbitrary: sys)
  case (Cons ev evs)
  then obtain sys1 where sys1: "lock_event_step ev sys = Some sys1" "run_lock_events evs sys1 = Some sys'"
    by (auto simp: bind_eq_Some_conv)
  have "edges_complete sys1"
  proof (cases ev)
    case (BeginLock t key mode)
    with sys1(1) have "begin_lock t key mode sys = Some sys1" by simp
    then show ?thesis
    proof (cases rule: begin_lock_cases)
      case begun
      then show ?thesis by (intro edges_complete_step [OF Cons.prems(1), of t]) simp_all
    qed (use Cons.prems(1) in simp)
  next
    case (Advance t w)
    with sys1(1) advance_edges_complete [OF Cons.prems(1)] show ?thesis by (auto simp: bind_eq_Some_conv)
  next
    case (TakeRange t s e mode)
    note same = range_keeps_edges [OF sys1(1) [unfolded this]]
    from Cons.prems(1) show ?thesis unfolding edges_complete_def same .
  next
    case (Register t start p)
    note same = register_keeps_edges [OF sys1(1) [unfolded this]]
    from Cons.prems(1) show ?thesis unfolding edges_complete_def same .
  qed (use Cons.prems(3) in simp)
  with Cons.IH sys1(2) Cons.prems(3) show ?case by simp
qed simp

lemma new_edges_complete: "edges_complete (new_system config)"
  by (simp add: edges_complete_def new_system_def noted_by_def)

section \<open>What the detector sees\<close>

text \<open>The holders the calls in progress have noted, which is what the edges are.\<close>

definition noted_waits :: "lock_system \<Rightarrow> (txn_id \<times> txn_id) set" where
  "noted_waits sys = {(t, h). h \<in> set (noted_by sys t) \<and> h \<noteq> t}"

lemma deadlocked_noted:
  assumes "edges_noted sys" "deadlocked (waiter_graph (sys_table sys)) v w"
  shows "noted_by sys v \<noteq> []" "noted_by sys w \<noteq> []"
proof -
  have waits: "noted_by sys x \<noteq> []" if xy: "x \<noteq> y" "reaches (wg_edges (waiter_graph (sys_table sys))) x y" for x y
  proof -
    obtain z where "z \<in> set (edges_from (sys_table sys) x)" using xy by (auto elim: converse_rtranclE)
    with assms(1) show ?thesis by (force simp: edges_noted_def)
  qed
  show "noted_by sys v \<noteq> []" "noted_by sys w \<noteq> []"
    using waits [of v w] waits [of w v] assms(2) by (auto simp: deadlocked_def)
qed

lemma deadlocked_cycle:
  assumes "waits (wg_edges g) - Id = s"
  shows "(\<exists>v w. deadlocked g v w) \<longleftrightarrow> \<not> acyclic s"
proof
  have same: "(waits (wg_edges g))\<^sup>* = s\<^sup>*" using assms rtrancl_r_diff_Id by metis
  show "\<not> acyclic s" if dl: "\<exists>v w. deadlocked g v w"
  proof -
    obtain v w where "v \<noteq> w" "(v, w) \<in> s\<^sup>*" "(w, v) \<in> s\<^sup>*" using dl same by (auto simp: deadlocked_def)
    then have "(v, w) \<in> s\<^sup>+" "(w, v) \<in> s\<^sup>*" by (simp_all add: rtrancl_eq_or_trancl)
    then have "(v, v) \<in> s\<^sup>+" by (rule trancl_rtrancl_trancl)
    then show ?thesis by (auto simp: acyclic_def)
  qed
  show "\<exists>v w. deadlocked g v w" if cyc: "\<not> acyclic s"
  proof -
    obtain x where "(x, x) \<in> s\<^sup>+" using cyc by (auto simp: acyclic_def)
    then obtain y where "(x, y) \<in> s" "(y, x) \<in> s\<^sup>*" by (auto dest: tranclD)
    moreover from this(1) have "x \<noteq> y" using assms by auto
    ultimately show ?thesis using same by (auto simp: deadlocked_def)
  qed
qed

lemma detected_iff_deadlocked:
  "(\<exists>v. detect_deadlock g = Some (Some [v])) \<longleftrightarrow> (\<exists>v w. deadlocked g v w)"
proof (cases rule: detect_deadlock_cases [of g])
  case (cycle C vs)
  then obtain v where "vs = [v]" "v \<in> deadlocked_txns g" using detected_victim by blast
  with cycle(1) show ?thesis by (auto simp: deadlocked_txns_def)
qed simp

lemma exact_waits:
  assumes "run_lock_events evs (new_system config) = Some sys" "\<not> list_ex finishes evs"
  shows "waits (wg_edges (waiter_graph (sys_table sys))) - Id = noted_waits sys"
proof -
  have "edges_noted sys" "edges_complete sys"
    using run_edges_noted [OF new_edges_noted assms(1)] run_edges_complete [OF new_edges_complete assms] by simp_all
  then show ?thesis unfolding edges_noted_def edges_complete_def noted_waits_def waits_def by blast
qed

section \<open>Who is blocked by whom\<close>

text \<open>
  A call was refused and has announced its wait, and has not withdrawn it; \<open>blocks\<close> is read off
  the state of the entries: the transaction holds the key of the call in a mode that conflicts
  with the requested one.
\<close>

fun announced :: "lock_pc \<Rightarrow> bool" where
  "announced (Entering hs) = True"
| "announced (Queueing hs) = True"
| "announced (Parked hs) = True"
| "announced (Leaving hs r) = True"
| "announced _ = False"

definition held :: "lock_system \<Rightarrow> bytes \<Rightarrow> (txn_id, lock_mode) hmap" where
  "held sys key = holders (entry_or_insert key (sys_table sys))"

definition blocks :: "lock_system \<Rightarrow> (txn_id \<times> txn_id) set" where
  "blocks sys = {(t, h). \<exists>c m. hm_get (sys_calls sys) t = Some c \<and> announced (call_pc c) \<and> h \<noteq> t \<and>
     hm_get (held sys (call_key c)) h = Some m \<and> \<not> is_compatible (call_mode c) m}"








lemma held_simps [simp]:
  "held (goto t c pc tbl sys) k = holders (entry_or_insert k tbl)"
  "held (return_from t tbl sys) k = holders (entry_or_insert k tbl)"
  "held (sys\<lparr>sys_table := tbl\<rparr>) k = holders (entry_or_insert k tbl)"
  by (simp_all add: held_def goto_def return_from_def)











section \<open>Four runs\<close>

text \<open>Two transactions lock a key each and then ask for the other's.\<close>

definition crossed :: "lock_event list" where
  "crossed =
     [Register 1 10 5, Register 2 20 5, BeginLock 1 [1] X] @ replicate 3 (Advance 1 In_time) @
     [BeginLock 2 [2] X] @ replicate 3 (Advance 2 In_time) @
     [BeginLock 1 [2] X] @ replicate 6 (Advance 1 In_time) @
     [BeginLock 2 [1] X] @ replicate 6 (Advance 2 In_time)"

text \<open>
  The transaction that 1 waits for finishes, 3 takes the key before 1 wakes up, and then asks
  for the key of 1.
\<close>

definition handed_over :: "lock_event list" where
  "handed_over =
     [BeginLock 1 [1] X] @ replicate 3 (Advance 1 In_time) @
     [BeginLock 2 [2] X] @ replicate 3 (Advance 2 In_time) @
     [BeginLock 1 [2] X] @ replicate 6 (Advance 1 In_time) @
     [FinishTxn 2, BeginLock 3 [2] X] @ replicate 3 (Advance 3 In_time) @
     [Advance 1 In_time, BeginLock 3 [1] X] @ replicate 6 (Advance 3 In_time)"

text \<open>1 waits for a key that 2 shares, 3 comes to share it, and then asks for the key of 1.\<close>

definition late_sharer :: "lock_event list" where
  "late_sharer =
     [BeginLock 2 [1] S] @ replicate 3 (Advance 2 In_time) @
     [BeginLock 1 [2] X] @ replicate 3 (Advance 1 In_time) @
     [BeginLock 1 [1] X] @ replicate 6 (Advance 1 In_time) @
     [BeginLock 3 [1] S] @ replicate 3 (Advance 3 In_time) @
     [BeginLock 3 [2] X] @ replicate 6 (Advance 3 In_time)"

text \<open>1 and 2 hold a key in compatible modes; 3 conflicts with 2 only, and 1 asks for the key of 3.\<close>

definition mixed_holders :: "lock_event list" where
  "mixed_holders =
     [BeginLock 1 [1] IS] @ replicate 3 (Advance 1 In_time) @
     [BeginLock 2 [1] IX] @ replicate 3 (Advance 2 In_time) @
     [BeginLock 3 [2] X] @ replicate 3 (Advance 3 In_time) @
     [BeginLock 3 [1] S] @ replicate 6 (Advance 3 In_time) @
     [BeginLock 1 [2] X] @ replicate 6 (Advance 1 In_time)"

lemma first_key_noted:
  "handle_escalation_action (check_escalation (get_lock_count (record_key_lock k new_escalation_state))
     default_escalation_config) (record_key_lock k new_escalation_state) = (False, record_key_lock k new_escalation_state)"
  by (simp add: handle_escalation_action_def check_escalation_def get_lock_count_def record_key_lock_def
      new_escalation_state_def default_escalation_config_def)

lemmas table_steps =
  new_system_def new_table_def new_graph_def default_lock_config_def Let_def eval_nat_numeral
  begin_lock_def advance_call_def goto_def return_from_def put_entry_at_def entry_or_insert_def new_entry_def
  check_range_locks_def find_containing_key_def find_overlapping_def empty_tree_def
  try_acquire_def is_compatible_with_holders_def enqueue_back_def acquire_round_def get_holders_def
  record_lock_acquired_def increment_lock_count_def first_key_noted register_txn_def graph_register_def
  release_all_def release_def remove_by_txn_def rebuild_def unregister_txn_def graph_unregister_def remove_all_waits_def
  add_wait_edge_def remove_wait_edge_def hs_insert_def hs_remove_def noted_by_def successors_def

lemma crossed_run:
  obtains sys where "run_lock_events crossed (new_system default_lock_config) = Some sys"
    "noted_by sys 1 = [2]" "noted_by sys 2 = [1]"
  by (simp add: crossed_def table_steps)

lemma handed_over_run:
  obtains sys where "run_lock_events handed_over (new_system default_lock_config) = Some sys"
    "hm_get (sys_calls sys) 1 = Some \<lparr>call_key = [2], call_mode = X, call_pc = Parked [2]\<rparr>"
    "hm_get (sys_calls sys) 3 = Some \<lparr>call_key = [1], call_mode = X, call_pc = Parked [1]\<rparr>"
    "holders (entry_or_insert [1] (sys_table sys)) = [(1, X)]"
    "holders (entry_or_insert [2] (sys_table sys)) = [(3, X)]"
    "\<And>t. edges_from (sys_table sys) t = (if t = 3 then [1] else [])"
  by (simp add: handed_over_def table_steps)

lemma crossed_detected:
  obtains sys v where "run_lock_events crossed (new_system default_lock_config) = Some sys"
    "detect_deadlock (waiter_graph (sys_table sys)) = Some (Some [v])" "\<not> acyclic (noted_waits sys)"
proof -
  obtain sys where sys: "run_lock_events crossed (new_system default_lock_config) = Some sys"
    "noted_by sys 1 = [2]" "noted_by sys 2 = [1]" by (rule crossed_run)
  have "(1, 2) \<in> noted_waits sys" "(2, 1) \<in> noted_waits sys" using sys by (simp_all add: noted_waits_def)
  then have "(1, 1) \<in> (noted_waits sys)\<^sup>+" by (meson r_into_trancl trancl_trans)
  then have cyclic: "\<not> acyclic (noted_waits sys)" by (auto simp: acyclic_def)
  have "\<not> list_ex finishes crossed" by (simp add: crossed_def eval_nat_numeral)
  from deadlocked_cycle [OF exact_waits [OF sys(1) this]] cyclic that sys(1) detected_iff_deadlocked show thesis by metis
qed

lemma unreported:
  assumes "waits (wg_edges g) - Id = s" "acyclic s"
  shows "detect_deadlock g = Some None"
proof (cases rule: detect_deadlock_cases [of g])
  case (cycle C vs)
  then have "\<exists>v. detect_deadlock g = Some (Some [v])" using detected_victim by metis
  with detected_iff_deadlocked deadlocked_cycle [OF assms(1)] assms(2) show ?thesis by blast
qed

text \<open>
  After a handover the detector misses deadlocks. The edges of a waiting call are added once,
  for the holders it met; when those release the lock and another transaction takes it, the call
  waits for that one without an edge. Here 1 waits for a key that 3 holds and 3 for a key that 1
  holds, and the detector reports nothing.
\<close>

lemma deadlock_missed_after_release:
  "\<exists>sys. run_lock_events handed_over (new_system default_lock_config) = Some sys \<and>
     hm_get (sys_calls sys) 1 = Some \<lparr>call_key = [2], call_mode = X, call_pc = Parked [2]\<rparr> \<and>
     hm_get (sys_calls sys) 3 = Some \<lparr>call_key = [1], call_mode = X, call_pc = Parked [1]\<rparr> \<and>
     holders (entry_or_insert [1] (sys_table sys)) = [(1, X)] \<and>
     holders (entry_or_insert [2] (sys_table sys)) = [(3, X)] \<and>
     detect_deadlock (waiter_graph (sys_table sys)) = Some None"
proof -
  obtain sys where sys: "run_lock_events handed_over (new_system default_lock_config) = Some sys"
    "hm_get (sys_calls sys) 1 = Some \<lparr>call_key = [2], call_mode = X, call_pc = Parked [2]\<rparr>"
    "hm_get (sys_calls sys) 3 = Some \<lparr>call_key = [1], call_mode = X, call_pc = Parked [1]\<rparr>"
    "holders (entry_or_insert [1] (sys_table sys)) = [(1, X)]"
    "holders (entry_or_insert [2] (sys_table sys)) = [(3, X)]"
    "\<And>t. edges_from (sys_table sys) t = (if t = 3 then [1] else [])" by (rule handed_over_run) blast
  have "waits (wg_edges (waiter_graph (sys_table sys))) - Id = {(3, 1)}"
    using sys(6) by (auto simp: waits_def split: if_splits)
  moreover have "acyclic {(3 :: txn_id, 1 :: txn_id)}" by (simp add: acyclic_insert) (simp add: acyclic_def)
  ultimately have "detect_deadlock (waiter_graph (sys_table sys)) = Some None" by (rule unreported)
  with sys(1-5) show ?thesis by blast
qed

text \<open>
  The detector also misses deadlocks without any release. A transaction that comes to share a
  key another one already waits for gets no edge from the waiting call. Here 1 and 3 block each
  other, and nothing is reported.
\<close>

lemma late_sharer_run:
  obtains sys where "run_lock_events late_sharer (new_system default_lock_config) = Some sys"
    "(1, 3) \<in> blocks sys" "(3, 1) \<in> blocks sys"
    "\<And>t. edges_from (sys_table sys) t = (if t = 3 then [1] else if t = 1 then [2] else [])"
  by (simp add: late_sharer_def table_steps blocks_def held_def)

lemma late_sharer_missed:
  "\<exists>sys. run_lock_events late_sharer (new_system default_lock_config) = Some sys \<and>
     (1, 3) \<in> blocks sys \<and> (3, 1) \<in> blocks sys \<and> detect_deadlock (waiter_graph (sys_table sys)) = Some None"
proof -
  obtain sys where sys: "run_lock_events late_sharer (new_system default_lock_config) = Some sys"
    "(1, 3) \<in> blocks sys" "(3, 1) \<in> blocks sys"
    "\<And>t. edges_from (sys_table sys) t = (if t = 3 then [1] else if t = 1 then [2] else [])"
    by (rule late_sharer_run) blast
  have "waits (wg_edges (waiter_graph (sys_table sys))) - Id = {(3, 1), (1, 2)}"
    using sys(4) by (auto simp: waits_def split: if_splits)
  moreover have "acyclic {(3 :: txn_id, 1 :: txn_id), (1, 2)}"
    by (rule acyclicI_order [where f = "\<lambda>t. if t = 3 then 2 else if t = 1 then 1 else 0 :: nat"]) auto
  ultimately show ?thesis using sys(1-3) unreported by blast
qed

text \<open>
  And it reports what is no deadlock. A refused call gets edges to all holders of the key, also to
  those whose modes are compatible with the request. Here 3 waits for 2 only and 2 does not
  wait, but 1, which 3 does not wait for, waits for 3: a victim is reported.
\<close>

lemma mixed_holders_run:
  obtains sys where "run_lock_events mixed_holders (new_system default_lock_config) = Some sys"
    "\<And>t. hm_get (sys_calls sys) t = (if t = 3 then Some \<lparr>call_key = [1], call_mode = S, call_pc = Parked [1, 2]\<rparr>
       else if t = 1 then Some \<lparr>call_key = [2], call_mode = X, call_pc = Parked [3]\<rparr> else None)"
    "held sys [1] = [(1, IS), (2, IX)]" "held sys [2] = [(3, X)]"
    "1 \<in> set (edges_from (sys_table sys) 3)" "3 \<in> set (edges_from (sys_table sys) 1)"
  by (simp add: mixed_holders_def table_steps held_def)

lemma compatible_holder_reported:
  "\<exists>sys v. run_lock_events mixed_holders (new_system default_lock_config) = Some sys \<and>
     acyclic (blocks sys) \<and> detect_deadlock (waiter_graph (sys_table sys)) = Some (Some [v])"
proof -
  obtain sys where sys: "run_lock_events mixed_holders (new_system default_lock_config) = Some sys"
    "\<And>t. hm_get (sys_calls sys) t = (if t = 3 then Some \<lparr>call_key = [1], call_mode = S, call_pc = Parked [1, 2]\<rparr>
       else if t = 1 then Some \<lparr>call_key = [2], call_mode = X, call_pc = Parked [3]\<rparr> else None)"
    "held sys [1] = [(1, IS), (2, IX)]" "held sys [2] = [(3, X)]"
    "1 \<in> set (edges_from (sys_table sys) 3)" "3 \<in> set (edges_from (sys_table sys) 1)" by (rule mixed_holders_run) blast
  let ?g = "waiter_graph (sys_table sys)"
  have "(1, 3) \<in> waits (wg_edges ?g)" "(3, 1) \<in> waits (wg_edges ?g)" using sys(5,6) by (simp_all add: waits_def)
  then have "deadlocked ?g 1 3" by (auto simp: deadlocked_def)
  then have "\<exists>v. detect_deadlock ?g = Some (Some [v])" using detected_iff_deadlocked by blast
  moreover have "acyclic (blocks sys)"
    by (rule acyclicI_order [where f = "\<lambda>t. if t = 1 then 2 else if t = 3 then 1 else 0 :: nat"])
      (auto simp: blocks_def sys(2-4) split: if_splits)
  ultimately show ?thesis using sys(1) by blast
qed

section \<open>Properties\<close>

text \<open>
  C34: only waiting transactions are reported. However the calls of any transactions interleave,
  with locks on ranges, registrations and releases in between, a victim the detector reports
  is in the middle of a lock call that was refused, and so is another transaction it is
  deadlocked with; while no call is refused nothing is reported.
\<close>

theorem reported_victims_wait:
  assumes "run_lock_events evs (new_system config) = Some sys"
    "detect_deadlock (waiter_graph (sys_table sys)) = Some (Some vs)"
  shows "\<exists>v w. vs = [v] \<and> v \<noteq> w \<and> deadlocked (waiter_graph (sys_table sys)) v w \<and>
     noted_by sys v \<noteq> [] \<and> noted_by sys w \<noteq> []"
proof -
  have inv: "edges_noted sys" by (rule run_edges_noted [OF new_edges_noted assms(1)])
  obtain v where v: "vs = [v]" "v \<in> deadlocked_txns (waiter_graph (sys_table sys))"
    by (rule detected_victim [OF assms(2)])
  then obtain w where w: "deadlocked (waiter_graph (sys_table sys)) v w" by (auto simp: deadlocked_txns_def)
  with v(1) deadlocked_noted [OF inv w] show ?thesis by (auto simp: deadlocked_def)
qed

lemma reported_victims_wait_witness:
  "\<exists>sys v w. run_lock_events crossed (new_system default_lock_config) = Some sys \<and>
     detect_deadlock (waiter_graph (sys_table sys)) = Some (Some [v]) \<and>
     deadlocked (waiter_graph (sys_table sys)) v w \<and> noted_by sys v \<noteq> [] \<and> noted_by sys w \<noteq> []"
proof -
  obtain sys v where sys: "run_lock_events crossed (new_system default_lock_config) = Some sys"
    "detect_deadlock (waiter_graph (sys_table sys)) = Some (Some [v])" by (rule crossed_detected)
  from reported_victims_wait [OF this] sys show ?thesis by auto
qed



end
