(* ===== verification/Bloom.thy ===== *)
theory Bloom
  imports Codec Common_Error
begin

text \<open>
  The two Bloom filters: \<open>crabstash-storage/src/bloom.rs\<close> (one per SSTable) and the fixed
  8192-bit filter of \<open>crabstash-lock/src/ssi.rs\<close>. Both satisfy the contract
  \<open>membership_filter\<close>: no false negatives. The number of bits per key and of hashes come
  from floating-point formulas in \<open>bloom.rs\<close> and are parameters of \<open>bloom_new\<close>.
\<close>

section \<open>The contract\<close>

locale membership_filter =
  fixes add :: "'k \<Rightarrow> 'f \<Rightarrow> 'f"
    and may :: "'f \<Rightarrow> 'k \<Rightarrow> bool"
    and invar :: "'f \<Rightarrow> bool"
  assumes invar_add: "invar f \<Longrightarrow> invar (add k f)"
    and may_added: "invar f \<Longrightarrow> may (add k f) k"
    and may_kept: "invar f \<Longrightarrow> may f k \<Longrightarrow> may (add k' f) k"
begin

lemma invar_fold: "invar f \<Longrightarrow> invar (fold add ks f)"
  by (induction ks arbitrary: f) (simp_all add: invar_add)

lemma may_kept_fold: "invar f \<Longrightarrow> may f k \<Longrightarrow> may (fold add ks f) k"
  by (induction ks arbitrary: f) (simp_all add: invar_add may_kept)

lemma no_false_negative: "invar f \<Longrightarrow> k \<in> set ks \<Longrightarrow> may (fold add ks f) k"
  by (induction ks arbitrary: f) (auto simp: invar_add may_added intro: may_kept_fold)

end

section \<open>Bits of a vector of words\<close>

text \<open>
  Setting and testing the bit at a position of a vector of words of a given width, as both
  filters do with \<open>|= 1 << (pos % width)\<close> and \<open>& (1 << (pos % width))\<close>.
\<close>

definition set_at :: "nat \<Rightarrow> 'a::len word list \<Rightarrow> 'a word list" where
  "set_at pos ws =
     (let i = pos div LENGTH('a) in ws[i := ws ! i OR push_bit (pos mod LENGTH('a)) 1])"

definition test_at :: "'a::len word list \<Rightarrow> nat \<Rightarrow> bool" where
  "test_at ws pos \<longleftrightarrow>
     ws ! (pos div LENGTH('a)) AND push_bit (pos mod LENGTH('a)) 1 \<noteq> 0"

lemma length_set_at [simp]: "length (set_at pos ws) = length ws"
  by (simp add: set_at_def Let_def)

lemma test_at_bit:
  fixes ws :: "'a::len word list"
  shows "test_at ws pos \<longleftrightarrow> bit (ws ! (pos div LENGTH('a))) (pos mod LENGTH('a))"
  by (simp add: test_at_def bit_iff_and_push_bit_not_eq_0)

lemma test_set_at:
  fixes ws :: "'a::len word list"
  assumes "pos < length ws * LENGTH('a)"
  shows "test_at (set_at pos ws) q \<longleftrightarrow> q = pos \<or> test_at ws q"
proof -
  have i: "pos div LENGTH('a) < length ws"
    using assms by (simp add: less_mult_imp_div_less)
  have "q = pos \<longleftrightarrow> q div LENGTH('a) = pos div LENGTH('a) \<and> q mod LENGTH('a) = pos mod LENGTH('a)"
    by (metis div_mult_mod_eq)
  with i show ?thesis
    by (auto simp: test_at_bit set_at_def Let_def bit_or_iff bit_push_bit_iff nth_list_update
        bit_exp_iff)
qed

section \<open>The filter of an SSTable\<close>

definition SEED :: u32 where
  "SEED = 0xbc9f1d34"

record bloom =
  bits :: "byte list"
  num_hashes :: u32

definition bloom_new :: "nat \<Rightarrow> nat \<Rightarrow> u32 \<Rightarrow> bloom" where
  "bloom_new num_keys bits_per_key hashes =
     (let num_bits = max (num_keys * bits_per_key) 64 in
      \<lparr>bits = replicate ((num_bits + 7) div 8) 0, num_hashes = hashes\<rparr>)"

definition bloom_from_bytes :: "bytes \<Rightarrow> u32 \<Rightarrow> bloom" where
  "bloom_from_bytes data hashes = \<lparr>bits = data, num_hashes = hashes\<rparr>"

text \<open>The key is hashed in chunks of four bytes, the last one padded with zeros.\<close>

definition mix :: "u32 \<Rightarrow> u32 \<Rightarrow> u32" where
  "mix h k = (let h1 = h XOR k; h2 = h1 * 0x5bd1e995 in h2 XOR drop_bit 15 h2)"

fun hash_chunks :: "u32 \<Rightarrow> bytes \<Rightarrow> u32" where
  "hash_chunks h [] = h"
| "hash_chunks h [a] = mix h (u32_of_le a 0 0 0)"
| "hash_chunks h [a, b] = mix h (u32_of_le a b 0 0)"
| "hash_chunks h [a, b, c] = mix h (u32_of_le a b c 0)"
| "hash_chunks h (a # b # c # d # rest) = hash_chunks (mix h (u32_of_le a b c d)) rest"

definition bloom_hash :: "bytes \<Rightarrow> u32" where
  "bloom_hash key = hash_chunks (SEED XOR len_u32 key) key"

text \<open>
  The probe loop. A filter with no bits would divide by zero: a panic, as soon as there is
  a probe to make.
\<close>

fun insert_probes :: "nat \<Rightarrow> u32 \<Rightarrow> u32 \<Rightarrow> byte list \<Rightarrow> (error, byte list) result" where
  "insert_probes 0 h delta bs = Ok bs"
| "insert_probes (Suc n) h delta bs =
     (let num_bits = length bs * 8 in
      if num_bits = 0 then Panic
      else insert_probes n (h + delta) delta (set_at (unat h mod num_bits) bs))"

fun test_probes :: "nat \<Rightarrow> u32 \<Rightarrow> u32 \<Rightarrow> byte list \<Rightarrow> (error, bool) result" where
  "test_probes 0 h delta bs = Ok True"
| "test_probes (Suc n) h delta bs =
     (let num_bits = length bs * 8 in
      if num_bits = 0 then Panic
      else if \<not> test_at bs (unat h mod num_bits) then Ok False
      else test_probes n (h + delta) delta bs)"

definition bloom_insert :: "bytes \<Rightarrow> bloom \<Rightarrow> (error, bloom) result" where
  "bloom_insert key f =
     (let h = bloom_hash key in
      bind_result (insert_probes (unat (num_hashes f)) h (word_rotl 15 h) (bits f))
        (\<lambda>bs. Ok (f\<lparr>bits := bs\<rparr>)))"

definition bloom_may_contain :: "bloom \<Rightarrow> bytes \<Rightarrow> (error, bool) result" where
  "bloom_may_contain f key =
     (let h = bloom_hash key in
      test_probes (unat (num_hashes f)) h (word_rotl 15 h) (bits f))"

lemma insert_probes_ok:
  assumes "bs \<noteq> []"
  shows "\<exists>bs'. insert_probes n h delta bs = Ok bs' \<and>
    length bs' = length bs \<and> (\<forall>q. test_at bs q \<longrightarrow> test_at bs' q) \<and>
    test_probes n h delta bs' = Ok True"
  using assms
proof (induction n arbitrary: h bs)
  case (Suc n)
  let ?pos = "unat h mod (length bs * 8)"
  let ?bs1 = "set_at ?pos bs"
  have pos: "?pos < length bs * LENGTH(8)" using Suc.prems by simp
  have "?bs1 \<noteq> []" using Suc.prems by (metis length_0_conv length_set_at)
  from Suc.IH [OF this, of "h + delta"] obtain bs' where bs':
    "insert_probes n (h + delta) delta ?bs1 = Ok bs'"
    "length bs' = length bs" "\<forall>q. test_at ?bs1 q \<longrightarrow> test_at bs' q"
    "test_probes n (h + delta) delta bs' = Ok True"
    by auto
  have "test_at bs' ?pos" "\<And>q. test_at bs q \<Longrightarrow> test_at bs' q"
    using bs'(3) test_set_at [OF pos] by auto
  with bs' Suc.prems show ?case
    by (auto simp: Let_def)
qed simp

lemma test_probes_mono:
  assumes "test_probes n h delta bs = Ok True" "length bs' = length bs"
    "\<And>q. test_at bs q \<Longrightarrow> test_at bs' q"
  shows "test_probes n h delta bs' = Ok True"
  using assms(1)
  by (induction n arbitrary: h) (auto simp: Let_def assms(2,3) split: if_splits)

definition bloom_ok :: "bloom \<Rightarrow> bool" where
  "bloom_ok f \<longleftrightarrow> bits f \<noteq> []"

definition bloom_add :: "bytes \<Rightarrow> bloom \<Rightarrow> bloom" where
  "bloom_add key f = (case bloom_insert key f of Ok f' \<Rightarrow> f' | _ \<Rightarrow> f)"

lemma bloom_insert_ok:
  assumes "bloom_ok f"
  shows "bloom_insert key f = Ok (bloom_add key f)"
    "num_hashes (bloom_add key f) = num_hashes f"
    "length (bits (bloom_add key f)) = length (bits f)"
    "test_at (bits f) q \<Longrightarrow> test_at (bits (bloom_add key f)) q"
    "bloom_may_contain (bloom_add key f) key = Ok True"
proof -
  let ?n = "unat (num_hashes f)" and ?h = "bloom_hash key"
  obtain bs where bs: "insert_probes ?n ?h (word_rotl 15 ?h) (bits f) = Ok bs"
    "length bs = length (bits f)" "\<forall>q. test_at (bits f) q \<longrightarrow> test_at bs q"
    "test_probes ?n ?h (word_rotl 15 ?h) bs = Ok True"
    using insert_probes_ok assms unfolding bloom_ok_def by metis
  then have "bloom_insert key f = Ok (f\<lparr>bits := bs\<rparr>)"
    by (simp add: bloom_insert_def Let_def)
  then have add: "bloom_add key f = f\<lparr>bits := bs\<rparr>"
    by (simp add: bloom_add_def)
  with bs \<open>bloom_insert key f = _\<close> show "bloom_insert key f = Ok (bloom_add key f)"
    "num_hashes (bloom_add key f) = num_hashes f"
    "length (bits (bloom_add key f)) = length (bits f)"
    "test_at (bits f) q \<Longrightarrow> test_at (bits (bloom_add key f)) q"
    "bloom_may_contain (bloom_add key f) key = Ok True"
    by (simp_all add: bloom_may_contain_def Let_def)
qed

lemma bloom_may_mono:
  assumes "bloom_ok f" "bloom_may_contain f k = Ok True"
  shows "bloom_may_contain (bloom_add key f) k = Ok True"
  using assms bloom_insert_ok [OF assms(1)]
  by (auto simp: bloom_may_contain_def Let_def intro: test_probes_mono)

lemma bloom_may_contain_total:
  assumes "bloom_ok f"
  shows "\<exists>b. bloom_may_contain f key = Ok b"
proof -
  have "\<exists>b. test_probes n h delta (bits f) = Ok b" for n h delta
    using assms by (induction n arbitrary: h) (auto simp: bloom_ok_def Let_def)
  then show ?thesis by (simp add: bloom_may_contain_def Let_def)
qed

interpretation sst_filter: membership_filter bloom_add "\<lambda>f k. bloom_may_contain f k = Ok True" bloom_ok
proof (standard, goal_cases)
  case (1 f k) then show ?case
    using bloom_insert_ok(3) [OF 1, of k] unfolding bloom_ok_def by (metis length_0_conv)
next
  case (2 f k) then show ?case by (rule bloom_insert_ok(5))
next
  case (3 f k k') then show ?case by (rule bloom_may_mono)
qed

lemma bloom_ok_new [simp]: "bloom_ok (bloom_new n b h)"
  by (simp add: bloom_ok_def bloom_new_def Let_def)

text \<open>A loop of insertions, as the SSTable builder makes them.\<close>

fun bloom_insert_all :: "bytes list \<Rightarrow> bloom \<Rightarrow> (error, bloom) result" where
  "bloom_insert_all [] f = Ok f"
| "bloom_insert_all (k # ks) f = bind_result (bloom_insert k f) (bloom_insert_all ks)"

lemma bloom_insert_all_fold:
  "bloom_ok f \<Longrightarrow> bloom_insert_all ks f = Ok (fold bloom_add ks f)"
  by (induction ks arbitrary: f) (simp_all add: bloom_insert_ok(1) sst_filter.invar_add)

section \<open>The filter of the SSI manager\<close>

definition BLOOM_SIZE_BITS :: nat where
  "BLOOM_SIZE_BITS = 8192"

type_synonym ssi_bloom = "u64 list"

definition ssi_bloom_new :: ssi_bloom where
  "ssi_bloom_new = replicate ((BLOOM_SIZE_BITS + 63) div 64) 0"

definition get_bit_indices :: "u64 \<Rightarrow> nat list" where
  "get_bit_indices hash =
     (let h1 = hash; h2 = drop_bit 16 hash; h3 = drop_bit 32 hash in
      [unat h1 mod BLOOM_SIZE_BITS,
       unat (h1 + h2) mod BLOOM_SIZE_BITS,
       unat (h1 + h2 + h3) mod BLOOM_SIZE_BITS])"

definition ssi_bloom_insert :: "u64 \<Rightarrow> ssi_bloom \<Rightarrow> ssi_bloom" where
  "ssi_bloom_insert hash ws = fold set_at (get_bit_indices hash) ws"

definition ssi_bloom_may_contain :: "ssi_bloom \<Rightarrow> u64 \<Rightarrow> bool" where
  "ssi_bloom_may_contain ws hash = list_all (test_at ws) (get_bit_indices hash)"

definition ssi_bloom_clear :: "ssi_bloom \<Rightarrow> ssi_bloom" where
  "ssi_bloom_clear ws = map (\<lambda>_. 0) ws"

definition ssi_bloom_ok :: "ssi_bloom \<Rightarrow> bool" where
  "ssi_bloom_ok ws \<longleftrightarrow> length ws = 128"

lemma length_fold_set_at [simp]: "length (fold set_at ps ws) = length ws"
  by (induction ps arbitrary: ws) simp_all

lemma test_fold_set_at:
  fixes ws :: "'a::len word list"
  assumes "list_all (\<lambda>p. p < length ws * LENGTH('a)) ps"
  shows "test_at (fold set_at ps ws) q \<longleftrightarrow> q \<in> set ps \<or> test_at ws q"
  using assms by (induction ps arbitrary: ws) (auto simp: test_set_at)

lemma bit_indices_bound:
  "ssi_bloom_ok ws \<Longrightarrow> list_all (\<lambda>p. p < length ws * LENGTH(64)) (get_bit_indices hash)"
  by (simp add: ssi_bloom_ok_def get_bit_indices_def BLOOM_SIZE_BITS_def Let_def)

interpretation ssi_filter: membership_filter ssi_bloom_insert ssi_bloom_may_contain ssi_bloom_ok
proof (standard, goal_cases)
  case (1 f k) then show ?case by (simp add: ssi_bloom_ok_def ssi_bloom_insert_def)
next
  case (2 f k) then show ?case
    using bit_indices_bound [OF 2, of k]
    by (simp add: ssi_bloom_may_contain_def ssi_bloom_insert_def list_all_iff test_fold_set_at)
next
  case (3 f k k') then show ?case
    using bit_indices_bound [OF 3(1), of k']
    by (auto simp: ssi_bloom_may_contain_def ssi_bloom_insert_def list_all_iff test_fold_set_at)
qed

lemma ssi_bloom_ok_new [simp]: "ssi_bloom_ok ssi_bloom_new"
  by (simp add: ssi_bloom_ok_def ssi_bloom_new_def BLOOM_SIZE_BITS_def)

section \<open>Property\<close>

text \<open>
  C31: no false negatives. A filter sized for any number of keys, bits per key and hashes,
  into which a list of keys was inserted, answers \<open>true\<close> for each of them; the fixed filter
  of the SSI manager does the same for key hashes. Neither panics.
\<close>

theorem no_false_negatives:
  assumes "key \<in> set keys" "hash \<in> set hashes"
  shows "(\<exists>f. bloom_insert_all keys (bloom_new n bits_per_key num) = Ok f \<and>
              bloom_may_contain f key = Ok True) \<and>
         ssi_bloom_may_contain (fold ssi_bloom_insert hashes ssi_bloom_new) hash"
  using sst_filter.no_false_negative [OF bloom_ok_new assms(1)]
    ssi_filter.no_false_negative [OF ssi_bloom_ok_new assms(2)]
  by (simp add: bloom_insert_all_fold)

lemma no_false_negatives_witness:
  "(\<exists>f. bloom_insert_all [[1], [2, 3]] (bloom_new 2 10 7) = Ok f \<and>
        bloom_may_contain f [2, 3] = Ok True) \<and>
   ssi_bloom_may_contain (fold ssi_bloom_insert [5, 7] ssi_bloom_new) 7"
  by (rule no_false_negatives) simp_all

end
