(* ===== verification/Simd_Key.thy ===== *)
theory Simd_Key
  imports Common_Error
begin

text \<open>
  \<open>crabstash-common\<close>: the vectorised byte comparisons of \<open>simd.rs\<close> and the versioned key
  of \<open>key.rs\<close>. The 16-lane comparison of the crate \<open>wide\<close> (\<open>u8x16::simd_eq\<close> followed by
  \<open>to_bitmask\<close>) is a parameter \<open>eq_mask\<close>; what the code relies on is \<open>lanes_ok\<close>.
\<close>

section \<open>Vectorised comparison\<close>

definition CHUNK_SIZE :: nat where
  "CHUNK_SIZE = 16"

definition ALL_EQUAL_MASK :: u32 where
  "ALL_EQUAL_MASK = 0xFFFF"

type_synonym lane_mask = "bytes \<Rightarrow> bytes \<Rightarrow> u32"

text \<open>Documented behaviour of the lane comparison: bit \<open>i\<close> of the mask says whether lane \<open>i\<close> agrees.\<close>

definition lanes_ok :: "lane_mask \<Rightarrow> bool" where
  "lanes_ok eq_mask \<longleftrightarrow>
     (\<forall>a b. length a = CHUNK_SIZE \<longrightarrow> length b = CHUNK_SIZE \<longrightarrow>
        (\<forall>i. bit (eq_mask a b) i \<longleftrightarrow> i < CHUNK_SIZE \<and> a ! i = b ! i))"

definition load_chunk :: "bytes \<Rightarrow> bytes" where
  "load_chunk bs = take CHUNK_SIZE bs"

definition trailing_zeros :: "u32 \<Rightarrow> nat" where
  "trailing_zeros w = length (takeWhile (\<lambda>i. \<not> bit w i) [0..<32])"

text \<open>
  The chunk loop ends with a decision (\<open>Inl\<close>) at the first differing lane, or with the
  offset where the scalar tail starts (\<open>Inr\<close>).
\<close>

function compare_chunks ::
  "lane_mask \<Rightarrow> bytes \<Rightarrow> bytes \<Rightarrow> nat \<Rightarrow> nat \<Rightarrow> (error, ordering + nat) result" where
  "compare_chunks eq_mask a b min_len offset =
     (if offset + CHUNK_SIZE \<le> min_len then
        let chunk_a = load_chunk (drop offset a);
            chunk_b = load_chunk (drop offset b);
            bitmask = eq_mask chunk_a chunk_b
        in if bitmask \<noteq> ALL_EQUAL_MASK then
             let idx = offset + trailing_zeros (NOT bitmask) in
             bind_result (slice_index a idx) (\<lambda>x.
             bind_result (slice_index b idx) (\<lambda>y. Ok (Inl (cmp x y))))
           else compare_chunks eq_mask a b min_len (offset + CHUNK_SIZE)
      else Ok (Inr offset))"
  by pat_completeness auto
termination
  by (relation "measure (\<lambda>(_, _, _, min_len, offset). Suc min_len - offset)")
     (auto simp: CHUNK_SIZE_def)

declare compare_chunks.simps [simp del]

function compare_tail :: "bytes \<Rightarrow> bytes \<Rightarrow> nat \<Rightarrow> nat \<Rightarrow> ordering" where
  "compare_tail a b min_len i =
     (if i < min_len then
        (case cmp (a ! i) (b ! i) of
           Equal \<Rightarrow> compare_tail a b min_len (Suc i)
         | ord \<Rightarrow> ord)
      else cmp (length a) (length b))"
  by pat_completeness auto
termination
  by (relation "measure (\<lambda>(_, _, min_len, i). min_len - i)") auto

declare compare_tail.simps [simp del]

definition compare_bytes :: "lane_mask \<Rightarrow> bytes \<Rightarrow> bytes \<Rightarrow> (error, ordering) result" where
  "compare_bytes eq_mask a b =
     (let min_len = min (length a) (length b) in
      bind_result (compare_chunks eq_mask a b min_len 0) (\<lambda>r.
        case r of
          Inl ord \<Rightarrow> Ok ord
        | Inr offset \<Rightarrow> Ok (compare_tail a b min_len offset)))"

text \<open>\<open>bytes_equal\<close>: its chunk loop answers \<open>None\<close> on a difference, else the tail's offset.\<close>

function equal_chunks :: "lane_mask \<Rightarrow> bytes \<Rightarrow> bytes \<Rightarrow> nat \<Rightarrow> nat option" where
  "equal_chunks eq_mask a b offset =
     (if offset + CHUNK_SIZE \<le> length a then
        (if eq_mask (load_chunk (drop offset a)) (load_chunk (drop offset b)) \<noteq> ALL_EQUAL_MASK
         then None
         else equal_chunks eq_mask a b (offset + CHUNK_SIZE))
      else Some offset)"
  by pat_completeness auto
termination
  by (relation "measure (\<lambda>(_, a, _, offset). Suc (length a) - offset)")
     (auto simp: CHUNK_SIZE_def)

declare equal_chunks.simps [simp del]

definition bytes_equal :: "lane_mask \<Rightarrow> bytes \<Rightarrow> bytes \<Rightarrow> bool" where
  "bytes_equal eq_mask a b =
     (if length a \<noteq> length b then False
      else case equal_chunks eq_mask a b 0 of
             None \<Rightarrow> False
           | Some offset \<Rightarrow> drop offset a = drop offset b)"

section \<open>What a chunk comparison says\<close>

lemma all_equal_mask_iff:
  assumes "lanes_ok eq_mask" "length a = 16" "length b = 16"
  shows "eq_mask a b = ALL_EQUAL_MASK \<longleftrightarrow> a = b"
proof -
  have bits: "bit (eq_mask a b) i \<longleftrightarrow> i < 16 \<and> a ! i = b ! i" for i
    using assms by (simp add: lanes_ok_def CHUNK_SIZE_def)
  have ones: "bit (0xFFFF :: u32) i \<longleftrightarrow> i < 16" for i
    using bit_mask_iff [of 16 i, where 'a = u32] by (auto simp: mask_eq_exp_minus_1)
  show ?thesis
  proof
    assume "eq_mask a b = ALL_EQUAL_MASK"
    then have "i < 16 \<Longrightarrow> a ! i = b ! i" for i
      using bits ones unfolding ALL_EQUAL_MASK_def by metis
    then show "a = b"
      using assms(2,3) by (simp add: list_eq_iff_nth_eq)
  next
    assume "a = b"
    then have "bit (eq_mask a b) n = bit ALL_EQUAL_MASK n" for n
      unfolding ALL_EQUAL_MASK_def ones bits by simp
    then show "eq_mask a b = ALL_EQUAL_MASK"
      by (intro bit_word_eqI) simp
  qed
qed

lemma takeWhile_upt_least:
  assumes "n < m" "\<not> P n" "\<And>i. i < n \<Longrightarrow> P i"
  shows "length (takeWhile P [0..<m]) = n"
proof -
  have "[0..<m] = [0..<n] @ n # [Suc n..<m]"
    using assms(1) by (metis upt_conv_Cons upt_add_eq_append le_add_diff_inverse less_imp_le_nat zero_le)
  moreover have "takeWhile P ([0..<n] @ n # [Suc n..<m]) = [0..<n]"
    using assms(2,3) by (subst takeWhile_append2) auto
  ultimately show ?thesis by simp
qed

lemma first_difference:
  assumes "lanes_ok eq_mask" "length a = 16" "length b = 16" "a \<noteq> b"
  defines "d \<equiv> trailing_zeros (NOT (eq_mask a b))"
  shows "d < 16" "a ! d \<noteq> b ! d" "take d a = take d b"
proof -
  have bits: "bit (eq_mask a b) i \<longleftrightarrow> i < 16 \<and> a ! i = b ! i" for i
    using assms by (simp add: lanes_ok_def CHUNK_SIZE_def)
  obtain i0 where "i0 < 16" "a ! i0 \<noteq> b ! i0"
    using assms by (auto simp: list_eq_iff_nth_eq)
  then obtain n where n: "n < 16" "a ! n \<noteq> b ! n" "\<And>i. i < n \<Longrightarrow> a ! i = b ! i"
    using exists_least_iff [of "\<lambda>i. a ! i \<noteq> b ! i"] by (metis order.strict_trans not_less_iff_gr_or_eq)
  have "d = n"
    unfolding d_def trailing_zeros_def
    by (rule takeWhile_upt_least) (use n bits in \<open>auto simp: bit_not_iff\<close>)
  with n assms(2,3) show "d < 16" "a ! d \<noteq> b ! d" "take d a = take d b"
    by (auto simp: nth_take_lemma)
qed

section \<open>The loops compute the lexicographic comparison\<close>

lemma chunk_take:
  assumes "take n a = take n b" "n + CHUNK_SIZE \<le> min (length a) (length b)"
    "load_chunk (drop n a) = load_chunk (drop n b)"
  shows "take (n + CHUNK_SIZE) a = take (n + CHUNK_SIZE) b"
  using assms by (simp add: take_add load_chunk_def)

lemma length_load_chunk:
  "n + CHUNK_SIZE \<le> length a \<Longrightarrow> length (load_chunk (drop n a)) = 16"
  by (simp add: load_chunk_def CHUNK_SIZE_def)

lemma compare_chunks_correct:
  assumes "lanes_ok eq_mask" "min_len = min (length a) (length b)"
    "take offset a = take offset b" "offset \<le> min_len"
  shows "\<exists>r. compare_chunks eq_mask a b min_len offset = Ok r \<and>
           (case r of
              Inl ord \<Rightarrow> ord = cmp a b
            | Inr k \<Rightarrow> take k a = take k b \<and> k \<le> min_len)"
  using assms
proof (induction eq_mask a b min_len offset rule: compare_chunks.induct)
  case (1 eq_mask a b min_len offset)
  let ?a = "load_chunk (drop offset a)" and ?b = "load_chunk (drop offset b)"
  show ?case
  proof (cases "offset + CHUNK_SIZE \<le> min_len")
    case False
    then show ?thesis using "1.prems" by (subst compare_chunks.simps) auto
  next
    case True
    then have len: "length ?a = 16" "length ?b = 16"
      using "1.prems" by (simp_all add: length_load_chunk)
    show ?thesis
    proof (cases "?a = ?b")
      case eq: True
      then have "eq_mask ?a ?b = ALL_EQUAL_MASK"
        using all_equal_mask_iff "1.prems"(1) len by blast
      moreover have "take (offset + CHUNK_SIZE) a = take (offset + CHUNK_SIZE) b"
        using chunk_take "1.prems" True eq by blast
      ultimately show ?thesis
        using "1.IH" "1.prems" True by (subst compare_chunks.simps) simp
    next
      case False
      let ?d = "trailing_zeros (NOT (eq_mask ?a ?b))"
      note d = first_difference [OF "1.prems"(1) len False]
      have ne: "eq_mask ?a ?b \<noteq> ALL_EQUAL_MASK"
        using all_equal_mask_iff "1.prems"(1) len False by blast
      have bound: "offset + ?d < length a" "offset + ?d < length b"
        using d(1) True "1.prems"(2) by (auto simp: CHUNK_SIZE_def)
      have at: "?a ! ?d = a ! (offset + ?d)" "?b ! ?d = b ! (offset + ?d)"
        using d(1) bound by (simp_all add: load_chunk_def CHUNK_SIZE_def)
      have "take (offset + ?d) a = take (offset + ?d) b"
        using d(1,3) "1.prems"(3) by (simp add: take_add load_chunk_def CHUNK_SIZE_def min_def)
      then have "cmp a b = cmp (a ! (offset + ?d)) (b ! (offset + ?d))"
        using bound d(2) at by (intro list_less_at_diff) auto
      then show ?thesis
        using True ne bound by (subst compare_chunks.simps) (simp add: Let_def)
    qed
  qed
qed

lemma compare_tail_correct:
  assumes "min_len = min (length a) (length b)" "take i a = take i b" "i \<le> min_len"
  shows "compare_tail a b min_len i = cmp a b"
  using assms
proof (induction a b min_len i rule: compare_tail.induct)
  case (1 a b min_len i)
  show ?case
  proof (cases "i < min_len")
    case False
    with "1.prems"(3) have "i = min_len" by linarith
    with "1.prems" have "cmp a b = cmp (length a) (length b)"
      using list_cmp_prefix by blast
    with False show ?thesis
      by (subst compare_tail.simps) simp
  next
    case True
    then have i: "i < length a" "i < length b" using "1.prems" by auto
    show ?thesis
    proof (cases "a ! i = b ! i")
      case eq: True
      then have "take (Suc i) a = take (Suc i) b"
        using "1.prems" i by (simp add: take_Suc_conv_app_nth)
      with "1.IH" "1.prems" True eq show ?thesis
        by (subst compare_tail.simps) simp
    next
      case False
      then have "cmp a b = cmp (a ! i) (b ! i)"
        using list_less_at_diff "1.prems" i by blast
      with True False show ?thesis
        by (subst compare_tail.simps) (auto simp: cmp_def split: ordering.split)
    qed
  qed
qed

lemma compare_bytes_lexicographic:
  assumes "lanes_ok eq_mask"
  shows "compare_bytes eq_mask a b = Ok (cmp a b)"
proof -
  let ?n = "min (length a) (length b)"
  obtain r where r: "compare_chunks eq_mask a b ?n 0 = Ok r"
    and post: "case r of Inl ord \<Rightarrow> ord = cmp a b | Inr k \<Rightarrow> take k a = take k b \<and> k \<le> ?n"
    using compare_chunks_correct [OF assms, of ?n a b 0] by auto
  from post have "(case r of Inl ord \<Rightarrow> ord | Inr k \<Rightarrow> compare_tail a b ?n k) = cmp a b"
    by (cases r) (auto simp: compare_tail_correct)
  with r show ?thesis
    by (auto simp: compare_bytes_def split: sum.splits)
qed

lemma equal_chunks_correct:
  assumes "lanes_ok eq_mask" "length a = length b" "take offset a = take offset b"
    "offset \<le> length a"
  shows "(case equal_chunks eq_mask a b offset of
            None \<Rightarrow> a \<noteq> b
          | Some k \<Rightarrow> take k a = take k b)"
  using assms
proof (induction eq_mask a b offset rule: equal_chunks.induct)
  case (1 eq_mask a b offset)
  let ?a = "load_chunk (drop offset a)" and ?b = "load_chunk (drop offset b)"
  show ?case
  proof (cases "offset + CHUNK_SIZE \<le> length a")
    case False
    then show ?thesis using "1.prems" by (subst equal_chunks.simps) simp
  next
    case True
    then have iff: "eq_mask ?a ?b = ALL_EQUAL_MASK \<longleftrightarrow> ?a = ?b"
      using all_equal_mask_iff "1.prems"(1,2) by (simp add: length_load_chunk)
    show ?thesis
    proof (cases "?a = ?b")
      case eq: True
      then have "take (offset + CHUNK_SIZE) a = take (offset + CHUNK_SIZE) b"
        using chunk_take [OF "1.prems"(3)] "1.prems"(2) True by simp
      then have "case equal_chunks eq_mask a b (offset + CHUNK_SIZE) of
            None \<Rightarrow> a \<noteq> b | Some k \<Rightarrow> take k a = take k b"
        using "1.IH" "1.prems"(1,2) True eq iff by blast
      moreover have "equal_chunks eq_mask a b offset = equal_chunks eq_mask a b (offset + CHUNK_SIZE)"
        using True eq iff by (subst equal_chunks.simps) simp
      ultimately show ?thesis by simp
    next
      case False
      then have "equal_chunks eq_mask a b offset = None"
        using True iff by (subst equal_chunks.simps) simp
      with False show ?thesis by auto
    qed
  qed
qed

lemma bytes_equal_iff:
  assumes "lanes_ok eq_mask"
  shows "bytes_equal eq_mask a b \<longleftrightarrow> a = b"
proof (cases "length a = length b")
  case True
  show ?thesis
  proof (cases "equal_chunks eq_mask a b 0")
    case None
    with equal_chunks_correct [OF assms True, of 0] True show ?thesis
      by (simp add: bytes_equal_def)
  next
    case (Some k)
    with equal_chunks_correct [OF assms True, of 0] have "take k a = take k b" by simp
    then have "drop k a = drop k b \<longleftrightarrow> a = b"
      by (metis append_take_drop_id)
    with Some True show ?thesis
      by (simp add: bytes_equal_def)
  qed
qed (auto simp: bytes_equal_def)

text \<open>A lane comparison that satisfies \<open>lanes_ok\<close>, for concrete evaluation.\<close>

definition portable_mask :: lane_mask where
  "portable_mask a b =
     foldr (\<lambda>i m. if a ! i = b ! i then set_bit i m else m) [0..<CHUNK_SIZE] 0"

lemma bit_foldr_set_bit:
  "bit (foldr (\<lambda>i m. if P i then set_bit i m else m) is (0 :: u32)) n \<longleftrightarrow>
     n < 32 \<and> n \<in> set is \<and> P n"
  by (induction "is") (auto simp: bit_set_bit_iff)

lemma lanes_ok_portable_mask: "lanes_ok portable_mask"
  by (auto simp: lanes_ok_def portable_mask_def bit_foldr_set_bit CHUNK_SIZE_def)

section \<open>Versioned keys\<close>

datatype key = Key (key_data: bytes) (key_timestamp: ts)

definition key_cmp :: "lane_mask \<Rightarrow> key \<Rightarrow> key \<Rightarrow> (error, ordering) result" where
  "key_cmp eq_mask self other =
     bind_result (compare_bytes eq_mask (key_data self) (key_data other)) (\<lambda>ord.
       case ord of
         Equal \<Rightarrow> Ok (cmp (key_timestamp other) (key_timestamp self))
       | ord \<Rightarrow> Ok ord)"

text \<open>
  The order \<open>Ord for Key\<close> induces: by data, and for equal data the newest timestamp first.
  The rest of the development compares keys with it; \<open>key_cmp_linorder\<close> says that the code
  computes it.
\<close>

instantiation key :: linorder
begin

definition less_eq_key :: "key \<Rightarrow> key \<Rightarrow> bool" where
  "less_eq_key a b \<longleftrightarrow>
     key_data a < key_data b \<or> key_data a = key_data b \<and> key_timestamp b \<le> key_timestamp a"

definition less_key :: "key \<Rightarrow> key \<Rightarrow> bool" where
  "less_key a b \<longleftrightarrow>
     key_data a < key_data b \<or> key_data a = key_data b \<and> key_timestamp b < key_timestamp a"

instance
  by standard (auto simp: less_eq_key_def less_key_def key.expand)

end

lemma key_le_iff [model_simps]:
  "Key d t \<le> Key d' t' \<longleftrightarrow> d < d' \<or> d = d' \<and> t' \<le> t"
  by (simp add: less_eq_key_def)

lemma key_less_iff [model_simps]:
  "Key d t < Key d' t' \<longleftrightarrow> d < d' \<or> d = d' \<and> t' < t"
  by (simp add: less_key_def)

lemma key_le_data: "(a :: key) \<le> b \<Longrightarrow> key_data a \<le> key_data b"
  by (auto simp: less_eq_key_def)

lemma key_cmp_linorder:
  assumes "lanes_ok eq_mask"
  shows "key_cmp eq_mask a b = Ok (cmp a b)"
  by (cases a; cases b)
     (auto simp: key_cmp_def compare_bytes_lexicographic [OF assms] cmp_def key_less_iff
           split: ordering.split)

section \<open>Properties\<close>

text \<open>
  C32: the 16-lane comparisons compute what the scalar ones do. Whatever the two slices,
  \<open>compare_bytes\<close> returns their lexicographic order without leaving the slices, and
  \<open>bytes_equal\<close> decides equality.
\<close>

theorem vectorised_comparison_exact:
  assumes "lanes_ok eq_mask"
  shows "compare_bytes eq_mask a b = Ok (cmp a b) \<and> (bytes_equal eq_mask a b \<longleftrightarrow> a = b)"
  using assms by (simp add: compare_bytes_lexicographic bytes_equal_iff)

lemma vectorised_comparison_exact_witness:
  "compare_bytes portable_mask (replicate 17 7 @ [1]) (replicate 17 7 @ [2]) = Ok Less \<and>
   \<not> bytes_equal portable_mask (replicate 20 7) (replicate 19 7 @ [8])"
  using vectorised_comparison_exact [OF lanes_ok_portable_mask,
      of "replicate 17 7 @ [1]" "replicate 17 7 @ [2]"]
    vectorised_comparison_exact [OF lanes_ok_portable_mask,
      of "replicate 20 7" "replicate 19 7 @ [8]"]
  by (simp add: cmp_def eval_nat_numeral)

text \<open>
  \<open>Ord for Key\<close> orders by user key, and within one user key from the newest version to
  the oldest; it is the linear order \<open><\<close> the rest of the development sorts with.
\<close>

theorem key_order_newest_first:
  assumes "lanes_ok eq_mask"
  shows "key_cmp eq_mask (Key d t) (Key d' t') = Ok (if d = d' then cmp t' t else cmp d d') \<and>
    key_cmp eq_mask (Key d t) (Key d' t') = Ok (cmp (Key d t) (Key d' t'))"
  using key_cmp_linorder [OF assms, of "Key d t" "Key d' t'"]
  by (auto simp: cmp_def key_less_iff)

lemma key_order_newest_first_witness:
  "key_cmp portable_mask (Key [7] 9) (Key [7] 5) = Ok Less \<and>
   key_cmp portable_mask (Key [8] 9) (Key [7] 5) = Ok Greater"
  using key_order_newest_first [OF lanes_ok_portable_mask, of "[7]" 9 "[7]" 5]
    key_order_newest_first [OF lanes_ok_portable_mask, of "[8]" 9 "[7]" 5]
  by (simp add: cmp_def)

end
