(* ===== verification/Sstable.thy ===== *)
theory Sstable
  imports Bloom Simd_Key
begin

text \<open>
  \<open>crabstash-storage/src/sstable.rs\<close> and \<open>cache.rs\<close>: the builder of sorted tables, their
  file format (blocks, metadata, footer), the table with its block cache, point lookups and
  the table iterator. CRC-32, the LZ4 block functions and the sizing of the Bloom filter are
  parameters. \<open>compare_bytes\<close> and \<open>bytes_equal\<close> are written \<open>cmp\<close> and \<open>=\<close>, which
  \<open>Simd_Key.vectorised_comparison_exact\<close> shows them to compute.
\<close>

section \<open>Parameters\<close>

text \<open>
  \<open>crc32fast::hash\<close>, \<open>lz4_flex::compress\<close> and \<open>lz4_flex::decompress_into\<close>; the last one
  gets the compressed bytes and the output buffer, and answers an error message or the
  buffer it leaves.
\<close>

record block_env =
  env_crc :: "bytes \<Rightarrow> u32"
  env_compress :: "bytes \<Rightarrow> bytes"
  env_decompress_into :: "bytes \<Rightarrow> bytes \<Rightarrow> string + bytes"

text \<open>Documented: the round trip, and the bound \<open>get_maximum_output_size\<close> on the output.\<close>

definition lz4_block_ok :: "block_env \<Rightarrow> bool" where
  "lz4_block_ok env \<longleftrightarrow>
     (\<forall>x. env_decompress_into env (env_compress env x) (replicate (length x) 0) = Inr x) \<and>
     (\<forall>x. length (env_compress env x) \<le> 20 + length x * 110 div 100)"

section \<open>Data\<close>

definition SSTABLE_MAGIC :: u32 where
  "SSTABLE_MAGIC = 0x53535442"

definition BLOCK_SIZE :: nat where
  "BLOCK_SIZE = 4096"

datatype compression_type = Uncompressed | Lz4

fun compression_to_u8 :: "compression_type \<Rightarrow> byte" where
  "compression_to_u8 Uncompressed = 0"
| "compression_to_u8 Lz4 = 1"

definition compression_from_u8 :: "byte \<Rightarrow> compression_type" where
  "compression_from_u8 v = (if v = 1 then Lz4 else Uncompressed)"

record block_meta =
  bm_offset :: u64
  bm_length :: u32
  bm_uncompressed_length :: u32
  bm_first_key :: bytes
  bm_last_key :: bytes

record sstable =
  sst_file :: bytes
  sst_block_metas :: "block_meta list"
  sst_bloom :: bloom
  sst_compression :: compression_type
  sst_has_cache :: bool
  sst_id :: u64
  sst_min_key :: bytes
  sst_max_key :: bytes

section \<open>The block cache\<close>

text \<open>
  The contents of the cache. An entry may disappear at any time (eviction); what is proved
  below holds for every cache whose entries are blocks of their tables.
\<close>

type_synonym block_cache = "(u64 \<times> nat, bytes) hmap"

definition cache_get :: "block_cache \<Rightarrow> u64 \<times> nat \<Rightarrow> bytes option" where
  "cache_get cache k = hm_get cache k"

definition cache_insert :: "u64 \<times> nat \<Rightarrow> bytes \<Rightarrow> block_cache \<Rightarrow> block_cache" where
  "cache_insert k block cache = hm_insert k block cache"

definition cache_invalidate_sst :: "u64 \<Rightarrow> block_cache \<Rightarrow> block_cache" where
  "cache_invalidate_sst sst cache = filter (\<lambda>(k, _). fst k \<noteq> sst) cache"

definition block_weight :: "bytes \<Rightarrow> u32" where
  "block_weight value = (if length value < 2 ^ 32 then of_nat (length value) else - 1)"

definition cache_entry_count :: "block_cache \<Rightarrow> nat" where
  "cache_entry_count cache = length cache"

section \<open>Entries of a block\<close>

type_synonym entry = "bytes \<times> bytes option"

definition TOMBSTONE :: u32 where
  "TOMBSTONE = 0xFFFFFFFF"

definition put_entry :: "entry \<Rightarrow> bytes" where
  "put_entry e =
     put_u32_le (len_u32 (fst e)) @ fst e @
     (case snd e of
        Some v \<Rightarrow> put_u32_le (len_u32 v) @ v
      | None \<Rightarrow> put_u32_le TOMBSTONE)"

definition get_entry :: "bytes \<Rightarrow> (error, entry \<times> bytes) result" where
  "get_entry buf =
     bind_result (get_u32_le buf) (\<lambda>(key_len, b1).
     bind_result (get_slice (unat key_len) b1) (\<lambda>(key, b2).
     bind_result (get_u32_le b2) (\<lambda>(value_len, b3).
       if value_len = TOMBSTONE then Ok ((key, None), b3)
       else bind_result (get_slice (unat value_len) b3) (\<lambda>(v, b4). Ok ((key, Some v), b4)))))"

lemma get_u32_le_shorter: "get_u32_le bs = Ok (w, rest) \<Longrightarrow> length rest < length bs"
  by (induction bs rule: get_u32_le.induct) auto

lemma get_slice_shorter: "get_slice n bs = Ok (s, rest) \<Longrightarrow> length rest \<le> length bs"
  by (auto simp: get_slice_def split: if_splits)

lemma get_entry_shorter: "get_entry buf = Ok (e, rest) \<Longrightarrow> length rest < length buf"
  by (auto simp: get_entry_def split: if_splits
      dest!: get_u32_le_shorter get_slice_shorter)

section \<open>Point lookups\<close>

function search_block :: "bytes \<Rightarrow> bytes \<Rightarrow> (error, bytes option) result" where
  "search_block buf search_key =
     (if buf = [] then Ok None
      else case get_entry buf of
        Ok ((key, value), rest) \<Rightarrow>
          if key = search_key then Ok value else search_block rest search_key
      | Err e \<Rightarrow> Err e
      | Panic \<Rightarrow> Panic)"
  by pat_completeness auto
termination
  by (relation "measure (\<lambda>(buf, _). length buf)") (auto dest: get_entry_shorter)

declare search_block.simps [simp del]

definition find_block :: "sstable \<Rightarrow> bytes \<Rightarrow> nat" where
  "find_block t key =
     (case binary_search_by (\<lambda>i. cmp (bm_first_key (sst_block_metas t ! i)) key)
             (length (sst_block_metas t)) of
        Inr i \<Rightarrow> i
      | Inl i \<Rightarrow> i - 1)"

definition decompress_block :: "block_env \<Rightarrow> sstable \<Rightarrow> bytes \<Rightarrow> nat \<Rightarrow> (error, bytes) result" where
  "decompress_block env t data uncompressed_len =
     (case sst_compression t of
        Uncompressed \<Rightarrow> Ok data
      | Lz4 \<Rightarrow>
          (case env_decompress_into env data (replicate uncompressed_len 0) of
             Inr output \<Rightarrow> Ok output
           | Inl e \<Rightarrow> Err (Corruption (''LZ4 decompression failed: '' @ e))))"

text \<open>\<open>read_exact\<close> of \<open>len\<close> bytes after a seek; an offset that is no file offset is refused.\<close>

definition read_exact_at :: "bytes \<Rightarrow> u64 \<Rightarrow> nat \<Rightarrow> (error, bytes) result" where
  "read_exact_at contents offset len =
     (if unat offset \<ge> 2 ^ 63 then Err (Io OtherIo)
      else if unat offset + len \<le> length contents
      then Ok (take len (drop (unat offset) contents))
      else if len = 0 then Ok []
      else Err (Io UnexpectedEof))"

definition read_block_from_disk :: "block_env \<Rightarrow> sstable \<Rightarrow> nat \<Rightarrow> (error, bytes) result" where
  "read_block_from_disk env t idx =
     bind_result (slice_index (sst_block_metas t) idx) (\<lambda>meta.
     bind_result (read_exact_at (sst_file t) (bm_offset meta) (unat (bm_length meta))) (\<lambda>block.
       if length block < 4 then Panic
       else
         let checksum_start = length block - 4 in
         bind_result (get_u32_le (drop checksum_start block)) (\<lambda>(expected, _).
           if expected \<noteq> env_crc env (take checksum_start block)
           then Err (Corruption ''Block checksum mismatch'')
           else decompress_block env t (take checksum_start block)
                  (unat (bm_uncompressed_length meta)))))"

definition read_block ::
  "block_env \<Rightarrow> sstable \<Rightarrow> nat \<Rightarrow> block_cache \<Rightarrow> (error, bytes) result \<times> block_cache" where
  "read_block env t idx cache =
     (case (if sst_has_cache t then cache_get cache (sst_id t, idx) else None) of
        Some block \<Rightarrow> (Ok block, cache)
      | None \<Rightarrow>
          (case read_block_from_disk env t idx of
             Ok block \<Rightarrow>
               (Ok block, if sst_has_cache t then cache_insert (sst_id t, idx) block cache else cache)
           | r \<Rightarrow> (r, cache)))"

text \<open>
  \<open>read_block_cached\<close>, which the iterators call, opens the file by its path again: what is
  under the table's identifier in \<open>files\<close> is read, if anything is.
\<close>

definition read_block_cached ::
  "block_env \<Rightarrow> (u64, bytes) hmap \<Rightarrow> sstable \<Rightarrow> nat \<Rightarrow> block_cache \<Rightarrow> (error, bytes) result \<times> block_cache" where
  "read_block_cached env files t idx cache =
     (case (if sst_has_cache t then cache_get cache (sst_id t, idx) else None) of
        Some block \<Rightarrow> (Ok block, cache)
      | None \<Rightarrow>
          (case bind_result (slice_index (sst_block_metas t) idx) (\<lambda>_.
                  case hm_get files (sst_id t) of
                    None \<Rightarrow> Err (Io NotFound)
                  | Some contents \<Rightarrow> read_block_from_disk env (t\<lparr>sst_file := contents\<rparr>) idx) of
             Ok block \<Rightarrow>
               (Ok block, if sst_has_cache t then cache_insert (sst_id t, idx) block cache else cache)
           | r \<Rightarrow> (r, cache)))"

text \<open>While the file is the one the table was opened from, both ways of reading agree.\<close>

lemma read_block_cached_unchanged:
  assumes "hm_get files (sst_id t) = Some (sst_file t)"
  shows "read_block_cached env files t idx cache = read_block env t idx cache"
proof -
  have "bind_result (slice_index (sst_block_metas t) idx) (\<lambda>_.
      case hm_get files (sst_id t) of
        None \<Rightarrow> Err (Io NotFound)
      | Some contents \<Rightarrow> read_block_from_disk env (t\<lparr>sst_file := contents\<rparr>) idx) =
    read_block_from_disk env t idx"
    using assms by (cases "idx < length (sst_block_metas t)")
      (simp_all add: slice_index_def read_block_from_disk_def)
  then show ?thesis by (simp only: read_block_cached_def read_block_def)
qed

text \<open>A deleted file is noticed at the first block that is not cached.\<close>

lemma read_block_cached_deleted:
  assumes "hm_get files (sst_id t) = None" "idx < length (sst_block_metas t)"
    "sst_has_cache t \<longrightarrow> cache_get cache (sst_id t, idx) = None"
  shows "read_block_cached env files t idx cache = (Err (Io NotFound), cache)"
  using assms by (simp add: read_block_cached_def slice_index_def)

definition num_blocks :: "sstable \<Rightarrow> nat" where
  "num_blocks t = length (sst_block_metas t)"

definition block_meta_at :: "sstable \<Rightarrow> nat \<Rightarrow> (error, block_meta) result" where
  "block_meta_at t idx = slice_index (sst_block_metas t) idx"

definition sst_get ::
  "block_env \<Rightarrow> sstable \<Rightarrow> bytes \<Rightarrow> block_cache \<Rightarrow> (error, bytes option) result \<times> block_cache" where
  "sst_get env t key cache =
     (case bloom_may_contain (sst_bloom t) key of
        Ok True \<Rightarrow>
          let block_idx = find_block t key in
          if block_idx \<ge> length (sst_block_metas t) then (Ok None, cache)
          else
            let (r, cache') = read_block env t block_idx cache in
            (bind_result r (\<lambda>block. search_block block key), cache')
      | Ok False \<Rightarrow> (Ok None, cache)
      | Err e \<Rightarrow> (Err e, cache)
      | Panic \<Rightarrow> (Panic, cache))"

section \<open>Metadata and opening\<close>

definition put_meta :: "block_meta \<Rightarrow> bytes" where
  "put_meta m =
     put_u64_le (bm_offset m) @ put_u32_le (bm_length m) @ put_u32_le (bm_uncompressed_length m) @
     put_bytes (bm_first_key m) @ put_bytes (bm_last_key m)"

definition get_meta :: "bytes \<Rightarrow> (error, block_meta \<times> bytes) result" where
  "get_meta b0 =
     bind_result (get_u64_le b0) (\<lambda>(offset, b1).
     bind_result (get_u32_le b1) (\<lambda>(len, b2).
     bind_result (get_u32_le b2) (\<lambda>(uncompressed, b3).
     bind_result (get_bytes b3) (\<lambda>(first, b4).
     bind_result (get_bytes b4) (\<lambda>(last, b5).
       Ok (\<lparr>bm_offset = offset, bm_length = len, bm_uncompressed_length = uncompressed,
            bm_first_key = first, bm_last_key = last\<rparr>, b5))))))"

definition decode_metadata ::
  "bytes \<Rightarrow> (error, block_meta list \<times> bloom \<times> compression_type \<times> bytes \<times> bytes) result" where
  "decode_metadata data =
     bind_result (get_u8 data) (\<lambda>(c, b1).
     bind_result (get_u32_le b1) (\<lambda>(num_blocks, b2).
     bind_result (decode_times get_meta (unat num_blocks) b2) (\<lambda>(metas, b3).
     bind_result (get_u32_le b3) (\<lambda>(hashes, b4).
     bind_result (get_bytes b4) (\<lambda>(bloom_bits, _).
       Ok (metas, bloom_from_bytes bloom_bits hashes, compression_from_u8 c,
           (case metas of [] \<Rightarrow> [] | m # _ \<Rightarrow> bm_first_key m),
           (if metas = [] then [] else bm_last_key (last metas))))))))"

text \<open>
  \<open>open\<close>: the magic number in the last four bytes, the metadata's offset in the eight before
  it. A file too short to seek to a footer is an I/O error, an offset behind the footer a
  subtraction below zero.
\<close>

definition open_sst :: "u64 \<Rightarrow> bytes \<Rightarrow> bool \<Rightarrow> (error, sstable) result" where
  "open_sst sst contents has_cache =
     (let n = length contents in
      if n < 4 then Err (Io OtherIo)
      else
        bind_result (get_u32_le (drop (n - 4) contents)) (\<lambda>(magic, _).
        if magic \<noteq> SSTABLE_MAGIC then Err (Corruption ''Invalid SSTable magic'')
        else if n < 12 then Err (Io OtherIo)
        else
          bind_result (get_u64_le (take 8 (drop (n - 12) contents))) (\<lambda>(meta_offset, _).
          if unat meta_offset \<ge> 2 ^ 63 then Err (Io OtherIo)
          else
            let meta_data = drop (unat meta_offset) contents in
            if length meta_data < 12 then Panic
            else
              bind_result (decode_metadata (take (length meta_data - 12) meta_data))
                (\<lambda>(metas, bloom, compression, min_key, max_key).
                Ok \<lparr>sst_file = contents, sst_block_metas = metas, sst_bloom = bloom,
                    sst_compression = compression, sst_has_cache = has_cache, sst_id = sst,
                    sst_min_key = min_key, sst_max_key = max_key\<rparr>))))"

section \<open>The builder\<close>

record sst_builder =
  b_written :: bytes
  b_block_metas :: "block_meta list"
  b_current_block :: bytes
  b_block_first_key :: "bytes option"
  b_block_offset :: u64
  b_bloom :: bloom
  b_compression :: compression_type
  b_num_keys :: nat

text \<open>The bits per key and the number of hashes are what the floating-point formulas give.\<close>

definition builder_new :: "nat \<Rightarrow> compression_type \<Rightarrow> nat \<Rightarrow> u32 \<Rightarrow> sst_builder" where
  "builder_new estimated_keys compression bits_per_key hashes =
     \<lparr>b_written = [], b_block_metas = [], b_current_block = [], b_block_first_key = None,
      b_block_offset = 0, b_bloom = bloom_new (max estimated_keys 1) bits_per_key hashes,
      b_compression = compression, b_num_keys = 0\<rparr>"

definition compress_block :: "block_env \<Rightarrow> compression_type \<Rightarrow> bytes \<Rightarrow> bytes" where
  "compress_block env c data = (case c of Uncompressed \<Rightarrow> data | Lz4 \<Rightarrow> env_compress env data)"

definition flush_block :: "block_env \<Rightarrow> bytes \<Rightarrow> sst_builder \<Rightarrow> (error, sst_builder) result" where
  "flush_block env last_key b =
     (if b_current_block b = [] then Ok b
      else
        let compressed = compress_block env (b_compression b) (b_current_block b);
            output = compressed @ put_u32_le (env_crc env compressed)
        in case b_block_first_key b of
             None \<Rightarrow> Panic
           | Some first_key \<Rightarrow>
               Ok (b\<lparr>b_written := b_written b @ output,
                     b_block_metas := b_block_metas b @
                       [\<lparr>bm_offset = b_block_offset b, bm_length = len_u32 output,
                         bm_uncompressed_length = len_u32 (b_current_block b),
                         bm_first_key = first_key, bm_last_key = last_key\<rparr>],
                     b_block_first_key := None,
                     b_block_offset := b_block_offset b + ucast (len_u32 output),
                     b_current_block := []\<rparr>))"

definition builder_add ::
  "block_env \<Rightarrow> key \<Rightarrow> bytes option \<Rightarrow> sst_builder \<Rightarrow> (error, sst_builder) result" where
  "builder_add env k value b =
     bind_result (bloom_insert (key_data k) (b_bloom b)) (\<lambda>bloom.
       let b1 = b\<lparr>b_bloom := bloom,
                   b_block_first_key :=
                     (case b_block_first_key b of None \<Rightarrow> Some (key_data k) | fk \<Rightarrow> fk),
                   b_current_block := b_current_block b @ put_entry (key_data k, value),
                   b_num_keys := b_num_keys b + 1\<rparr>
       in if length (b_current_block b1) \<ge> BLOCK_SIZE then flush_block env (key_data k) b1
          else Ok b1)"

definition finish :: "block_env \<Rightarrow> sst_builder \<Rightarrow> (error, bytes) result" where
  "finish env b =
     bind_result
       (if b_current_block b \<noteq> [] then
          flush_block env
            (if b_block_metas b = [] then [] else bm_last_key (last (b_block_metas b))) b
        else Ok b) (\<lambda>b1.
       let meta_buf =
             [compression_to_u8 (b_compression b1)] @ put_u32_le (len_u32 (b_block_metas b1)) @
             concat (map put_meta (b_block_metas b1)) @
             put_u32_le (num_hashes (b_bloom b1)) @ put_bytes (bits (b_bloom b1))
       in Ok (b_written b1 @ meta_buf @ put_u64_le (b_block_offset b1) @ put_u32_le SSTABLE_MAGIC))"

fun builder_add_all ::
  "block_env \<Rightarrow> (key \<times> bytes option) list \<Rightarrow> sst_builder \<Rightarrow> (error, sst_builder) result" where
  "builder_add_all env [] b = Ok b"
| "builder_add_all env ((k, v) # es) b = bind_result (builder_add env k v b) (builder_add_all env es)"

section \<open>Encoded blocks\<close>

definition entry_ok :: "entry \<Rightarrow> bool" where
  "entry_ok e \<longleftrightarrow> length (fst e) \<le> 2 ^ 30 \<and> (case snd e of Some v \<Rightarrow> length v \<le> 2 ^ 30 | None \<Rightarrow> True)"

lemma len_not_tombstone: "length v \<le> 2 ^ 30 \<Longrightarrow> len_u32 v \<noteq> TOMBSTONE"
proof
  assume *: "length v \<le> 2 ^ 30" "len_u32 v = TOMBSTONE"
  then have "length v = 2 ^ 32 - 1"
    using unat_len_u32 [of v] by (simp add: TOMBSTONE_def)
  with * show False by simp
qed

interpretation entry_codec: codec put_entry get_entry entry_ok
proof
  fix e rest
  assume "entry_ok e"
  then show "get_entry (put_entry e @ rest) = Ok (e, rest)"
    using len_not_tombstone [of "the (snd e)"]
    by (cases e; cases "snd e")
       (auto simp: get_entry_def put_entry_def entry_ok_def TOMBSTONE_def)
qed

definition enc :: "entry list \<Rightarrow> bytes" where
  "enc es = concat (map put_entry es)"

lemma enc_simps [simp]:
  "enc [] = []" "enc (e # es) = put_entry e @ enc es" "enc (es @ es') = enc es @ enc es'"
  by (simp_all add: enc_def)

lemma put_entry_nonempty [simp]: "put_entry e \<noteq> []"
  by (simp add: put_entry_def put_u32_le_def)

lemma enc_empty [simp]: "enc es = [] \<longleftrightarrow> es = []"
  by (cases es) simp_all

lemma length_put_entry: "entry_ok e \<Longrightarrow> length (put_entry e) \<le> 2 ^ 31 + 8"
  by (auto simp: entry_ok_def put_entry_def split: option.splits)

lemma search_block_enc:
  "list_all entry_ok es \<Longrightarrow>
   search_block (enc es) key = Ok (Option.bind (map_of es key) (\<lambda>v. v))"
proof (induction es)
  case (Cons e es)
  then show ?case
    by (cases e; subst search_block.simps) (auto simp: entry_codec.decode_encode)
qed (simp add: search_block.simps)

definition block_bytes :: "block_env \<Rightarrow> compression_type \<Rightarrow> entry list \<Rightarrow> bytes" where
  "block_bytes env c es =
     (let z = compress_block env c (enc es) in z @ put_u32_le (env_crc env z))"

text \<open>A block small enough for the \<open>u32\<close> lengths of its metadata.\<close>

definition block_fits :: "block_env \<Rightarrow> compression_type \<Rightarrow> entry list \<Rightarrow> bool" where
  "block_fits env c es \<longleftrightarrow> length (block_bytes env c es) < 2 ^ 32 \<and> length (enc es) < 2 ^ 32"

lemma block_fits_bounded:
  assumes "lz4_block_ok env" "length (enc es) < 2 ^ 31 + 5000"
  shows "block_fits env c es"
proof -
  have "length (compress_block env c (enc es)) \<le> 20 + length (enc es) * 110 div 100"
    using assms(1) by (cases c) (auto simp: compress_block_def lz4_block_ok_def)
  then show ?thesis
    using assms(2) by (auto simp: block_fits_def block_bytes_def Let_def)
qed

text \<open>The metadata of consecutive blocks, each given with the last key recorded for it.\<close>

fun metas_of ::
  "block_env \<Rightarrow> compression_type \<Rightarrow> nat \<Rightarrow> (entry list \<times> bytes) list \<Rightarrow> block_meta list" where
  "metas_of env c off [] = []"
| "metas_of env c off ((es, l) # bs) =
     \<lparr>bm_offset = of_nat off, bm_length = len_u32 (block_bytes env c es),
      bm_uncompressed_length = len_u32 (enc es), bm_first_key = fst (hd es), bm_last_key = l\<rparr> #
     metas_of env c (off + length (block_bytes env c es)) bs"

definition file_blocks :: "block_env \<Rightarrow> compression_type \<Rightarrow> (entry list \<times> bytes) list \<Rightarrow> bytes" where
  "file_blocks env c bs = concat (map (\<lambda>b. block_bytes env c (fst b)) bs)"

lemma file_blocks_simps [simp]:
  "file_blocks env c [] = []"
  "file_blocks env c (b # bs) = block_bytes env c (fst b) @ file_blocks env c bs"
  "file_blocks env c (bs @ bs') = file_blocks env c bs @ file_blocks env c bs'"
  by (simp_all add: file_blocks_def)

lemma metas_of_append:
  "metas_of env c off (bs @ bs') =
     metas_of env c off bs @ metas_of env c (off + length (file_blocks env c bs)) bs'"
  by (induction env c off bs rule: metas_of.induct) (simp_all add: ac_simps)

lemma length_metas_of [simp]: "length (metas_of env c off bs) = length bs"
  by (induction env c off bs rule: metas_of.induct) simp_all

lemma metas_of_empty [simp]: "metas_of env c off bs = [] \<longleftrightarrow> bs = []"
  by (metis length_0_conv length_metas_of)

lemma metas_of_nth:
  "i < length bs \<Longrightarrow>
   metas_of env c off bs ! i =
     \<lparr>bm_offset = of_nat (off + length (file_blocks env c (take i bs))),
      bm_length = len_u32 (block_bytes env c (fst (bs ! i))),
      bm_uncompressed_length = len_u32 (enc (fst (bs ! i))),
      bm_first_key = fst (hd (fst (bs ! i))), bm_last_key = snd (bs ! i)\<rparr>"
proof (induction env c off bs arbitrary: i rule: metas_of.induct)
  case (2 env c off es l bs)
  then show ?case by (cases i) (simp_all add: ac_simps)
qed simp

section \<open>What the builder builds\<close>

text \<open>
  The builder after adding \<open>added\<close>: \<open>blocks\<close> are written, \<open>cur\<close> is the block being filled.
\<close>

definition builds ::
  "block_env \<Rightarrow> bloom \<Rightarrow> compression_type \<Rightarrow> entry list \<Rightarrow> (entry list \<times> bytes) list \<Rightarrow> entry list \<Rightarrow>
   sst_builder \<Rightarrow> bool" where
  "builds env f0 c added blocks cur b \<longleftrightarrow>
     concat (map fst blocks) @ cur = added \<and>
     b_written b = file_blocks env c blocks \<and>
     b_block_metas b = metas_of env c 0 blocks \<and>
     b_current_block b = enc cur \<and>
     b_block_first_key b = (if cur = [] then None else Some (fst (hd cur))) \<and>
     b_block_offset b = of_nat (length (file_blocks env c blocks)) \<and>
     b_bloom b = fold bloom_add (map fst added) f0 \<and>
     b_compression b = c \<and>
     list_all (\<lambda>bl. fst bl \<noteq> [] \<and> block_fits env c (fst bl)) blocks \<and>
     list_all (\<lambda>bl. snd bl = fst (last (fst bl))) blocks \<and>
     list_all (\<lambda>bl. length (enc (butlast (fst bl))) < BLOCK_SIZE \<and>
        BLOCK_SIZE \<le> length (enc (fst bl))) blocks \<and>
     length (enc cur) < BLOCK_SIZE"

lemma builds_new:
  "builds env (bloom_new (max n 1) bpk h) c [] [] [] (builder_new n c bpk h)"
  by (simp add: builds_def builder_new_def BLOCK_SIZE_def)

lemma flush_block_builds:
  assumes "builds env f0 c added blocks cur0 b0" "cur \<noteq> []" "block_fits env c cur"
    "b = b0\<lparr>b_bloom := f, b_block_first_key := Some (fst (hd cur)), b_current_block := enc cur,
           b_num_keys := n\<rparr>"
  shows "\<exists>b'. flush_block env l b = Ok b' \<and>
    b_written b' = file_blocks env c (blocks @ [(cur, l)]) \<and>
    b_block_metas b' = metas_of env c 0 (blocks @ [(cur, l)]) \<and>
    b_current_block b' = [] \<and> b_block_first_key b' = None \<and>
    b_block_offset b' = of_nat (length (file_blocks env c (blocks @ [(cur, l)]))) \<and>
    b_bloom b' = f \<and> b_compression b' = c"
proof -
  let ?out = "block_bytes env c cur"
  have "ucast (len_u32 ?out) = (of_nat (length ?out) :: u64)"
    using assms(3) by (simp add: len_u32_def block_fits_def unsigned_of_nat take_bit_nat_eq_self)
  then show ?thesis
    using assms unfolding builds_def
    by (simp add: flush_block_def metas_of_append block_bytes_def Let_def)
qed

lemma builder_add_builds:
  assumes "lz4_block_ok env" "entry_ok (key_data k, v)" "bloom_ok f0"
    "builds env f0 c added blocks cur b"
  shows "\<exists>b' blocks' cur'. builder_add env k v b = Ok b' \<and>
    builds env f0 c (added @ [(key_data k, v)]) blocks' cur' b'"
proof -
  let ?e = "(key_data k, v)"
  let ?cur = "cur @ [?e]"
  let ?f = "bloom_add (key_data k) (b_bloom b)"
  let ?b1 = "b\<lparr>b_bloom := ?f, b_block_first_key := Some (fst (hd ?cur)),
      b_current_block := enc ?cur, b_num_keys := b_num_keys b + 1\<rparr>"
  note B = assms(4) [unfolded builds_def]
  have f: "bloom_insert (key_data k) (b_bloom b) = Ok ?f" "?f = fold bloom_add (map fst (added @ [?e])) f0"
    using B sst_filter.invar_fold [OF assms(3), of "map fst added"]
    by (simp_all add: bloom_insert_ok(1))
  have len: "length (enc ?cur) < 2 ^ 31 + 5000"
    using B length_put_entry [OF assms(2)] by (simp add: BLOCK_SIZE_def)
  have add: "builder_add env k v b =
      (if length (enc ?cur) \<ge> BLOCK_SIZE then flush_block env (key_data k) ?b1 else Ok ?b1)"
    using B f(1) by (cases cur) (simp_all add: builder_add_def Let_def)
  show ?thesis
  proof (cases "length (enc ?cur) \<ge> BLOCK_SIZE")
    case True
    with flush_block_builds [OF assms(4) _ block_fits_bounded [OF assms(1) len] refl, where f = ?f]
    obtain b' where b': "builder_add env k v b = Ok b'"
      "b_written b' = file_blocks env c (blocks @ [(?cur, key_data k)])"
      "b_block_metas b' = metas_of env c 0 (blocks @ [(?cur, key_data k)])"
      "b_current_block b' = []" "b_block_first_key b' = None"
      "b_block_offset b' = of_nat (length (file_blocks env c (blocks @ [(?cur, key_data k)])))"
      "b_bloom b' = ?f" "b_compression b' = c"
      using add by fastforce
    have "builds env f0 c (added @ [?e]) (blocks @ [(?cur, key_data k)]) [] b'"
      unfolding builds_def
      using B b' f(2) block_fits_bounded [OF assms(1) len] True
      by (auto simp: BLOCK_SIZE_def)
    with b'(1) show ?thesis by blast
  next
    case False
    then have "builds env f0 c (added @ [?e]) blocks ?cur ?b1"
      using B f(2) unfolding builds_def by auto
    with add False show ?thesis by auto
  qed
qed

lemma builder_add_all_builds:
  assumes "lz4_block_ok env" "list_all (\<lambda>(k, v). entry_ok (key_data k, v)) es" "bloom_ok f0"
    "builds env f0 c added blocks cur b"
  shows "\<exists>b' blocks' cur'. builder_add_all env es b = Ok b' \<and>
    builds env f0 c (added @ map (\<lambda>(k, v). (key_data k, v)) es) blocks' cur' b'"
  using assms(2,4)
proof (induction es arbitrary: added blocks cur b)
  case (Cons e es)
  obtain k v where e: "e = (k, v)" by (cases e)
  with Cons.prems have "entry_ok (key_data k, v)" by simp
  from builder_add_builds [OF assms(1) this assms(3) Cons.prems(2)]
  obtain b1 blocks1 cur1 where b1: "builder_add env k v b = Ok b1"
    "builds env f0 c (added @ [(key_data k, v)]) blocks1 cur1 b1" by blast
  with Cons.IH [OF _ b1(2)] Cons.prems(1) e show ?case by auto
qed auto

definition meta_bytes :: "compression_type \<Rightarrow> block_meta list \<Rightarrow> bloom \<Rightarrow> bytes" where
  "meta_bytes c metas f =
     compression_to_u8 c # put_u32_le (len_u32 metas) @ concat (map put_meta metas) @
     put_u32_le (num_hashes f) @ put_bytes (bits f)"

definition table_bytes ::
  "block_env \<Rightarrow> compression_type \<Rightarrow> bloom \<Rightarrow> (entry list \<times> bytes) list \<Rightarrow> bytes" where
  "table_bytes env c f blocks =
     file_blocks env c blocks @ meta_bytes c (metas_of env c 0 blocks) f @
     put_u64_le (of_nat (length (file_blocks env c blocks))) @ put_u32_le SSTABLE_MAGIC"

lemma finish_builds:
  assumes "lz4_block_ok env" "builds env f0 c added blocks cur b"
  defines "blocks' \<equiv> (if cur = [] then blocks
      else blocks @ [(cur, if blocks = [] then [] else snd (last blocks))])"
  shows "finish env b = Ok (table_bytes env c (fold bloom_add (map fst added) f0) blocks')"
    "concat (map fst blocks') = added"
    "list_all (\<lambda>bl. fst bl \<noteq> [] \<and> block_fits env c (fst bl)) blocks'"
    "list_all (\<lambda>bl. snd bl = [] \<or> snd bl \<in> fst ` set added) blocks'"
proof -
  note B = assms(2) [unfolded builds_def]
  have fits: "block_fits env c cur"
    using B by (intro block_fits_bounded [OF assms(1)]) (simp add: BLOCK_SIZE_def)
  have last: "blocks \<noteq> [] \<Longrightarrow> bm_last_key (last (b_block_metas b)) = snd (last blocks)"
    using B by (simp add: last_conv_nth metas_of_nth flip: length_greater_0_conv)
  show "finish env b = Ok (table_bytes env c (fold bloom_add (map fst added) f0) blocks')"
  proof (cases "cur = []")
    case True
    with B show ?thesis
      by (simp add: finish_def table_bytes_def meta_bytes_def blocks'_def Let_def)
  next
    case False
    let ?l = "if blocks = [] then [] else snd (last blocks)"
    have "b = b\<lparr>b_bloom := b_bloom b, b_block_first_key := Some (fst (hd cur)),
        b_current_block := enc cur, b_num_keys := b_num_keys b\<rparr>"
      using B False by simp
    from flush_block_builds [OF assms(2) False fits this, of ?l]
    obtain b' where b': "flush_block env ?l b = Ok b'"
      "b_written b' = file_blocks env c blocks'" "b_block_metas b' = metas_of env c 0 blocks'"
      "b_block_offset b' = of_nat (length (file_blocks env c blocks'))"
      "b_bloom b' = fold bloom_add (map fst added) f0" "b_compression b' = c"
      using B False unfolding blocks'_def by auto
    have l: "?l = (if b_block_metas b = [] then [] else bm_last_key (last (b_block_metas b)))"
      using B last by simp
    have "finish env b = (case flush_block env ?l b of Ok b1 \<Rightarrow> Ok (b_written b1 @
             ([compression_to_u8 (b_compression b1)] @ put_u32_le (len_u32 (b_block_metas b1)) @
             concat (map put_meta (b_block_metas b1)) @
             put_u32_le (num_hashes (b_bloom b1)) @ put_bytes (bits (b_bloom b1))) @
             put_u64_le (b_block_offset b1) @ put_u32_le SSTABLE_MAGIC)
         | Err e \<Rightarrow> Err e | Panic \<Rightarrow> Panic)"
      unfolding l finish_def Let_def using B False by (auto split: result.splits)
    then show ?thesis
      using b' by (simp add: table_bytes_def meta_bytes_def)
  qed
  show "concat (map fst blocks') = added" "list_all (\<lambda>bl. fst bl \<noteq> [] \<and> block_fits env c (fst bl)) blocks'"
    using B fits by (auto simp: blocks'_def)
  have "snd bl \<in> fst ` set added" if "bl \<in> set blocks" for bl
  proof -
    have "snd bl = fst (last (fst bl))" "fst bl \<noteq> []" using B that by (auto simp: list_all_iff)
    moreover have "set (fst bl) \<subseteq> set added" using B that by auto
    ultimately show ?thesis using last_in_set by (metis image_eqI subsetD)
  qed
  then show "list_all (\<lambda>bl. snd bl = [] \<or> snd bl \<in> fst ` set added) blocks'"
    by (auto simp: blocks'_def list_all_iff)
qed

section \<open>Opening what was built\<close>

interpretation meta_codec: codec put_meta get_meta
    "\<lambda>m. length (bm_first_key m) < 2 ^ 32 \<and> length (bm_last_key m) < 2 ^ 32"
  by standard (simp add: put_meta_def get_meta_def)

lemma compression_u8 [simp]: "compression_from_u8 (compression_to_u8 c) = c"
  by (cases c) (simp_all add: compression_from_u8_def)

lemma decode_metadata_bytes:
  assumes "length metas < 2 ^ 32" "length (bits f) < 2 ^ 32"
    "list_all (\<lambda>m. length (bm_first_key m) < 2 ^ 32 \<and> length (bm_last_key m) < 2 ^ 32) metas"
  shows "decode_metadata (meta_bytes c metas f) =
    Ok (metas, f, c, (case metas of [] \<Rightarrow> [] | m # _ \<Rightarrow> bm_first_key m),
        (if metas = [] then [] else bm_last_key (last metas)))"
proof -
  have "get_bytes (put_bytes (bits f)) = (Ok (bits f, []) :: (error, _) result)"
    using get_put_bytes [OF assms(2), of "[]"] by simp
  with meta_codec.decode_times_encode [OF assms(3),
      of "put_u32_le (num_hashes f) @ put_bytes (bits f)"] assms(1)
  show ?thesis
    by (simp add: decode_metadata_def meta_bytes_def bloom_from_bytes_def)
qed

text \<open>The table that opening the file gives.\<close>

definition table_of ::
  "block_env \<Rightarrow> compression_type \<Rightarrow> bloom \<Rightarrow> (entry list \<times> bytes) list \<Rightarrow> u64 \<Rightarrow> bool \<Rightarrow> sstable" where
  "table_of env c f blocks sst has_cache =
     \<lparr>sst_file = table_bytes env c f blocks, sst_block_metas = metas_of env c 0 blocks,
      sst_bloom = f, sst_compression = c, sst_has_cache = has_cache, sst_id = sst,
      sst_min_key = (if blocks = [] then [] else fst (hd (fst (hd blocks)))),
      sst_max_key = (if blocks = [] then [] else snd (last blocks))\<rparr>"

lemma table_of_sel [simp]:
  "sst_block_metas (table_of env c f blocks sst hc) = metas_of env c 0 blocks"
  "sst_bloom (table_of env c f blocks sst hc) = f"
  "sst_compression (table_of env c f blocks sst hc) = c"
  "sst_id (table_of env c f blocks sst hc) = sst"
  "sst_has_cache (table_of env c f blocks sst hc) = hc"
  by (simp_all add: table_of_def)

lemma open_table_bytes:
  assumes "length blocks < 2 ^ 32" "length (bits f) < 2 ^ 32"
    "length (file_blocks env c blocks) < 2 ^ 63"
    "list_all (\<lambda>bl. length (fst (hd (fst bl))) < 2 ^ 32 \<and> length (snd bl) < 2 ^ 32) blocks"
  shows "open_sst sst (table_bytes env c f blocks) has_cache = Ok (table_of env c f blocks sst has_cache)"
proof -
  let ?fb = "file_blocks env c blocks"
  let ?off = "of_nat (length ?fb) :: u64"
  define m where "m = meta_bytes c (metas_of env c 0 blocks) f"
  define t where "t = table_bytes env c f blocks"
  have t: "t = (?fb @ m) @ put_u64_le ?off @ put_u32_le SSTABLE_MAGIC"
    by (simp add: table_bytes_def t_def m_def)
  have n: "length t = length ?fb + length m + 12" by (simp add: t)
  have "drop (length t - 4) t = put_u32_le SSTABLE_MAGIC @ []"
    "take 8 (drop (length t - 12) t) = put_u64_le ?off @ []"
    unfolding t by simp_all
  then have footer: "get_u32_le (drop (length t - 4) t) = (Ok (SSTABLE_MAGIC, []) :: (error, _) result)"
    "get_u64_le (take 8 (drop (length t - 12) t)) = (Ok (?off, []) :: (error, _) result)"
    by (simp_all only: get_put_u32_le get_put_u64_le)
  have off: "unat ?off = length ?fb"
    using assms(3) by (simp add: unat_of_nat)
  have meta: "take (length (drop (length ?fb) t) - 12) (drop (length ?fb) t) = m"
    unfolding t by simp
  have "list_all (\<lambda>m. length (bm_first_key m) < 2 ^ 32 \<and> length (bm_last_key m) < 2 ^ 32)
      (metas_of env c 0 blocks)"
    using assms(4) by (auto simp: list_all_length metas_of_nth)
  from decode_metadata_bytes [OF _ assms(2) this, of c, folded m_def] assms(1)
  have dec: "decode_metadata m = Ok (metas_of env c 0 blocks, f, c,
      (case metas_of env c 0 blocks of [] \<Rightarrow> [] | m # _ \<Rightarrow> bm_first_key m),
      (if metas_of env c 0 blocks = [] then [] else bm_last_key (last (metas_of env c 0 blocks))))"
    by simp
  have min: "(case metas_of env c 0 blocks of [] \<Rightarrow> [] | m # _ \<Rightarrow> bm_first_key m) =
      (if blocks = [] then [] else fst (hd (fst (hd blocks))))"
    by (cases blocks) (auto simp: case_prod_beta split: list.split)
  have max: "(if metas_of env c 0 blocks = [] then [] else bm_last_key (last (metas_of env c 0 blocks))) =
      (if blocks = [] then [] else snd (last blocks))"
    by (cases blocks rule: rev_cases) (auto simp: metas_of_append case_prod_beta)
  show ?thesis
    using footer off n dec min max assms(3) meta [unfolded length_drop]
    unfolding open_sst_def Let_def table_of_def t_def [symmetric]
    by (simp split del: if_split)
qed

section \<open>Reading blocks\<close>

lemma file_blocks_split:
  assumes "i < length blocks"
  shows "file_blocks env c blocks =
    file_blocks env c (take i blocks) @ block_bytes env c (fst (blocks ! i)) @
    file_blocks env c (drop (Suc i) blocks)"
  using id_take_nth_drop [OF assms] by (metis file_blocks_simps(2,3))

lemma read_block_table:
  assumes "lz4_block_ok env" "i < length blocks" "block_fits env c (fst (blocks ! i))"
    "length (file_blocks env c blocks) < 2 ^ 63"
  shows "read_block_from_disk env (table_of env c f blocks sst has_cache) i = Ok (enc (fst (blocks ! i)))"
proof -
  let ?es = "fst (blocks ! i)"
  let ?z = "compress_block env c (enc ?es)"
  let ?blk = "block_bytes env c ?es"
  let ?pre = "file_blocks env c (take i blocks)"
  let ?t = "table_of env c f blocks sst has_cache"
  obtain rest where contents: "sst_file ?t = ?pre @ ?blk @ rest"
    using file_blocks_split [OF assms(2)] by (auto simp: table_of_def table_bytes_def)
  have blk: "?blk = ?z @ put_u32_le (env_crc env ?z)"
    by (simp add: block_bytes_def Let_def)
  have "length ?pre < 2 ^ 63"
    using assms(4) file_blocks_split [OF assms(2), of env c] by simp
  then have off: "unat (of_nat (length ?pre) :: u64) = length ?pre" "\<not> 2 ^ 63 \<le> length ?pre"
    by (simp_all add: unat_of_nat)
  have len: "unat (len_u32 ?blk) = length ?blk" "unat (len_u32 (enc ?es)) = length (enc ?es)"
    using assms(3) by (simp_all add: block_fits_def)
  have read: "read_exact_at (sst_file ?t) (of_nat (length ?pre)) (length ?blk) = Ok ?blk"
    using off by (simp add: read_exact_at_def contents)
  have crc: "get_u32_le (put_u32_le (env_crc env ?z)) = (Ok (env_crc env ?z, []) :: (error, _) result)"
    using get_put_u32_le [of _ "[]"] by simp
  have "decompress_block env ?t ?z (length (enc ?es)) = Ok (enc ?es)"
    using assms(1) by (cases c) (simp_all add: decompress_block_def table_of_def compress_block_def lz4_block_ok_def)
  moreover have "slice_index (sst_block_metas ?t) i =
      (Ok (metas_of env c 0 blocks ! i) :: (error, _) result)"
    using assms(2) by (simp add: table_of_def)
  moreover have "length ?blk = length ?z + 4" by (simp add: blk)
  ultimately show ?thesis
    using read crc len
    by (simp add: read_block_from_disk_def metas_of_nth [OF assms(2)] blk Let_def
        del: bind_result_eq_Ok)
qed

definition cache_coherent :: "block_env \<Rightarrow> sstable \<Rightarrow> block_cache \<Rightarrow> bool" where
  "cache_coherent env t cache \<longleftrightarrow>
     (\<forall>i b. cache_get cache (sst_id t, i) = Some b \<longrightarrow> read_block_from_disk env t i = Ok b)"

lemma cache_coherent_empty [simp]: "cache_coherent env t []"
  by (simp add: cache_coherent_def cache_get_def)

lemma cache_coherent_invalidate:
  "cache_coherent env t cache \<Longrightarrow> cache_coherent env t (cache_invalidate_sst s cache)"
proof -
  have "hm_get (filter (\<lambda>(k, _). fst k \<noteq> s) cache) k = (if fst k = s then None else hm_get cache k)" for k
    by (induction cache) auto
  then show "cache_coherent env t cache \<Longrightarrow> cache_coherent env t (cache_invalidate_sst s cache)"
    by (auto simp: cache_coherent_def cache_get_def cache_invalidate_sst_def split: if_splits)
qed

text \<open>Reading through the cache answers what reading the file answers.\<close>

lemma read_block_coherent:
  assumes "cache_coherent env t cache"
  shows "fst (read_block env t i cache) = read_block_from_disk env t i"
    "cache_coherent env t (snd (read_block env t i cache))"
  using assms
  by (auto simp: read_block_def cache_coherent_def cache_get_def cache_insert_def
      split: option.splits result.splits if_splits)

section \<open>Finding the block of a key\<close>

lemma sorted_wrt_concat_nth:
  assumes "sorted_wrt P (concat xss)" "j < k" "k < length xss" "x \<in> set (xss ! j)" "y \<in> set (xss ! k)"
  shows "P x y"
  using assms
proof (induction xss arbitrary: j k)
  case (Cons xs xss)
  then obtain k' where k: "k = Suc k'" by (cases k) auto
  show ?case
  proof (cases j)
    case 0
    with Cons.prems k have "x \<in> set xs" "y \<in> set (concat xss)" by (auto intro: nth_mem)
    with Cons.prems(1) show ?thesis by (auto simp: sorted_wrt_append)
  next
    case (Suc j')
    with Cons k show ?thesis by (auto simp: sorted_wrt_append)
  qed
qed simp

lemma concat_split_nth:
  assumes "i < length xss"
  shows "concat xss = concat (take i xss) @ xss ! i @ concat (drop (Suc i) xss)"
  using arg_cong [OF id_take_nth_drop [OF assms], of concat] by simp

lemma map_of_concat_nth:
  assumes "i < length bs" "\<And>j. j < length bs \<Longrightarrow> j \<noteq> i \<Longrightarrow> key \<notin> fst ` set (bs ! j)"
  shows "map_of (concat bs) key = map_of (bs ! i) key"
proof -
  have "key \<notin> fst ` set b" if b: "b \<in> set (take i bs) \<union> set (drop (Suc i) bs)" for b
  proof -
    have "\<exists>j < length bs. j \<noteq> i \<and> b = bs ! j"
      using b assms(1)
      by (auto simp: in_set_conv_nth)
         (metis less_trans less_irrefl, metis add_Suc_right less_add_Suc1 less_diff_conv add.commute less_irrefl)
    with assms(2) show ?thesis by blast
  qed
  then have "key \<notin> fst ` set (concat (take i bs))" "key \<notin> fst ` set (concat (drop (Suc i) bs))"
    by auto
  then have "map_of (concat (take i bs)) key = None" "map_of (concat (drop (Suc i) bs)) key = None"
    by (simp_all only: map_of_eq_None_iff not_False_eq_True)
  moreover have "concat bs = concat (take i bs) @ bs ! i @ concat (drop (Suc i) bs)"
    by (rule concat_split_nth [OF assms(1)])
  ultimately show ?thesis
    by (simp add: map_add_def split: option.split)
qed

text \<open>The index \<open>find_block\<close> computes from the first keys of the blocks.\<close>

definition block_index :: "(entry list \<times> bytes) list \<Rightarrow> bytes \<Rightarrow> nat" where
  "block_index blocks key =
     (case binary_search_by (\<lambda>i. cmp (fst (hd (fst (blocks ! i)))) key) (length blocks) of
        Inr i \<Rightarrow> i | Inl i \<Rightarrow> i - 1)"

lemma find_block_table: "find_block (table_of env c f blocks sst hc) key = block_index blocks key"
proof -
  let ?f = "\<lambda>i. cmp (bm_first_key (metas_of env c 0 blocks ! i)) key"
  let ?g = "\<lambda>i. cmp (fst (hd (fst (blocks ! i)))) key"
  have "?f i = ?g i" if "i < length blocks" for i
    using that by (simp add: metas_of_nth)
  then have "binary_search_by ?f (length blocks) = binary_search_by ?g (length blocks)"
    by (rule binary_search_by_cong)
  then show ?thesis by (simp add: find_block_def block_index_def table_of_def)
qed

text \<open>Blocks of a table with strictly ascending keys, by their positions.\<close>

lemma blocks_ascending:
  assumes "sorted_wrt (<) (map fst (concat (map fst blocks)))"
    "j < k" "k < length blocks" "x \<in> fst ` set (fst (blocks ! j))" "y \<in> fst ` set (fst (blocks ! k))"
  shows "x < y"
  using sorted_wrt_concat_nth [of "(<)" "map (map fst) (map fst blocks)" j k x y] assms
  by (simp add: map_concat)

lemma block_firsts_partitioned:
  assumes "sorted_wrt (<) (map fst (concat (map fst blocks)))" "list_all (\<lambda>bl. fst bl \<noteq> []) blocks"
  shows "partitioned (\<lambda>i. cmp (fst (hd (fst (blocks ! i)))) key) (length blocks)"
  unfolding partitioned_def
proof (intro allI impI)
  let ?first = "\<lambda>i. fst (hd (fst (blocks ! i)))"
  fix i j
  assume ij: "i < j" "j < length blocks"
  then have "?first i < ?first j"
    using assms(2) by (intro blocks_ascending [OF assms(1) ij]) (simp_all add: list_all_length)
  then show "(cmp (?first i) key = Greater \<longrightarrow> cmp (?first j) key = Greater) \<and>
      (cmp (?first j) key = Less \<longrightarrow> cmp (?first i) key = Less)"
    by (auto intro: less_trans)
qed

text \<open>In a table of strictly ascending keys no other block holds the key.\<close>

lemma block_index_right:
  assumes "sorted_wrt (<) (map fst (concat (map fst blocks)))"
    "list_all (\<lambda>bl. fst bl \<noteq> []) blocks" "blocks \<noteq> []"
  shows "block_index blocks key < length blocks"
    "j < length blocks \<Longrightarrow> j \<noteq> block_index blocks key \<Longrightarrow> key \<notin> fst ` set (fst (blocks ! j))"
proof -
  let ?first = "\<lambda>i. fst (hd (fst (blocks ! i)))"
  let ?f = "\<lambda>i. cmp (?first i) key"
  let ?n = "length blocks"
  have ne: "i < ?n \<Longrightarrow> fst (blocks ! i) \<noteq> []" for i
    using assms(2) by (simp add: list_all_length)
  note across = blocks_ascending [OF assms(1)]
  have first_in: "?first i \<in> fst ` set (fst (blocks ! i))" if "i < ?n" for i
    using ne [OF that] by simp
  have first_le: "?first i \<le> x" if "i < ?n" "x \<in> fst ` set (fst (blocks ! i))" for i x
  proof -
    have "concat (map fst blocks) = concat (take i (map fst blocks)) @
        fst (blocks ! i) @ concat (drop (Suc i) (map fst blocks))"
      using concat_split_nth [of i "map fst blocks"] that(1) by simp
    with assms(1) have "sorted_wrt (<) (map fst (fst (blocks ! i)))"
      by (simp add: sorted_wrt_append)
    with ne [OF that(1)] that(2) show ?thesis
      by (cases "fst (blocks ! i)") auto
  qed
  note part = block_firsts_partitioned [OF assms(1,2), of key]
  have "block_index blocks key < ?n \<and>
    (\<forall>j. j < ?n \<longrightarrow> j \<noteq> block_index blocks key \<longrightarrow> key \<notin> fst ` set (fst (blocks ! j)))"
    using part
  proof (cases rule: binary_search_by_cases)
    case (found i)
    have eq: "?first i = key" using found(3) by simp
    have "key \<notin> fst ` set (fst (blocks ! j))" if "j < ?n" "j \<noteq> i" for j
      using across [of j i key key] across [of i j key key] first_in [OF found(2)] that found(2)
      unfolding eq by (metis less_irrefl linorder_neqE_nat)
    with found(1,2) show ?thesis by (simp add: block_index_def)
  next
    case (missing i)
    have idx: "block_index blocks key = i - 1" using missing(1) by (simp add: block_index_def)
    have "key \<notin> fst ` set (fst (blocks ! j))" if "j < ?n" "j \<noteq> i - 1" for j
    proof (cases "j < i")
      case True
      then have j: "j < i - 1" "i - 1 < i" using that(2) by auto
      have "?first (i - 1) < key" using missing(3) [OF j(2)] by simp
      moreover have "i - 1 < ?n" using j missing(2) by simp
      ultimately show ?thesis
        using across [OF j(1) \<open>i - 1 < ?n\<close> _ first_in] by (metis less_asym)
    next
      case False
      then have "key < ?first j" using missing(4) that(1) by simp
      with first_le [OF that(1)] show ?thesis by (metis leD)
    qed
    moreover have "i - 1 < ?n" using missing(2) assms(3) by (cases i) auto
    ultimately show ?thesis by (simp add: idx)
  qed
  then show "block_index blocks key < ?n"
    "j < ?n \<Longrightarrow> j \<noteq> block_index blocks key \<Longrightarrow> key \<notin> fst ` set (fst (blocks ! j))"
    by blast+
qed

section \<open>Lookups in a built table\<close>

text \<open>The conditions under which the blocks of a file are read back.\<close>

definition blocks_ok :: "block_env \<Rightarrow> compression_type \<Rightarrow> (entry list \<times> bytes) list \<Rightarrow> bool" where
  "blocks_ok env c blocks \<longleftrightarrow>
     lz4_block_ok env \<and> list_all (\<lambda>bl. fst bl \<noteq> [] \<and> block_fits env c (fst bl)) blocks \<and>
     length (file_blocks env c blocks) < 2 ^ 63 \<and> list_all entry_ok (concat (map fst blocks))"

lemma sst_get_block:
  assumes "blocks_ok env c blocks" "bloom_may_contain f key = Ok True"
    "block_index blocks key < length blocks"
    "cache_coherent env (table_of env c f blocks sst hc) cache"
  shows "fst (sst_get env (table_of env c f blocks sst hc) key cache) =
      Ok (Option.bind (map_of (fst (blocks ! block_index blocks key)) key) (\<lambda>v. v))"
    "cache_coherent env (table_of env c f blocks sst hc)
       (snd (sst_get env (table_of env c f blocks sst hc) key cache))"
proof -
  let ?t = "table_of env c f blocks sst hc"
  let ?i = "block_index blocks key"
  have "read_block_from_disk env ?t ?i = Ok (enc (fst (blocks ! ?i)))"
    using assms(1,3) by (intro read_block_table) (auto simp: blocks_ok_def list_all_length)
  then obtain cache' where rb: "read_block env ?t ?i cache = (Ok (enc (fst (blocks ! ?i))), cache')"
    "cache_coherent env ?t cache'"
    using read_block_coherent [OF assms(4), of ?i] by (metis prod.collapse)
  have "list_all entry_ok (fst (blocks ! ?i))"
    using assms(1,3) by (auto simp: blocks_ok_def list_all_iff)
  with rb assms(2,3)
  show "fst (sst_get env ?t key cache) =
      Ok (Option.bind (map_of (fst (blocks ! ?i)) key) (\<lambda>v. v))"
    "cache_coherent env ?t (snd (sst_get env ?t key cache))"
    by (simp_all add: sst_get_def find_block_table search_block_enc)
qed

lemma sst_get_table:
  assumes "blocks_ok env c blocks" "sorted_wrt (<) (map fst (concat (map fst blocks)))"
    "f = fold bloom_add (map fst (concat (map fst blocks))) f0" "bloom_ok f0"
    "cache_coherent env (table_of env c f blocks sst hc) cache"
  shows "fst (sst_get env (table_of env c f blocks sst hc) key cache) =
           Ok (Option.bind (map_of (concat (map fst blocks)) key) (\<lambda>v. v))"
    "cache_coherent env (table_of env c f blocks sst hc)
       (snd (sst_get env (table_of env c f blocks sst hc) key cache))"
proof -
  let ?t = "table_of env c f blocks sst hc"
  let ?es = "concat (map fst blocks)"
  let ?i = "block_index blocks key"
  have f: "bloom_ok f" using sst_filter.invar_fold [OF assms(4)] assms(3) by simp
  have may: "key \<in> set (map fst ?es) \<Longrightarrow> bloom_may_contain f key = Ok True"
    using sst_filter.no_false_negative [OF assms(4)] assms(3) by simp
  obtain ans where ans: "bloom_may_contain f key = Ok ans"
    using bloom_may_contain_total [OF f] by blast
  have none: "map_of ?es key = None" if "\<not> ans"
    using that may ans by (auto simp: map_of_eq_None_iff)
  have "fst (sst_get env ?t key cache) = Ok (Option.bind (map_of ?es key) (\<lambda>v. v)) \<and>
      cache_coherent env ?t (snd (sst_get env ?t key cache))"
  proof (cases "ans \<and> blocks \<noteq> []")
    case True
    note idx = block_index_right [OF assms(2), where key = key]
    have ne: "list_all (\<lambda>bl. fst bl \<noteq> []) blocks" "list_all entry_ok ?es"
      using assms(1) by (auto simp: blocks_ok_def list_all_iff)
    have i: "?i < length blocks" using idx(1) ne(1) True by simp
    have "map_of ?es key = map_of (fst (blocks ! ?i)) key"
      using map_of_concat_nth [of ?i "map fst blocks" key] i idx(2) ne(1) True by simp
    with sst_get_block [OF assms(1) _ i assms(5)] ans True show ?thesis by simp
  next
    case False
    then have "fst (sst_get env ?t key cache) = Ok None" "snd (sst_get env ?t key cache) = cache"
      using ans by (auto split: bool.splits simp: sst_get_def find_block_def binary_search_by_def Let_def)
    moreover have "map_of ?es key = None" using False none by auto
    ultimately show ?thesis using assms(5) by simp
  qed
  then show "fst (sst_get env ?t key cache) = Ok (Option.bind (map_of ?es key) (\<lambda>v. v))"
    "cache_coherent env ?t (snd (sst_get env ?t key cache))" by auto
qed

text \<open>Building a table from entries, and the data of its entries without their timestamps.\<close>

definition build_sst ::
  "block_env \<Rightarrow> nat \<Rightarrow> compression_type \<Rightarrow> nat \<Rightarrow> u32 \<Rightarrow> (key \<times> bytes option) list \<Rightarrow>
   (error, bytes) result" where
  "build_sst env estimated c bpk hashes es =
     bind_result (builder_add_all env es (builder_new estimated c bpk hashes)) (finish env)"

definition data_entries :: "(key \<times> bytes option) list \<Rightarrow> entry list" where
  "data_entries es = map (\<lambda>(k, v). (key_data k, v)) es"

text \<open>Sizes within the widths of the format.\<close>

definition sizes_ok :: "nat \<Rightarrow> nat \<Rightarrow> (key \<times> bytes option) list \<Rightarrow> bool" where
  "sizes_ok estimated bpk es \<longleftrightarrow>
     list_all entry_ok (data_entries es) \<and> length es < 2 ^ 30 \<and>
     length (bits (bloom_new (max estimated 1) bpk 0)) < 2 ^ 32"

lemma bloom_bits_new: "length (bits (bloom_new n bpk h)) = length (bits (bloom_new n bpk 0))"
  by (simp add: bloom_new_def Let_def)

lemma bloom_bits_fold:
  "bloom_ok f \<Longrightarrow> length (bits (fold bloom_add ks f)) = length (bits f)"
  by (induction ks arbitrary: f) (simp_all add: bloom_insert_ok(3) sst_filter.invar_add)

lemma file_blocks_bound:
  assumes "list_all (\<lambda>bl. fst bl \<noteq> [] \<and> block_fits env c (fst bl)) blocks"
  shows "length (file_blocks env c blocks) \<le> length (concat (map fst blocks)) * 2 ^ 32 \<and>
    length blocks \<le> length (concat (map fst blocks))"
  using assms
proof (induction blocks)
  case (Cons bl blocks)
  have bl: "length (block_bytes env c (fst bl)) < 2 ^ 32" "1 \<le> length (fst bl)"
    using Cons.prems by (auto simp: block_fits_def Suc_le_eq)
  then have "2 ^ 32 \<le> length (fst bl) * 2 ^ 32" by simp
  with bl Cons show ?case
    by (simp add: add_mult_distrib)
qed simp

lemma build_and_open:
  assumes "lz4_block_ok env" "sizes_ok estimated bpk es"
    "builder_add_all env es (builder_new estimated c bpk h) = Ok b"
    "builds env (bloom_new (max estimated 1) bpk h) c (data_entries es) blocks cur b"
  defines "f \<equiv> fold bloom_add (map fst (data_entries es)) (bloom_new (max estimated 1) bpk h)"
    and "blocks' \<equiv> (if cur = [] then blocks
      else blocks @ [(cur, if blocks = [] then [] else snd (last blocks))])"
  shows "build_sst env estimated c bpk h es = Ok (table_bytes env c f blocks')"
    "open_sst sst (table_bytes env c f blocks') hc = Ok (table_of env c f blocks' sst hc)"
    "blocks_ok env c blocks'" "concat (map fst blocks') = data_entries es"
proof -
  note fin = finish_builds [OF assms(1,4), folded f_def blocks'_def]
  show "build_sst env estimated c bpk h es = Ok (table_bytes env c f blocks')"
    using assms(3) fin(1) by (simp add: build_sst_def)
  have keys: "length k \<le> 2 ^ 30" if "k \<in> fst ` set (data_entries es)" for k
    using assms(2) that by (auto simp: sizes_ok_def list_all_iff entry_ok_def)
  have "length (concat (map fst blocks')) = length es"
    using fin(2) by (simp add: data_entries_def)
  then have len: "length (file_blocks env c blocks') \<le> length es * 2 ^ 32" "length blocks' \<le> length es"
    using file_blocks_bound [OF fin(3)] by simp_all
  have es: "length es < 2 ^ 30" using assms(2) by (simp add: sizes_ok_def)
  then have small: "length (file_blocks env c blocks') < 2 ^ 63" "length blocks' < 2 ^ 32"
    using len by auto
  have "length (bits f) = length (bits (bloom_new (max estimated 1) bpk 0))"
    unfolding f_def using bloom_bits_fold [OF bloom_ok_new] bloom_bits_new by simp
  then have bits: "length (bits f) < 2 ^ 32" using assms(2) by (simp add: sizes_ok_def)
  have "length (fst (hd (fst bl))) < 2 ^ 32 \<and> length (snd bl) < 2 ^ 32" if bl: "bl \<in> set blocks'" for bl
  proof -
    have "fst bl \<noteq> []" using fin(3) bl by (auto simp: list_all_iff)
    moreover have "set (fst bl) \<subseteq> set (data_entries es)"
      unfolding fin(2) [symmetric] using bl by auto
    ultimately have "fst (hd (fst bl)) \<in> fst ` set (data_entries es)"
      using hd_in_set by (metis image_eqI subsetD)
    moreover have "snd bl = [] \<or> snd bl \<in> fst ` set (data_entries es)"
      using fin(4) bl by (auto simp: list_all_iff)
    ultimately show ?thesis using keys by fastforce
  qed
  then show "open_sst sst (table_bytes env c f blocks') hc = Ok (table_of env c f blocks' sst hc)"
    using small bits by (intro open_table_bytes) (auto simp: list_all_iff)
  show "blocks_ok env c blocks'"
    using assms(1,2) fin(2,3) small(1) by (simp add: blocks_ok_def sizes_ok_def)
  show "concat (map fst blocks') = data_entries es" by (rule fin(2))
qed

lemma builds_exists:
  assumes "lz4_block_ok env" "sizes_ok estimated bpk es"
  shows "\<exists>b blocks cur. builder_add_all env es (builder_new estimated c bpk h) = Ok b \<and>
    builds env (bloom_new (max estimated 1) bpk h) c (data_entries es) blocks cur b"
proof -
  have "list_all (\<lambda>(k, v). entry_ok (key_data k, v)) es"
    using assms(2) by (auto simp: sizes_ok_def data_entries_def list_all_iff)
  from builder_add_all_builds [OF assms(1) this bloom_ok_new builds_new]
  show ?thesis by (auto simp: data_entries_def)
qed

section \<open>Properties\<close>

text \<open>A block environment that satisfies \<open>lz4_block_ok\<close>, for concrete evaluation.\<close>

definition stored_env :: block_env where
  "stored_env = \<lparr>env_crc = (\<lambda>bs. fold (\<lambda>b c. 31 * c + ucast b) bs 7), env_compress = (\<lambda>bs. 0 # bs),
     env_decompress_into = (\<lambda>bs out. if length bs = length out + 1 then Inr (tl bs) else Inl ''bad size'')\<rparr>"

lemma lz4_block_ok_stored: "lz4_block_ok stored_env"
proof -
  have "Suc n \<le> 20 + n * 110 div 100" for n :: nat
    using div_le_mono [of "n * 100" "n * 110" 100] by simp
  then have "Suc (length x) \<le> 20 + length x * 110 div 100" for x :: bytes .
  then show ?thesis unfolding lz4_block_ok_def stored_env_def by auto
qed

text \<open>
  C1: lookups in a table. Building a table from entries of strictly ascending user keys,
  compressed or not, never fails and gives a file that opens; a lookup of any key, through
  the Bloom filter, the block search, the checksum and any coherent block cache, answers
  the value of that key's entry, nothing for a tombstone or an absent key, and leaves the
  cache coherent.
\<close>

theorem sstable_lookup:
  assumes "lz4_block_ok env" "sizes_ok estimated bpk es" "sorted_wrt (<) (map fst (data_entries es))"
  shows "\<exists>contents t. build_sst env estimated c bpk hashes es = Ok contents \<and>
    open_sst sst contents hc = Ok t \<and>
    (\<forall>cache. cache_coherent env t cache \<longrightarrow>
       fst (sst_get env t key cache) =
         Ok (case map_of (data_entries es) key of Some v \<Rightarrow> v | None \<Rightarrow> None) \<and>
       cache_coherent env t (snd (sst_get env t key cache)))"
proof -
  obtain b blocks cur where b: "builder_add_all env es (builder_new estimated c bpk hashes) = Ok b"
    "builds env (bloom_new (max estimated 1) bpk hashes) c (data_entries es) blocks cur b"
    using builds_exists [OF assms(1,2)] by blast
  note built = build_and_open [OF assms(1,2) b]
  have "Option.bind m (\<lambda>v. v) = (case m of Some v \<Rightarrow> v | None \<Rightarrow> None)" for m :: "bytes option option"
    by (cases m) simp_all
  with sst_get_table [OF built(3), of "fold bloom_add (map fst (data_entries es))
        (bloom_new (max estimated 1) bpk hashes)", OF _ _ bloom_ok_new, where key = key]
    built assms(3)
  show ?thesis by metis
qed

lemma sstable_lookup_witness:
  "\<exists>contents t. build_sst stored_env 2 Lz4 10 7 [(Key [1] 5, Some [9]), (Key [2] 6, None)] = Ok contents \<and>
    open_sst 3 contents True = Ok t \<and> fst (sst_get stored_env t [1] []) = Ok (Some [9])"
proof -
  have "sizes_ok 2 10 [(Key [1] 5, Some [9]), (Key [2] 6, None)]"
    by (simp add: sizes_ok_def data_entries_def entry_ok_def bloom_new_def)
  from sstable_lookup [OF lz4_block_ok_stored this, of Lz4 7 3 True "[1]"]
  show ?thesis by (auto simp: data_entries_def)
qed

text \<open>
  Two versions of one key can be read in the wrong order. A memtable is flushed with all
  its versions, newest first; when the newest one fills a block, the older one opens the
  next block, the block search settles on that one, and the lookup answers the overwritten
  value.
\<close>

theorem overwritten_value_read:
  assumes "lz4_block_ok env" "t_old < t_new" "4096 \<le> length v_new"
    "sizes_ok estimated bpk [(Key k t_new, Some v_new), (Key k t_old, Some v_old)]"
  shows "\<exists>contents t.
    build_sst env estimated c bpk hashes [(Key k t_new, Some v_new), (Key k t_old, Some v_old)] = Ok contents \<and>
    open_sst sst contents hc = Ok t \<and> fst (sst_get env t k []) = Ok (Some v_old)"
proof -
  let ?es = "[(Key k t_new, Some v_new), (Key k t_old, Some v_old)]"
  let ?new = "(k, Some v_new)" and ?old = "(k, Some v_old)"
  have es: "data_entries ?es = [?new, ?old]" by (simp add: data_entries_def)
  obtain b blocks cur where b: "builder_add_all env ?es (builder_new estimated c bpk hashes) = Ok b"
    "builds env (bloom_new (max estimated 1) bpk hashes) c (data_entries ?es) blocks cur b"
    using builds_exists [OF assms(1,4)] by blast
  note B = b(2) [unfolded builds_def es]
  have big: "BLOCK_SIZE \<le> length (enc (?new # xs))" for xs
    using assms(3) by (simp add: BLOCK_SIZE_def put_entry_def)
  obtain bl rest where bl: "blocks = bl # rest"
    using B big [of "[?old]"] by (cases blocks) auto
  have bl1: "fst bl = [?new]"
    using B bl big [of "[]"] by (cases "fst bl"; cases "tl (fst bl)") (auto simp: Cons_eq_append_conv)
  define blocks' where "blocks' = (if cur = [] then blocks
      else blocks @ [(cur, if blocks = [] then [] else snd (last blocks))])"
  have rest: "concat (map fst rest) @ cur = [?old]" using B bl bl1 by simp
  have "map fst blocks' = [[?new], [?old]]"
  proof (cases rest)
    case Nil
    then show ?thesis using rest bl bl1 by (simp add: blocks'_def)
  next
    case (Cons r rs)
    then have "fst r = [?old]" "concat (map fst rs) = []" "cur = []"
      using rest B bl by (auto simp: append_eq_Cons_conv)
    moreover from this(2) have "rs = []" using B bl Cons by (cases rs) auto
    ultimately show ?thesis using bl bl1 Cons by (simp add: blocks'_def)
  qed
  then have two: "length blocks' = 2" "fst (blocks' ! 0) = [?new]" "fst (blocks' ! 1) = [?old]"
    by (auto simp: map_eq_Cons_conv)
  note built = build_and_open [OF assms(1,4) b, folded blocks'_def]
  let ?f0 = "bloom_new (max estimated 1) bpk hashes"
  have may: "bloom_may_contain (fold bloom_add (map fst (data_entries ?es)) ?f0) k = Ok True"
    by (rule sst_filter.no_false_negative) (simp_all add: es)
  have idx: "block_index blocks' k = 1"
    using two by (simp add: block_index_def binary_search_by_def Let_def bisect.simps)
  from sst_get_block [OF built(3) may, where cache = "[]" and sst = sst and hc = hc] idx two
  have "fst (sst_get env (table_of env c (fold bloom_add (map fst (data_entries ?es)) ?f0) blocks' sst hc)
      k []) = Ok (Some v_old)"
    by simp
  with built(1,2) show ?thesis by blast
qed

lemma overwritten_value_read_witness:
  "\<exists>contents t.
    build_sst stored_env 2 Uncompressed 10 7
      [(Key [1] 2, Some (replicate 4096 0)), (Key [1] 1, Some [5])] = Ok contents \<and>
    open_sst 1 contents True = Ok t \<and> fst (sst_get stored_env t [1] []) = Ok (Some [5])"
proof (rule overwritten_value_read [OF lz4_block_ok_stored])
  show "sizes_ok 2 10 [(Key [1] 2, Some (replicate 4096 0)), (Key [1] 1, Some [5])]"
    by (simp add: sizes_ok_def data_entries_def entry_ok_def bloom_new_def)
qed simp_all

text \<open>
  The key range of a small table is wrong. The last block is recorded with the last key
  of the block before it; in a table of a single block there is none, so its maximal key is
  the empty string, below the minimal key (which is right).
\<close>

theorem small_table_has_no_max_key:
  assumes "lz4_block_ok env" "sizes_ok estimated bpk es" "es \<noteq> []"
    "length (enc (data_entries es)) < BLOCK_SIZE"
  shows "\<exists>contents t. build_sst env estimated c bpk hashes es = Ok contents \<and>
    open_sst sst contents hc = Ok t \<and>
    sst_min_key t = key_data (fst (hd es)) \<and> sst_max_key t = []"
proof -
  obtain b blocks cur where b: "builder_add_all env es (builder_new estimated c bpk hashes) = Ok b"
    "builds env (bloom_new (max estimated 1) bpk hashes) c (data_entries es) blocks cur b"
    using builds_exists [OF assms(1,2)] by blast
  note B = b(2) [unfolded builds_def]
  have "blocks = []"
  proof (cases blocks)
    case (Cons bl bls)
    with B have "length (enc (fst bl)) \<le> length (enc (data_entries es))"
      "BLOCK_SIZE \<le> length (enc (fst bl))" by (auto simp flip: B [THEN conjunct1])
    with assms(4) show ?thesis by simp
  qed
  with B have cur: "cur = data_entries es" by simp
  have "hd (data_entries es) = (key_data (fst (hd es)), snd (hd es))"
    using assms(3) by (cases es) (auto simp: data_entries_def)
  moreover have "cur \<noteq> []" using cur assms(3) by (simp add: data_entries_def)
  ultimately show ?thesis
    using build_and_open [OF assms(1,2) b] cur \<open>blocks = []\<close>
    by (fastforce simp: table_of_def)
qed

lemma small_table_has_no_max_key_witness:
  "\<exists>contents t. build_sst stored_env 1 Lz4 10 7 [(Key [4] 2, Some [6])] = Ok contents \<and>
    open_sst 1 contents False = Ok t \<and> sst_min_key t = [4] \<and> sst_max_key t = []"
proof -
  have "sizes_ok 1 10 [(Key [4] 2, Some [6])]"
    by (simp add: sizes_ok_def data_entries_def entry_ok_def bloom_new_def)
  moreover have "length (enc (data_entries [(Key [4] 2, Some [6])])) < BLOCK_SIZE"
    by (simp add: data_entries_def put_entry_def BLOCK_SIZE_def)
  ultimately show ?thesis
    using small_table_has_no_max_key [OF lz4_block_ok_stored, of 1 10 "[(Key [4] 2, Some [6])]"]
    by force
qed

end
