(* ===== verification/Memtable.thy ===== *)
theory Memtable
  imports Simd_Key
begin

text \<open>
  \<open>crabstash-storage/src/memtable.rs\<close> and \<open>batch.rs\<close>: the versioned in-memory table, its
  iterator, and write batches. The concurrent skip list is the ordered map it implements:
  its entries in ascending key order, so newest version first within one user key.
\<close>

section \<open>The ordered map\<close>

type_synonym skip_map = "(key \<times> bytes option) list"

fun skip_insert :: "key \<Rightarrow> bytes option \<Rightarrow> skip_map \<Rightarrow> skip_map" where
  "skip_insert k v [] = [(k, v)]"
| "skip_insert k v ((k', v') # m) =
     (if k < k' then (k, v) # (k', v') # m
      else if k = k' then (k, v) # m
      else (k', v') # skip_insert k v m)"

text \<open>\<open>map.range(from..)\<close>.\<close>

definition skip_range_from :: "key \<Rightarrow> skip_map \<Rightarrow> skip_map" where
  "skip_range_from k m = dropWhile (\<lambda>(k', _). k' < k) m"

definition skip_ok :: "skip_map \<Rightarrow> bool" where
  "skip_ok m \<longleftrightarrow> sorted_wrt (<) (map fst m)"

section \<open>The memtable\<close>

record memtable =
  mt_map :: skip_map
  mt_size :: nat

definition new_memtable :: memtable where
  "new_memtable = \<lparr>mt_map = [], mt_size = 0\<rparr>"

definition mt_get :: "memtable \<Rightarrow> key \<Rightarrow> bytes option option" where
  "mt_get mt k = map_of (mt_map mt) k"

fun first_visible :: "bytes \<Rightarrow> ts \<Rightarrow> skip_map \<Rightarrow> bytes option option" where
  "first_visible kd t [] = None"
| "first_visible kd t ((k, v) # rest) =
     (if key_data k \<noteq> kd then None
      else if key_timestamp k \<le> t then Some v
      else first_visible kd t rest)"

definition mt_get_at_ts :: "memtable \<Rightarrow> bytes \<Rightarrow> ts \<Rightarrow> bytes option option" where
  "mt_get_at_ts mt kd t = first_visible kd t (skip_range_from (Key kd t) (mt_map mt))"

definition mt_put :: "key \<Rightarrow> bytes \<Rightarrow> memtable \<Rightarrow> memtable" where
  "mt_put k value mt =
     \<lparr>mt_map = skip_insert k (Some value) (mt_map mt),
      mt_size = mt_size mt + (length (key_data k) + length value)\<rparr>"

definition mt_delete :: "key \<Rightarrow> memtable \<Rightarrow> memtable" where
  "mt_delete k mt =
     \<lparr>mt_map = skip_insert k None (mt_map mt), mt_size = mt_size mt + length (key_data k)\<rparr>"

definition mt_is_empty :: "memtable \<Rightarrow> bool" where
  "mt_is_empty mt = (mt_map mt = [])"

definition mt_len :: "memtable \<Rightarrow> nat" where
  "mt_len mt = length (mt_map mt)"

section \<open>Write batches\<close>

datatype batch_operation = BatchPut bytes bytes | BatchDelete bytes

record write_batch =
  operations :: "batch_operation list"
  approximate_size :: nat

definition new_batch :: write_batch where
  "new_batch = \<lparr>operations = [], approximate_size = 0\<rparr>"

text \<open>The capacity is an allocation hint.\<close>

definition batch_with_capacity :: "nat \<Rightarrow> write_batch" where
  "batch_with_capacity capacity = \<lparr>operations = [], approximate_size = 0\<rparr>"

definition batch_put :: "bytes \<Rightarrow> bytes \<Rightarrow> write_batch \<Rightarrow> write_batch" where
  "batch_put k v b =
     \<lparr>operations = operations b @ [BatchPut k v],
      approximate_size = approximate_size b + (length k + length v)\<rparr>"

definition batch_delete :: "bytes \<Rightarrow> write_batch \<Rightarrow> write_batch" where
  "batch_delete k b =
     \<lparr>operations = operations b @ [BatchDelete k],
      approximate_size = approximate_size b + length k\<rparr>"

definition batch_clear :: "write_batch \<Rightarrow> write_batch" where
  "batch_clear b = \<lparr>operations = [], approximate_size = 0\<rparr>"

definition batch_len :: "write_batch \<Rightarrow> nat" where
  "batch_len b = length (operations b)"

definition batch_is_empty :: "write_batch \<Rightarrow> bool" where
  "batch_is_empty b = (operations b = [])"

fun operation_size :: "batch_operation \<Rightarrow> nat" where
  "operation_size (BatchPut k v) = length k + length v"
| "operation_size (BatchDelete k) = length k"

definition batch_ok :: "write_batch \<Rightarrow> bool" where
  "batch_ok b \<longleftrightarrow> approximate_size b = sum_list (map operation_size (operations b))"

lemma batch_ok_ops:
  "batch_ok new_batch"
  "batch_ok b \<Longrightarrow> batch_ok (batch_put k v b)"
  "batch_ok b \<Longrightarrow> batch_ok (batch_delete k b)"
  "batch_ok (batch_clear b)"
  by (simp_all add: batch_ok_def new_batch_def batch_put_def batch_delete_def batch_clear_def)

section \<open>The map as a history of versions\<close>

lemma skip_ok_Cons:
  "skip_ok ((k, v) # m) \<longleftrightarrow> (\<forall>k' v'. (k', v') \<in> set m \<longrightarrow> k < k') \<and> skip_ok m"
  by (force simp: skip_ok_def)

lemma skip_insert_mem: "(k', v') \<in> set (skip_insert k v m) \<Longrightarrow> k' = k \<or> (k', v') \<in> set m"
  by (induction m) (auto split: if_splits)

lemma skip_ok_insert: "skip_ok m \<Longrightarrow> skip_ok (skip_insert k v m)"
proof (induction m)
  case (Cons e m)
  obtain k' v' where e: "e = (k', v')" by (cases e)
  have m: "\<And>k2 v2. (k2, v2) \<in> set m \<Longrightarrow> k' < k2" "skip_ok m"
    using Cons.prems e by (auto simp: skip_ok_Cons)
  consider "k < k'" | "k = k'" | "k' < k" by (rule linorder_cases)
  then show ?case
  proof cases
    case 1
    then have "k < k2" if "(k2, v2) \<in> set m" for k2 v2
      using m(1) [OF that] by (rule less_trans)
    with 1 m e show ?thesis by (auto simp: skip_ok_Cons)
  next
    case 2
    with m e show ?thesis by (auto simp: skip_ok_Cons)
  next
    case 3
    with m e Cons.IH show ?thesis by (auto simp: skip_ok_Cons dest: skip_insert_mem)
  qed
qed (simp add: skip_ok_def)

lemma map_of_skip_insert:
  "skip_ok m \<Longrightarrow> map_of (skip_insert k v m) = (map_of m)(k \<mapsto> v)"
  by (induction m) (auto simp: skip_ok_Cons fun_eq_iff)

text \<open>
  The specification: the value written at the greatest timestamp not above the snapshot.
\<close>

definition visible_at :: "(key \<rightharpoonup> bytes option) \<Rightarrow> bytes \<Rightarrow> ts \<Rightarrow> bytes option \<Rightarrow> bool" where
  "visible_at h kd t v \<longleftrightarrow>
     (\<exists>t0. t0 \<le> t \<and> h (Key kd t0) = Some v \<and> (\<forall>t1. t0 < t1 \<longrightarrow> t1 \<le> t \<longrightarrow> h (Key kd t1) = None))"

lemma visible_at_unique: "visible_at h kd t v \<Longrightarrow> visible_at h kd t v' \<Longrightarrow> v = v'"
  unfolding visible_at_def by (metis not_less_iff_gr_or_eq option.distinct(1) option.inject)

lemma first_visible_sorted:
  assumes "skip_ok m"
  shows "first_visible kd t (skip_range_from (Key kd t) m) =
           (case filter (\<lambda>(k, _). key_data k = kd \<and> key_timestamp k \<le> t) m of
              [] \<Rightarrow> None
            | (_, v) # _ \<Rightarrow> Some v)"
  using assms
proof (induction m)
  case (Cons e m)
  obtain kd' t' v' where e: "e = (Key kd' t', v')" by (metis prod.collapse key.exhaust)
  have rest: "\<And>k v. (k, v) \<in> set m \<Longrightarrow> Key kd' t' < k" "skip_ok m"
    using Cons.prems e by (auto simp: skip_ok_Cons)
  show ?case
  proof (cases "Key kd' t' < Key kd t")
    case True
    then have "\<not> (kd' = kd \<and> t' \<le> t)" by (auto simp: key_less_iff)
    with True Cons.IH rest(2) e show ?thesis by (auto simp: skip_range_from_def)
  next
    case False
    show ?thesis
    proof (cases "kd' = kd")
      case True
      with False e show ?thesis by (auto simp: skip_range_from_def key_less_iff)
    next
      case kd: False
      with False have "kd < kd'" by (auto simp: key_less_iff)
      then have "key_data k \<noteq> kd" if "(k, v) \<in> set m" for k v
        using key_le_data [OF less_imp_le [OF rest(1) [OF that]]] by auto
      then have "filter (\<lambda>(k, _). key_data k = kd \<and> key_timestamp k \<le> t) m = []"
        by (auto simp: filter_empty_conv)
      with False kd e show ?thesis by (simp add: skip_range_from_def)
    qed
  qed
qed (simp add: skip_range_from_def)

lemma first_match_visible:
  assumes "skip_ok m"
  shows "(case filter (\<lambda>(k, _). key_data k = kd \<and> key_timestamp k \<le> t) m of
            [] \<Rightarrow> (\<forall>t0. t0 \<le> t \<longrightarrow> map_of m (Key kd t0) = None)
          | (_, v) # _ \<Rightarrow> visible_at (map_of m) kd t v)"
  using assms
proof (induction m)
  case (Cons e m)
  obtain kd' t' v' where e: "e = (Key kd' t', v')" by (metis prod.collapse key.exhaust)
  have rest: "\<And>k v. (k, v) \<in> set m \<Longrightarrow> Key kd' t' < k" "skip_ok m"
    using Cons.prems e by (auto simp: skip_ok_Cons)
  show ?case
  proof (cases "kd' = kd \<and> t' \<le> t")
    case True
    have "map_of (e # m) (Key kd t1) = None" if "t' < t1" for t1
    proof (cases "map_of m (Key kd t1)")
      case None
      with that e show ?thesis by auto
    next
      case (Some v1)
      then have "Key kd' t' < Key kd t1"
        by (intro rest(1) map_of_SomeD)
      with that True show ?thesis by (auto simp: key_less_iff)
    qed
    with True e show ?thesis
      by (auto simp: visible_at_def intro!: exI [of _ t'])
  next
    case False
    then have same: "t0 \<le> t \<Longrightarrow> map_of (e # m) (Key kd t0) = map_of m (Key kd t0)" for t0
      using e by auto
    then have "visible_at (map_of (e # m)) kd t v = visible_at (map_of m) kd t v" for v
      using same unfolding visible_at_def by metis
    moreover have "filter (\<lambda>(k, _). key_data k = kd \<and> key_timestamp k \<le> t) (e # m) =
        filter (\<lambda>(k, _). key_data k = kd \<and> key_timestamp k \<le> t) m"
      using False e by auto
    ultimately show ?thesis
      using Cons.IH [OF rest(2)] same
      by (auto split: list.splits simp del: map_of.simps filter.simps)
  qed
qed simp

lemma mt_get_at_ts_visible:
  assumes "skip_ok (mt_map mt)"
  shows "mt_get_at_ts mt kd t = Some v \<longleftrightarrow> visible_at (map_of (mt_map mt)) kd t v"
    "mt_get_at_ts mt kd t = None \<longleftrightarrow> (\<forall>t0. t0 \<le> t \<longrightarrow> map_of (mt_map mt) (Key kd t0) = None)"
proof -
  let ?h = "map_of (mt_map mt)"
  consider (none) "mt_get_at_ts mt kd t = None" "\<forall>t0. t0 \<le> t \<longrightarrow> ?h (Key kd t0) = None"
    | (found) v' where "mt_get_at_ts mt kd t = Some v'" "visible_at ?h kd t v'"
    using first_match_visible [OF assms, where kd = kd and t = t]
    by (auto simp: mt_get_at_ts_def first_visible_sorted [OF assms] split: list.splits)
  then have "(mt_get_at_ts mt kd t = Some v \<longleftrightarrow> visible_at ?h kd t v) \<and>
    (mt_get_at_ts mt kd t = None \<longleftrightarrow> (\<forall>t0. t0 \<le> t \<longrightarrow> ?h (Key kd t0) = None))"
  proof cases
    case none
    then have "\<not> visible_at ?h kd t v" for v by (auto simp: visible_at_def)
    with none show ?thesis by auto
  next
    case found
    then have "\<not> (\<forall>t0. t0 \<le> t \<longrightarrow> ?h (Key kd t0) = None)" by (auto simp: visible_at_def)
    with found show ?thesis using visible_at_unique by auto
  qed
  then show "mt_get_at_ts mt kd t = Some v \<longleftrightarrow> visible_at ?h kd t v"
    "mt_get_at_ts mt kd t = None \<longleftrightarrow> (\<forall>t0. t0 \<le> t \<longrightarrow> ?h (Key kd t0) = None)"
    by auto
qed

section \<open>The versioned-store interface\<close>

text \<open>
  What a reader relies on: a store of versions whose contents are a map from versioned keys
  to values and tombstones, changed only at the key written, and read at a snapshot.
\<close>

locale versioned_store =
  fixes ok :: "'s \<Rightarrow> bool"
    and contents :: "'s \<Rightarrow> key \<rightharpoonup> bytes option"
    and empty_store :: 's
    and put_version :: "key \<Rightarrow> bytes option \<Rightarrow> 's \<Rightarrow> 's"
    and read_at :: "'s \<Rightarrow> bytes \<Rightarrow> ts \<Rightarrow> bytes option option"
  assumes ok_empty: "ok empty_store"
    and contents_empty: "contents empty_store = Map.empty"
    and ok_put: "ok s \<Longrightarrow> ok (put_version k v s)"
    and contents_put: "ok s \<Longrightarrow> contents (put_version k v s) = (contents s)(k \<mapsto> v)"
    and read_at_Some: "ok s \<Longrightarrow> read_at s kd t = Some v \<longleftrightarrow> visible_at (contents s) kd t v"
    and read_at_None:
      "ok s \<Longrightarrow> read_at s kd t = None \<longleftrightarrow> (\<nexists>t0. t0 \<le> t \<and> contents s (Key kd t0) \<noteq> None)"
begin

primrec write_all :: "(key \<times> bytes option) list \<Rightarrow> 's \<Rightarrow> 's" where
  "write_all [] s = s"
| "write_all (w # ws) s = write_all ws (put_version (fst w) (snd w) s)"

lemma write_all_contents:
  "ok s \<Longrightarrow> ok (write_all ws s) \<and> contents (write_all ws s) = contents s ++ map_of (rev ws)"
proof (induction ws arbitrary: s)
  case (Cons w ws)
  have "contents (put_version (fst w) (snd w) s) ++ map_of (rev ws) = contents s ++ map_of (rev (w # ws))"
    using Cons.prems by (auto simp: contents_put map_add_def fun_eq_iff split: option.splits)
  with Cons ok_put show ?case by simp
qed simp

lemma read_written_history:
  "read_at (write_all ws empty_store) kd t = Some v \<longleftrightarrow> visible_at (map_of (rev ws)) kd t v"
  "read_at (write_all ws empty_store) kd t = None \<longleftrightarrow>
     (\<nexists>t0. t0 \<le> t \<and> map_of (rev ws) (Key kd t0) \<noteq> None)"
  using write_all_contents [OF ok_empty, of ws]
  by (simp_all add: read_at_Some read_at_None contents_empty)

text \<open>A version above the snapshot is invisible at it; the newest one below it is what is read.\<close>

lemma read_own_write:
  assumes "ok s" "t0 \<le> t" "\<And>t1. t0 < t1 \<Longrightarrow> t1 \<le> t \<Longrightarrow> contents s (Key kd t1) = None"
  shows "read_at (put_version (Key kd t0) v s) kd t = Some v"
  using assms
  by (auto simp: read_at_Some ok_put contents_put visible_at_def intro!: exI [of _ t0])

lemma later_write_invisible:
  assumes "ok s" "t < t0"
  shows "read_at (put_version (Key kd t0) v s) kd t = read_at s kd t"
proof -
  let ?h = "contents s" and ?h' = "(contents s)(Key kd t0 \<mapsto> v)"
  have same: "t1 \<le> t \<Longrightarrow> ?h' (Key kd t1) = ?h (Key kd t1)" for t1
    using assms(2) by auto
  then have "visible_at ?h' kd t w = visible_at ?h kd t w" for w
    using same unfolding visible_at_def by metis
  moreover have "(\<nexists>t0. t0 \<le> t \<and> ?h' (Key kd t0) \<noteq> None) = (\<nexists>t0. t0 \<le> t \<and> ?h (Key kd t0) \<noteq> None)"
    using same by metis
  ultimately show ?thesis
    using assms(1)
    by (metis contents_put ok_put read_at_None read_at_Some option.exhaust)
qed

end

text \<open>\<open>put\<close> and \<open>delete\<close> as one write of a value or a tombstone.\<close>

definition mt_write :: "key \<Rightarrow> bytes option \<Rightarrow> memtable \<Rightarrow> memtable" where
  "mt_write k v mt = (case v of Some value \<Rightarrow> mt_put k value mt | None \<Rightarrow> mt_delete k mt)"

lemma mt_map_write [simp]: "mt_map (mt_write k v mt) = skip_insert k v (mt_map mt)"
  by (simp add: mt_write_def mt_put_def mt_delete_def split: option.split)

lemma skip_ok_nil: "skip_ok []"
  by (simp add: skip_ok_def)

lemma skip_ok_new: "skip_ok (mt_map new_memtable)" "mt_map new_memtable = []"
  by (simp_all add: new_memtable_def skip_ok_nil)

interpretation mt: versioned_store "\<lambda>mt. skip_ok (mt_map mt)" "\<lambda>mt. map_of (mt_map mt)"
  new_memtable mt_write mt_get_at_ts
  by unfold_locales
     (auto simp: skip_ok_nil skip_ok_new skip_ok_insert map_of_skip_insert mt_get_at_ts_visible)

section \<open>The memtable iterator\<close>

record mt_iter =
  mti_entries :: skip_map
  mti_index :: nat

definition mt_iter_new :: "memtable \<Rightarrow> mt_iter" where
  "mt_iter_new mt = \<lparr>mti_entries = mt_map mt, mti_index = 0\<rparr>"

definition mt_iter_seek :: "bytes \<Rightarrow> mt_iter \<Rightarrow> mt_iter" where
  "mt_iter_seek target it = it\<lparr>mti_index :=
     (case binary_search_by (\<lambda>i. cmp (key_data (fst (mti_entries it ! i))) target)
             (length (mti_entries it)) of
        Inr i \<Rightarrow> i
      | Inl i \<Rightarrow> i)\<rparr>"

definition mt_iter_seek_to_first :: "mt_iter \<Rightarrow> mt_iter" where
  "mt_iter_seek_to_first it = it\<lparr>mti_index := 0\<rparr>"

definition mt_iter_key :: "mt_iter \<Rightarrow> (error, key) result" where
  "mt_iter_key it = bind_result (slice_index (mti_entries it) (mti_index it)) (\<lambda>e. Ok (fst e))"

definition mt_iter_value :: "mt_iter \<Rightarrow> (error, bytes option) result" where
  "mt_iter_value it = bind_result (slice_index (mti_entries it) (mti_index it)) (\<lambda>e. Ok (snd e))"

definition mt_iter_is_valid :: "mt_iter \<Rightarrow> bool" where
  "mt_iter_is_valid it \<longleftrightarrow> mti_index it < length (mti_entries it)"

definition mt_iter_next :: "mt_iter \<Rightarrow> mt_iter \<times> (error, unit) result" where
  "mt_iter_next it = (it\<lparr>mti_index := mti_index it + 1\<rparr>, Ok ())"

definition mt_iter_rest :: "mt_iter \<Rightarrow> skip_map" where
  "mt_iter_rest it = drop (mti_index it) (mti_entries it)"

lemma seek_partitioned:
  assumes "skip_ok m"
  shows "partitioned (\<lambda>i. cmp (key_data (fst (m ! i))) target) (length m)"
proof -
  have "key_data (fst (m ! i)) \<le> key_data (fst (m ! j))" if "i < j" "j < length m" for i j
    using assms that by (intro key_le_data less_imp_le)
      (auto simp: skip_ok_def sorted_wrt_iff_nth_less)
  note le = this
  show ?thesis
    unfolding partitioned_def
  proof (intro allI impI conjI)
    fix i j
    assume ij: "i < j" "j < length m"
    show "cmp (key_data (fst (m ! j))) target = Greater"
      if "cmp (key_data (fst (m ! i))) target = Greater"
      using that le [OF ij] by (auto simp: cmp_def split: if_splits)
    show "cmp (key_data (fst (m ! i))) target = Less"
      if "cmp (key_data (fst (m ! j))) target = Less"
      using that le [OF ij] by (auto simp: cmp_def split: if_splits)
  qed
qed

section \<open>Properties\<close>

text \<open>
  C25: snapshot reads of the memtable. After any sequence of puts and deletes, a read of a
  key at a timestamp answers the value (or tombstone) written at the greatest timestamp not
  above it, and nothing when there is none; an exact read answers the last write of that
  very version.
\<close>

theorem memtable_snapshot_read:
  "(mt_get_at_ts (mt.write_all ws new_memtable) kd t = Some v \<longleftrightarrow>
      visible_at (map_of (rev ws)) kd t v) \<and>
   (mt_get_at_ts (mt.write_all ws new_memtable) kd t = None \<longleftrightarrow>
      (\<nexists>t0. t0 \<le> t \<and> map_of (rev ws) (Key kd t0) \<noteq> None)) \<and>
   mt_get (mt.write_all ws new_memtable) k = map_of (rev ws) k"
  using mt.read_written_history [of ws kd t] mt.write_all_contents [OF skip_ok_new(1), of ws]
  by (simp add: mt_get_def skip_ok_new(2))

text \<open>
  The memtable iterator. After \<open>seek\<close> it stands at a position of the table's entries
  with no user key below the target after it and none above the target before it, so every
  entry of a user key above the target is visited; it is valid when any entry reaches the
  target.
\<close>

lemma seek_position:
  assumes "skip_ok (mt_map mt)"
  shows "\<exists>n \<le> length (mt_map mt). mti_index (mt_iter_seek target (mt_iter_new mt)) = n \<and>
    (\<forall>i < length (mt_map mt). if i < n then key_data (fst (mt_map mt ! i)) \<le> target
       else target \<le> key_data (fst (mt_map mt ! i)))"
proof -
  let ?m = "mt_map mt"
  let ?f = "\<lambda>i. cmp (key_data (fst (?m ! i))) target"
  note sorted = seek_partitioned [OF assms, of target]
  from sorted show ?thesis
  proof (cases rule: binary_search_by_cases)
    case (found i)
    have "key_data (fst (?m ! j)) \<le> target" if "j < i" for j
    proof -
      have "?f j = Greater \<longrightarrow> ?f i = Greater"
        using sorted that found(2) unfolding partitioned_def by blast
      with found(3) show ?thesis by (auto simp: cmp_def split: if_splits)
    qed
    moreover have "target \<le> key_data (fst (?m ! j))" if "i \<le> j" "j < length ?m" for j
      using found(3) found(4) [of j] that
      by (cases "i = j") (auto simp: cmp_def split: if_splits)
    ultimately show ?thesis
      using found(1,2) by (auto simp: mt_iter_seek_def mt_iter_new_def intro!: exI [of _ i])
  next
    case (missing i)
    have "key_data (fst (?m ! j)) < target" if "j < i" for j
      using missing(3) [OF that] by (auto simp: cmp_def split: if_splits)
    moreover have "target \<le> key_data (fst (?m ! j))" if "i \<le> j" "j < length ?m" for j
      using missing(4) [OF that] by (auto simp: cmp_def split: if_splits)
    ultimately show ?thesis
      using missing(1,2)
      by (auto simp: mt_iter_seek_def mt_iter_new_def less_imp_le intro!: exI [of _ i])
  qed
qed

theorem memtable_seek_exact:
  assumes "skip_ok (mt_map mt)"
    and "it = mt_iter_seek target (mt_iter_new mt)"
  shows "filter (\<lambda>e. target < key_data (fst e)) (mt_iter_rest it) =
           filter (\<lambda>e. target < key_data (fst e)) (mt_map mt) \<and>
    (\<forall>e. e \<in> set (mt_iter_rest it) \<longrightarrow> target \<le> key_data (fst e)) \<and>
    (mt_iter_is_valid it \<longleftrightarrow> mt_iter_rest it \<noteq> [])"
proof -
  let ?m = "mt_map mt"
  obtain n where n: "n \<le> length ?m" "mti_index it = n"
    and pos: "\<And>i. i < length ?m \<Longrightarrow> if i < n then key_data (fst (?m ! i)) \<le> target
       else target \<le> key_data (fst (?m ! i))"
    using seek_position [OF assms(1), of target] assms(2) by blast
  have entries: "mti_entries it = ?m" by (simp add: assms(2) mt_iter_seek_def mt_iter_new_def)
  have "filter (\<lambda>e. target < key_data (fst e)) (take n ?m) = []"
  proof -
    have "key_data (fst (?m ! i)) \<le> target" if "i < n" for i
      using pos [of i] that n(1) by simp
    then show ?thesis
      by (auto simp: filter_empty_conv in_set_conv_nth not_less) (metis fst_conv)
  qed
  then have "filter (\<lambda>e. target < key_data (fst e)) (drop n ?m) =
      filter (\<lambda>e. target < key_data (fst e)) ?m"
    by (metis append_Nil append_take_drop_id filter_append)
  moreover have "target \<le> key_data (fst e)" if "e \<in> set (drop n ?m)" for e
  proof -
    from that obtain i where "e = ?m ! (n + i)" "n + i < length ?m"
      by (auto simp: in_set_conv_nth)
    with pos [of "n + i"] show ?thesis by simp
  qed
  ultimately show ?thesis
    by (auto simp: mt_iter_rest_def mt_iter_is_valid_def entries n(2))
qed

lemma memtable_seek_exact_witness:
  "mt_iter_is_valid (mt_iter_seek [2] (mt_iter_new
      \<lparr>mt_map = [(Key [1] 4, Some [9]), (Key [3] 7, None), (Key [3] 2, Some [])], mt_size = 3\<rparr>))"
proof -
  let ?mt = "\<lparr>mt_map = [(Key [1] 4, Some [9]), (Key [3] 7, None), (Key [3] 2, Some [])], mt_size = 3\<rparr>"
  have "skip_ok (mt_map ?mt)" by (simp add: skip_ok_def key_less_iff)
  from memtable_seek_exact [OF this refl, of "[2]"] show ?thesis by fastforce
qed

end
