(* ===== verification/Iterators.thy ===== *)
theory Iterators
  imports Memtable
begin

text \<open>
  \<open>crabstash-storage/src/iterator.rs\<close>: the trait \<open>StorageIterator\<close> and its adaptors. The
  trait is a record of operations; an adaptor takes the record of its inner iterator, as the
  generic code takes its type parameter. The locale \<open>storage_iterator\<close> is the contract: an
  iterator stands before a list of remaining entries. Each adaptor keeps it, so that the
  compositions in \<open>lsm.rs\<close> have it as well.
\<close>

section \<open>The trait\<close>

type_synonym versions = "(key \<times> bytes option) list"

text \<open>\<open>next\<close> may fail to return (\<open>None\<close>); the state after an error is kept.\<close>

record 'i storage_iter =
  it_key :: "'i \<Rightarrow> (error, key) result"
  it_value :: "'i \<Rightarrow> (error, bytes option) result"
  it_valid :: "'i \<Rightarrow> bool"
  it_next :: "'i \<Rightarrow> ('i \<times> (error, unit) result) option"

locale storage_iterator =
  fixes ops :: "'i storage_iter"
    and ok :: "'i \<Rightarrow> bool"
    and rest :: "'i \<Rightarrow> versions"
  assumes valid_iff: "ok i \<Longrightarrow> it_valid ops i \<longleftrightarrow> rest i \<noteq> []"
    and key_hd: "ok i \<Longrightarrow> rest i \<noteq> [] \<Longrightarrow> it_key ops i = Ok (fst (hd (rest i)))"
    and value_hd: "ok i \<Longrightarrow> rest i \<noteq> [] \<Longrightarrow> it_value ops i = Ok (snd (hd (rest i)))"
    and next_ok: "ok i \<Longrightarrow> rest i \<noteq> [] \<Longrightarrow>
      \<exists>i'. it_next ops i = Some (i', Ok ()) \<and> ok i' \<and> rest i' = tl (rest i)"

text \<open>A client's loop \<open>while it.is_valid() { ...; it.next()? }\<close>, with a bound on its rounds.\<close>

fun drain :: "'i storage_iter \<Rightarrow> nat \<Rightarrow> 'i \<Rightarrow> (error, versions) result option" where
  "drain ops 0 i = None"
| "drain ops (Suc n) i =
     (if \<not> it_valid ops i then Some (Ok [])
      else case (it_key ops i, it_value ops i) of
        (Ok k, Ok v) \<Rightarrow>
          (case it_next ops i of
             Some (i', Ok _) \<Rightarrow>
               map_option (\<lambda>r. bind_result r (\<lambda>es. Ok ((k, v) # es))) (drain ops n i')
           | Some (_, Err e) \<Rightarrow> Some (Err e)
           | Some (_, Panic) \<Rightarrow> Some Panic
           | None \<Rightarrow> None)
      | _ \<Rightarrow> Some Panic)"

context storage_iterator
begin

lemma drain_rest: "ok i \<Longrightarrow> length (rest i) < n \<Longrightarrow> drain ops n i = Some (Ok (rest i))"
proof (induction n arbitrary: i)
  case (Suc n)
  show ?case
  proof (cases "rest i")
    case Nil
    with Suc.prems show ?thesis by (simp add: valid_iff)
  next
    case (Cons e r)
    then obtain i' where "it_next ops i = Some (i', Ok ())" "ok i'" "rest i' = r"
      using next_ok [OF Suc.prems(1)] by auto
    with Suc Cons show ?thesis
      by (simp add: valid_iff key_hd value_hd)
  qed
qed simp

end

section \<open>The merge iterator\<close>

text \<open>
  A \<open>HeapEntry\<close> is an iterator with its index; the binary heap is its contents, and its
  greatest element is found with \<open>Ord for HeapEntry\<close>: the smallest key, and for equal keys
  the greatest index.
\<close>

type_synonym 'i heap_entry = "'i \<times> nat"

definition heap_entry_cmp :: "'i storage_iter \<Rightarrow> 'i heap_entry \<Rightarrow> 'i heap_entry \<Rightarrow> (error, ordering) result" where
  "heap_entry_cmp ops self other =
     bind_result (it_key ops (fst other)) (\<lambda>other_key.
     bind_result (it_key ops (fst self)) (\<lambda>self_key.
       Ok (then_ordering (cmp other_key self_key) (cmp (snd self) (snd other)))))"

fun heap_max ::
  "'i storage_iter \<Rightarrow> 'i heap_entry \<Rightarrow> 'i heap_entry list \<Rightarrow> (error, 'i heap_entry) result" where
  "heap_max ops m [] = Ok m"
| "heap_max ops m (e # es) =
     bind_result (heap_entry_cmp ops e m) (\<lambda>c.
       heap_max ops (if c = Greater then e else m) es)"

fun heap_peek :: "'i storage_iter \<Rightarrow> 'i heap_entry list \<Rightarrow> (error, 'i heap_entry option) result" where
  "heap_peek ops [] = Ok None"
| "heap_peek ops (e # es) = bind_result (heap_max ops e es) (\<lambda>m. Ok (Some m))"

definition heap_push :: "'i heap_entry \<Rightarrow> 'i heap_entry list \<Rightarrow> 'i heap_entry list" where
  "heap_push e h = e # h"

text \<open>The entries of a heap have different indices.\<close>

definition heap_remove :: "'i heap_entry \<Rightarrow> 'i heap_entry list \<Rightarrow> 'i heap_entry list" where
  "heap_remove m h = filter (\<lambda>e. snd e \<noteq> snd m) h"

definition heap_pop ::
  "'i storage_iter \<Rightarrow> 'i heap_entry list \<Rightarrow> (error, 'i heap_entry option \<times> 'i heap_entry list) result" where
  "heap_pop ops h =
     bind_result (heap_peek ops h) (\<lambda>m.
       Ok (m, case m of Some m \<Rightarrow> heap_remove m h | None \<Rightarrow> h))"

record 'i merge_iter =
  mg_heap :: "'i heap_entry list"
  mg_current :: "'i heap_entry option"

definition merge_new :: "'i storage_iter \<Rightarrow> 'i list \<Rightarrow> (error, 'i merge_iter) result" where
  "merge_new ops iters =
     (let heap = filter (\<lambda>(i, _). it_valid ops i) (zip iters [0..<length iters]) in
      bind_result (heap_pop ops heap) (\<lambda>(current, heap').
        Ok \<lparr>mg_heap = heap', mg_current = current\<rparr>))"

text \<open>The loop over the entries of other iterators with the user key just passed.\<close>

partial_function (option) skip_duplicates ::
  "'i storage_iter \<Rightarrow> bytes \<Rightarrow> 'i heap_entry list \<Rightarrow> ('i heap_entry list \<times> (error, unit) result) option" where
  "skip_duplicates ops data h =
     (case heap_peek ops h of
        Ok None \<Rightarrow> Some (h, Ok ())
      | Ok (Some m) \<Rightarrow>
          (case it_key ops (fst m) of
             Ok k \<Rightarrow>
               if key_data k \<noteq> data then Some (h, Ok ())
               else
                 (case it_next ops (fst m) of
                    None \<Rightarrow> None
                  | Some (i', Ok _) \<Rightarrow>
                      skip_duplicates ops data
                        (if it_valid ops i' then heap_push (i', snd m) (heap_remove m h)
                         else heap_remove m h)
                  | Some (i', Err e) \<Rightarrow> Some (heap_remove m h, Err e)
                  | Some (i', Panic) \<Rightarrow> Some (heap_remove m h, Panic))
           | Err e \<Rightarrow> Some (h, Err e)
           | Panic \<Rightarrow> Some (h, Panic))
      | Err e \<Rightarrow> Some (h, Err e)
      | Panic \<Rightarrow> Some (h, Panic))"

definition merge_next ::
  "'i storage_iter \<Rightarrow> 'i merge_iter \<Rightarrow> ('i merge_iter \<times> (error, unit) result) option" where
  "merge_next ops m =
     (case mg_current m of
        None \<Rightarrow> Some (m, Panic)
      | Some entry \<Rightarrow>
          let m1 = m\<lparr>mg_current := None\<rparr> in
          (case it_key ops (fst entry) of
             Ok current_key \<Rightarrow>
               (case it_next ops (fst entry) of
                  None \<Rightarrow> None
                | Some (i', Ok _) \<Rightarrow>
                    let heap1 = (if it_valid ops i' then heap_push (i', snd entry) (mg_heap m)
                                 else mg_heap m)
                    in (case skip_duplicates ops (key_data current_key) heap1 of
                          None \<Rightarrow> None
                        | Some (heap2, Ok _) \<Rightarrow>
                            (case heap_pop ops heap2 of
                               Ok (current, heap3) \<Rightarrow>
                                 Some (\<lparr>mg_heap = heap3, mg_current = current\<rparr>, Ok ())
                             | Err e \<Rightarrow> Some (m1\<lparr>mg_heap := heap2\<rparr>, Err e)
                             | Panic \<Rightarrow> Some (m1\<lparr>mg_heap := heap2\<rparr>, Panic))
                        | Some (heap2, r) \<Rightarrow> Some (m1\<lparr>mg_heap := heap2\<rparr>, r))
                | Some (_, r) \<Rightarrow> Some (m1, r))
           | Err e \<Rightarrow> Some (m1, Err e)
           | Panic \<Rightarrow> Some (m1, Panic)))"

definition merge_ops :: "'i storage_iter \<Rightarrow> 'i merge_iter storage_iter" where
  "merge_ops ops =
     \<lparr>it_key = (\<lambda>m. case mg_current m of Some e \<Rightarrow> it_key ops (fst e) | None \<Rightarrow> Panic),
      it_value = (\<lambda>m. case mg_current m of Some e \<Rightarrow> it_value ops (fst e) | None \<Rightarrow> Panic),
      it_valid = (\<lambda>m. mg_current m \<noteq> None),
      it_next = merge_next ops\<rparr>"

section \<open>The two-way merge iterator\<close>

record ('a, 'b) two_merge_iter =
  tm_a :: 'a
  tm_b :: 'b
  tm_use_a :: bool

definition choose_a :: "'a storage_iter \<Rightarrow> 'b storage_iter \<Rightarrow> 'a \<Rightarrow> 'b \<Rightarrow> (error, bool) result" where
  "choose_a oa ob a b =
     (if \<not> it_valid oa a then Ok False
      else if \<not> it_valid ob b then Ok True
      else bind_result (it_key oa a) (\<lambda>ka. bind_result (it_key ob b) (\<lambda>kb. Ok (ka \<le> kb))))"

definition two_merge_new ::
  "'a storage_iter \<Rightarrow> 'b storage_iter \<Rightarrow> 'a \<Rightarrow> 'b \<Rightarrow> (error, ('a, 'b) two_merge_iter) result" where
  "two_merge_new oa ob a b =
     bind_result (choose_a oa ob a b) (\<lambda>use_a. Ok \<lparr>tm_a = a, tm_b = b, tm_use_a = use_a\<rparr>)"

text \<open>Whether the entry of \<open>b\<close> is of the user key \<open>a\<close> stands on.\<close>

definition same_user_key :: "'a storage_iter \<Rightarrow> 'b storage_iter \<Rightarrow> 'a \<Rightarrow> 'b \<Rightarrow> (error, bool) result" where
  "same_user_key oa ob a b =
     (if \<not> it_valid ob b then Ok False
      else bind_result (it_key oa a) (\<lambda>ka.
           bind_result (it_key ob b) (\<lambda>kb. Ok (key_data ka = key_data kb))))"

text \<open>The recomputation of \<open>use_a\<close> at the end of \<open>next\<close>, after steps that answered \<open>r\<close>.\<close>

definition two_merge_settle ::
  "'a storage_iter \<Rightarrow> 'b storage_iter \<Rightarrow> ('a, 'b) two_merge_iter \<Rightarrow> (error, unit) result \<Rightarrow>
   ('a, 'b) two_merge_iter \<times> (error, unit) result" where
  "two_merge_settle oa ob t r =
     (case r of
        Ok _ \<Rightarrow>
          (case choose_a oa ob (tm_a t) (tm_b t) of
             Ok use_a \<Rightarrow> (t\<lparr>tm_use_a := use_a\<rparr>, Ok ())
           | Err e \<Rightarrow> (t, Err e)
           | Panic \<Rightarrow> (t, Panic))
      | _ \<Rightarrow> (t, r))"

definition two_merge_next ::
  "'a storage_iter \<Rightarrow> 'b storage_iter \<Rightarrow> ('a, 'b) two_merge_iter \<Rightarrow>
   (('a, 'b) two_merge_iter \<times> (error, unit) result) option" where
  "two_merge_next oa ob t =
     (if tm_use_a t then
        (case same_user_key oa ob (tm_a t) (tm_b t) of
           Ok same \<Rightarrow>
             (case (if same then it_next ob (tm_b t) else Some (tm_b t, Ok ())) of
                None \<Rightarrow> None
              | Some (b', Ok _) \<Rightarrow>
                  (case it_next oa (tm_a t) of
                     None \<Rightarrow> None
                   | Some (a', r) \<Rightarrow> Some (two_merge_settle oa ob (t\<lparr>tm_a := a', tm_b := b'\<rparr>) r))
              | Some (b', r) \<Rightarrow> Some (t\<lparr>tm_b := b'\<rparr>, r))
         | Err e \<Rightarrow> Some (t, Err e)
         | Panic \<Rightarrow> Some (t, Panic))
      else
        (case it_next ob (tm_b t) of
           None \<Rightarrow> None
         | Some (b', r) \<Rightarrow> Some (two_merge_settle oa ob (t\<lparr>tm_b := b'\<rparr>) r)))"

definition two_merge_ops ::
  "'a storage_iter \<Rightarrow> 'b storage_iter \<Rightarrow> ('a, 'b) two_merge_iter storage_iter" where
  "two_merge_ops oa ob =
     \<lparr>it_key = (\<lambda>t. if tm_use_a t then it_key oa (tm_a t) else it_key ob (tm_b t)),
      it_value = (\<lambda>t. if tm_use_a t then it_value oa (tm_a t) else it_value ob (tm_b t)),
      it_valid = (\<lambda>t. it_valid oa (tm_a t) \<or> it_valid ob (tm_b t)),
      it_next = two_merge_next oa ob\<rparr>"

section \<open>The bounded iterator\<close>

record 'i bounded_iter =
  bd_inner :: 'i
  bd_end :: "bytes bound"
  bd_valid :: bool

text \<open>A panic of \<open>key\<close> inside \<open>check_bound\<close> is the result of the call that makes it.\<close>

definition check_bound :: "'i storage_iter \<Rightarrow> 'i bounded_iter \<Rightarrow> (error, 'i bounded_iter) result" where
  "check_bound ops b =
     (if \<not> it_valid ops (bd_inner b) then Ok (b\<lparr>bd_valid := False\<rparr>)
      else bind_result (it_key ops (bd_inner b)) (\<lambda>k.
        Ok (b\<lparr>bd_valid := below_end (bd_end b) (key_data k)\<rparr>)))"

definition bounded_new :: "'i storage_iter \<Rightarrow> 'i \<Rightarrow> bytes bound \<Rightarrow> (error, 'i bounded_iter) result" where
  "bounded_new ops inner e = check_bound ops \<lparr>bd_inner = inner, bd_end = e, bd_valid = True\<rparr>"

definition bounded_next ::
  "'i storage_iter \<Rightarrow> 'i bounded_iter \<Rightarrow> ('i bounded_iter \<times> (error, unit) result) option" where
  "bounded_next ops b =
     (case it_next ops (bd_inner b) of
        None \<Rightarrow> None
      | Some (i', Ok _) \<Rightarrow>
          (case check_bound ops (b\<lparr>bd_inner := i'\<rparr>) of
             Ok b' \<Rightarrow> Some (b', Ok ())
           | Err e \<Rightarrow> Some (b\<lparr>bd_inner := i'\<rparr>, Err e)
           | Panic \<Rightarrow> Some (b\<lparr>bd_inner := i'\<rparr>, Panic))
      | Some (i', r) \<Rightarrow> Some (b\<lparr>bd_inner := i'\<rparr>, r))"

definition bounded_ops :: "'i storage_iter \<Rightarrow> 'i bounded_iter storage_iter" where
  "bounded_ops ops =
     \<lparr>it_key = (\<lambda>b. it_key ops (bd_inner b)),
      it_value = (\<lambda>b. it_value ops (bd_inner b)),
      it_valid = (\<lambda>b. bd_valid b \<and> it_valid ops (bd_inner b)),
      it_next = bounded_next ops\<rparr>"

section \<open>The snapshot iterator\<close>

record 'i snapshot_iter =
  sn_inner :: 'i
  sn_ts :: ts
  sn_last_key :: "bytes option"

text \<open>Errors of the inner iterator are dropped here: the loop goes on with its state.\<close>

partial_function (option) advance_to_visible ::
  "'i storage_iter \<Rightarrow> ts \<Rightarrow> 'i \<Rightarrow> bytes option \<Rightarrow> (error, 'i \<times> bytes option) result option" where
  "advance_to_visible ops t i last_key =
     (if it_valid ops i then
        (case it_key ops i of
           Ok k \<Rightarrow>
             if last_key = Some (key_data k) then
               (case it_next ops i of
                  None \<Rightarrow> None
                | Some (i', r) \<Rightarrow>
                    if r = Panic then Some Panic else advance_to_visible ops t i' last_key)
             else if key_timestamp k \<le> t then Some (Ok (i, last_key))
             else
               (case it_next ops i of
                  None \<Rightarrow> None
                | Some (i', r) \<Rightarrow>
                    if r = Panic then Some Panic
                    else advance_to_visible ops t i' (Some (key_data k)))
         | Err e \<Rightarrow> Some (Err e)
         | Panic \<Rightarrow> Some Panic)
      else Some (Ok (i, last_key)))"

definition snapshot_new :: "'i storage_iter \<Rightarrow> 'i \<Rightarrow> ts \<Rightarrow> (error, 'i snapshot_iter) result option" where
  "snapshot_new ops inner t =
     map_option (\<lambda>r. bind_result r (\<lambda>(i, lk). Ok \<lparr>sn_inner = i, sn_ts = t, sn_last_key = lk\<rparr>))
       (advance_to_visible ops t inner None)"

definition snapshot_next ::
  "'i storage_iter \<Rightarrow> 'i snapshot_iter \<Rightarrow> ('i snapshot_iter \<times> (error, unit) result) option" where
  "snapshot_next ops s =
     (case it_key ops (sn_inner s) of
        Ok k \<Rightarrow>
          let s1 = s\<lparr>sn_last_key := Some (key_data k)\<rparr> in
          (case it_next ops (sn_inner s) of
             None \<Rightarrow> None
           | Some (i', Ok _) \<Rightarrow>
               (case advance_to_visible ops (sn_ts s) i' (Some (key_data k)) of
                  None \<Rightarrow> None
                | Some (Ok (i2, lk)) \<Rightarrow> Some (s1\<lparr>sn_inner := i2, sn_last_key := lk\<rparr>, Ok ())
                | Some (Err e) \<Rightarrow> Some (s1\<lparr>sn_inner := i'\<rparr>, Err e)
                | Some Panic \<Rightarrow> Some (s1\<lparr>sn_inner := i'\<rparr>, Panic))
           | Some (i', r) \<Rightarrow> Some (s1\<lparr>sn_inner := i'\<rparr>, r))
      | Err e \<Rightarrow> Some (s, Err e)
      | Panic \<Rightarrow> Some (s, Panic))"

definition snapshot_ops :: "'i storage_iter \<Rightarrow> 'i snapshot_iter storage_iter" where
  "snapshot_ops ops =
     \<lparr>it_key = (\<lambda>s. it_key ops (sn_inner s)),
      it_value = (\<lambda>s. it_value ops (sn_inner s)),
      it_valid = (\<lambda>s. it_valid ops (sn_inner s)),
      it_next = snapshot_next ops\<rparr>"

section \<open>The bounded iterator keeps the contract\<close>

definition bounded_inv :: "('i \<Rightarrow> bool) \<Rightarrow> ('i \<Rightarrow> versions) \<Rightarrow> 'i bounded_iter \<Rightarrow> bool" where
  "bounded_inv ok rest b \<longleftrightarrow> ok (bd_inner b) \<and>
     (bd_valid b \<longleftrightarrow> rest (bd_inner b) \<noteq> [] \<and>
        below_end (bd_end b) (key_data (fst (hd (rest (bd_inner b))))))"

definition bounded_rest :: "('i \<Rightarrow> versions) \<Rightarrow> 'i bounded_iter \<Rightarrow> versions" where
  "bounded_rest rest b = takeWhile (\<lambda>e. below_end (bd_end b) (key_data (fst e))) (rest (bd_inner b))"

context storage_iterator
begin

lemma check_bound_ok:
  "ok (bd_inner b) \<Longrightarrow> \<exists>b'. check_bound ops b = Ok b' \<and> bounded_inv ok rest b' \<and>
     bd_inner b' = bd_inner b \<and> bd_end b' = bd_end b"
  by (auto simp: check_bound_def bounded_inv_def valid_iff key_hd)

lemma bounded_new_ok:
  "ok i \<Longrightarrow> \<exists>b. bounded_new ops i e = Ok b \<and> bounded_inv ok rest b \<and>
     bounded_rest rest b = takeWhile (\<lambda>x. below_end e (key_data (fst x))) (rest i)"
  using check_bound_ok [of "\<lparr>bd_inner = i, bd_end = e, bd_valid = True\<rparr>"]
  by (auto simp: bounded_new_def bounded_rest_def)

lemma bounded_contract: "storage_iterator (bounded_ops ops) (bounded_inv ok rest) (bounded_rest rest)"
proof
  fix b
  assume ok: "bounded_inv ok rest b"
  let ?r = "rest (bd_inner b)"
  show "it_valid (bounded_ops ops) b \<longleftrightarrow> bounded_rest rest b \<noteq> []"
    using ok by (cases ?r) (auto simp: bounded_inv_def bounded_rest_def bounded_ops_def valid_iff)
  assume ne: "bounded_rest rest b \<noteq> []"
  then obtain e r where r: "?r = e # r" "below_end (bd_end b) (key_data (fst e))"
    by (cases ?r) (auto simp: bounded_rest_def split: if_splits)
  with ok show "it_key (bounded_ops ops) b = Ok (fst (hd (bounded_rest rest b)))"
    "it_value (bounded_ops ops) b = Ok (snd (hd (bounded_rest rest b)))"
    by (simp_all add: bounded_ops_def bounded_inv_def bounded_rest_def key_hd value_hd)
  obtain i' where i': "it_next ops (bd_inner b) = Some (i', Ok ())" "ok i'" "rest i' = r"
    using next_ok [of "bd_inner b"] ok r(1) by (auto simp: bounded_inv_def)
  obtain b' where "check_bound ops (b\<lparr>bd_inner := i'\<rparr>) = Ok b'" "bounded_inv ok rest b'"
    "bd_inner b' = i'" "bd_end b' = bd_end b"
    using check_bound_ok [of "b\<lparr>bd_inner := i'\<rparr>"] i'(2) by auto
  with i' r show "\<exists>b'. it_next (bounded_ops ops) b = Some (b', Ok ()) \<and> bounded_inv ok rest b' \<and>
      bounded_rest rest b' = tl (bounded_rest rest b)"
    by (simp add: bounded_ops_def bounded_next_def bounded_rest_def)
qed

end

section \<open>The snapshot iterator keeps the contract\<close>

text \<open>
  What it lets through: the first entry of a user key, if it is not newer than the
  snapshot; every other entry of that user key is passed over.
\<close>

fun snap_from :: "ts \<Rightarrow> bytes option \<Rightarrow> versions \<Rightarrow> versions" where
  "snap_from t lk [] = []"
| "snap_from t lk (e # r) =
     (if lk = Some (key_data (fst e)) then snap_from t lk r
      else if key_timestamp (fst e) \<le> t then e # snap_from t (Some (key_data (fst e))) r
      else snap_from t (Some (key_data (fst e))) r)"

definition snapshot_inv :: "('i \<Rightarrow> bool) \<Rightarrow> ('i \<Rightarrow> versions) \<Rightarrow> 'i snapshot_iter \<Rightarrow> bool" where
  "snapshot_inv ok rest s \<longleftrightarrow> ok (sn_inner s) \<and>
     (rest (sn_inner s) = [] \<or>
      sn_last_key s \<noteq> Some (key_data (fst (hd (rest (sn_inner s))))) \<and>
      key_timestamp (fst (hd (rest (sn_inner s)))) \<le> sn_ts s)"

definition snapshot_rest :: "('i \<Rightarrow> versions) \<Rightarrow> 'i snapshot_iter \<Rightarrow> versions" where
  "snapshot_rest rest s = snap_from (sn_ts s) (sn_last_key s) (rest (sn_inner s))"

context storage_iterator
begin

lemma advance_ok:
  "ok i \<Longrightarrow> \<exists>i' lk'. advance_to_visible ops t i lk = Some (Ok (i', lk')) \<and> ok i' \<and>
     snap_from t lk' (rest i') = snap_from t lk (rest i) \<and>
     (rest i' = [] \<or> lk' \<noteq> Some (key_data (fst (hd (rest i')))) \<and>
        key_timestamp (fst (hd (rest i'))) \<le> t)"
proof (induction "rest i" arbitrary: i lk)
  case Nil
  then show ?case
    by (subst advance_to_visible.simps) (simp add: valid_iff)
next
  case (Cons e r)
  from Cons.hyps(2) have r: "rest i = e # r" by simp
  obtain i1 where i1: "it_next ops i = Some (i1, Ok ())" "ok i1" "rest i1 = r"
    using next_ok [OF Cons.prems] r by auto
  have key: "it_valid ops i" "it_key ops i = Ok (fst e)"
    using Cons.prems r by (simp_all add: valid_iff key_hd)
  consider "lk = Some (key_data (fst e))"
    | "lk \<noteq> Some (key_data (fst e))" "key_timestamp (fst e) \<le> t"
    | "lk \<noteq> Some (key_data (fst e))" "\<not> key_timestamp (fst e) \<le> t"
    by blast
  then show ?case
  proof cases
    case 1
    then have "advance_to_visible ops t i lk = advance_to_visible ops t i1 lk"
      using key i1 by (subst advance_to_visible.simps) simp
    with Cons.hyps(1) [OF i1(3) [symmetric] i1(2), of lk] 1 r i1(3) show ?thesis by simp
  next
    case 2
    then have "advance_to_visible ops t i lk = Some (Ok (i, lk))"
      using key by (subst advance_to_visible.simps) simp
    with 2 r Cons.prems show ?thesis by simp
  next
    case 3
    then have "advance_to_visible ops t i lk =
        advance_to_visible ops t i1 (Some (key_data (fst e)))"
      using key i1 by (subst advance_to_visible.simps) simp
    with Cons.hyps(1) [OF i1(3) [symmetric] i1(2), of "Some (key_data (fst e))"] 3 r i1(3)
    show ?thesis by simp
  qed
qed

lemma snapshot_new_ok:
  "ok i \<Longrightarrow> \<exists>s. snapshot_new ops i t = Some (Ok s) \<and> snapshot_inv ok rest s \<and>
     snapshot_rest rest s = snap_from t None (rest i)"
  using advance_ok [of i t None]
  by (auto simp: snapshot_new_def snapshot_inv_def snapshot_rest_def)

lemma snapshot_contract: "storage_iterator (snapshot_ops ops) (snapshot_inv ok rest) (snapshot_rest rest)"
proof
  fix s
  assume ok: "snapshot_inv ok rest s"
  let ?r = "rest (sn_inner s)"
  have ne: "snapshot_rest rest s = (case ?r of [] \<Rightarrow> []
      | e # r \<Rightarrow> e # snap_from (sn_ts s) (Some (key_data (fst e))) r)"
    using ok by (cases ?r) (auto simp: snapshot_inv_def snapshot_rest_def)
  then show "it_valid (snapshot_ops ops) s \<longleftrightarrow> snapshot_rest rest s \<noteq> []"
    using ok by (auto simp: snapshot_inv_def snapshot_ops_def valid_iff split: list.split)
  assume "snapshot_rest rest s \<noteq> []"
  with ne obtain e r where r: "?r = e # r"
    "snapshot_rest rest s = e # snap_from (sn_ts s) (Some (key_data (fst e))) r"
    by (auto split: list.splits)
  with ok show "it_key (snapshot_ops ops) s = Ok (fst (hd (snapshot_rest rest s)))"
    "it_value (snapshot_ops ops) s = Ok (snd (hd (snapshot_rest rest s)))"
    by (simp_all add: snapshot_ops_def snapshot_inv_def key_hd value_hd)
  obtain i' where i': "it_next ops (sn_inner s) = Some (i', Ok ())" "ok i'" "rest i' = r"
    using next_ok [of "sn_inner s"] ok r(1) by (auto simp: snapshot_inv_def)
  have "it_key ops (sn_inner s) = Ok (fst e)"
    using ok r(1) by (simp add: snapshot_inv_def key_hd)
  with i' advance_ok [OF i'(2), of "sn_ts s" "Some (key_data (fst e))"] r
  show "\<exists>s'. it_next (snapshot_ops ops) s = Some (s', Ok ()) \<and> snapshot_inv ok rest s' \<and>
      snapshot_rest rest s' = tl (snapshot_rest rest s)"
    by (auto simp: snapshot_ops_def snapshot_next_def snapshot_inv_def snapshot_rest_def)
qed

end

section \<open>The two-way merge iterator keeps the contract\<close>

fun merge2 :: "versions \<Rightarrow> versions \<Rightarrow> versions" where
  "merge2 [] bs = bs"
| "merge2 as [] = as"
| "merge2 (a # as) (b # bs) =
     (if fst a \<le> fst b then
        a # merge2 as (if key_data (fst a) = key_data (fst b) then bs else b # bs)
      else b # merge2 (a # as) bs)"

lemma merge2_Nil [simp]: "merge2 as [] = as"
  by (cases as) simp_all

definition two_merge_rest ::
  "('a \<Rightarrow> versions) \<Rightarrow> ('b \<Rightarrow> versions) \<Rightarrow> ('a, 'b) two_merge_iter \<Rightarrow> versions" where
  "two_merge_rest resta restb t = merge2 (resta (tm_a t)) (restb (tm_b t))"

definition two_merge_inv ::
  "('a \<Rightarrow> bool) \<Rightarrow> ('a \<Rightarrow> versions) \<Rightarrow> ('b \<Rightarrow> bool) \<Rightarrow> ('b \<Rightarrow> versions) \<Rightarrow>
   ('a, 'b) two_merge_iter \<Rightarrow> bool" where
  "two_merge_inv oka resta okb restb t \<longleftrightarrow>
     oka (tm_a t) \<and> okb (tm_b t) \<and>
     (tm_use_a t \<longleftrightarrow> resta (tm_a t) \<noteq> [] \<and>
        (restb (tm_b t) = [] \<or> fst (hd (resta (tm_a t))) \<le> fst (hd (restb (tm_b t)))))"

locale two_iterators =
  a: storage_iterator oa oka resta + b: storage_iterator ob okb restb
  for oa :: "'a storage_iter" and oka resta and ob :: "'b storage_iter" and okb restb
begin

lemma choose_a_ok:
  "oka a \<Longrightarrow> okb b \<Longrightarrow> choose_a oa ob a b =
     Ok (resta a \<noteq> [] \<and> (restb b = [] \<or> fst (hd (resta a)) \<le> fst (hd (restb b))))"
  by (simp add: choose_a_def a.valid_iff b.valid_iff a.key_hd b.key_hd)

lemma two_merge_new_ok:
  "oka a \<Longrightarrow> okb b \<Longrightarrow> \<exists>t. two_merge_new oa ob a b = Ok t \<and>
     two_merge_inv oka resta okb restb t \<and> two_merge_rest resta restb t = merge2 (resta a) (restb b)"
  by (simp add: two_merge_new_def choose_a_ok two_merge_inv_def two_merge_rest_def)

lemma settle_ok:
  "oka (tm_a t) \<Longrightarrow> okb (tm_b t) \<Longrightarrow>
   \<exists>t'. two_merge_settle oa ob t (Ok ()) = (t', Ok ()) \<and>
     two_merge_inv oka resta okb restb t' \<and> tm_a t' = tm_a t \<and> tm_b t' = tm_b t"
  by (simp add: two_merge_settle_def choose_a_ok two_merge_inv_def)

lemma same_user_key_ok:
  "oka a \<Longrightarrow> okb b \<Longrightarrow> resta a \<noteq> [] \<Longrightarrow> same_user_key oa ob a b =
     Ok (restb b \<noteq> [] \<and> key_data (fst (hd (resta a))) = key_data (fst (hd (restb b))))"
  by (simp add: same_user_key_def b.valid_iff a.key_hd b.key_hd)

lemma two_merge_step:
  assumes "two_merge_inv oka resta okb restb t" "two_merge_rest resta restb t \<noteq> []"
  shows "\<exists>t'. two_merge_next oa ob t = Some (t', Ok ()) \<and> two_merge_inv oka resta okb restb t' \<and>
    two_merge_rest resta restb t' = tl (two_merge_rest resta restb t)"
proof (cases "tm_use_a t")
  case True
  have ok: "oka (tm_a t)" "okb (tm_b t)" using assms(1) by (auto simp: two_merge_inv_def)
  obtain x as where as: "resta (tm_a t) = x # as"
    using assms(1) True by (cases "resta (tm_a t)") (auto simp: two_merge_inv_def)
  obtain a' where a': "it_next oa (tm_a t) = Some (a', Ok ())" "oka a'" "resta a' = as"
    using a.next_ok [OF ok(1)] as by auto
  let ?same = "restb (tm_b t) \<noteq> [] \<and> key_data (fst x) = key_data (fst (hd (restb (tm_b t))))"
  have same: "same_user_key oa ob (tm_a t) (tm_b t) = Ok ?same"
    using same_user_key_ok [OF ok] as by simp
  obtain b' where b': "(if ?same then it_next ob (tm_b t) else Some (tm_b t, Ok ())) = Some (b', Ok ())"
    "okb b'" "restb b' = (if ?same then tl (restb (tm_b t)) else restb (tm_b t))"
    using b.next_ok [OF ok(2)] ok(2) by (cases ?same) auto
  obtain t' where t': "two_merge_settle oa ob (t\<lparr>tm_a := a', tm_b := b'\<rparr>) (Ok ()) = (t', Ok ())"
    "two_merge_inv oka resta okb restb t'" "tm_a t' = a'" "tm_b t' = b'"
    using settle_ok [of "t\<lparr>tm_a := a', tm_b := b'\<rparr>"] a'(2) b'(2) by auto
  have "two_merge_next oa ob t = Some (t', Ok ())"
    using True same b'(1) a'(1) t'(1) by (simp add: two_merge_next_def)
  moreover have "two_merge_rest resta restb t' = tl (two_merge_rest resta restb t)"
    using assms(1) True as a'(3) b'(3) t'(3,4)
    by (cases "restb (tm_b t)") (auto simp: two_merge_rest_def two_merge_inv_def)
  ultimately show ?thesis using t'(2) by blast
next
  case False
  have ok: "oka (tm_a t)" "okb (tm_b t)" using assms(1) by (auto simp: two_merge_inv_def)
  obtain y bs where bs: "restb (tm_b t) = y # bs"
    using assms False by (cases "restb (tm_b t)") (auto simp: two_merge_inv_def two_merge_rest_def)
  obtain b' where b': "it_next ob (tm_b t) = Some (b', Ok ())" "okb b'" "restb b' = bs"
    using b.next_ok [OF ok(2)] bs by auto
  obtain t' where t': "two_merge_settle oa ob (t\<lparr>tm_b := b'\<rparr>) (Ok ()) = (t', Ok ())"
    "two_merge_inv oka resta okb restb t'" "tm_a t' = tm_a t" "tm_b t' = b'"
    using settle_ok [of "t\<lparr>tm_b := b'\<rparr>"] ok(1) b'(2) by auto
  have "two_merge_next oa ob t = Some (t', Ok ())"
    using False b'(1) t'(1) by (simp add: two_merge_next_def)
  moreover have "two_merge_rest resta restb t' = tl (two_merge_rest resta restb t)"
    using assms(1) False bs b'(3) t'(3,4)
    by (cases "resta (tm_a t)") (auto simp: two_merge_rest_def two_merge_inv_def)
  ultimately show ?thesis using t'(2) by blast
qed

lemma two_merge_contract:
  "storage_iterator (two_merge_ops oa ob) (two_merge_inv oka resta okb restb)
     (two_merge_rest resta restb)"
proof
  fix t
  assume ok: "two_merge_inv oka resta okb restb t"
  then have ab: "oka (tm_a t)" "okb (tm_b t)" by (auto simp: two_merge_inv_def)
  show "it_valid (two_merge_ops oa ob) t \<longleftrightarrow> two_merge_rest resta restb t \<noteq> []"
    using ab by (cases "resta (tm_a t)"; cases "restb (tm_b t)")
      (auto simp: two_merge_ops_def two_merge_rest_def a.valid_iff b.valid_iff)
  assume ne: "two_merge_rest resta restb t \<noteq> []"
  show "it_key (two_merge_ops oa ob) t = Ok (fst (hd (two_merge_rest resta restb t)))"
    "it_value (two_merge_ops oa ob) t = Ok (snd (hd (two_merge_rest resta restb t)))"
    using ok ab ne by (cases "resta (tm_a t)"; cases "restb (tm_b t)";
      auto simp: two_merge_ops_def two_merge_rest_def two_merge_inv_def a.key_hd b.key_hd
        a.value_hd b.value_hd)+
  show "\<exists>t'. it_next (two_merge_ops oa ob) t = Some (t', Ok ()) \<and>
      two_merge_inv oka resta okb restb t' \<and>
      two_merge_rest resta restb t' = tl (two_merge_rest resta restb t)"
    using two_merge_step [OF ok ne] by (simp add: two_merge_ops_def)
qed

end

end
