(* ===== verification/Merge.thy ===== *)
theory Merge
  imports Iterators
begin

text \<open>
  The merge iterator of \<open>iterator.rs\<close> keeps the contract of its inner iterators: what it
  yields is, for every user key of the sources in ascending order, one entry, the winner
  among the first entries of that user key in each source.
\<close>

section \<open>What a merge yields\<close>

type_synonym sources = "(nat \<times> versions) list"

abbreviation data_of :: "key \<times> bytes option \<Rightarrow> bytes" where
  "data_of e \<equiv> key_data (fst e)"

text \<open>The smaller key wins (the newer version); for equal keys the source of greater index.\<close>

definition beats :: "nat \<times> (key \<times> bytes option) \<Rightarrow> nat \<times> (key \<times> bytes option) \<Rightarrow> bool" where
  "beats x y \<longleftrightarrow> fst (snd x) < fst (snd y) \<or> fst (snd x) = fst (snd y) \<and> fst y < fst x"

fun best_of :: "(nat \<times> (key \<times> bytes option)) list \<Rightarrow> nat \<times> (key \<times> bytes option)" where
  "best_of [x] = x"
| "best_of (x # y # xs) = best_of ((if beats y x then y else x) # xs)"

definition candidates :: "sources \<Rightarrow> bytes \<Rightarrow> (nat \<times> (key \<times> bytes option)) list" where
  "candidates L d =
     map (\<lambda>(ix, l). (ix, hd (filter (\<lambda>e. data_of e = d) l)))
       (filter (\<lambda>(ix, l). d \<in> data_of ` set l) L)"

definition winner :: "sources \<Rightarrow> bytes \<Rightarrow> key \<times> bytes option" where
  "winner L d = snd (best_of (candidates L d))"

definition user_keys :: "sources \<Rightarrow> bytes list" where
  "user_keys L = concat (map (\<lambda>(ix, l). map data_of l) L)"

definition merge_out :: "sources \<Rightarrow> versions" where
  "merge_out L = map (winner L) (sort (remdups (user_keys L)))"

lemma beats_trans: "beats x y \<Longrightarrow> beats y z \<Longrightarrow> beats x z"
  by (auto simp: beats_def)

lemma beats_asym: "beats x y \<Longrightarrow> \<not> beats y x"
  by (auto simp: beats_def)

lemma beats_total: "fst x \<noteq> fst y \<Longrightarrow> beats x y \<or> beats y x"
  by (auto simp: beats_def)

lemma best_of_greatest:
  assumes "xs \<noteq> []" "\<And>x y. x \<in> set xs \<Longrightarrow> y \<in> set xs \<Longrightarrow> x = y \<or> beats x y \<or> beats y x"
  shows "best_of xs \<in> set xs \<and> (\<forall>y \<in> set xs. y = best_of xs \<or> beats (best_of xs) y)"
  using assms
proof (induction xs rule: best_of.induct)
  case (2 x y xs)
  define z where "z = (if beats y x then y else x)"
  define b where "b = best_of (z # xs)"
  have z: "z \<in> {x, y}" by (simp add: z_def)
  have "b \<in> set (z # xs) \<and> (\<forall>w \<in> set (z # xs). w = b \<or> beats b w)"
    unfolding b_def z_def
  proof (rule "2.IH")
    let ?z = "if beats y x then y else x"
    show "v = w \<or> beats v w \<or> beats w v" if "v \<in> set (?z # xs)" "w \<in> set (?z # xs)" for v w
      using that by (intro "2.prems"(2)) (auto split: if_splits)
  qed simp
  then have IH: "b \<in> set (z # xs)" "z = b \<or> beats b z" "\<And>w. w \<in> set xs \<Longrightarrow> w = b \<or> beats b w"
    by auto
  have "w = z \<or> beats z w" if "w \<in> {x, y}" for w
    using "2.prems"(2) [of x y] that by (auto simp: z_def)
  then have "w = b \<or> beats b w" if "w \<in> {x, y}" for w
    using that IH(2) beats_trans [of b z w] by blast
  moreover have "best_of (x # y # xs) = b" by (simp add: b_def z_def)
  ultimately show ?case
    using IH z by auto
qed simp_all

lemma best_of_eqI:
  assumes "x \<in> set xs" "\<And>y. y \<in> set xs \<Longrightarrow> y = x \<or> beats x y"
    "\<And>x y. x \<in> set xs \<Longrightarrow> y \<in> set xs \<Longrightarrow> x = y \<or> beats x y \<or> beats y x"
  shows "best_of xs = x"
proof -
  have "xs \<noteq> []" using assms(1) by auto
  then have "best_of xs \<in> set xs \<and> (\<forall>y \<in> set xs. y = best_of xs \<or> beats (best_of xs) y)"
    by (rule best_of_greatest) (rule assms(3))
  with assms(1) assms(2) [of "best_of xs"] beats_asym [of x "best_of xs"] show ?thesis
    by auto
qed

text \<open>The sources of a merge: distinct indices, each in key order.\<close>

definition sources_ok :: "sources \<Rightarrow> bool" where
  "sources_ok L \<longleftrightarrow> distinct (map fst L) \<and> (\<forall>(ix, l) \<in> set L. sorted_wrt (\<le>) (map fst l))"

lemma candidates_total:
  assumes "distinct (map fst L)" "x \<in> set (candidates L d)" "y \<in> set (candidates L d)"
  shows "x = y \<or> beats x y \<or> beats y x"
proof (cases "fst x = fst y")
  case True
  with assms show ?thesis
    by (auto simp: candidates_def dest: eq_key_imp_eq_value)
next
  case False
  then show ?thesis using beats_total by blast
qed

lemma set_user_keys: "set (user_keys L) = (\<Union>(ix, l) \<in> set L. data_of ` set l)"
  by (auto simp: user_keys_def)

lemma best_candidate:
  assumes "distinct (map fst L)" "d \<in> set (user_keys L)"
  shows "best_of (candidates L d) \<in> set (candidates L d) \<and>
    (\<forall>y \<in> set (candidates L d). y = best_of (candidates L d) \<or> beats (best_of (candidates L d)) y)"
proof (rule best_of_greatest)
  show "candidates L d \<noteq> []"
    using assms(2) by (auto simp: candidates_def set_user_keys filter_empty_conv)
qed (rule candidates_total [OF assms(1)])

lemma sort_remdups_Cons:
  fixes ks :: "'a::linorder list"
  assumes "set ks' = set ks - {d}" "d \<in> set ks" "\<And>k. k \<in> set ks \<Longrightarrow> d \<le> k"
  shows "sort (remdups ks) = d # sort (remdups ks')"
proof (rule sorted_distinct_set_unique)
  show "sorted (d # sort (remdups ks'))" using assms by auto
  show "distinct (d # sort (remdups ks'))" using assms(1) by simp
  show "set (sort (remdups ks)) = set (d # sort (remdups ks'))" using assms(1,2) by auto
qed simp_all

text \<open>The order of the sources, and sources without entries, do not matter.\<close>

lemma merge_out_cong:
  assumes "sources_ok L" "sources_ok L'" "set L = set L' - {(ix, []) | ix. True}"
  shows "merge_out L = merge_out L'"
proof -
  have "set (user_keys L) = set (user_keys L')"
    unfolding set_user_keys assms(3) by force
  then have order: "sort (remdups (user_keys L)) = sort (remdups (user_keys L'))"
    by (intro sorted_distinct_set_unique) auto
  have "winner L k = winner L' k" if k: "k \<in> set (user_keys L)" for k
  proof -
    have cands: "set (candidates L k) = set (candidates L' k)"
      unfolding candidates_def set_map set_filter assms(3) by force
    have "best_of (candidates L k) \<in> set (candidates L k) \<and>
        (\<forall>y \<in> set (candidates L k). y = best_of (candidates L k) \<or> beats (best_of (candidates L k)) y)"
      using assms(1) by (intro best_candidate k) (simp add: sources_ok_def)
    then have "best_of (candidates L' k) = best_of (candidates L k)"
      unfolding cands using assms(2)
      by (intro best_of_eqI candidates_total) (auto simp: sources_ok_def)
    then show ?thesis by (simp add: winner_def)
  qed
  moreover have "set (sort (remdups (user_keys L))) = set (user_keys L)" by simp
  ultimately have "map (winner L) (sort (remdups (user_keys L))) =
      map (winner L') (sort (remdups (user_keys L)))"
    by (intro map_cong) auto
  then show ?thesis by (simp add: merge_out_def order)
qed

text \<open>
  One step of the merge: \<open>(ix, e # l)\<close> stands on the best entry of all; \<open>L'\<close> are the sources
  without the entries of its user key.
\<close>

lemma merge_out_step:
  assumes "sources_ok L" "sources_ok L'" "(ix, e # l) \<in> set L"
    "\<And>ix' e' l'. (ix', e' # l') \<in> set L \<Longrightarrow> (ix', e') = (ix, e) \<or> beats (ix, e) (ix', e')"
    "set L' = {(ix, filter (\<lambda>x. data_of x \<noteq> data_of e) l) | ix l. (ix, l) \<in> set L} - {(ix, []) | ix. True}"
  shows "merge_out L = e # merge_out L'"
proof -
  let ?d = "data_of e"
  have dist: "distinct (map fst L)" "distinct (map fst L')" using assms(1,2) by (auto simp: sources_ok_def)
  have first: "fst e \<le> fst x" if mem: "(ix', l') \<in> set L" "x \<in> set l'" for ix' l' x
  proof -
    obtain e' r where l': "l' = e' # r" using mem(2) by (cases l') auto
    have "sorted_wrt (\<le>) (map fst l')" using assms(1) mem(1) by (auto simp: sources_ok_def)
    then have "fst e' \<le> fst x" using mem(2) l' by auto
    moreover have "fst e \<le> fst e'"
      using assms(4) [of ix' e' r] mem(1) l' by (auto simp: beats_def)
    ultimately show ?thesis by simp
  qed
  have keys: "set (user_keys L') = set (user_keys L) - {?d}"
  proof
    show "set (user_keys L') \<subseteq> set (user_keys L) - {?d}"
    proof
      fix k assume "k \<in> set (user_keys L')"
      then obtain ix' l' where l': "(ix', l') \<in> set L'" "k \<in> data_of ` set l'"
        by (auto simp: set_user_keys)
      then obtain l0 where "(ix', l0) \<in> set L" "l' = filter (\<lambda>x. data_of x \<noteq> ?d) l0"
        by (auto simp: assms(5))
      with l'(2) show "k \<in> set (user_keys L) - {?d}"
        by (force simp: set_user_keys)
    qed
    show "set (user_keys L) - {?d} \<subseteq> set (user_keys L')"
    proof
      fix k assume "k \<in> set (user_keys L) - {?d}"
      then obtain ix' l' x where x: "(ix', l') \<in> set L" "x \<in> set l'" "k = data_of x" "k \<noteq> ?d"
        by (auto simp: set_user_keys)
      then have "x \<in> set (filter (\<lambda>x. data_of x \<noteq> ?d) l')" by simp
      moreover from this have "(ix', filter (\<lambda>x. data_of x \<noteq> ?d) l') \<in> set L'"
        unfolding assms(5) using x(1) by (auto simp del: set_filter filter_empty_conv)
      ultimately show "k \<in> set (user_keys L')"
        unfolding set_user_keys using x(3) by blast
    qed
  qed
  have "?d \<in> set (user_keys L)" using assms(3) by (force simp: set_user_keys)
  moreover have "?d \<le> k" if "k \<in> set (user_keys L)" for k
    using that first key_le_data by (fastforce simp: set_user_keys)
  ultimately have order: "sort (remdups (user_keys L)) = ?d # sort (remdups (user_keys L'))"
    by (rule sort_remdups_Cons [OF keys])
  have "best_of (candidates L ?d) = (ix, e)"
  proof (rule best_of_eqI)
    show "(ix, e) \<in> set (candidates L ?d)"
      using assms(3) by (force simp: candidates_def)
    show "y = (ix, e) \<or> beats (ix, e) y" if y: "y \<in> set (candidates L ?d)" for y
    proof -
      obtain ix' l' where l': "(ix', l') \<in> set L" "?d \<in> data_of ` set l'"
        "y = (ix', hd (filter (\<lambda>x. data_of x = ?d) l'))"
        using y by (auto simp: candidates_def)
      then obtain e' r where r: "l' = e' # r" by (cases l') auto
      have "data_of e' = ?d"
      proof (rule antisym)
        have "sorted_wrt (\<le>) (map fst l')" using assms(1) l'(1) by (auto simp: sources_ok_def)
        then have "fst e' \<le> fst x" if "x \<in> set l'" for x using that r by auto
        with l'(2) show "data_of e' \<le> ?d" using key_le_data by fastforce
        show "?d \<le> data_of e'" using first [OF l'(1)] r key_le_data by auto
      qed
      with l' r assms(4) [of ix' e' r] show ?thesis by auto
    qed
  qed (rule candidates_total [OF dist(1)])
  then have win: "winner L ?d = e" by (simp add: winner_def)
  have same: "winner L k = winner L' k" if k: "k \<noteq> ?d" "k \<in> set (user_keys L)" for k
  proof -
    have filt: "filter (\<lambda>x. data_of x = k) (filter (\<lambda>x. data_of x \<noteq> ?d) l) =
        filter (\<lambda>x. data_of x = k) l" for l :: versions
      using k(1) by (induction l) auto
    have cands: "set (candidates L' k) = set (candidates L k)" (is "?A = ?B")
    proof
      show "?A \<subseteq> ?B"
      proof
        fix x assume "x \<in> ?A"
        then obtain ix' l' where x: "(ix', l') \<in> set L'" "k \<in> data_of ` set l'"
          "x = (ix', hd (filter (\<lambda>x. data_of x = k) l'))"
          by (auto simp: candidates_def)
        then obtain l0 where "(ix', l0) \<in> set L" "l' = filter (\<lambda>x. data_of x \<noteq> ?d) l0"
          by (auto simp: assms(5))
        with x(2,3) filt [of l0] show "x \<in> ?B"
          by (force simp: candidates_def)
      qed
      show "?B \<subseteq> ?A"
      proof
        fix x assume "x \<in> ?B"
        then obtain ix' l' where x: "(ix', l') \<in> set L" "k \<in> data_of ` set l'"
          "x = (ix', hd (filter (\<lambda>x. data_of x = k) l'))"
          by (auto simp: candidates_def)
        let ?l = "filter (\<lambda>x. data_of x \<noteq> ?d) l'"
        have kl: "k \<in> data_of ` set ?l" using x(2) k(1) by auto
        then have "(ix', ?l) \<in> set L'"
          unfolding assms(5) using x(1) by (auto simp del: set_filter filter_empty_conv)
        with kl x(3) filt [of l'] show "x \<in> ?A"
          by (force simp: candidates_def)
      qed
    qed
    from best_candidate [OF dist(1) k(2)]
    have "best_of (candidates L' k) = best_of (candidates L k)"
      unfolding cands [symmetric]
      by (intro best_of_eqI candidates_total [OF dist(2)]) auto
    then show ?thesis by (simp add: winner_def)
  qed
  have "map (winner L) (sort (remdups (user_keys L'))) = map (winner L') (sort (remdups (user_keys L')))"
    using same keys by (intro map_cong) auto
  then show ?thesis by (simp add: merge_out_def order win)
qed

section \<open>The heap of the code\<close>

definition sources_of :: "('i \<Rightarrow> versions) \<Rightarrow> 'i heap_entry list \<Rightarrow> sources" where
  "sources_of rest h = map (\<lambda>(i, ix). (ix, rest i)) h"

text \<open>Heap entries: valid iterators over sorted entries, with different indices.\<close>

definition heap_ok :: "('i \<Rightarrow> bool) \<Rightarrow> ('i \<Rightarrow> versions) \<Rightarrow> 'i heap_entry list \<Rightarrow> bool" where
  "heap_ok ok rest h \<longleftrightarrow> distinct (map snd h) \<and>
     (\<forall>(i, ix) \<in> set h. ok i \<and> rest i \<noteq> [] \<and> sorted_wrt (\<le>) (map fst (rest i)))"

lemma heap_ok_simps [simp]:
  "heap_ok ok rest []"
  "heap_ok ok rest ((i, ix) # h) \<longleftrightarrow> ix \<notin> snd ` set h \<and> ok i \<and> rest i \<noteq> [] \<and>
     sorted_wrt (\<le>) (map fst (rest i)) \<and> heap_ok ok rest h"
  by (auto simp: heap_ok_def)

lemma heap_ok_filter: "heap_ok ok rest h \<Longrightarrow> heap_ok ok rest (filter P h)"
  by (auto simp: heap_ok_def distinct_map_filter)

lemma heap_ok_sources: "heap_ok ok rest h \<Longrightarrow> sources_ok (sources_of rest h)"
  by (auto simp: heap_ok_def sources_ok_def sources_of_def case_prod_beta comp_def)

definition hbeats :: "('i \<Rightarrow> versions) \<Rightarrow> 'i heap_entry \<Rightarrow> 'i heap_entry \<Rightarrow> bool" where
  "hbeats rest x y \<longleftrightarrow> beats (snd x, hd (rest (fst x))) (snd y, hd (rest (fst y)))"

lemma hbeats_trans: "hbeats rest x y \<Longrightarrow> hbeats rest y z \<Longrightarrow> hbeats rest x z"
  using beats_trans by (auto simp: hbeats_def)

text \<open>Removing the entries of one user key from all sources.\<close>

definition without :: "bytes \<Rightarrow> sources \<Rightarrow> (nat \<times> versions) set" where
  "without d L = {(ix, filter (\<lambda>x. data_of x \<noteq> d) l) | ix l. (ix, l) \<in> set L} - {(ix, []) | ix. True}"

lemma without_sources:
  "z \<in> without d (sources_of rest h) \<longleftrightarrow>
     (\<exists>j jx. (j, jx) \<in> set h \<and> z = (jx, filter (\<lambda>x. data_of x \<noteq> d) (rest j)) \<and>
        filter (\<lambda>x. data_of x \<noteq> d) (rest j) \<noteq> [])"
proof
  show "z \<in> without d (sources_of rest h) \<Longrightarrow> \<exists>j jx. (j, jx) \<in> set h \<and>
      z = (jx, filter (\<lambda>x. data_of x \<noteq> d) (rest j)) \<and> filter (\<lambda>x. data_of x \<noteq> d) (rest j) \<noteq> []"
    unfolding without_def sources_of_def by auto
  assume "\<exists>j jx. (j, jx) \<in> set h \<and>
      z = (jx, filter (\<lambda>x. data_of x \<noteq> d) (rest j)) \<and> filter (\<lambda>x. data_of x \<noteq> d) (rest j) \<noteq> []"
  then obtain j jx where j: "(j, jx) \<in> set h" "z = (jx, filter (\<lambda>x. data_of x \<noteq> d) (rest j))"
    "filter (\<lambda>x. data_of x \<noteq> d) (rest j) \<noteq> []" by blast
  have "(jx, rest j) \<in> set (sources_of rest h)" using j(1) by (force simp: sources_of_def)
  then have "\<exists>ix l. z = (ix, filter (\<lambda>x. data_of x \<noteq> d) l) \<and> (ix, l) \<in> set (sources_of rest h)"
    using j(2) by blast
  moreover have "\<nexists>ix. z = (ix, [])" using j(2,3) by simp
  ultimately show "z \<in> without d (sources_of rest h)" unfolding without_def by simp
qed

context storage_iterator
begin

lemma heap_entry_cmp_ok:
  assumes "ok (fst x)" "rest (fst x) \<noteq> []" "ok (fst y)" "rest (fst y) \<noteq> []"
  shows "\<exists>c. heap_entry_cmp ops x y = Ok c \<and> (c = Greater \<longleftrightarrow> hbeats rest x y)"
proof -
  let ?kx = "fst (hd (rest (fst x)))" and ?ky = "fst (hd (rest (fst y)))"
  have "heap_entry_cmp ops x y = Ok (then_ordering (cmp ?ky ?kx) (cmp (snd x) (snd y)))"
    using assms by (simp add: heap_entry_cmp_def key_hd)
  moreover have "then_ordering (cmp ?ky ?kx) (cmp (snd x) (snd y)) = Greater \<longleftrightarrow> hbeats rest x y"
    by (cases ?kx ?ky rule: linorder_cases) (auto simp: cmp_def hbeats_def beats_def)
  ultimately show ?thesis by blast
qed

lemma heap_max_ok:
  assumes "heap_ok ok rest (m # es)"
  shows "\<exists>x. heap_max ops m es = Ok x \<and> x \<in> set (m # es) \<and>
    (\<forall>y \<in> set (m # es). y = x \<or> hbeats rest x y)"
  using assms
proof (induction es arbitrary: m)
  case (Cons e es)
  obtain c where c: "heap_entry_cmp ops e m = Ok c" "c = Greater \<longleftrightarrow> hbeats rest e m"
    using heap_entry_cmp_ok [of e m] Cons.prems by (cases m; cases e) auto
  let ?z = "if c = Greater then e else m"
  have "heap_ok ok rest (?z # es)" using Cons.prems by (cases m; cases e) auto
  with Cons.IH obtain x where x: "heap_max ops ?z es = Ok x" "x \<in> set (?z # es)"
    "\<forall>y \<in> set (?z # es). y = x \<or> hbeats rest x y" by blast
  have "snd e \<noteq> snd m" using Cons.prems by (cases m; cases e) auto
  then have "y = ?z \<or> hbeats rest ?z y" if "y \<in> {e, m}" for y
    using that c(2) beats_total [of "(snd e, hd (rest (fst e)))" "(snd m, hd (rest (fst m)))"]
    by (auto simp: hbeats_def)
  then have "y = x \<or> hbeats rest x y" if "y \<in> {e, m}" for y
    using that x(3) hbeats_trans [of rest x ?z y] by (metis list.set_intros(1))
  then have "\<forall>y \<in> set (m # e # es). y = x \<or> hbeats rest x y" using x(3) by simp
  moreover have "heap_max ops m (e # es) = Ok x" using c(1) x(1) by (simp del: bind_result_eq_Ok)
  moreover have "x \<in> set (m # e # es)" using x(2) by (auto split: if_splits)
  ultimately show ?case by blast
qed simp

lemma heap_peek_ok:
  assumes "heap_ok ok rest h" "h \<noteq> []"
  shows "\<exists>x. heap_peek ops h = Ok (Some x) \<and> x \<in> set h \<and> (\<forall>y \<in> set h. y = x \<or> hbeats rest x y)"
  using assms heap_max_ok by (cases h) fastforce+

lemma heap_remove_props:
  assumes "heap_ok ok rest h" "x \<in> set h"
  shows "heap_ok ok rest (heap_remove x h)" "set (heap_remove x h) = set h - {x}"
    "snd x \<notin> snd ` set (heap_remove x h)"
  using assms heap_ok_filter [OF assms(1)]
  by (auto simp: heap_remove_def heap_ok_def distinct_map inj_on_def)

lemma heap_step:
  assumes "heap_ok ok rest h" "(i, ix) \<in> set h" "it_next ops i = Some (i', Ok ())" "ok i'"
    "rest i' = tl (rest i)"
  defines "h' \<equiv> (if it_valid ops i' then heap_push (i', ix) (heap_remove (i, ix) h)
      else heap_remove (i, ix) h)"
  shows "heap_ok ok rest h'"
    "data_of (hd (rest i)) = d \<Longrightarrow> without d (sources_of rest h') = without d (sources_of rest h)"
    "sum_list (map (\<lambda>e. length (rest (fst e))) h') < sum_list (map (\<lambda>e. length (rest (fst e))) h)"
    "\<forall>y \<in> set h'. y \<in> set h \<or> y = (i', ix) \<and> rest i' \<noteq> []"
proof -
  note rem = heap_remove_props [OF assms(1,2)]
  have i: "rest i \<noteq> []" "sorted_wrt (\<le>) (map fst (rest i))" using assms(1,2) by (auto simp: heap_ok_def)
  have sorted': "sorted_wrt (\<le>) (map fst (tl (rest i)))"
    using i by (cases "rest i") auto
  have valid: "it_valid ops i' \<longleftrightarrow> tl (rest i) \<noteq> []" using assms(4,5) by (simp add: valid_iff)
  show "heap_ok ok rest h'"
    using rem assms(4,5) sorted' valid by (auto simp: h'_def heap_push_def)
  show "\<forall>y \<in> set h'. y \<in> set h \<or> y = (i', ix) \<and> rest i' \<noteq> []"
    using rem(2) valid assms(5) by (auto simp: h'_def heap_push_def)
  have mem: "set h' = (if tl (rest i) \<noteq> [] then {(i', ix)} else {}) \<union> (set h - {(i, ix)})"
    using rem(2) valid by (auto simp: h'_def heap_push_def)
  show "without d (sources_of rest h') = without d (sources_of rest h)"
    if True: "data_of (hd (rest i)) = d"
  proof -
    from True have filt: "filter (\<lambda>x. data_of x \<noteq> d) (rest i) = filter (\<lambda>x. data_of x \<noteq> d) (tl (rest i))"
      using i(1) by (cases "rest i") auto
    have "z \<in> without d (sources_of rest h') \<longleftrightarrow> z \<in> without d (sources_of rest h)" for z
    proof -
      let ?P = "\<lambda>jx l. z = (jx, filter (\<lambda>x. data_of x \<noteq> d) l) \<and> filter (\<lambda>x. data_of x \<noteq> d) l \<noteq> []"
      have "?P ix (rest i) = ?P ix (rest i')" using filt assms(5) by simp
      moreover have "?P ix (rest i') \<Longrightarrow> tl (rest i) \<noteq> []" using assms(5) by auto
      ultimately have "(\<exists>j jx. (j, jx) \<in> set h' \<and> ?P jx (rest j)) \<longleftrightarrow>
          (\<exists>j jx. (j, jx) \<in> set h \<and> ?P jx (rest j))"
        unfolding mem using assms(2) by (auto split: if_splits)
      then show ?thesis unfolding without_sources .
    qed
    then show ?thesis by blast
  qed
  show "sum_list (map (\<lambda>e. length (rest (fst e))) h') < sum_list (map (\<lambda>e. length (rest (fst e))) h)"
  proof -
    have "sum_list (map (\<lambda>e. length (rest (fst e))) h) =
        length (rest i) + sum_list (map (\<lambda>e. length (rest (fst e))) (heap_remove (i, ix) h))"
      using assms(1,2)
    proof (induction h)
      case (Cons e h)
      show ?case
      proof (cases "e = (i, ix)")
        case True
        with Cons.prems have "ix \<notin> snd ` set h" by auto
        then have "filter (\<lambda>e. snd e \<noteq> ix) h = h" by (auto simp: filter_id_conv)
        with True show ?thesis by (simp add: heap_remove_def)
      next
        case False
        with Cons.prems have "(i, ix) \<in> set h" "heap_ok ok rest h" "snd e \<noteq> ix"
          by (cases e; force)+
        with Cons.IH show ?thesis by (simp add: heap_remove_def)
      qed
    qed simp
    with i(1) assms(5) show ?thesis
      by (cases "rest i") (auto simp: h'_def heap_push_def)
  qed
qed

lemma above_head:
  assumes "heap_ok ok rest h" "(i, ix) \<in> set h" "x \<in> set (rest i)"
  shows "fst (hd (rest i)) \<le> fst x"
  using assms by (cases "rest i") (auto simp: heap_ok_def)

lemma without_absent:
  assumes "heap_ok ok rest h" "\<And>i ix x. (i, ix) \<in> set h \<Longrightarrow> x \<in> set (rest i) \<Longrightarrow> data_of x \<noteq> d"
  shows "without d (sources_of rest h) = set (sources_of rest h)"
proof -
  have "filter (\<lambda>x. data_of x \<noteq> d) (rest j) = rest j" if "(j, jx) \<in> set h" for j jx
    using assms(2) [OF that] by (simp add: filter_id_conv)
  moreover have "rest j \<noteq> []" if "(j, jx) \<in> set h" for j jx
    using assms(1) that by (auto simp: heap_ok_def)
  ultimately have "z \<in> without d (sources_of rest h) \<longleftrightarrow> z \<in> set (sources_of rest h)" for z
    unfolding without_sources by (force simp: sources_of_def)
  then show ?thesis by blast
qed

lemma skip_duplicates_ok:
  assumes "heap_ok ok rest h" "\<forall>(i, ix) \<in> set h. d \<le> data_of (hd (rest i))"
  shows "\<exists>h'. skip_duplicates ops d h = Some (h', Ok ()) \<and> heap_ok ok rest h' \<and>
    set (sources_of rest h') = without d (sources_of rest h)"
  using assms
proof (induction "sum_list (map (\<lambda>e. length (rest (fst e))) h)" arbitrary: h rule: less_induct)
  case less
  show ?case
  proof (cases "h = []")
    case True
    then show ?thesis
      by (subst skip_duplicates.simps) (simp add: sources_of_def without_def)
  next
    case False
    obtain i ix where x: "heap_peek ops h = Ok (Some (i, ix))" "(i, ix) \<in> set h"
      "\<And>y. y \<in> set h \<Longrightarrow> y = (i, ix) \<or> hbeats rest (i, ix) y"
      using heap_peek_ok [OF less.prems(1) False] by force
    have i: "ok i" "rest i \<noteq> []" using less.prems(1) x(2) by (auto simp: heap_ok_def)
    then have key: "it_key ops i = Ok (fst (hd (rest i)))" by (rule key_hd)
    show ?thesis
    proof (cases "data_of (hd (rest i)) = d")
      case True
      obtain i' where i': "it_next ops i = Some (i', Ok ())" "ok i'" "rest i' = tl (rest i)"
        using next_ok [OF i] by blast
      let ?h = "if it_valid ops i' then heap_push (i', ix) (heap_remove (i, ix) h)
        else heap_remove (i, ix) h"
      note step = heap_step [OF less.prems(1) x(2) i']
      have "d \<le> data_of (hd (rest j))" if "(j, jx) \<in> set ?h" for j jx
      proof (cases "(j, jx) \<in> set h")
        case True
        with less.prems(2) show ?thesis by auto
      next
        case False
        then have j: "j = i'" "rest i' \<noteq> []" using step(4) that by auto
        then have "hd (rest i') \<in> set (rest i)"
          using i'(3) i(2) by (cases "rest i"; cases "tl (rest i)") auto
        then have "d \<le> data_of (hd (rest i'))"
          using above_head [OF less.prems(1) x(2)] key_le_data \<open>data_of (hd (rest i)) = d\<close> by blast
        then show ?thesis using j by simp
      qed
      then have "\<exists>h'. skip_duplicates ops d ?h = Some (h', Ok ()) \<and> heap_ok ok rest h' \<and>
          set (sources_of rest h') = without d (sources_of rest ?h)"
        using less.hyps [OF step(3) step(1)] by blast
      moreover have "skip_duplicates ops d h = skip_duplicates ops d ?h"
        using x(1) key i'(1) True by (subst skip_duplicates.simps) simp
      ultimately show ?thesis using step(2) [OF True] by simp
    next
      case False
      then have "skip_duplicates ops d h = Some (h, Ok ())"
        using x(1) key by (subst skip_duplicates.simps) simp
      moreover have "data_of y \<noteq> d" if "(j, jx) \<in> set h" "y \<in> set (rest j)" for j jx y
      proof -
        have "fst (hd (rest i)) \<le> fst (hd (rest j))"
          using x(3) [OF that(1)] by (auto simp: hbeats_def beats_def)
        then have "data_of (hd (rest i)) \<le> data_of y"
          using above_head [OF less.prems(1) that] by (intro key_le_data) (rule order_trans)
        moreover have "d < data_of (hd (rest i))" using less.prems(2) x(2) False by fastforce
        ultimately show ?thesis by auto
      qed
      ultimately show ?thesis using without_absent [OF less.prems(1), of d] less.prems(1) by simp
    qed
  qed
qed

lemma heap_pop_ok:
  assumes "heap_ok ok rest h"
  shows "h = [] \<and> heap_pop ops h = Ok (None, []) \<or>
    (\<exists>x h'. heap_pop ops h = Ok (Some x, h') \<and> heap_ok ok rest (x # h') \<and> set (x # h') = set h \<and>
       (\<forall>y \<in> set h'. hbeats rest x y))"
proof (cases "h = []")
  case False
  obtain x where x: "heap_peek ops h = Ok (Some x)" "x \<in> set h"
    "\<forall>y \<in> set h. y = x \<or> hbeats rest x y"
    using heap_peek_ok [OF assms False] by blast
  note rem = heap_remove_props [OF assms x(2)]
  have "heap_ok ok rest (x # heap_remove x h)"
    using rem x(2) assms by (cases x) (auto simp: heap_ok_def)
  then show ?thesis
    using x rem(2) by (auto simp: heap_pop_def)
qed (simp add: heap_pop_def)

end

definition merge_entries :: "'i merge_iter \<Rightarrow> 'i heap_entry list" where
  "merge_entries m = (case mg_current m of Some c \<Rightarrow> c # mg_heap m | None \<Rightarrow> [])"

definition merge_inv :: "('i \<Rightarrow> bool) \<Rightarrow> ('i \<Rightarrow> versions) \<Rightarrow> 'i merge_iter \<Rightarrow> bool" where
  "merge_inv ok rest m \<longleftrightarrow> heap_ok ok rest (merge_entries m) \<and>
     (case mg_current m of None \<Rightarrow> mg_heap m = [] | Some c \<Rightarrow> \<forall>y \<in> set (mg_heap m). hbeats rest c y)"

definition merge_rest :: "('i \<Rightarrow> versions) \<Rightarrow> 'i merge_iter \<Rightarrow> versions" where
  "merge_rest rest m = merge_out (sources_of rest (merge_entries m))"

lemma merge_out_Nil [simp]: "merge_out [] = []"
  by (simp add: merge_out_def user_keys_def)

context storage_iterator
begin

lemma merge_popped:
  assumes "heap_ok ok rest h" "heap_pop ops h = Ok (cur, h')"
  shows "merge_inv ok rest \<lparr>mg_heap = h', mg_current = cur\<rparr>"
    "set (merge_entries \<lparr>mg_heap = h', mg_current = cur\<rparr>) = set h"
proof -
  consider "h = []" "cur = None" "h' = []"
    | x where "cur = Some x" "heap_ok ok rest (x # h')" "set (x # h') = set h" "\<forall>y \<in> set h'. hbeats rest x y"
    using heap_pop_ok [OF assms(1)] assms(2) by fastforce
  then have "merge_inv ok rest \<lparr>mg_heap = h', mg_current = cur\<rparr> \<and>
    set (merge_entries \<lparr>mg_heap = h', mg_current = cur\<rparr>) = set h"
    by cases (simp_all add: merge_inv_def merge_entries_def)
  then show "merge_inv ok rest \<lparr>mg_heap = h', mg_current = cur\<rparr>"
    "set (merge_entries \<lparr>mg_heap = h', mg_current = cur\<rparr>) = set h"
    by blast+
qed

lemma merge_out_current:
  assumes "merge_inv ok rest m" "mg_current m = Some (i, ix)" "sources_ok L'"
    "set L' = without (data_of (hd (rest i))) (sources_of rest (merge_entries m))"
  shows "merge_rest rest m = hd (rest i) # merge_out L'"
proof -
  let ?L = "sources_of rest (merge_entries m)"
  have ent: "merge_entries m = (i, ix) # mg_heap m" using assms(2) by (simp add: merge_entries_def)
  have h: "heap_ok ok rest (merge_entries m)" "\<forall>y \<in> set (mg_heap m). hbeats rest (i, ix) y"
    using assms(1,2) by (auto simp: merge_inv_def)
  have i: "rest i = hd (rest i) # tl (rest i)" using h(1) ent by simp
  show ?thesis
    unfolding merge_rest_def
  proof (rule merge_out_step [OF heap_ok_sources [OF h(1)] assms(3)])
    show "(ix, hd (rest i) # tl (rest i)) \<in> set ?L" using i by (simp add: ent sources_of_def)
    show "(jx, e) = (ix, hd (rest i)) \<or> beats (ix, hd (rest i)) (jx, e)"
      if "(jx, e # l) \<in> set ?L" for jx e l
    proof -
      from that obtain j where j: "(j, jx) \<in> set (merge_entries m)" "rest j = e # l"
        by (auto simp: sources_of_def)
      with h(2) ent show ?thesis by (auto simp: hbeats_def)
    qed
    show "set L' = {(ix, filter (\<lambda>x. data_of x \<noteq> data_of (hd (rest i))) l) | ix l. (ix, l) \<in> set ?L} -
        {(ix, []) | ix. True}"
      using assms(4) by (simp add: without_def)
  qed
qed

lemma merge_step:
  assumes "merge_inv ok rest m" "mg_current m = Some (i, ix)"
  shows "\<exists>m'. merge_next ops m = Some (m', Ok ()) \<and> merge_inv ok rest m' \<and>
    merge_rest rest m = hd (rest i) # merge_rest rest m'"
proof -
  let ?all = "(i, ix) # mg_heap m"
  let ?d = "data_of (hd (rest i))"
  have ent: "merge_entries m = ?all" using assms(2) by (simp add: merge_entries_def)
  have h: "heap_ok ok rest ?all" "\<forall>y \<in> set (mg_heap m). hbeats rest (i, ix) y"
    using assms ent by (auto simp: merge_inv_def)
  have i: "ok i" "rest i \<noteq> []" using h(1) by auto
  obtain i' where i': "it_next ops i = Some (i', Ok ())" "ok i'" "rest i' = tl (rest i)"
    using next_ok [OF i] by blast
  have removed: "heap_remove (i, ix) ?all = mg_heap m"
    using h(1) by (auto simp: heap_remove_def filter_id_conv)
  define heap1 where "heap1 = (if it_valid ops i' then heap_push (i', ix) (mg_heap m) else mg_heap m)"
  note step = heap_step [OF h(1) list.set_intros(1) i', unfolded removed, folded heap1_def]
  have low: "?d \<le> data_of (hd (rest j))" if "(j, jx) \<in> set heap1" for j jx
  proof (cases "(j, jx) \<in> set ?all")
    case True
    then have "fst (hd (rest i)) \<le> fst (hd (rest j))"
      using h(2) by (auto simp: hbeats_def beats_def)
    then show ?thesis by (rule key_le_data)
  next
    case False
    then have "j = i'" "rest i' \<noteq> []" using step(4) that by auto
    then have "hd (rest j) \<in> set (rest i)"
      using i'(3) i(2) by (cases "rest i"; cases "tl (rest i)") auto
    then show ?thesis using above_head [OF h(1), of i ix] key_le_data by auto
  qed
  then have "\<forall>(j, jx) \<in> set heap1. ?d \<le> data_of (hd (rest j))" by blast
  from skip_duplicates_ok [OF step(1) this]
  obtain heap2 where heap2: "skip_duplicates ops ?d heap1 = Some (heap2, Ok ())"
    "heap_ok ok rest heap2" "set (sources_of rest heap2) = without ?d (sources_of rest ?all)"
    using step(2) [OF refl] by auto
  obtain cur heap3 where pop: "heap_pop ops heap2 = Ok (cur, heap3)"
    using heap_pop_ok [OF heap2(2)] by blast
  let ?m' = "\<lparr>mg_heap = heap3, mg_current = cur\<rparr>"
  note popped = merge_popped [OF heap2(2) pop]
  have stepped: "merge_next ops m = Some (?m', Ok ())"
    using assms(2) key_hd [OF i] i'(1) heap2(1) pop
    by (auto simp: merge_next_def Let_def heap1_def split: if_splits)
  have "set (sources_of rest (merge_entries ?m')) = without ?d (sources_of rest (merge_entries m))"
    using popped(2) heap2(3) ent by (simp add: sources_of_def)
  moreover have "sources_ok (sources_of rest (merge_entries ?m'))"
    using popped(1) by (intro heap_ok_sources [of ok]) (simp add: merge_inv_def)
  ultimately have "merge_rest rest m = hd (rest i) # merge_out (sources_of rest (merge_entries ?m'))"
    by (intro merge_out_current [OF assms])
  then show ?thesis using stepped popped(1) by (simp add: merge_rest_def [of rest ?m'])
qed

lemma merge_contract: "storage_iterator (merge_ops ops) (merge_inv ok rest) (merge_rest rest)"
proof
  fix m
  assume inv: "merge_inv ok rest m"
  have none: "mg_current m = None \<Longrightarrow> merge_rest rest m = []"
    by (simp add: merge_rest_def merge_entries_def sources_of_def)
  have some: "\<exists>m'. merge_next ops m = Some (m', Ok ()) \<and> merge_inv ok rest m' \<and>
      merge_rest rest m = hd (rest i) # merge_rest rest m'" if "mg_current m = Some (i, ix)" for i ix
    using merge_step [OF inv that] .
  show "it_valid (merge_ops ops) m \<longleftrightarrow> merge_rest rest m \<noteq> []"
    using none some by (cases "mg_current m") (auto simp: merge_ops_def)
  assume "merge_rest rest m \<noteq> []"
  with none obtain i ix where cur: "mg_current m = Some (i, ix)" by (cases "mg_current m") auto
  then have "ok i" "rest i \<noteq> []" using inv by (auto simp: merge_inv_def merge_entries_def)
  with cur some [OF cur] show "it_key (merge_ops ops) m = Ok (fst (hd (merge_rest rest m)))"
    "it_value (merge_ops ops) m = Ok (snd (hd (merge_rest rest m)))"
    by (auto simp: merge_ops_def key_hd value_hd)
  show "\<exists>m'. it_next (merge_ops ops) m = Some (m', Ok ()) \<and> merge_inv ok rest m' \<and>
      merge_rest rest m' = tl (merge_rest rest m)"
    using some [OF cur] by (auto simp: merge_ops_def)
qed

lemma merge_new_ok:
  assumes "\<And>i. i \<in> set iters \<Longrightarrow> ok i \<and> sorted_wrt (\<le>) (map fst (rest i))"
  shows "\<exists>m. merge_new ops iters = Ok m \<and> merge_inv ok rest m \<and>
    merge_rest rest m = merge_out (zip [0..<length iters] (map rest iters))"
proof -
  let ?all = "zip iters [0..<length iters]"
  let ?heap = "filter (\<lambda>(i, _). it_valid ops i) ?all"
  have mem: "ok i \<and> sorted_wrt (\<le>) (map fst (rest i))" if "(i, ix) \<in> set ?all" for i ix
    using assms that by (auto dest: set_zip_leftD)
  have heap: "heap_ok ok rest ?heap"
    unfolding heap_ok_def
  proof
    show "distinct (map snd ?heap)" by (rule distinct_map_filter) simp
    show "\<forall>(i, ix) \<in> set ?heap. ok i \<and> rest i \<noteq> [] \<and> sorted_wrt (\<le>) (map fst (rest i))"
      using mem valid_iff by fastforce
  qed
  obtain cur heap' where pop: "heap_pop ops ?heap = Ok (cur, heap')"
    using heap_pop_ok [OF heap] by blast
  let ?m = "\<lparr>mg_heap = heap', mg_current = cur\<rparr>"
  note popped = merge_popped [OF heap pop]
  have L: "sources_ok (sources_of rest (merge_entries ?m))"
    using popped(1) by (intro heap_ok_sources [of ok]) (simp add: merge_inv_def)
  let ?Z = "zip [0..<length iters] (map rest iters)"
  have Z: "?Z = sources_of rest ?all"
    by (rule nth_equalityI) (simp_all add: sources_of_def)
  have Zok: "sources_ok ?Z"
    unfolding Z sources_ok_def using mem by (auto simp: sources_of_def comp_def case_prod_beta)
  have "set (sources_of rest (merge_entries ?m)) = set ?Z - {(ix, []) | ix. True}"
  proof -
    have "set (merge_entries ?m) = {e \<in> set ?all. rest (fst e) \<noteq> []}"
      using popped(2) mem valid_iff by auto
    then show ?thesis unfolding Z sources_of_def set_map by force
  qed
  from merge_out_cong [OF L Zok this] popped(1) pop show ?thesis
    by (auto simp: merge_new_def merge_rest_def)
qed

end

end
