(* ===== verification/Table_Iterator.thy ===== *)
theory Table_Iterator
  imports Sstable Merge
begin

text \<open>
  \<open>SSTableIterator\<close> of \<open>crabstash-storage/src/sstable.rs\<close>. An iterator has its own view of
  the shared block cache; the results hold for every coherent view. The iterator keeps the
  contract \<open>storage_iterator\<close> over the entries of its table, each with timestamp 0.
\<close>

section \<open>The iterator\<close>

record sst_iter =
  si_table :: sstable
  si_cache :: block_cache
  si_block_idx :: nat
  si_block_data :: bytes
  si_block_offset :: nat
  si_current_key :: key
  si_current_value :: "bytes option"
  si_valid :: bool

definition load_block :: "block_env \<Rightarrow> nat \<Rightarrow> sst_iter \<Rightarrow> sst_iter \<times> (error, unit) result" where
  "load_block env idx it =
     (if idx \<ge> length (sst_block_metas (si_table it)) then (it\<lparr>si_valid := False\<rparr>, Ok ())
      else
        let (r, cache) = read_block env (si_table it) idx (si_cache it);
            it1 = it\<lparr>si_cache := cache\<rparr>
        in case r of
             Ok block \<Rightarrow>
               (it1\<lparr>si_block_data := block, si_block_offset := 0, si_block_idx := idx\<rparr>, Ok ())
           | Err e \<Rightarrow> (it1, Err e)
           | Panic \<Rightarrow> (it1, Panic))"

text \<open>The part of \<open>parse_entry\<close> after the step to the next block.\<close>

definition parse_here :: "sst_iter \<Rightarrow> sst_iter \<times> (error, unit) result" where
  "parse_here it =
     (if si_block_data it = [] then (it\<lparr>si_valid := False\<rparr>, Ok ())
      else if si_block_offset it > length (si_block_data it) then (it, Panic)
      else
        let buf = drop (si_block_offset it) (si_block_data it) in
        if buf = [] then (it\<lparr>si_valid := False\<rparr>, Ok ())
        else case get_entry buf of
          Ok ((kd, value), rest) \<Rightarrow>
            (it\<lparr>si_block_offset := si_block_offset it +
                  (length (si_block_data it) - si_block_offset it - length rest),
                si_current_key := Key kd 0, si_current_value := value, si_valid := True\<rparr>,
             Ok ())
        | Err e \<Rightarrow> (it, Err e)
        | Panic \<Rightarrow> (it, Panic))"

definition parse_entry :: "block_env \<Rightarrow> sst_iter \<Rightarrow> sst_iter \<times> (error, unit) result" where
  "parse_entry env it =
     (if si_block_offset it \<ge> length (si_block_data it) then
        (if si_block_idx it + 1 \<ge> length (sst_block_metas (si_table it))
         then (it\<lparr>si_valid := False\<rparr>, Ok ())
         else
           case load_block env (si_block_idx it + 1) it of
             (it1, Ok _) \<Rightarrow> parse_here it1
           | (it1, r) \<Rightarrow> (it1, r))
      else parse_here it)"

definition sst_iter_new :: "block_env \<Rightarrow> sstable \<Rightarrow> block_cache \<Rightarrow> sst_iter \<times> (error, unit) result" where
  "sst_iter_new env t cache =
     (let it = \<lparr>si_table = t, si_cache = cache, si_block_idx = 0, si_block_data = [],
                si_block_offset = 0, si_current_key = Key [] 0, si_current_value = None,
                si_valid = False\<rparr>
      in case load_block env 0 it of
           (it1, Ok _) \<Rightarrow> parse_entry env it1
         | (it1, r) \<Rightarrow> (it1, r))"

definition sst_iter_seek_to_first :: "block_env \<Rightarrow> sst_iter \<Rightarrow> sst_iter \<times> (error, unit) result" where
  "sst_iter_seek_to_first env it =
     (case load_block env 0 (it\<lparr>si_block_idx := 0\<rparr>) of
        (it1, Ok _) \<Rightarrow> parse_entry env it1
      | (it1, r) \<Rightarrow> (it1, r))"

text \<open>The loop of \<open>seek\<close>; it ends at the first error.\<close>

partial_function (option) skip_below ::
  "block_env \<Rightarrow> bytes \<Rightarrow> sst_iter \<Rightarrow> (sst_iter \<times> (error, unit) result) option" where
  "skip_below env target it =
     (if si_valid it \<and> key_data (si_current_key it) < target then
        (case parse_entry env it of
           (it1, Ok _) \<Rightarrow> skip_below env target it1
         | (it1, Err e) \<Rightarrow> Some (it1, Err e)
         | (it1, Panic) \<Rightarrow> Some (it1, Panic))
      else Some (it, Ok ()))"

definition sst_iter_seek ::
  "block_env \<Rightarrow> bytes \<Rightarrow> sst_iter \<Rightarrow> (sst_iter \<times> (error, unit) result) option" where
  "sst_iter_seek env target it =
     (let block_idx = find_block (si_table it) target in
      case load_block env block_idx (it\<lparr>si_block_idx := block_idx\<rparr>) of
        (it1, Ok _) \<Rightarrow>
          (case parse_entry env it1 of
             (it2, Ok _) \<Rightarrow> skip_below env target it2
           | (it2, r) \<Rightarrow> Some (it2, r))
      | (it1, r) \<Rightarrow> Some (it1, r))"

definition sst_iter_ops :: "block_env \<Rightarrow> sst_iter storage_iter" where
  "sst_iter_ops env =
     \<lparr>it_key = (\<lambda>it. Ok (si_current_key it)),
      it_value = (\<lambda>it. Ok (si_current_value it)),
      it_valid = si_valid,
      it_next = (\<lambda>it. Some (parse_entry env it))\<rparr>"

section \<open>The entries before the iterator\<close>

definition as_versions :: "entry list \<Rightarrow> versions" where
  "as_versions es = map (\<lambda>(k, v). (Key k 0, v)) es"

text \<open>
  \<open>si_at env blocks n todo it\<close>: the iterator reads block \<open>n\<close> of a built table, with the
  entries \<open>todo\<close> of that block not parsed yet.
\<close>

definition si_at ::
  "block_env \<Rightarrow> compression_type \<Rightarrow> bloom \<Rightarrow> (entry list \<times> bytes) list \<Rightarrow> u64 \<Rightarrow> bool \<Rightarrow>
   nat \<Rightarrow> entry list \<Rightarrow> sst_iter \<Rightarrow> bool" where
  "si_at env c f blocks sst hc n todo it \<longleftrightarrow>
     si_table it = table_of env c f blocks sst hc \<and> cache_coherent env (si_table it) (si_cache it) \<and>
     blocks_ok env c blocks \<and> si_block_idx it = n \<and> n < length blocks \<and>
     (\<exists>before. fst (blocks ! n) = before @ todo \<and> si_block_data it = enc (fst (blocks ! n)) \<and>
        si_block_offset it = length (enc before))"

definition later :: "(entry list \<times> bytes) list \<Rightarrow> nat \<Rightarrow> entry list" where
  "later blocks n = concat (map fst (drop (Suc n) blocks))"

definition sst_iter_inv :: "block_env \<Rightarrow> sst_iter \<Rightarrow> bool" where
  "sst_iter_inv env it \<longleftrightarrow>
     (\<not> si_valid it \<or> (\<exists>c f blocks sst hc n todo. si_at env c f blocks sst hc n todo it))"

fun parse_all :: "nat \<Rightarrow> bytes \<Rightarrow> entry list" where
  "parse_all 0 buf = []"
| "parse_all (Suc n) buf =
     (case get_entry buf of Ok (e, rest) \<Rightarrow> e # parse_all n rest | _ \<Rightarrow> [])"

lemma parse_all_enc: "list_all entry_ok es \<Longrightarrow> length es \<le> n \<Longrightarrow> parse_all n (enc es) = es"
proof (induction es arbitrary: n)
  case Nil
  then show ?case by (cases n) (simp_all add: get_entry_def)
next
  case (Cons e es)
  then show ?case by (cases n) (simp_all add: entry_codec.decode_encode)
qed

definition block_entries :: "block_env \<Rightarrow> sstable \<Rightarrow> nat \<Rightarrow> entry list" where
  "block_entries env t i =
     (case read_block_from_disk env t i of Ok b \<Rightarrow> parse_all (length b) b | _ \<Rightarrow> [])"

text \<open>The entry parsed, the rest of its block, and the blocks after it.\<close>

definition sst_iter_rest :: "block_env \<Rightarrow> sst_iter \<Rightarrow> versions" where
  "sst_iter_rest env it =
     (if \<not> si_valid it then []
      else (si_current_key it, si_current_value it) #
        as_versions
          (parse_all (length (si_block_data it)) (drop (si_block_offset it) (si_block_data it)) @
           concat (map (block_entries env (si_table it))
             [si_block_idx it + 1..<length (sst_block_metas (si_table it))])))"

lemma length_le_enc: "length es \<le> length (enc es)"
proof (induction es)
  case (Cons e es)
  have "put_entry e \<noteq> []" by simp
  then have "1 \<le> length (put_entry e)" by (cases "put_entry e") simp_all
  with Cons show ?case by simp
qed simp

lemma blocks_ok_entries:
  assumes "blocks_ok env c blocks" "i < length blocks"
  shows "list_all entry_ok (fst (blocks ! i))" "fst (blocks ! i) \<noteq> []"
    "block_entries env (table_of env c f blocks sst hc) i = fst (blocks ! i)"
    "read_block_from_disk env (table_of env c f blocks sst hc) i = Ok (enc (fst (blocks ! i)))"
proof -
  show e: "list_all entry_ok (fst (blocks ! i))" "fst (blocks ! i) \<noteq> []"
    using assms by (auto simp: blocks_ok_def list_all_iff list_all_length)
  show r: "read_block_from_disk env (table_of env c f blocks sst hc) i = Ok (enc (fst (blocks ! i)))"
    using assms by (intro read_block_table) (auto simp: blocks_ok_def list_all_length)
  show "block_entries env (table_of env c f blocks sst hc) i = fst (blocks ! i)"
    using e r by (simp add: block_entries_def parse_all_enc length_le_enc)
qed

lemma later_entries:
  assumes "blocks_ok env c blocks"
  shows "concat (map (block_entries env (table_of env c f blocks sst hc)) [n + 1..<length blocks]) =
    later blocks n"
proof -
  have "map (block_entries env (table_of env c f blocks sst hc)) [n + 1..<length blocks] =
      map (\<lambda>i. fst (blocks ! i)) [n + 1..<length blocks]"
    using blocks_ok_entries(3) [OF assms] by (intro map_cong) auto
  also have "\<dots> = map fst (drop (Suc n) blocks)"
    by (rule nth_equalityI) simp_all
  finally show ?thesis by (simp only: later_def)
qed

lemma si_at_rest:
  assumes "si_at env c f blocks sst hc n todo it"
  shows "sst_iter_rest env it =
    (if \<not> si_valid it then []
     else (si_current_key it, si_current_value it) # as_versions (todo @ later blocks n))"
proof -
  from assms obtain before where at: "fst (blocks ! n) = before @ todo" "blocks_ok env c blocks"
    "n < length blocks" "si_block_data it = enc (fst (blocks ! n))" "si_block_offset it = length (enc before)"
    "si_table it = table_of env c f blocks sst hc" "si_block_idx it = n"
    by (auto simp: si_at_def)
  have "list_all entry_ok todo" using blocks_ok_entries(1) [OF at(2,3)] at(1) by simp
  moreover have "length todo \<le> length (si_block_data it)"
    using length_le_enc [of todo] at(1,4) by simp
  ultimately have "parse_all (length (si_block_data it)) (drop (si_block_offset it) (si_block_data it)) = todo"
    using at(1,4,5) by (simp add: parse_all_enc)
  then show ?thesis
    using later_entries [OF at(2)] at(6,7) by (simp add: sst_iter_rest_def)
qed

lemma load_block_at:
  assumes "si_table it = table_of env c f blocks sst hc" "cache_coherent env (si_table it) (si_cache it)"
    "blocks_ok env c blocks" "i < length blocks"
  shows "\<exists>it'. load_block env i it = (it', Ok ()) \<and>
    si_at env c f blocks sst hc i (fst (blocks ! i)) it' \<and> si_valid it' = si_valid it"
proof -
  let ?t = "table_of env c f blocks sst hc"
  obtain cache where "read_block env ?t i (si_cache it) = (Ok (enc (fst (blocks ! i))), cache)"
    "cache_coherent env ?t cache"
    using read_block_coherent [of env ?t "si_cache it" i] assms blocks_ok_entries(4) [OF assms(3,4)]
    by (metis prod.collapse)
  with assms show ?thesis
    by (auto simp: load_block_def si_at_def)
qed

lemma parse_here_at:
  assumes "si_at env c f blocks sst hc n (e # todo) it"
  shows "\<exists>it'. parse_here it = (it', Ok ()) \<and> si_at env c f blocks sst hc n todo it' \<and> si_valid it' \<and>
    si_current_key it' = Key (fst e) 0 \<and> si_current_value it' = snd e"
proof -
  from assms obtain before where at: "fst (blocks ! n) = before @ e # todo" "blocks_ok env c blocks"
    "n < length blocks" "si_block_data it = enc (fst (blocks ! n))" "si_block_offset it = length (enc before)"
    by (auto simp: si_at_def)
  have "entry_ok e" using blocks_ok_entries(1) [OF at(2,3)] at(1) by simp
  then have "get_entry (drop (si_block_offset it) (si_block_data it)) = Ok (e, enc todo)"
    using at by (simp add: entry_codec.decode_encode)
  with at assms show ?thesis
    by (cases e) (auto simp: parse_here_def Let_def si_at_def intro!: exI [of _ "before @ [e]"])
qed

lemma parse_entry_at:
  assumes "si_at env c f blocks sst hc n todo it"
  shows "\<exists>it'. parse_entry env it = (it', Ok ()) \<and>
    (case todo @ later blocks n of
       [] \<Rightarrow> \<not> si_valid it'
     | e # es \<Rightarrow> si_valid it' \<and> si_current_key it' = Key (fst e) 0 \<and> si_current_value it' = snd e \<and>
         (\<exists>m todo'. si_at env c f blocks sst hc m todo' it' \<and> todo' @ later blocks m = es))"
proof -
  from assms obtain before where at: "fst (blocks ! n) = before @ todo" "blocks_ok env c blocks"
    "n < length blocks" "si_block_data it = enc (fst (blocks ! n))" "si_block_offset it = length (enc before)"
    "si_table it = table_of env c f blocks sst hc" "si_block_idx it = n"
    "cache_coherent env (si_table it) (si_cache it)"
    by (auto simp: si_at_def)
  show ?thesis
  proof (cases todo)
    case (Cons e todo')
    then have "parse_entry env it = parse_here it"
      using at(1,4,5) by (simp add: parse_entry_def)
    then show ?thesis
      using parse_here_at [of env c f blocks sst hc n e todo' it] assms Cons by fastforce
  next
    case Nil
    show ?thesis
    proof (cases "Suc n < length blocks")
      case True
      obtain e es where b: "fst (blocks ! Suc n) = e # es"
        using blocks_ok_entries(2) [OF at(2) True] by (cases "fst (blocks ! Suc n)") auto
      obtain it1 where it1: "load_block env (Suc n) it = (it1, Ok ())"
        "si_at env c f blocks sst hc (Suc n) (e # es) it1"
        using load_block_at [OF at(6,8,2) True] b by auto
      obtain it' where it': "parse_here it1 = (it', Ok ())" "si_at env c f blocks sst hc (Suc n) es it'"
        "si_valid it'" "si_current_key it' = Key (fst e) 0" "si_current_value it' = snd e"
        using parse_here_at [OF it1(2)] by blast
      have "later blocks n = (e # es) @ later blocks (Suc n)"
        using True b by (simp add: later_def Cons_nth_drop_Suc [symmetric])
      moreover have "parse_entry env it = (it', Ok ())"
        using Nil at True it1(1) it'(1) by (simp add: parse_entry_def)
      ultimately show ?thesis using it' Nil by fastforce
    next
      case False
      then have "later blocks n = []" by (simp add: later_def)
      moreover have "parse_entry env it = (it\<lparr>si_valid := False\<rparr>, Ok ())"
        using Nil at False by (simp add: parse_entry_def)
      ultimately show ?thesis using Nil by simp
    qed
  qed
qed

lemma si_at_inv: "si_at env c f blocks sst hc n todo it \<Longrightarrow> sst_iter_inv env it"
  unfolding sst_iter_inv_def by blast

text \<open>After a parse the iterator stands before what had not been parsed.\<close>

lemma parse_first:
  assumes "si_at env c f blocks sst hc n todo it"
  shows "\<exists>it'. parse_entry env it = (it', Ok ()) \<and> sst_iter_inv env it' \<and>
    sst_iter_rest env it' = as_versions (todo @ later blocks n)"
proof -
  obtain it2 where it2: "parse_entry env it = (it2, Ok ())"
    "case todo @ later blocks n of
       [] \<Rightarrow> \<not> si_valid it2
     | e # es \<Rightarrow> si_valid it2 \<and> si_current_key it2 = Key (fst e) 0 \<and> si_current_value it2 = snd e \<and>
         (\<exists>m todo'. si_at env c f blocks sst hc m todo' it2 \<and> todo' @ later blocks m = es)"
    using parse_entry_at [OF assms] by blast
  have "sst_iter_inv env it2 \<and> sst_iter_rest env it2 = as_versions (todo @ later blocks n)"
  proof (cases "todo @ later blocks n")
    case Nil
    with it2(2) have "\<not> si_valid it2" by simp
    with Nil show ?thesis by (simp add: sst_iter_inv_def sst_iter_rest_def as_versions_def)
  next
    case (Cons e es)
    with it2(2) obtain m todo' where "si_at env c f blocks sst hc m todo' it2" "todo' @ later blocks m = es"
      "si_valid it2" "si_current_key it2 = Key (fst e) 0" "si_current_value it2 = snd e" by auto
    with Cons show ?thesis
      using si_at_rest [of env c f blocks sst hc m todo' it2] si_at_inv
      by (cases e) (fastforce simp: as_versions_def)
  qed
  with it2(1) show ?thesis by blast
qed

interpretation si: storage_iterator "sst_iter_ops env" "sst_iter_inv env" "sst_iter_rest env"
proof
  fix it
  assume inv: "sst_iter_inv env it"
  show "it_valid (sst_iter_ops env) it \<longleftrightarrow> sst_iter_rest env it \<noteq> []"
    by (simp add: sst_iter_ops_def sst_iter_rest_def)
  assume ne: "sst_iter_rest env it \<noteq> []"
  then have v: "si_valid it" by (cases "si_valid it") (simp_all add: sst_iter_rest_def)
  then show "it_key (sst_iter_ops env) it = Ok (fst (hd (sst_iter_rest env it)))"
    "it_value (sst_iter_ops env) it = Ok (snd (hd (sst_iter_rest env it)))"
    by (simp_all add: sst_iter_ops_def sst_iter_rest_def)
  obtain c f blocks sst hc n todo where at: "si_at env c f blocks sst hc n todo it"
    using inv v by (auto simp: sst_iter_inv_def)
  with parse_first [OF at] si_at_rest [OF at] v
  show "\<exists>it'. it_next (sst_iter_ops env) it = Some (it', Ok ()) \<and> sst_iter_inv env it' \<and>
      sst_iter_rest env it' = tl (sst_iter_rest env it)"
    by (simp add: sst_iter_ops_def)
qed

section \<open>Opening and seeking\<close>

text \<open>The table and the coherence of the cache view are kept by every step.\<close>

lemma load_block_table:
  assumes "load_block env i it = (it', r)" "cache_coherent env (si_table it) (si_cache it)"
  shows "si_table it' = si_table it \<and> cache_coherent env (si_table it') (si_cache it')"
  using assms read_block_coherent(2) [OF assms(2), of i]
  by (auto simp: load_block_def Let_def split: if_splits prod.splits result.splits)

lemma parse_here_table:
  "parse_here it = (it', r) \<Longrightarrow> si_table it' = si_table it \<and> si_cache it' = si_cache it"
  by (auto simp: parse_here_def Let_def split: if_splits prod.splits result.splits)

lemma parse_entry_table:
  assumes "parse_entry env it = (it', r)" "cache_coherent env (si_table it) (si_cache it)"
  shows "si_table it' = si_table it \<and> cache_coherent env (si_table it') (si_cache it')"
proof -
  obtain it1 r1 where load: "load_block env (si_block_idx it + 1) it = (it1, r1)" by fastforce
  note load_block_table [OF this assms(2)]
  with assms load show ?thesis
    by (auto simp: parse_entry_def split: if_splits result.splits dest!: parse_here_table)
qed

lemma sst_iter_new_ok:
  assumes "blocks_ok env c blocks" "cache_coherent env (table_of env c f blocks sst hc) cache"
  shows "\<exists>it. sst_iter_new env (table_of env c f blocks sst hc) cache = (it, Ok ()) \<and>
    sst_iter_inv env it \<and> sst_iter_rest env it = as_versions (concat (map fst blocks)) \<and>
    si_table it = table_of env c f blocks sst hc \<and> cache_coherent env (si_table it) (si_cache it)"
proof -
  let ?t = "table_of env c f blocks sst hc"
  let ?it = "\<lparr>si_table = ?t, si_cache = cache, si_block_idx = 0, si_block_data = [],
      si_block_offset = 0, si_current_key = Key [] 0, si_current_value = None, si_valid = False\<rparr>"
  show ?thesis
  proof (cases "blocks = []")
    case True
    then show ?thesis
      using assms(2)
      by (simp add: sst_iter_new_def load_block_def parse_entry_def sst_iter_inv_def
          sst_iter_rest_def as_versions_def)
  next
    case False
    then have "0 < length blocks" by simp
    from load_block_at [of ?it env c f blocks sst hc, OF _ _ assms(1) this] assms(2)
    obtain it1 where it1: "load_block env 0 ?it = (it1, Ok ())"
      "si_at env c f blocks sst hc 0 (fst (blocks ! 0)) it1" by auto
    obtain it where it: "parse_entry env it1 = (it, Ok ())" "sst_iter_inv env it"
      "sst_iter_rest env it = as_versions (fst (blocks ! 0) @ later blocks 0)"
      using parse_first [OF it1(2)] by blast
    have "fst (blocks ! 0) @ later blocks 0 = concat (map fst blocks)"
      using False by (cases blocks) (simp_all add: later_def)
    moreover have "sst_iter_new env ?t cache = (it, Ok ())"
      using it1(1) it(1) by (simp add: sst_iter_new_def Let_def)
    moreover have "si_table it = ?t \<and> cache_coherent env (si_table it) (si_cache it)"
      using parse_entry_table [OF it(1)] it1(2) unfolding si_at_def by auto
    ultimately show ?thesis using it(2,3) by auto
  qed
qed

lemma skip_below_ok:
  "sst_iter_inv env it \<Longrightarrow> \<exists>it'. skip_below env target it = Some (it', Ok ()) \<and> sst_iter_inv env it' \<and>
     sst_iter_rest env it' = dropWhile (\<lambda>e. key_data (fst e) < target) (sst_iter_rest env it)"
proof (induction "sst_iter_rest env it" arbitrary: it)
  case Nil
  then have "\<not> si_valid it" by (auto simp: sst_iter_rest_def split: if_splits)
  with Nil show ?case by (subst skip_below.simps) simp
next
  case (Cons e es)
  from Cons.hyps(2) have r: "sst_iter_rest env it = e # es" by simp
  then have v: "si_valid it" "si_current_key it = fst e"
    by (auto simp: sst_iter_rest_def split: if_splits)
  obtain it1 where it1: "parse_entry env it = (it1, Ok ())" "sst_iter_inv env it1"
    "sst_iter_rest env it1 = es"
    using si.next_ok [OF Cons.prems] r by (auto simp: sst_iter_ops_def)
  show ?case
  proof (cases "key_data (fst e) < target")
    case True
    then have "skip_below env target it = skip_below env target it1"
      using v it1(1) by (subst skip_below.simps) simp
    with Cons.hyps(1) [OF it1(3) [symmetric] it1(2)] True r it1(3) show ?thesis by simp
  next
    case False
    then have "skip_below env target it = Some (it, Ok ())"
      using v by (subst skip_below.simps) simp
    with False r Cons.prems show ?thesis by simp
  qed
qed

lemma block_index_less: "blocks \<noteq> [] \<Longrightarrow> block_index blocks key < length blocks"
  using bisect_less [of "length blocks" "\<lambda>i. cmp (fst (hd (fst (blocks ! i)))) key" 0]
  by (auto simp: block_index_def binary_search_by_def Let_def split: ordering.split)

lemma sst_iter_seek_ok:
  assumes "blocks_ok env c blocks" "blocks \<noteq> []" "si_table it = table_of env c f blocks sst hc"
    "cache_coherent env (si_table it) (si_cache it)"
  shows "\<exists>it'. sst_iter_seek env target it = Some (it', Ok ()) \<and> sst_iter_inv env it' \<and>
    sst_iter_rest env it' = dropWhile (\<lambda>e. key_data (fst e) < target)
      (as_versions (concat (map fst (drop (block_index blocks target) blocks))))"
proof -
  let ?i = "block_index blocks target"
  have i: "?i < length blocks" by (rule block_index_less [OF assms(2)])
  from load_block_at [of "it\<lparr>si_block_idx := ?i\<rparr>" env c f blocks sst hc, OF _ _ assms(1) i] assms(3,4)
  obtain it1 where it1: "load_block env ?i (it\<lparr>si_block_idx := ?i\<rparr>) = (it1, Ok ())"
    "si_at env c f blocks sst hc ?i (fst (blocks ! ?i)) it1" by auto
  obtain it2 where it2: "parse_entry env it1 = (it2, Ok ())" "sst_iter_inv env it2"
    "sst_iter_rest env it2 = as_versions (fst (blocks ! ?i) @ later blocks ?i)"
    using parse_first [OF it1(2)] by blast
  have "fst (blocks ! ?i) @ later blocks ?i = concat (map fst (drop ?i blocks))"
    using i by (simp add: later_def Cons_nth_drop_Suc [symmetric])
  moreover have "sst_iter_seek env target it = skip_below env target it2"
    using it1(1) it2(1) assms(3) by (simp add: sst_iter_seek_def Let_def find_block_table)
  ultimately show ?thesis
    using skip_below_ok [OF it2(2), of target] it2(3) by auto
qed

text \<open>With ascending user keys nothing at or above the target is before that block.\<close>

lemma seek_sorted:
  assumes "sorted_wrt (<) (map fst (concat (map fst blocks)))" "list_all (\<lambda>bl. fst bl \<noteq> []) blocks"
    "blocks \<noteq> []"
  shows "dropWhile (\<lambda>e. fst e < target) (concat (map fst (drop (block_index blocks target) blocks))) =
    dropWhile (\<lambda>e. fst e < target) (concat (map fst blocks))"
proof -
  let ?i = "block_index blocks target"
  let ?pre = "concat (map fst (take ?i blocks))" and ?post = "concat (map fst (drop ?i blocks))"
  have i: "?i < length blocks" by (rule block_index_less [OF assms(3)])
  have split: "concat (map fst blocks) = ?pre @ ?post"
    by (metis append_take_drop_id concat_append map_append)
  have "fst e < target" if e: "e \<in> set ?pre" for e
  proof (rule ccontr)
    assume "\<not> fst e < target"
    have sorted: "sorted_wrt (<) (map fst ?pre @ map fst ?post)"
      using assms(1) unfolding split by simp
    let ?h = "hd (fst (blocks ! ?i))"
    have "fst (blocks ! ?i) \<noteq> []" using assms(2) i by (simp add: list_all_length)
    then have h: "?h \<in> set ?post" "?h \<in> set (fst (blocks ! ?i))"
      using i by (simp_all add: Cons_nth_drop_Suc [symmetric])
    then have "fst e < fst ?h" using sorted e by (auto simp: sorted_wrt_append)
    have "?i \<noteq> 0" using e by (cases "?i = 0") auto
    have "fst ?h \<le> target"
    proof -
      have part: "partitioned (\<lambda>i. cmp (fst (hd (fst (blocks ! i)))) target) (length blocks)"
        using block_firsts_partitioned [OF assms(1,2)] .
      then show ?thesis
      proof (cases rule: binary_search_by_cases)
        case (found j)
        then show ?thesis by (simp add: block_index_def)
      next
        case (missing j)
        then have "?i = j - 1" by (simp add: block_index_def)
        with \<open>?i \<noteq> 0\<close> missing(3) [of ?i] show ?thesis by simp
      qed
    qed
    with \<open>fst e < fst ?h\<close> \<open>\<not> fst e < target\<close> show False by auto
  qed
  then have "dropWhile (\<lambda>e. fst e < target) (?pre @ ?post) = dropWhile (\<lambda>e. fst e < target) ?post"
    by (intro dropWhile_append2) simp
  then show ?thesis by (simp only: split)
qed

end
