(* ===== verification/Scan.thy ===== *)
theory Scan
  imports Table_Iterator
begin

text \<open>
  The iterators put together: memtable and table iterators as instances of the contract, and
  what a client sees that drains a table, a merge of memtables or of tables, a two-way merge
  and a snapshot scan.
\<close>

section \<open>The memtable iterator as an instance\<close>

definition mt_iter_ops :: "mt_iter storage_iter" where
  "mt_iter_ops =
     \<lparr>it_key = mt_iter_key, it_value = mt_iter_value, it_valid = mt_iter_is_valid,
      it_next = (\<lambda>it. Some (mt_iter_next it))\<rparr>"

interpretation mi: storage_iterator mt_iter_ops "\<lambda>_. True" mt_iter_rest
proof
  fix it :: mt_iter
  show "it_valid mt_iter_ops it \<longleftrightarrow> mt_iter_rest it \<noteq> []"
    by (auto simp: mt_iter_ops_def mt_iter_is_valid_def mt_iter_rest_def)
  assume "mt_iter_rest it \<noteq> []"
  then have "mti_index it < length (mti_entries it)" by (simp add: mt_iter_rest_def)
  then show "it_key mt_iter_ops it = Ok (fst (hd (mt_iter_rest it)))"
    "it_value mt_iter_ops it = Ok (snd (hd (mt_iter_rest it)))"
    by (simp_all add: mt_iter_ops_def mt_iter_key_def mt_iter_value_def mt_iter_rest_def hd_drop_conv_nth)
  show "\<exists>it'. it_next mt_iter_ops it = Some (it', Ok ()) \<and> True \<and> mt_iter_rest it' = tl (mt_iter_rest it)"
    by (simp add: mt_iter_ops_def mt_iter_next_def mt_iter_rest_def drop_Suc tl_drop)
qed

interpretation mi_merge: storage_iterator "merge_ops mt_iter_ops" "merge_inv (\<lambda>_. True) mt_iter_rest"
    "merge_rest mt_iter_rest"
  by (rule mi.merge_contract)

interpretation mi_snapshot: storage_iterator "snapshot_ops mt_iter_ops"
    "snapshot_inv (\<lambda>_. True) mt_iter_rest" "snapshot_rest mt_iter_rest"
  by (rule mi.snapshot_contract)

interpretation si_merge: storage_iterator "merge_ops (sst_iter_ops env)"
    "merge_inv (sst_iter_inv env) (sst_iter_rest env)" "merge_rest (sst_iter_rest env)"
  by (rule si.merge_contract)

interpretation mi_two: two_iterators mt_iter_ops "\<lambda>_. True" mt_iter_rest mt_iter_ops "\<lambda>_. True" mt_iter_rest ..

interpretation mi_two_merge: storage_iterator "two_merge_ops mt_iter_ops mt_iter_ops"
    "two_merge_inv (\<lambda>_. True) mt_iter_rest (\<lambda>_. True) mt_iter_rest" "two_merge_rest mt_iter_rest mt_iter_rest"
  by (rule mi_two.two_merge_contract)

lemma mt_iter_rest_new [simp]: "mt_iter_rest (mt_iter_new mt) = mt_map mt"
  by (simp add: mt_iter_rest_def mt_iter_new_def)

lemma skip_ok_le: "skip_ok m \<Longrightarrow> sorted (map fst m)"
  unfolding skip_ok_def by (erule sorted_wrt_mono_rel [rotated]) simp

section \<open>What is in a merge\<close>

lemma merge_out_props:
  assumes "sources_ok L"
  shows "map data_of (merge_out L) = sort (remdups (user_keys L))"
    "e \<in> set (merge_out L) \<Longrightarrow> (\<exists>(ix, l) \<in> set L. e \<in> set l) \<and>
       (\<forall>(ix, l) \<in> set L. \<forall>x \<in> set l. data_of x = data_of e \<longrightarrow> fst e \<le> fst x)"
proof -
  have dist: "distinct (map fst L)" using assms by (simp add: sources_ok_def)
  have win: "data_of (winner L d) = d \<and> (\<exists>(ix, l) \<in> set L. winner L d \<in> set l) \<and>
      (\<forall>(ix, l) \<in> set L. \<forall>x \<in> set l. data_of x = d \<longrightarrow> fst (winner L d) \<le> fst x)"
    if d: "d \<in> set (user_keys L)" for d
  proof -
    let ?b = "best_of (candidates L d)"
    have b: "?b \<in> set (candidates L d)" "\<And>y. y \<in> set (candidates L d) \<Longrightarrow> y = ?b \<or> beats ?b y"
      using best_candidate [OF dist d] by auto
    have hd_in: "hd (filter (\<lambda>e. data_of e = d) l) \<in> set (filter (\<lambda>e. data_of e = d) l)"
      if "d \<in> data_of ` set l" for l
      using that by (intro hd_in_set) (auto simp: filter_empty_conv)
    obtain ix l where l: "(ix, l) \<in> set L" "d \<in> data_of ` set l"
      "?b = (ix, hd (filter (\<lambda>e. data_of e = d) l))"
      using b(1) by (auto simp: candidates_def)
    have w: "winner L d = hd (filter (\<lambda>e. data_of e = d) l)" using l(3) by (simp add: winner_def)
    have "fst (winner L d) \<le> fst x" if x: "(ix', l') \<in> set L" "x \<in> set l'" "data_of x = d" for ix' l' x
    proof -
      let ?f = "filter (\<lambda>e. data_of e = d) l'"
      have mem: "x \<in> set ?f" using x by simp
      have "sorted_wrt (\<le>) (map fst l')" using assms x(1) by (auto simp: sources_ok_def)
      then have "sorted_wrt (\<le>) (map fst ?f)"
        by (induction l') auto
      with mem have "fst (hd ?f) \<le> fst x" by (cases ?f) auto
      moreover have "(ix', hd ?f) \<in> set (candidates L d)"
        using x by (force simp: candidates_def)
      from b(2) [OF this] have "fst (winner L d) \<le> fst (hd ?f)"
      proof
        assume "(ix', hd ?f) = ?b"
        then show ?thesis unfolding winner_def by (metis order_refl snd_conv)
      qed (auto simp: winner_def beats_def)
      ultimately show ?thesis by simp
    qed
    with hd_in [OF l(2)] l(1) w show ?thesis by auto
  qed
  show "map data_of (merge_out L) = sort (remdups (user_keys L))"
    unfolding merge_out_def using win by (auto intro: map_idI)
  show "(\<exists>(ix, l) \<in> set L. e \<in> set l) \<and>
       (\<forall>(ix, l) \<in> set L. \<forall>x \<in> set l. data_of x = data_of e \<longrightarrow> fst e \<le> fst x)"
    if "e \<in> set (merge_out L)"
  proof -
    from that obtain d where "d \<in> set (user_keys L)" "e = winner L d" by (auto simp: merge_out_def)
    with win [of d] show ?thesis by auto
  qed
qed

lemma length_merge_out: "length (merge_out L) \<le> length (user_keys L)"
  by (simp add: merge_out_def length_remdups_leq)

lemma merge_new_memtables:
  assumes "list_all (\<lambda>mt. skip_ok (mt_map mt)) mts"
  shows "\<exists>m. merge_new mt_iter_ops (map mt_iter_new mts) = Ok m \<and>
    merge_inv (\<lambda>_. True) mt_iter_rest m \<and>
    merge_rest mt_iter_rest m = merge_out (zip [0..<length mts] (map mt_map mts))"
proof -
  have "\<exists>m. merge_new mt_iter_ops (map mt_iter_new mts) = Ok m \<and>
    merge_inv (\<lambda>_. True) mt_iter_rest m \<and> merge_rest mt_iter_rest m =
      merge_out (zip [0..<length (map mt_iter_new mts)] (map mt_iter_rest (map mt_iter_new mts)))"
    using assms by (intro mi.merge_new_ok) (auto simp: list_all_iff skip_ok_le)
  then show ?thesis by (simp add: comp_def)
qed

lemma zip_sources_ok:
  assumes "\<And>l. l \<in> set ls \<Longrightarrow> sorted_wrt (\<le>) (map fst l)"
  shows "sources_ok (zip [0..<length ls] ls)"
  unfolding sources_ok_def using assms by (auto dest: set_zip_rightD)

section \<open>Properties\<close>

text \<open>
  C2: merging memtables. The merge of the iterators of any number of memtables can be
  drained without a panic or an endless loop; it yields every user key of the memtables
  exactly once, in ascending order, each with an entry of a memtable that no version of that
  user key in any of them is newer than.
\<close>

theorem memtable_merge:
  assumes "list_all (\<lambda>mt. skip_ok (mt_map mt)) mts" "length (concat (map mt_map mts)) < n"
  shows "\<exists>m out. merge_new mt_iter_ops (map mt_iter_new mts) = Ok m \<and>
    drain (merge_ops mt_iter_ops) n m = Some (Ok out) \<and>
    sorted_wrt (<) (map data_of out) \<and>
    data_of ` set out = (\<Union>mt \<in> set mts. data_of ` set (mt_map mt)) \<and>
    (\<forall>e \<in> set out. \<exists>mt \<in> set mts. e \<in> set (mt_map mt)) \<and>
    (\<forall>e \<in> set out. \<forall>mt \<in> set mts. \<forall>x \<in> set (mt_map mt). data_of x = data_of e \<longrightarrow>
       key_timestamp (fst x) \<le> key_timestamp (fst e))"
proof -
  let ?L = "zip [0..<length mts] (map mt_map mts)"
  obtain m where m: "merge_new mt_iter_ops (map mt_iter_new mts) = Ok m"
    "merge_inv (\<lambda>_. True) mt_iter_rest m" "merge_rest mt_iter_rest m = merge_out ?L"
    using merge_new_memtables [OF assms(1)] by blast
  have L: "sources_ok ?L"
    using zip_sources_ok [of "map mt_map mts"] assms(1)
    by (fastforce simp: list_all_iff dest: skip_ok_le)
  have keys: "user_keys ?L = map data_of (concat (map mt_map mts))"
  proof -
    have "map (\<lambda>(ix, l). map data_of l) ?L = map (\<lambda>mt. map data_of (mt_map mt)) mts"
      by (rule nth_equalityI) simp_all
    then show ?thesis by (simp add: user_keys_def map_concat comp_def)
  qed
  have mem: "(\<exists>ix. (ix, l) \<in> set ?L) \<longleftrightarrow> (\<exists>mt \<in> set mts. l = mt_map mt)" for l
  proof -
    have "map snd ?L = map mt_map mts" by simp
    then have "snd ` set ?L = mt_map ` set mts" by (metis set_map)
    then show ?thesis by force
  qed
  have "length (merge_out ?L) < n"
    using length_merge_out [of ?L] keys assms(2) by simp
  then have d: "drain (merge_ops mt_iter_ops) n m = Some (Ok (merge_out ?L))"
    using mi_merge.drain_rest [OF m(2), of n] m(3) by simp
  have sorted: "sorted_wrt (<) (map data_of (merge_out ?L))"
    unfolding merge_out_props(1) [OF L] by (simp add: strict_sorted_iff)
  have all: "data_of ` set (merge_out ?L) = (\<Union>mt \<in> set mts. data_of ` set (mt_map mt))"
    using arg_cong [OF merge_out_props(1) [OF L], of set] by (simp add: keys image_UN)
  have each: "(\<exists>mt \<in> set mts. e \<in> set (mt_map mt)) \<and> (\<forall>mt \<in> set mts. \<forall>x \<in> set (mt_map mt).
      data_of x = data_of e \<longrightarrow> key_timestamp (fst x) \<le> key_timestamp (fst e))"
    if e: "e \<in> set (merge_out ?L)" for e
  proof -
    note P = merge_out_props(2) [OF L e]
    have "\<exists>mt \<in> set mts. e \<in> set (mt_map mt)" using P mem by fastforce
    moreover have "key_timestamp (fst x) \<le> key_timestamp (fst e)"
      if x: "mt \<in> set mts" "x \<in> set (mt_map mt)" "data_of x = data_of e" for mt x
    proof -
      obtain ix where "(ix, mt_map mt) \<in> set ?L" using mem [of "mt_map mt"] x(1) by blast
      from bspec [OF P [THEN conjunct2] this] x(2,3) have "fst e \<le> fst x" by simp
      with x(3) show ?thesis by (auto simp: less_eq_key_def)
    qed
    ultimately show ?thesis by blast
  qed
  show ?thesis
    by (rule exI [of _ m], rule exI [of _ "merge_out ?L"], intro conjI m(1) d sorted all)
       (use each in blast)+
qed

lemma memtable_merge_witness:
  "\<exists>m out. merge_new mt_iter_ops (map mt_iter_new
      [\<lparr>mt_map = [(Key [1] 5, Some [5])], mt_size = 2\<rparr>, \<lparr>mt_map = [(Key [1] 3, Some [3])], mt_size = 2\<rparr>]) = Ok m \<and>
    drain (merge_ops mt_iter_ops) 3 m = Some (Ok out) \<and> sorted_wrt (<) (map data_of out)"
  using memtable_merge [of "[\<lparr>mt_map = [(Key [1] 5, Some [5])], mt_size = 2\<rparr>,
      \<lparr>mt_map = [(Key [1] 3, Some [3])], mt_size = 2\<rparr>]" 3]
  by (fastforce simp: skip_ok_def)

text \<open>
  When several tables hold a user key, a merged scan shows the oldest one's entry. The
  scan gives the newest table the smallest index, all table entries have timestamp 0, and
  between equal keys the heap prefers the greatest index, so the overwritten value is
  yielded and the new one dropped.
\<close>

lemma open_table_iter:
  assumes "lz4_block_ok env" "sizes_ok estimated bpk es" "build_sst env estimated c bpk h es = Ok contents"
    "open_sst sst contents hc = Ok t"
  shows "\<exists>it. sst_iter_new env t [] = (it, Ok ()) \<and> sst_iter_inv env it \<and>
    sst_iter_rest env it = as_versions (data_entries es)"
proof -
  obtain b blocks cur where b: "builder_add_all env es (builder_new estimated c bpk h) = Ok b"
    "builds env (bloom_new (max estimated 1) bpk h) c (data_entries es) blocks cur b"
    using builds_exists [OF assms(1,2)] by blast
  note built = build_and_open [OF assms(1,2) b]
  let ?f = "fold bloom_add (map fst (data_entries es)) (bloom_new (max estimated 1) bpk h)"
  let ?blocks = "if cur = [] then blocks
      else blocks @ [(cur, if blocks = [] then [] else snd (last blocks))]"
  have "t = table_of env c ?f ?blocks sst hc"
    using built(1,2) assms(3,4) by simp
  with sst_iter_new_ok [OF built(3), of ?f sst hc "[]"] built(4) show ?thesis by auto
qed

theorem merged_tables_show_oldest:
  assumes "lz4_block_ok env" "sizes_ok estimated bpk [(Key k t_new, Some v_new)]"
    "sizes_ok estimated bpk [(Key k t_old, Some v_old)]"
  shows "\<exists>new_file old_file new_table old_table new_it old_it m.
    build_sst env estimated c bpk hashes [(Key k t_new, Some v_new)] = Ok new_file \<and>
    build_sst env estimated c bpk hashes [(Key k t_old, Some v_old)] = Ok old_file \<and>
    open_sst new_id new_file hc = Ok new_table \<and> open_sst old_id old_file hc = Ok old_table \<and>
    sst_iter_new env new_table [] = (new_it, Ok ()) \<and> sst_iter_new env old_table [] = (old_it, Ok ()) \<and>
    merge_new (sst_iter_ops env) [new_it, old_it] = Ok m \<and>
    drain (merge_ops (sst_iter_ops env)) 2 m = Some (Ok [(Key k 0, Some v_old)])"
proof -
  have built: "\<exists>contents t it. build_sst env estimated c bpk hashes es = Ok contents \<and>
      open_sst sst contents hc = Ok t \<and> sst_iter_new env t [] = (it, Ok ()) \<and> sst_iter_inv env it \<and>
      sst_iter_rest env it = as_versions (data_entries es)"
    if sizes: "sizes_ok estimated bpk es" for es sst
  proof -
    obtain b blocks cur where b: "builder_add_all env es (builder_new estimated c bpk hashes) = Ok b"
      "builds env (bloom_new (max estimated 1) bpk hashes) c (data_entries es) blocks cur b"
      using builds_exists [OF assms(1) sizes] by blast
    from build_and_open(1,2) [OF assms(1) sizes b] open_table_iter [OF assms(1) sizes]
    show ?thesis by metis
  qed
  obtain nf nt ni where n: "build_sst env estimated c bpk hashes [(Key k t_new, Some v_new)] = Ok nf"
    "open_sst new_id nf hc = Ok nt" "sst_iter_new env nt [] = (ni, Ok ())" "sst_iter_inv env ni"
    "sst_iter_rest env ni = [(Key k 0, Some v_new)]"
    using built [OF assms(2), of new_id] by (auto simp: data_entries_def as_versions_def)
  obtain f t i where o: "build_sst env estimated c bpk hashes [(Key k t_old, Some v_old)] = Ok f"
    "open_sst old_id f hc = Ok t" "sst_iter_new env t [] = (i, Ok ())" "sst_iter_inv env i"
    "sst_iter_rest env i = [(Key k 0, Some v_old)]"
    using built [OF assms(3), of old_id] by (auto simp: data_entries_def as_versions_def)
  have "\<exists>m. merge_new (sst_iter_ops env) [ni, i] = Ok m \<and>
      merge_inv (sst_iter_inv env) (sst_iter_rest env) m \<and>
      merge_rest (sst_iter_rest env) m = merge_out (zip [0..<length [ni, i]] (map (sst_iter_rest env) [ni, i]))"
    by (rule si.merge_new_ok) (use n(4,5) o(4,5) in auto)
  then obtain m where m: "merge_new (sst_iter_ops env) [ni, i] = Ok m"
    "merge_inv (sst_iter_inv env) (sst_iter_rest env) m"
    "merge_rest (sst_iter_rest env) m = merge_out [(0, [(Key k 0, Some v_new)]), (1, [(Key k 0, Some v_old)])]"
    using n(5) o(5) by (auto simp: upt_rec)
  have out: "merge_out [(0, [(Key k 0, Some v_new)]), (1, [(Key k 0, Some v_old)])] = [(Key k 0, Some v_old)]"
    by (simp add: merge_out_def user_keys_def winner_def candidates_def beats_def)
  have "drain (merge_ops (sst_iter_ops env)) 2 m = Some (Ok [(Key k 0, Some v_old)])"
    using si_merge.drain_rest [OF m(2), of 2] m(3) out by simp
  with n(1-3) o(1-3) m(1) show ?thesis by blast
qed

lemma merged_tables_show_oldest_witness:
  "\<exists>new_file old_file new_table old_table new_it old_it m.
    build_sst stored_env 1 Lz4 10 7 [(Key [1] 9, Some [90])] = Ok new_file \<and>
    build_sst stored_env 1 Lz4 10 7 [(Key [1] 4, Some [40])] = Ok old_file \<and>
    open_sst 2 new_file True = Ok new_table \<and> open_sst 1 old_file True = Ok old_table \<and>
    sst_iter_new stored_env new_table [] = (new_it, Ok ()) \<and>
    sst_iter_new stored_env old_table [] = (old_it, Ok ()) \<and>
    merge_new (sst_iter_ops stored_env) [new_it, old_it] = Ok m \<and>
    drain (merge_ops (sst_iter_ops stored_env)) 2 m = Some (Ok [(Key [1] 0, Some [40])])"
  by (rule merged_tables_show_oldest [OF lz4_block_ok_stored])
     (simp_all add: sizes_ok_def data_entries_def entry_ok_def bloom_new_def)

text \<open>
  C3: scanning one table. Draining a fresh iterator over a built table yields all its
  entries in order, each with timestamp 0; after \<open>seek\<close> it yields those from the target on.
  No step panics, and the loops end.
\<close>

theorem table_scan:
  assumes "lz4_block_ok env" "sizes_ok estimated bpk es" "es \<noteq> []"
    "sorted_wrt (<) (map fst (data_entries es))" "length es < n"
  shows "\<exists>contents t it it'. build_sst env estimated c bpk hashes es = Ok contents \<and>
    open_sst sst contents hc = Ok t \<and> sst_iter_new env t [] = (it, Ok ()) \<and>
    drain (sst_iter_ops env) n it = Some (Ok (as_versions (data_entries es))) \<and>
    sst_iter_seek env target it = Some (it', Ok ()) \<and>
    drain (sst_iter_ops env) n it' =
      Some (Ok (as_versions (dropWhile (\<lambda>e. fst e < target) (data_entries es))))"
proof -
  obtain b blocks cur where b: "builder_add_all env es (builder_new estimated c bpk hashes) = Ok b"
    "builds env (bloom_new (max estimated 1) bpk hashes) c (data_entries es) blocks cur b"
    using builds_exists [OF assms(1,2)] by blast
  define f where "f = fold bloom_add (map fst (data_entries es)) (bloom_new (max estimated 1) bpk hashes)"
  define bs where "bs = (if cur = [] then blocks
      else blocks @ [(cur, if blocks = [] then [] else snd (last blocks))])"
  note built = build_and_open [OF assms(1,2) b, folded f_def bs_def]
  have ne: "data_entries es \<noteq> []" using assms(3) by (simp add: data_entries_def)
  then have "bs \<noteq> []" "list_all (\<lambda>bl. fst bl \<noteq> []) bs"
    using built(3,4) by (auto simp: blocks_ok_def list_all_iff)
  note seek = seek_sorted [OF _ this(2,1), of target, unfolded built(4), OF assms(4)]
  obtain it where it: "sst_iter_new env (table_of env c f bs sst hc) [] = (it, Ok ())"
    "sst_iter_inv env it" "sst_iter_rest env it = as_versions (data_entries es)"
    "si_table it = table_of env c f bs sst hc" "cache_coherent env (si_table it) (si_cache it)"
    using sst_iter_new_ok [OF built(3), of f sst hc "[]"] built(4) by auto
  obtain it' where it': "sst_iter_seek env target it = Some (it', Ok ())" "sst_iter_inv env it'"
    "sst_iter_rest env it' = dropWhile (\<lambda>e. key_data (fst e) < target)
      (as_versions (concat (map fst (drop (block_index bs target) bs))))"
    using sst_iter_seek_ok [OF built(3) \<open>bs \<noteq> []\<close> it(4,5)] by blast
  have drop: "dropWhile (\<lambda>e. key_data (fst e) < target) (as_versions xs) =
      as_versions (dropWhile (\<lambda>e. fst e < target) xs)" for xs
    by (induction xs) (auto simp: as_versions_def)
  have len: "length (as_versions xs) = length xs" for xs by (simp add: as_versions_def)
  have rest': "sst_iter_rest env it' = as_versions (dropWhile (\<lambda>e. fst e < target) (data_entries es))"
    unfolding it'(3) drop seek ..
  have "length (data_entries es) < n" using assms(5) by (simp add: data_entries_def)
  then have "drain (sst_iter_ops env) n it = Some (Ok (as_versions (data_entries es)))"
    "drain (sst_iter_ops env) n it' =
      Some (Ok (as_versions (dropWhile (\<lambda>e. fst e < target) (data_entries es))))"
    using si.drain_rest [OF it(2), of n] si.drain_rest [OF it'(2), of n] it(3) rest'
      length_dropWhile_le [of "\<lambda>e. fst e < target" "data_entries es"]
    by (simp_all add: len)
  with built(1,2) it(1) it'(1) show ?thesis by blast
qed

lemma table_scan_witness:
  "\<exists>contents t it it'.
    build_sst stored_env 2 Lz4 10 7 [(Key [1] 5, Some [9]), (Key [2] 6, None)] = Ok contents \<and>
    open_sst 3 contents True = Ok t \<and> sst_iter_new stored_env t [] = (it, Ok ()) \<and>
    drain (sst_iter_ops stored_env) 3 it = Some (Ok [(Key [1] 0, Some [9]), (Key [2] 0, None)]) \<and>
    sst_iter_seek stored_env [1, 0] it = Some (it', Ok ()) \<and>
    drain (sst_iter_ops stored_env) 3 it' = Some (Ok [(Key [2] 0, None)])"
proof -
  have "sizes_ok 2 10 [(Key [1] 5, Some [9]), (Key [2] 6, None)]"
    by (simp add: sizes_ok_def data_entries_def entry_ok_def bloom_new_def)
  from table_scan [OF lz4_block_ok_stored this, of 3 Lz4 7 3 True "[1, 0]"] show ?thesis
    by (simp add: data_entries_def as_versions_def)
qed

text \<open>Entries by user key.\<close>

definition by_data :: "versions \<Rightarrow> (bytes \<times> bytes option) list" where
  "by_data es = map (\<lambda>(k, v). (key_data k, v)) es"

lemma by_data_simps [simp]:
  "by_data [] = []" "by_data (e # es) = (data_of e, snd e) # by_data es"
  by (simp_all add: by_data_def case_prod_beta)

lemma fst_by_data: "map fst (by_data es) = map data_of es"
  by (induction es) simp_all

lemma merge2_subset: "set (merge2 as bs) \<subseteq> set as \<union> set bs"
  by (induction as bs rule: merge2.induct) (auto split: if_splits)

lemma map_of_by_data_None: "(\<And>e. e \<in> set es \<Longrightarrow> data_of e \<noteq> d) \<Longrightarrow> map_of (by_data es) d = None"
  by (induction es) auto

lemma merge2_overrides:
  assumes "sorted_wrt (<) (map data_of as)" "sorted_wrt (<) (map data_of bs)"
    "\<And>a b. a \<in> set as \<Longrightarrow> b \<in> set bs \<Longrightarrow> data_of a = data_of b \<Longrightarrow> fst a \<le> fst b"
  shows "sorted_wrt (<) (map data_of (merge2 as bs)) \<and>
    map_of (by_data (merge2 as bs)) = map_of (by_data bs) ++ map_of (by_data as)"
  using assms
proof (induction as bs rule: merge2.induct)
  case (3 a as b bs)
  have sub: "set (merge2 as bs) \<subseteq> set as \<union> set bs" "set (merge2 as (b # bs)) \<subseteq> set as \<union> set (b # bs)"
    "set (merge2 (a # as) bs) \<subseteq> set (a # as) \<union> set bs"
    by (rule merge2_subset)+
  have a: "\<forall>x \<in> set as. data_of a < data_of x" and b: "\<forall>x \<in> set bs. data_of b < data_of x"
    using "3.prems" by auto
  consider "fst a \<le> fst b" "data_of a = data_of b" | "fst a \<le> fst b" "data_of a \<noteq> data_of b"
    | "\<not> fst a \<le> fst b" by blast
  then show ?case
  proof cases
    case 1
    then have IH: "sorted_wrt (<) (map data_of (merge2 as bs))"
      "map_of (by_data (merge2 as bs)) = map_of (by_data bs) ++ map_of (by_data as)"
      using "3.IH"(1) "3.prems" by auto
    moreover have "map_of (by_data as) (data_of a) = None"
      using a by (intro map_of_by_data_None) auto
    ultimately show ?thesis
      using 1 a b sub(1) by (auto simp: fun_eq_iff map_add_def split: option.split)
  next
    case 2
    then have IH: "sorted_wrt (<) (map data_of (merge2 as (b # bs)))"
      "map_of (by_data (merge2 as (b # bs))) = map_of (by_data (b # bs)) ++ map_of (by_data as)"
      using "3.IH"(1) "3.prems" by (auto simp del: by_data_simps)
    have lt: "data_of a < data_of b" using 2 key_le_data by (auto simp: order_le_less)
    have "map_of (by_data as) (data_of a) = None"
      using a by (intro map_of_by_data_None) auto
    moreover have "map_of (by_data (merge2 (a # as) (b # bs))) =
        (map_of (by_data (b # bs)) ++ map_of (by_data as))(data_of a \<mapsto> snd a)"
      using 2 unfolding IH(2) [symmetric] by (simp add: fun_eq_iff)
    ultimately have E: "map_of (by_data (merge2 (a # as) (b # bs))) =
        map_of (by_data (b # bs)) ++ map_of (by_data (a # as))"
      by (simp add: fun_eq_iff map_add_def split: option.split)
    have "\<forall>x \<in> set (merge2 as (b # bs)). data_of a < data_of x"
      using sub(2) a b lt by fastforce
    with 2 IH(1) have "sorted_wrt (<) (map data_of (merge2 (a # as) (b # bs)))" by simp
    then show ?thesis using E by (rule conjI)
  next
    case 3
    then have IH: "sorted_wrt (<) (map data_of (merge2 (a # as) bs))"
      "map_of (by_data (merge2 (a # as) bs)) = map_of (by_data bs) ++ map_of (by_data (a # as))"
      using "3.IH"(2) "3.prems" by (auto simp del: by_data_simps)
    have lt: "data_of b < data_of a"
      using 3 "3.prems"(3) [of a b] by (cases "fst a"; cases "fst b") (auto simp: key_le_iff not_less_iff_gr_or_eq)
    then have "map_of (by_data as) (data_of b) = None \<and> data_of b \<noteq> data_of a"
      using a by (intro conjI map_of_by_data_None) auto
    moreover have "map_of (by_data (merge2 (a # as) (b # bs))) =
        (map_of (by_data bs) ++ map_of (by_data (a # as)))(data_of b \<mapsto> snd b)"
      using 3 unfolding IH(2) [symmetric] by (simp add: fun_eq_iff)
    ultimately have E: "map_of (by_data (merge2 (a # as) (b # bs))) =
        map_of (by_data (b # bs)) ++ map_of (by_data (a # as))"
      by (simp add: fun_eq_iff map_add_def split: option.split)
    have "\<forall>x \<in> set (merge2 (a # as) bs). data_of b < data_of x"
      using sub(3) a b lt by fastforce
    with 3 IH(1) have "sorted_wrt (<) (map data_of (merge2 (a # as) (b # bs)))" by simp
    then show ?thesis using E by (rule conjI)
  qed
qed auto

text \<open>
  The two-way merge overrides. Of two iterators with one entry per user key, where the
  first has the newer version of every shared user key, the merge yields one entry per user
  key in ascending order, that of the first iterator where both have one.
\<close>

theorem two_way_merge_overrides:
  assumes "sorted_wrt (<) (map data_of (mt_map new))" "sorted_wrt (<) (map data_of (mt_map old))"
    "\<And>e e'. e \<in> set (mt_map new) \<Longrightarrow> e' \<in> set (mt_map old) \<Longrightarrow> data_of e = data_of e' \<Longrightarrow>
       key_timestamp (fst e') \<le> key_timestamp (fst e)"
    "length (mt_map new) + length (mt_map old) < n"
  shows "\<exists>t out. two_merge_new mt_iter_ops mt_iter_ops (mt_iter_new new) (mt_iter_new old) = Ok t \<and>
    drain (two_merge_ops mt_iter_ops mt_iter_ops) n t = Some (Ok out) \<and>
    sorted_wrt (<) (map data_of out) \<and>
    map_of (by_data out) = map_of (by_data (mt_map old)) ++ map_of (by_data (mt_map new))"
proof -
  let ?out = "merge2 (mt_map new) (mt_map old)"
  obtain t where t: "two_merge_new mt_iter_ops mt_iter_ops (mt_iter_new new) (mt_iter_new old) = Ok t"
    "two_merge_inv (\<lambda>_. True) mt_iter_rest (\<lambda>_. True) mt_iter_rest t"
    "two_merge_rest mt_iter_rest mt_iter_rest t = ?out"
    using mi_two.two_merge_new_ok [of "mt_iter_new new" "mt_iter_new old"] by auto
  have "length (merge2 as bs) \<le> length as + length bs" for as bs
    by (induction as bs rule: merge2.induct) auto
  then have "length ?out < n" using assms(4) le_less_trans by blast
  then have "drain (two_merge_ops mt_iter_ops mt_iter_ops) n t = Some (Ok ?out)"
    using mi_two_merge.drain_rest [OF t(2), of n] t(3) by simp
  moreover have "fst e \<le> fst e'" if "e \<in> set (mt_map new)" "e' \<in> set (mt_map old)" "data_of e = data_of e'"
    for e e'
    using assms(3) [OF that] that(3) by (auto simp: less_eq_key_def)
  note merge2_overrides [OF assms(1,2) this]
  ultimately show ?thesis using t(1) by blast
qed

lemma two_way_merge_overrides_witness:
  "\<exists>t out. two_merge_new mt_iter_ops mt_iter_ops
      (mt_iter_new \<lparr>mt_map = [(Key [1] 7, None)], mt_size = 1\<rparr>)
      (mt_iter_new \<lparr>mt_map = [(Key [1] 3, Some [3]), (Key [2] 4, Some [4])], mt_size = 4\<rparr>) = Ok t \<and>
    drain (two_merge_ops mt_iter_ops mt_iter_ops) 4 t = Some (Ok out) \<and>
    map_of (by_data out) [1] = Some None"
proof -
  let ?new = "\<lparr>mt_map = [(Key [1] 7, None)], mt_size = 1\<rparr>"
  let ?old = "\<lparr>mt_map = [(Key [1] 3, Some [3]), (Key [2] 4, Some [4])], mt_size = 4\<rparr>"
  have "\<exists>t out. two_merge_new mt_iter_ops mt_iter_ops (mt_iter_new ?new) (mt_iter_new ?old) = Ok t \<and>
      drain (two_merge_ops mt_iter_ops mt_iter_ops) 4 t = Some (Ok out) \<and>
      sorted_wrt (<) (map data_of out) \<and>
      map_of (by_data out) = map_of (by_data (mt_map ?old)) ++ map_of (by_data (mt_map ?new))"
  proof (rule two_way_merge_overrides)
    fix e e' :: "key \<times> bytes option"
    assume "e \<in> set (mt_map ?new)" "e' \<in> set (mt_map ?old)" "data_of e = data_of e'"
    then have "e = (Key [1] 7, None)" "e' = (Key [1] 3, Some [3]) \<or> e' = (Key [2] 4, Some [4])"
      by simp_all
    then show "key_timestamp (fst e') \<le> key_timestamp (fst e)" by (elim disjE) simp_all
  qed simp_all
  then obtain t out where "two_merge_new mt_iter_ops mt_iter_ops (mt_iter_new ?new) (mt_iter_new ?old) = Ok t"
    "drain (two_merge_ops mt_iter_ops mt_iter_ops) 4 t = Some (Ok out)"
    "map_of (by_data out) = map_of (by_data (mt_map ?old)) ++ map_of (by_data (mt_map ?new))" by blast
  moreover from this(3) have "map_of (by_data out) [1] = Some None" by simp
  ultimately show ?thesis by blast
qed

lemma snap_from_mem:
  assumes "skip_ok m" "\<And>d x. lk = Some d \<Longrightarrow> x \<in> set m \<Longrightarrow> d \<le> data_of x"
  shows "e \<in> set (snap_from t lk m) \<longleftrightarrow>
     e \<in> set m \<and> lk \<noteq> Some (data_of e) \<and> key_timestamp (fst e) \<le> t \<and>
     (\<forall>x \<in> set m. data_of x = data_of e \<longrightarrow> key_timestamp (fst x) \<le> key_timestamp (fst e))"
  using assms
proof (induction m arbitrary: lk)
  case (Cons f m)
  obtain k v where f: "f = (k, v)" by (cases f)
  have ok: "skip_ok m" and first: "\<And>x. x \<in> set m \<Longrightarrow> k < fst x"
    using Cons.prems(1) f by (auto simp: skip_ok_Cons)
  have older: "key_timestamp (fst x) < key_timestamp k" if "x \<in> set m" "data_of x = key_data k" for x
    using first [OF that(1)] that(2) by (auto simp: less_key_def)
  let ?newest = "\<lambda>m. \<forall>x \<in> set m. data_of x = data_of e \<longrightarrow> key_timestamp (fst x) \<le> key_timestamp (fst e)"
  have other: "?newest (f # m) = ?newest m" if "data_of e \<noteq> key_data k"
    using that f by auto
  have same: "\<not> ?newest (f # m)" if "data_of e = key_data k" "e \<in> set m"
    using older [OF that(2,1)] that f by auto
  have head: "?newest (f # m)" if "e = f"
    using older that f by (auto intro: less_imp_le)
  have above: "key_data k \<le> data_of x" if "x \<in> set m" for x
    using first [OF that] by (intro key_le_data) simp
  show ?case
  proof (cases "lk = Some (key_data k)")
    case True
    then have "e \<in> set (snap_from t lk (f # m)) \<longleftrightarrow> e \<in> set (snap_from t lk m)" using f by simp
    also have "\<dots> \<longleftrightarrow> e \<in> set m \<and> lk \<noteq> Some (data_of e) \<and> key_timestamp (fst e) \<le> t \<and> ?newest m"
      using Cons.prems(2) by (intro Cons.IH [OF ok]) auto
    finally show ?thesis using True other f by auto
  next
    case False
    have IH: "e \<in> set (snap_from t (Some (key_data k)) m) \<longleftrightarrow>
        e \<in> set m \<and> key_data k \<noteq> data_of e \<and> key_timestamp (fst e) \<le> t \<and> ?newest m"
      using Cons.IH [OF ok, of "Some (key_data k)"] above by auto
    have lk: "lk \<noteq> Some (data_of e)" if "e \<in> set (f # m)"
    proof
      assume "lk = Some (data_of e)"
      with Cons.prems(2) [of "data_of e" f] f have "data_of e \<le> key_data k" by simp
      moreover have "key_data k \<le> data_of e" using that above [of e] f by (cases "e = f") auto
      ultimately show False using False \<open>lk = Some (data_of e)\<close> by simp
    qed
    have step: "e \<in> set (snap_from t lk (f # m)) \<longleftrightarrow>
        (e = f \<and> key_timestamp k \<le> t) \<or> e \<in> set (snap_from t (Some (key_data k)) m)"
      using False f by auto
    show ?thesis
    proof (cases "data_of e = key_data k")
      case True
      with step IH same head lk f show ?thesis by (cases "e = f") auto
    next
      case False
      then have "e \<noteq> f" using f by auto
      with False step IH other lk show ?thesis by auto
    qed
  qed
qed simp

text \<open>
  What a snapshot scan shows. A scan at a timestamp yields exactly the entries that are
  the newest of their user key in the whole table and not newer than the timestamp: a user
  key with a newer version is left out, also when it has an older version that a point read
  at the same timestamp answers.
\<close>

theorem snapshot_scan:
  assumes "skip_ok (mt_map mt)" "length (mt_map mt) < n"
  shows "\<exists>s out. snapshot_new mt_iter_ops (mt_iter_new mt) t = Some (Ok s) \<and>
    drain (snapshot_ops mt_iter_ops) n s = Some (Ok out) \<and>
    (\<forall>e. e \<in> set out \<longleftrightarrow> e \<in> set (mt_map mt) \<and> key_timestamp (fst e) \<le> t \<and>
       (\<forall>x \<in> set (mt_map mt). data_of x = data_of e \<longrightarrow> key_timestamp (fst x) \<le> key_timestamp (fst e)))"
proof -
  obtain s where s: "snapshot_new mt_iter_ops (mt_iter_new mt) t = Some (Ok s)"
    "snapshot_inv (\<lambda>_. True) mt_iter_rest s" "snapshot_rest mt_iter_rest s = snap_from t None (mt_map mt)"
    using mi.snapshot_new_ok [of "mt_iter_new mt" t] by auto
  have "length (snap_from t lk m) \<le> length m" for lk m
    by (induction m arbitrary: lk) (auto intro: le_SucI)
  then have "length (snap_from t None (mt_map mt)) < n" using assms(2) le_less_trans by blast
  then have d: "drain (snapshot_ops mt_iter_ops) n s = Some (Ok (snap_from t None (mt_map mt)))"
    using mi_snapshot.drain_rest [OF s(2), of n] s(3) by simp
  show ?thesis
    by (rule exI [of _ s], rule exI [of _ "snap_from t None (mt_map mt)"], intro conjI s(1) d allI)
       (use snap_from_mem [OF assms(1), of None] in simp)
qed

lemma snapshot_scan_witness:
  "\<exists>s out. snapshot_new mt_iter_ops (mt_iter_new
       \<lparr>mt_map = [(Key [1] 9, Some [9]), (Key [1] 4, Some [4]), (Key [2] 5, Some [5])], mt_size = 6\<rparr>) 5 =
       Some (Ok s) \<and>
    drain (snapshot_ops mt_iter_ops) 4 s = Some (Ok out) \<and> (Key [1] 4, Some [4]) \<notin> set out \<and>
    mt_get_at_ts \<lparr>mt_map = [(Key [1] 9, Some [9]), (Key [1] 4, Some [4]), (Key [2] 5, Some [5])], mt_size = 6\<rparr>
      [1] 5 = Some (Some [4])"
proof -
  let ?mt = "\<lparr>mt_map = [(Key [1] 9, Some [9]), (Key [1] 4, Some [4]), (Key [2] 5, Some [5])], mt_size = 6\<rparr>"
  have "skip_ok (mt_map ?mt)" by (simp add: skip_ok_def key_less_iff)
  from snapshot_scan [OF this, of 4 5]
  obtain s out where "snapshot_new mt_iter_ops (mt_iter_new ?mt) 5 = Some (Ok s)"
    "drain (snapshot_ops mt_iter_ops) 4 s = Some (Ok out)" "(Key [1] 4, Some [4]) \<notin> set out"
    by fastforce
  moreover have "mt_get_at_ts ?mt [1] 5 = Some (Some [4])"
    by (simp add: mt_get_at_ts_def skip_range_from_def key_less_iff)
  ultimately show ?thesis by blast
qed

end
