(* ===== verification/Lsm.thy ===== *)
theory Lsm
  imports Scan Wal Manifest
begin

text \<open>
  \<open>crabstash-storage/src/lsm.rs\<close>: the storage engine. Writes go to the log and the memtable;
  a full memtable is rotated and flushed to a sorted table under the same write lock; reads
  look in the memtable, the immutable memtables and the tables of the levels. The files are
  maps from identifiers to contents; file operations do not fail. CRC-32, LZ4 and the sizing
  of the Bloom filters are parameters.
\<close>

section \<open>Parameters and state\<close>

record lsm_env =
  le_blocks :: block_env
  le_wal_compress :: "bytes \<Rightarrow> bytes"
  le_wal_decompress :: "bytes \<Rightarrow> bytes option"
  le_bits_per_key :: nat
  le_hashes :: u32

record lsm_options =
  opt_memtable_size :: nat
  opt_block_size :: nat
  opt_block_cache_capacity :: u64
  opt_compression :: compression_type

definition default_lsm_options :: lsm_options where
  "default_lsm_options =
     \<lparr>opt_memtable_size = 4 * 1024 * 1024, opt_block_size = 4096,
      opt_block_cache_capacity = 64 * 1024 * 1024, opt_compression = Lz4\<rparr>"

text \<open>What is on disk: the manifest's text if the file exists, tables and logs by identifier.\<close>

record disk =
  d_manifest :: "string option"
  d_ssts :: "(u64, bytes) hmap"
  d_wals :: "(u64, bytes) hmap"

definition empty_disk :: disk where
  "empty_disk = \<lparr>d_manifest = None, d_ssts = [], d_wals = []\<rparr>"

text \<open>\<open>lsm_wals\<close> are the log files other than the one \<open>lsm_wal\<close> writes, which is \<open>lsm_wal_id\<close>.\<close>

record lsm =
  lsm_memtable :: memtable
  lsm_immutables :: "memtable list"
  lsm_levels :: "(u32, sstable list) hmap"
  lsm_wal :: wal
  lsm_wal_id :: u64
  lsm_manifest :: manifest
  lsm_next_ts :: ts
  lsm_cache :: block_cache
  lsm_options :: lsm_options
  lsm_ssts :: "(u64, bytes) hmap"
  lsm_wals :: "(u64, bytes) hmap"

section \<open>Opening and closing\<close>

fun open_tables ::
  "(u64, bytes) hmap \<Rightarrow> u64 list \<Rightarrow> (error, sstable list) result" where
  "open_tables ssts [] = Ok []"
| "open_tables ssts (i # is) =
     (case hm_get ssts i of
        None \<Rightarrow> open_tables ssts is
      | Some contents \<Rightarrow>
          bind_result (open_sst i contents True) (\<lambda>t.
          bind_result (open_tables ssts is) (\<lambda>ts. Ok (t # ts))))"

fun open_levels ::
  "(u64, bytes) hmap \<Rightarrow> (u32, level_meta) hmap \<Rightarrow> (error, (u32, sstable list) hmap) result" where
  "open_levels ssts [] = Ok []"
| "open_levels ssts ((level, meta) # ms) =
     bind_result (open_tables ssts (lm_sst_ids meta)) (\<lambda>ts.
     bind_result (open_levels ssts ms) (\<lambda>ls. Ok ((level, ts) # ls)))"

definition apply_record :: "wal_record \<Rightarrow> memtable \<Rightarrow> memtable" where
  "apply_record r mt =
     (let k = Key (rec_key r) (rec_timestamp r) in
      case rec_type r of
        Put \<Rightarrow> mt_put k (case rec_value r of Some v \<Rightarrow> v | None \<Rightarrow> []) mt
      | Delete \<Rightarrow> mt_delete k mt)"

fun replay_logs ::
  "lsm_env \<Rightarrow> (u64, bytes) hmap \<Rightarrow> nat list \<Rightarrow> memtable \<Rightarrow> (error, memtable) result" where
  "replay_logs env wals [] mt = Ok mt"
| "replay_logs env wals (i # is) mt =
     (case hm_get wals (of_nat i) of
        None \<Rightarrow> replay_logs env wals is mt
      | Some contents \<Rightarrow>
          bind_result (recover (env_crc (le_blocks env)) (le_wal_decompress env) contents) (\<lambda>rs.
            replay_logs env wals is (fold apply_record rs mt)))"

text \<open>The log named by the manifest's next identifier is created, which truncates it.\<close>

definition lsm_open :: "lsm_env \<Rightarrow> disk \<Rightarrow> lsm_options \<Rightarrow> (error, lsm) result" where
  "lsm_open env d opts =
     bind_result (case d_manifest d of Some contents \<Rightarrow> manifest_open contents | None \<Rightarrow> Ok manifest_create) (\<lambda>m.
     bind_result (open_levels (d_ssts d) (mf_levels m)) (\<lambda>levels.
     let wals = hm_remove (next_wal_id m) (d_wals d) in
     bind_result (replay_logs env wals [1..<unat (next_wal_id m)] new_memtable) (\<lambda>mt.
       Ok \<lparr>lsm_memtable = mt, lsm_immutables = [], lsm_levels = levels,
           lsm_wal = create_with_options default_wal_options, lsm_wal_id = next_wal_id m,
           lsm_manifest = m, lsm_next_ts = 1, lsm_cache = [], lsm_options = opts,
           lsm_ssts = d_ssts d, lsm_wals = wals\<rparr>)))"

text \<open>Dropping the engine drops its log, which flushes and syncs it.\<close>

definition lsm_close :: "lsm \<Rightarrow> disk" where
  "lsm_close s =
     \<lparr>d_manifest = Some (mf_file (lsm_manifest s)), d_ssts = lsm_ssts s,
      d_wals = hm_insert (lsm_wal_id s) (drop_wal (lsm_wal s)) (lsm_wals s)\<rparr>"

section \<open>Reading\<close>

fun search_memtables :: "memtable list \<Rightarrow> bytes \<Rightarrow> ts \<Rightarrow> bytes option option" where
  "search_memtables [] k t = None"
| "search_memtables (m # ms) k t =
     (case mt_get_at_ts m k t of Some v \<Rightarrow> Some v | None \<Rightarrow> search_memtables ms k t)"

text \<open>The first table with a value answers; \<open>get\<close> is the lookup in one table.\<close>

fun search_each ::
  "('t \<Rightarrow> bytes \<Rightarrow> 'c \<Rightarrow> (error, bytes option) result \<times> 'c) \<Rightarrow> 't list \<Rightarrow> bytes \<Rightarrow> 'c \<Rightarrow>
   (error, bytes option) result \<times> 'c" where
  "search_each get [] k cache = (Ok None, cache)"
| "search_each get (t # ts) k cache =
     (case get t k cache of
        (Ok None, cache') \<Rightarrow> search_each get ts k cache'
      | (r, cache') \<Rightarrow> (r, cache'))"

definition search_tables ::
  "lsm_env \<Rightarrow> sstable list \<Rightarrow> bytes \<Rightarrow> block_cache \<Rightarrow> (error, bytes option) result \<times> block_cache" where
  "search_tables env ts k cache = search_each (sst_get (le_blocks env)) ts k cache"

definition level_tables :: "lsm \<Rightarrow> u32 \<Rightarrow> sstable list" where
  "level_tables s level = (case hm_get (lsm_levels s) level of Some ts \<Rightarrow> ts | None \<Rightarrow> [])"

text \<open>The tables in the order a lookup visits them.\<close>

definition tables_in_order :: "lsm \<Rightarrow> sstable list" where
  "tables_in_order s = concat (map (\<lambda>level. rev (level_tables s (of_nat level))) [0..<7])"

definition lsm_get_at_ts :: "lsm_env \<Rightarrow> bytes \<Rightarrow> ts \<Rightarrow> lsm \<Rightarrow> (error, bytes option) result \<times> lsm" where
  "lsm_get_at_ts env k t s =
     (case mt_get_at_ts (lsm_memtable s) k t of
        Some v \<Rightarrow> (Ok v, s)
      | None \<Rightarrow>
          (case search_memtables (rev (lsm_immutables s)) k t of
             Some v \<Rightarrow> (Ok v, s)
           | None \<Rightarrow>
               (let (r, cache) = search_tables env (tables_in_order s) k (lsm_cache s)
                in (r, s\<lparr>lsm_cache := cache\<rparr>))))"

definition lsm_get :: "lsm_env \<Rightarrow> bytes \<Rightarrow> lsm \<Rightarrow> (error, bytes option) result \<times> lsm" where
  "lsm_get env k s = lsm_get_at_ts env k (lsm_next_ts s) s"

section \<open>Rotating and flushing\<close>

text \<open>
  \<open>flush_immutable\<close> of the last immutable memtable. A failure leaves what was done before it;
  the file of a table that was not finished is not kept.
\<close>

definition flush_immutable :: "lsm_env \<Rightarrow> memtable \<Rightarrow> lsm \<Rightarrow> (error, unit) result \<times> lsm" where
  "flush_immutable env imm s =
     (let (i, m1) = allocate_sst_id (lsm_manifest s); s1 = s\<lparr>lsm_manifest := m1\<rparr> in
      case build_sst (le_blocks env) (mt_len imm) (opt_compression (lsm_options s))
             (le_bits_per_key env) (le_hashes env) (mt_map imm) of
        Ok contents \<Rightarrow>
          (let s2 = s1\<lparr>lsm_ssts := hm_insert i contents (lsm_ssts s1),
                       lsm_manifest := add_sst 0 i m1\<rparr> in
           case open_sst i contents True of
             Ok t \<Rightarrow>
               (Ok (), s2\<lparr>lsm_levels := hm_insert 0 (level_tables s2 0 @ [t]) (lsm_levels s2),
                         lsm_immutables := butlast (lsm_immutables s2)\<rparr>)
           | Err e \<Rightarrow> (Err e, s2)
           | Panic \<Rightarrow> (Panic, s2))
      | Err e \<Rightarrow> (Err e, s1)
      | Panic \<Rightarrow> (Panic, s1))"

text \<open>The old log is synced, then replaced; a new log of the same name truncates it.\<close>

definition rotate_memtable :: "lsm_env \<Rightarrow> lsm \<Rightarrow> (error, unit) result \<times> lsm" where
  "rotate_memtable env s =
     (let imm = lsm_memtable s;
          (i, m1) = allocate_wal_id (lsm_manifest s)
      in flush_immutable env imm (s\<lparr>
           lsm_memtable := new_memtable,
           lsm_immutables := lsm_immutables s @ [imm],
           lsm_manifest := add_wal i m1,
           lsm_wals := hm_remove i (hm_insert (lsm_wal_id s) (drop_wal (lsm_wal s)) (lsm_wals s)),
           lsm_wal := create_with_options default_wal_options,
           lsm_wal_id := i\<rparr>))"

definition rotate_if_full :: "lsm_env \<Rightarrow> lsm \<Rightarrow> (error, unit) result \<times> lsm" where
  "rotate_if_full env s =
     (if mt_size (lsm_memtable s) \<ge> opt_memtable_size (lsm_options s)
      then rotate_memtable env s else (Ok (), s))"

section \<open>Writing\<close>

definition lsm_put :: "lsm_env \<Rightarrow> bytes \<Rightarrow> bytes \<Rightarrow> lsm \<Rightarrow> (error, unit) result \<times> lsm" where
  "lsm_put env k v s =
     (let t = lsm_next_ts s;
          r = \<lparr>rec_type = Put, rec_key = k, rec_value = Some v, rec_timestamp = t\<rparr>
      in rotate_if_full env (s\<lparr>
           lsm_next_ts := t + 1,
           lsm_wal := append (env_crc (le_blocks env)) (le_wal_compress env) r (lsm_wal s),
           lsm_memtable := mt_put (Key k t) v (lsm_memtable s)\<rparr>))"

definition lsm_delete :: "lsm_env \<Rightarrow> bytes \<Rightarrow> lsm \<Rightarrow> lsm" where
  "lsm_delete env k s =
     (let t = lsm_next_ts s;
          r = \<lparr>rec_type = Delete, rec_key = k, rec_value = None, rec_timestamp = t\<rparr>
      in s\<lparr>lsm_next_ts := t + 1,
           lsm_wal := append (env_crc (le_blocks env)) (le_wal_compress env) r (lsm_wal s),
           lsm_memtable := mt_delete (Key k t) (lsm_memtable s)\<rparr>)"

fun batch_record :: "batch_operation \<Rightarrow> ts \<Rightarrow> wal_record" where
  "batch_record (BatchPut k v) t =
     \<lparr>rec_type = Put, rec_key = k, rec_value = Some v, rec_timestamp = t\<rparr>"
| "batch_record (BatchDelete k) t =
     \<lparr>rec_type = Delete, rec_key = k, rec_value = None, rec_timestamp = t\<rparr>"

fun apply_batch :: "batch_operation list \<Rightarrow> ts \<Rightarrow> memtable \<Rightarrow> memtable" where
  "apply_batch [] t mt = mt"
| "apply_batch (BatchPut k v # ops) t mt = apply_batch ops (t + 1) (mt_put (Key k t) v mt)"
| "apply_batch (BatchDelete k # ops) t mt = apply_batch ops (t + 1) (mt_delete (Key k t) mt)"

definition lsm_write_batch :: "lsm_env \<Rightarrow> write_batch \<Rightarrow> lsm \<Rightarrow> (error, unit) result \<times> lsm" where
  "lsm_write_batch env b s =
     (let ops = operations b; base = lsm_next_ts s;
          records = map (\<lambda>(i, p). batch_record p (base + of_nat i)) (enumerate 0 ops)
      in if ops = [] then (Ok (), s)
         else rotate_if_full env (s\<lparr>
           lsm_next_ts := base + of_nat (length ops),
           lsm_wal := append_batch (env_crc (le_blocks env)) (le_wal_compress env) records (lsm_wal s),
           lsm_memtable := apply_batch ops base (lsm_memtable s)\<rparr>))"

definition lsm_sync :: "lsm \<Rightarrow> lsm" where
  "lsm_sync s = s\<lparr>lsm_wal := sync (lsm_wal s)\<rparr>"

definition lsm_current_ts :: "lsm \<Rightarrow> ts" where
  "lsm_current_ts s = lsm_next_ts s"

text \<open>\<open>cache_stats\<close>: the two counters are kept by the cache library, from its contents.\<close>

record cache_stats =
  stats_entry_count :: u64
  stats_weighted_size :: u64
  stats_capacity :: u64

definition lsm_cache_stats ::
  "(block_cache \<Rightarrow> u64) \<Rightarrow> (block_cache \<Rightarrow> u64) \<Rightarrow> lsm \<Rightarrow> cache_stats" where
  "lsm_cache_stats entry_count weighted_size s =
     \<lparr>stats_entry_count = entry_count (lsm_cache s), stats_weighted_size = weighted_size (lsm_cache s),
      stats_capacity = opt_block_cache_capacity (lsm_options s)\<rparr>"

end
