(* ===== verification/Lsm_Reads.thy ===== *)
theory Lsm_Reads
  imports Lsm
begin

text \<open>
  What the storage engine of \<open>Lsm\<close> answers: the lookup through memtable and tables as an
  overriding search, what a flush does to it, and runs of puts from an empty directory.
\<close>

section \<open>The interface of a stack of tables\<close>

text \<open>The newest source that has a value answers; a source without one is passed over.\<close>

fun first_some :: "'a option list \<Rightarrow> 'a option" where
  "first_some [] = None"
| "first_some (Some x # xs) = Some x"
| "first_some (None # xs) = first_some xs"

lemma first_some_Cons: "first_some (x # xs) = (case x of Some y \<Rightarrow> Some y | None \<Rightarrow> first_some xs)"
  by (cases x) simp_all

abbreviation live :: "bytes option option \<Rightarrow> bytes option" where
  "live e \<equiv> Option.bind e (\<lambda>v. v)"

text \<open>
  What the engine relies on: a lookup in one of the tables that share a cache answers the
  live value of the table's entry, and keeps the tables and the cache in order.
\<close>

locale table_stack =
  fixes get :: "'t \<Rightarrow> bytes \<Rightarrow> 'c \<Rightarrow> (error, bytes option) result \<times> 'c"
    and entries :: "'t \<Rightarrow> bytes \<rightharpoonup> bytes option"
    and valid :: "'t list \<Rightarrow> 'c \<Rightarrow> bool"
  assumes get_answer: "valid ts c \<Longrightarrow> t \<in> set ts \<Longrightarrow> fst (get t k c) = Ok (live (entries t k))"
    and get_valid: "valid ts c \<Longrightarrow> t \<in> set ts \<Longrightarrow> valid ts (snd (get t k c))"
begin

lemma search_each_ok:
  assumes "valid ts c" "set us \<subseteq> set ts"
  shows "fst (search_each get us k c) = Ok (first_some (map (\<lambda>t. live (entries t k)) us))"
    and "valid ts (snd (search_each get us k c))"
proof -
  have "fst (search_each get us k c) = Ok (first_some (map (\<lambda>t. live (entries t k)) us)) \<and>
      valid ts (snd (search_each get us k c))"
    using assms
  proof (induction us arbitrary: c)
    case (Cons u us)
    obtain r c' where rc: "get u k c = (r, c')" by fastforce
    have "r = Ok (live (entries u k))" "valid ts c'"
      using get_answer [OF Cons.prems(1), of u k] get_valid [OF Cons.prems(1), of u k] Cons.prems(2) rc
      by simp_all
    with Cons.IH [of c'] Cons.prems(2) rc show ?case
      by (cases "live (entries u k)") auto
  qed simp
  then show "fst (search_each get us k c) = Ok (first_some (map (\<lambda>t. live (entries t k)) us))"
    "valid ts (snd (search_each get us k c))" by simp_all
qed

end

section \<open>Built tables form such a stack\<close>

definition table_entries :: "block_env \<Rightarrow> sstable \<Rightarrow> entry list" where
  "table_entries env t = concat (map (block_entries env t) [0..<length (sst_block_metas t)])"

definition table_good :: "block_env \<Rightarrow> sstable \<Rightarrow> bool" where
  "table_good env t \<longleftrightarrow> (\<exists>c f blocks sst hc f0. t = table_of env c f blocks sst hc \<and>
     blocks_ok env c blocks \<and> sorted_wrt (<) (map fst (concat (map fst blocks))) \<and>
     f = fold bloom_add (map fst (concat (map fst blocks))) f0 \<and> bloom_ok f0)"

lemma table_entries_table_of:
  assumes "blocks_ok env c blocks"
  shows "table_entries env (table_of env c f blocks sst hc) = concat (map fst blocks)"
proof -
  have "map (block_entries env (table_of env c f blocks sst hc)) [0..<length blocks] = map fst blocks"
    using blocks_ok_entries(3) [OF assms] by (intro nth_equalityI) auto
  then show ?thesis by (simp add: table_entries_def)
qed

lemma sst_get_good:
  assumes "table_good env t" "cache_coherent env t cache"
  shows "fst (sst_get env t k cache) = Ok (live (map_of (table_entries env t) k))"
    "cache_coherent env t (snd (sst_get env t k cache))"
proof -
  obtain c f blocks sst hc f0 where t: "t = table_of env c f blocks sst hc" "blocks_ok env c blocks"
    "sorted_wrt (<) (map fst (concat (map fst blocks)))"
    "f = fold bloom_add (map fst (concat (map fst blocks))) f0" "bloom_ok f0"
    using assms(1) unfolding table_good_def by blast
  from sst_get_table [OF t(2-5), where key = k and cache = cache] assms(2) t(1)
  show "fst (sst_get env t k cache) = Ok (live (map_of (table_entries env t) k))"
    "cache_coherent env t (snd (sst_get env t k cache))"
    by (simp_all add: table_entries_table_of [OF t(2)])
qed

text \<open>A lookup caches blocks of its own table only.\<close>

lemma read_block_cache:
  "set (map fst (snd (read_block env t i cache))) \<subseteq> insert (sst_id t, i) (set (map fst cache))"
  "sst \<noteq> sst_id t \<Longrightarrow> cache_get (snd (read_block env t i cache)) (sst, j) = cache_get cache (sst, j)"
  by (auto simp: read_block_def cache_get_def cache_insert_def dom_update
      split: option.splits result.splits if_splits)

lemma sst_get_snd:
  "snd (sst_get env t k cache) = cache \<or>
   snd (sst_get env t k cache) = snd (read_block env t (find_block t k) cache)"
  by (auto simp: sst_get_def Let_def split: result.splits bool.splits prod.splits)

lemma sst_get_cache:
  "set (map fst (snd (sst_get env t k cache))) \<subseteq> (range (Pair (sst_id t))) \<union> set (map fst cache)"
  "sst \<noteq> sst_id t \<Longrightarrow> cache_get (snd (sst_get env t k cache)) (sst, j) = cache_get cache (sst, j)"
proof -
  have sub: "insert (sst_id t, find_block t k) (set (map fst cache)) \<subseteq>
      range (Pair (sst_id t)) \<union> set (map fst cache)" by auto
  show "set (map fst (snd (sst_get env t k cache))) \<subseteq> (range (Pair (sst_id t))) \<union> set (map fst cache)"
    using sst_get_snd [of env t k cache]
  proof
    assume e: "snd (sst_get env t k cache) = snd (read_block env t (find_block t k) cache)"
    show ?thesis unfolding e by (rule order_trans [OF read_block_cache(1) sub])
  qed simp
  assume other: "sst \<noteq> sst_id t"
  show "cache_get (snd (sst_get env t k cache)) (sst, j) = cache_get cache (sst, j)"
    using sst_get_snd [of env t k cache]
  proof
    assume e: "snd (sst_get env t k cache) = snd (read_block env t (find_block t k) cache)"
    show ?thesis unfolding e by (rule read_block_cache(2) [OF other])
  qed simp
qed

definition tables_valid :: "block_env \<Rightarrow> sstable list \<Rightarrow> block_cache \<Rightarrow> bool" where
  "tables_valid env ts cache \<longleftrightarrow> (\<forall>t \<in> set ts. table_good env t \<and> cache_coherent env t cache) \<and>
     distinct (map sst_id ts) \<and> fst ` set (map fst cache) \<subseteq> set (map sst_id ts)"

interpretation ts: table_stack "sst_get env" "\<lambda>t. map_of (table_entries env t)" "tables_valid env"
proof
  fix ts cache t k
  assume valid: "tables_valid env ts cache" and t: "t \<in> set ts"
  then have good: "table_good env t" "cache_coherent env t cache" by (auto simp: tables_valid_def)
  show "fst (sst_get env t k cache) = Ok (live (map_of (table_entries env t) k))"
    by (rule sst_get_good(1) [OF good])
  have "cache_coherent env u (snd (sst_get env t k cache))" if u: "u \<in> set ts" for u
  proof (cases "u = t")
    case True
    with sst_get_good(2) [OF good] show ?thesis by simp
  next
    case False
    have "inj_on sst_id (set ts)" using valid by (simp add: tables_valid_def distinct_map)
    with False t u have other: "sst_id u \<noteq> sst_id t" by (meson inj_onD)
    have "cache_coherent env u cache" using valid u by (simp add: tables_valid_def)
    then show ?thesis
      unfolding cache_coherent_def by (simp only: sst_get_cache(2) [OF other])
  qed
  moreover have "fst ` set (map fst (snd (sst_get env t k cache))) \<subseteq> set (map sst_id ts)"
  proof -
    have "fst ` (range (Pair (sst_id t)) \<union> set (map fst cache)) \<subseteq> set (map sst_id ts)"
      using valid t unfolding tables_valid_def image_Un by auto
    with image_mono [OF sst_get_cache(1) [of env t k cache], of fst] show ?thesis by (rule order_trans)
  qed
  ultimately show "tables_valid env ts (snd (sst_get env t k cache))"
    using valid by (simp add: tables_valid_def)
qed

section \<open>The invariant and the view\<close>

definition lsm_ok :: "lsm_env \<Rightarrow> lsm \<Rightarrow> bool" where
  "lsm_ok env s \<longleftrightarrow> skip_ok (mt_map (lsm_memtable s)) \<and> lsm_immutables s = [] \<and>
     tables_valid (le_blocks env) (tables_in_order s) (lsm_cache s) \<and>
     (\<forall>t \<in> set (tables_in_order s). sst_id t < next_sst_id (lsm_manifest s)) \<and>
     (\<forall>(k, v) \<in> set (mt_map (lsm_memtable s)). key_timestamp k < lsm_next_ts s)"

definition tables_view :: "lsm_env \<Rightarrow> sstable list \<Rightarrow> bytes \<Rightarrow> bytes option" where
  "tables_view env ts k = first_some (map (\<lambda>t. live (map_of (table_entries (le_blocks env) t) k)) ts)"

definition memtable_view :: "memtable \<Rightarrow> bytes \<Rightarrow> bytes option option" where
  "memtable_view mt k = map_of (data_entries (mt_map mt)) k"

definition view :: "lsm_env \<Rightarrow> lsm \<Rightarrow> bytes \<Rightarrow> bytes option" where
  "view env s k = (case memtable_view (lsm_memtable s) k of
     Some v \<Rightarrow> v | None \<Rightarrow> tables_view env (tables_in_order s) k)"

lemma lsm_okD:
  assumes "lsm_ok env s"
  shows "skip_ok (mt_map (lsm_memtable s))" "lsm_immutables s = []"
    "tables_valid (le_blocks env) (tables_in_order s) (lsm_cache s)"
    "t \<in> set (tables_in_order s) \<Longrightarrow> sst_id t < next_sst_id (lsm_manifest s)"
    "(k, v) \<in> set (mt_map (lsm_memtable s)) \<Longrightarrow> key_timestamp k < lsm_next_ts s"
  using assms unfolding lsm_ok_def by auto

lemma map_of_data_entries:
  "map_of (data_entries m) k =
     (case filter (\<lambda>(k', _). key_data k' = k) m of [] \<Rightarrow> None | (_, v) # _ \<Rightarrow> Some v)"
  by (induction m) (auto simp: data_entries_def)

text \<open>Above all its timestamps a memtable answers the newest version, which comes first.\<close>

lemma memtable_newest:
  assumes "skip_ok (mt_map mt)" "\<And>k v. (k, v) \<in> set (mt_map mt) \<Longrightarrow> key_timestamp k < t"
  shows "mt_get_at_ts mt k t = memtable_view mt k"
proof -
  have "filter (\<lambda>(k', _). key_data k' = k \<and> key_timestamp k' \<le> t) (mt_map mt) =
      filter (\<lambda>(k', _). key_data k' = k) (mt_map mt)"
    using assms(2) by (intro filter_cong) (auto intro: less_imp_le)
  then show ?thesis
    by (simp add: mt_get_at_ts_def first_visible_sorted [OF assms(1)] memtable_view_def
        map_of_data_entries)
qed

lemma lsm_get_view:
  assumes "lsm_ok env s"
  shows "fst (lsm_get env k s) = Ok (view env s k)"
proof -
  note ok = lsm_okD [OF assms]
  have "mt_get_at_ts (lsm_memtable s) k (lsm_next_ts s) = memtable_view (lsm_memtable s) k"
    by (rule memtable_newest [OF ok(1,5)])
  moreover have "fst (search_tables env (tables_in_order s) k (lsm_cache s)) =
      Ok (tables_view env (tables_in_order s) k)"
    using ts.search_each_ok(1) [OF ok(3) order_refl] by (simp add: search_tables_def tables_view_def)
  ultimately show ?thesis
    using ok(2)
    by (auto simp: lsm_get_def lsm_get_at_ts_def view_def split: option.split prod.split)
qed

section \<open>Flushing\<close>

text \<open>A memtable the table format can hold, with one version of each user key.\<close>

definition flushable :: "lsm_env \<Rightarrow> memtable \<Rightarrow> bool" where
  "flushable env mt \<longleftrightarrow> skip_ok (mt_map mt) \<and> distinct (map (key_data \<circ> fst) (mt_map mt)) \<and>
     sizes_ok (mt_len mt) (le_bits_per_key env) (mt_map mt)"

lemma flushable_sorted:
  assumes "skip_ok m" "distinct (map (key_data \<circ> fst) m)"
  shows "sorted_wrt (<) (map fst (data_entries m))"
proof -
  have "sorted_wrt (<) (map (key_data \<circ> fst) m)"
    using assms
  proof (induction m)
    case (Cons e m)
    obtain k v where e: "e = (k, v)" by fastforce
    have "key_data k < key_data (fst e')" if "e' \<in> set m" for e'
    proof -
      have "k < fst e'" using Cons.prems(1) e that by (cases e') (auto simp: skip_ok_Cons)
      then have "key_data k \<le> key_data (fst e')" by (intro key_le_data) simp
      moreover have "key_data k \<noteq> key_data (fst e')" using Cons.prems(2) e that by auto
      ultimately show ?thesis by simp
    qed
    with Cons e show ?case by (auto simp: skip_ok_Cons)
  qed simp
  moreover have "map fst (data_entries m) = map (key_data \<circ> fst) m"
    by (simp add: data_entries_def case_prod_unfold)
  ultimately show ?thesis by simp
qed

lemma build_flushable:
  assumes "lz4_block_ok (le_blocks env)" "flushable env mt"
  shows "\<exists>contents t. build_sst (le_blocks env) (mt_len mt) c (le_bits_per_key env) (le_hashes env)
        (mt_map mt) = Ok contents \<and> open_sst sst contents True = Ok t \<and> sst_id t = sst \<and>
     table_good (le_blocks env) t \<and> table_entries (le_blocks env) t = data_entries (mt_map mt)"
proof -
  let ?env = "le_blocks env" and ?f0 = "bloom_new (max (mt_len mt) 1) (le_bits_per_key env) (le_hashes env)"
  have mt: "skip_ok (mt_map mt)" "distinct (map (key_data \<circ> fst) (mt_map mt))"
    "sizes_ok (mt_len mt) (le_bits_per_key env) (mt_map mt)"
    using assms(2) by (simp_all add: flushable_def)
  obtain b blocks cur where "builder_add_all ?env (mt_map mt)
      (builder_new (mt_len mt) c (le_bits_per_key env) (le_hashes env)) = Ok b"
    "builds ?env ?f0 c (data_entries (mt_map mt)) blocks cur b"
    using builds_exists [OF assms(1) mt(3)] by blast
  from build_and_open [OF assms(1) mt(3) this] obtain blocks' where
    b: "build_sst ?env (mt_len mt) c (le_bits_per_key env) (le_hashes env) (mt_map mt) =
        Ok (table_bytes ?env c (fold bloom_add (map fst (data_entries (mt_map mt))) ?f0) blocks')"
    "open_sst sst (table_bytes ?env c (fold bloom_add (map fst (data_entries (mt_map mt))) ?f0) blocks') True =
        Ok (table_of ?env c (fold bloom_add (map fst (data_entries (mt_map mt))) ?f0) blocks' sst True)"
    "blocks_ok ?env c blocks'" "concat (map fst blocks') = data_entries (mt_map mt)"
    by metis
  have "table_good ?env (table_of ?env c (fold bloom_add (map fst (data_entries (mt_map mt))) ?f0) blocks' sst True)"
    unfolding table_good_def
    using b(3,4) flushable_sorted [OF mt(1,2)] bloom_ok_new by metis
  with b show ?thesis by (simp add: table_entries_table_of)
qed

lemma tables_in_order_level0:
  "tables_in_order (s\<lparr>lsm_levels := hm_insert 0 (level_tables s 0 @ [t]) (lsm_levels s)\<rparr>) = t # tables_in_order s"
  by (simp add: tables_in_order_def level_tables_def upt_rec)

lemma tables_in_order_cong: "lsm_levels s' = lsm_levels s \<Longrightarrow> tables_in_order s' = tables_in_order s"
  by (simp add: tables_in_order_def level_tables_def)

lemma tables_valid_Cons:
  assumes "tables_valid env ts cache" "table_good env t" "sst_id t \<notin> set (map sst_id ts)"
  shows "tables_valid env (t # ts) cache"
proof -
  have "cache_get cache (sst_id t, i) = None" for i
  proof (rule ccontr)
    assume "cache_get cache (sst_id t, i) \<noteq> None"
    then have "(sst_id t, i) \<in> set (map fst cache)"
      by (auto simp: cache_get_def map_of_eq_None_iff)
    then have "sst_id t \<in> fst ` set (map fst cache)" by (force simp del: set_map)
    with assms(1,3) show False unfolding tables_valid_def by blast
  qed
  then have "cache_coherent env t cache" by (simp add: cache_coherent_def)
  moreover have "fst ` set (map fst cache) \<subseteq> set (map sst_id (t # ts))"
    using assms(1) unfolding tables_valid_def by (simp add: subset_insertI2)
  ultimately show ?thesis using assms by (simp add: tables_valid_def)
qed

lemma next_sst_id_ops [simp]:
  "next_sst_id (add_wal i m) = next_sst_id m"
  "next_sst_id (snd (allocate_wal_id m)) = next_sst_id m"
  "next_sst_id (add_sst l (next_sst_id m) (snd (allocate_sst_id m))) = next_sst_id m + 1"
  by (simp_all add: add_wal_def note_wal_def write_line_def allocate_wal_id_def allocate_sst_id_def
      add_sst_def push_sst_def Let_def)

text \<open>The memtable has become the newest table, whose file is on disk.\<close>

definition flushed :: "lsm_env \<Rightarrow> lsm \<Rightarrow> lsm \<Rightarrow> bool" where
  "flushed env s s' \<longleftrightarrow> lsm_memtable s' = new_memtable \<and>
     (\<exists>t contents. tables_in_order s' = t # tables_in_order s \<and>
        table_entries (le_blocks env) t = data_entries (mt_map (lsm_memtable s)) \<and>
        sst_id t = next_sst_id (lsm_manifest s) \<and>
        lsm_ssts s' = hm_insert (sst_id t) contents (lsm_ssts s) \<and>
        open_sst (sst_id t) contents True = Ok t)"

text \<open>A flush turns the memtable into the newest table. Its tombstones no longer hide anything.\<close>

lemma rotate_memtable_ok:
  assumes env: "lz4_block_ok (le_blocks env)" and ok: "lsm_ok env s"
    and mt: "flushable env (lsm_memtable s)" and ids: "next_sst_id (lsm_manifest s) \<noteq> - 1"
  shows "\<exists>s'. rotate_memtable env s = (Ok (), s') \<and> lsm_ok env s' \<and> flushed env s s' \<and>
     lsm_memtable s' = new_memtable \<and>
     next_sst_id (lsm_manifest s') = next_sst_id (lsm_manifest s) + 1 \<and>
     lsm_next_ts s' = lsm_next_ts s \<and> lsm_options s' = lsm_options s \<and>
     (\<forall>k. view env s' k = first_some [live (memtable_view (lsm_memtable s) k),
        tables_view env (tables_in_order s) k])"
proof -
  note ok' = lsm_okD [OF ok]
  let ?i = "next_sst_id (lsm_manifest s)"
  obtain contents t where t: "build_sst (le_blocks env) (mt_len (lsm_memtable s)) (opt_compression (lsm_options s))
      (le_bits_per_key env) (le_hashes env) (mt_map (lsm_memtable s)) = Ok contents"
    "open_sst ?i contents True = Ok t" "sst_id t = ?i" "table_good (le_blocks env) t"
    "table_entries (le_blocks env) t = data_entries (mt_map (lsm_memtable s))"
    using build_flushable [OF env mt] by blast
  obtain w m1 where m1: "allocate_wal_id (lsm_manifest s) = (w, m1)" by fastforce
  then have m1': "next_sst_id m1 = ?i" using next_sst_id_ops(2) [of "lsm_manifest s"] by simp
  define s1 where "s1 = s\<lparr>lsm_memtable := new_memtable,
           lsm_immutables := lsm_immutables s @ [lsm_memtable s],
           lsm_manifest := add_wal w m1,
           lsm_wals := hm_remove w (hm_insert (lsm_wal_id s) (drop_wal (lsm_wal s)) (lsm_wals s)),
           lsm_wal := create_with_options default_wal_options, lsm_wal_id := w\<rparr>"
  have ids': "next_sst_id (add_wal w m1) = ?i" by (simp add: m1')
  obtain m2 where m2: "snd (allocate_sst_id (add_wal w m1)) = m2" by blast
  then have alloc: "allocate_sst_id (add_wal w m1) = (?i, m2)"
    by (simp add: allocate_sst_id_def m1')
  define s2 where "s2 = s1\<lparr>lsm_ssts := hm_insert ?i contents (lsm_ssts s1),
      lsm_manifest := add_sst 0 ?i m2\<rparr>"
  define s' where "s' = s2\<lparr>lsm_levels := hm_insert 0 (level_tables s2 0 @ [t]) (lsm_levels s2),
      lsm_immutables := butlast (lsm_immutables s2)\<rparr>"
  have s1: "lsm_manifest s1 = add_wal w m1" "lsm_options s1 = lsm_options s"
    by (simp_all add: s1_def)
  have "flush_immutable env (lsm_memtable s) s1 = (Ok (), s')"
    using t(1,2) alloc by (simp add: flush_immutable_def Let_def s1 s2_def s'_def)
  then have rot: "rotate_memtable env s = (Ok (), s')"
    by (simp add: rotate_memtable_def Let_def m1 s1_def)
  have levels: "tables_in_order s' = t # tables_in_order s"
  proof -
    have "tables_in_order s' = tables_in_order (s2\<lparr>lsm_levels := hm_insert 0 (level_tables s2 0 @ [t]) (lsm_levels s2)\<rparr>)"
      by (rule tables_in_order_cong) (simp add: s'_def)
    also have "\<dots> = t # tables_in_order s2" by (rule tables_in_order_level0)
    also have "tables_in_order s2 = tables_in_order s"
      by (rule tables_in_order_cong) (simp add: s2_def s1_def)
    finally show ?thesis .
  qed
  have next_id: "next_sst_id (lsm_manifest s') = ?i + 1"
    using next_sst_id_ops(3) [of 0 "add_wal w m1"] ids' m2 by (simp add: s'_def s2_def)
  have rest: "lsm_memtable s' = new_memtable" "lsm_immutables s' = []" "lsm_cache s' = lsm_cache s"
    "lsm_next_ts s' = lsm_next_ts s" "lsm_options s' = lsm_options s"
    using ok'(2) by (simp_all add: s'_def s2_def s1_def)
  have "?i \<notin> set (map sst_id (tables_in_order s))" using ok'(4) by fastforce
  then have valid: "tables_valid (le_blocks env) (tables_in_order s') (lsm_cache s')"
    unfolding levels rest(3) using t(3,4) by (intro tables_valid_Cons [OF ok'(3)]) simp_all
  have less: "?i < ?i + 1" using less_successor [OF ids] .
  have "lsm_ok env s'"
    unfolding lsm_ok_def
    using valid rest ok'(4) t(3) less next_id
    by (auto simp: levels skip_ok_new skip_ok_nil intro: less_trans)
  moreover have "view env s' k = first_some [live (memtable_view (lsm_memtable s) k),
      tables_view env (tables_in_order s) k]" for k
    using t(5) by (simp add: view_def rest memtable_view_def skip_ok_new data_entries_def tables_view_def
        levels first_some_Cons split: option.split)
  moreover have "flushed env s s'"
    using levels t(2,3,5) rest(1) by (auto simp: flushed_def s'_def s2_def s1_def)
  ultimately show ?thesis using rot rest next_id by auto
qed

section \<open>Writing\<close>

lemma skip_insert_new:
  assumes "k \<notin> fst ` set m"
  shows "set (skip_insert k v m) = insert (k, v) (set m)" "length (skip_insert k v m) = Suc (length m)"
  using assms by (induction m) (auto split: if_splits)

lemma skip_insert_distinct:
  "key_data k \<notin> (key_data \<circ> fst) ` set m \<Longrightarrow> distinct (map (key_data \<circ> fst) m) \<Longrightarrow>
   distinct (map (key_data \<circ> fst) (skip_insert k v m))"
proof (induction m)
  case (Cons e m)
  obtain k' v' where e: "e = (k', v')" by fastforce
  have "k \<notin> fst ` set m" using Cons.prems(1) by force
  from skip_insert_new(1) [OF this] Cons e show ?case by auto
qed simp

text \<open>A version newer than every other one of the memtable hides the older ones of its key.\<close>

lemma newest_write:
  assumes "skip_ok m" "\<And>k' v'. (k', v') \<in> set m \<Longrightarrow> key_timestamp k' < t"
  shows "map_of (data_entries (skip_insert (Key k t) v m)) k' =
     (if k' = k then Some v else map_of (data_entries m) k')"
  using assms
proof (induction m)
  case (Cons e m)
  obtain kd t1 v1 where e: "e = (Key kd t1, v1)" by (metis prod.collapse key.exhaust)
  have t1: "t1 < t" using Cons.prems(2) [of "Key kd t1" v1] e by simp
  have IH: "map_of (data_entries (skip_insert (Key k t) v m)) k' =
     (if k' = k then Some v else map_of (data_entries m) k')"
    using Cons.prems e by (intro Cons.IH) (auto simp: skip_ok_Cons)
  show ?case
  proof (cases "Key k t < Key kd t1")
    case False
    with t1 have "kd \<noteq> k" by (auto simp: key_less_iff)
    with False IH e show ?thesis by (auto simp: data_entries_def)
  qed (use e in \<open>simp add: data_entries_def\<close>)
qed (simp add: data_entries_def)

text \<open>The state after the log and the memtable are written, before a rotation.\<close>

definition written :: "lsm_env \<Rightarrow> wal_record \<Rightarrow> lsm \<Rightarrow> lsm" where
  "written env r s = s\<lparr>lsm_next_ts := lsm_next_ts s + 1,
     lsm_wal := append (env_crc (le_blocks env)) (le_wal_compress env) r (lsm_wal s),
     lsm_memtable := apply_record r (lsm_memtable s)\<rparr>"

definition put_at :: "bytes \<Rightarrow> bytes \<Rightarrow> lsm \<Rightarrow> wal_record" where
  "put_at k v s = \<lparr>rec_type = Put, rec_key = k, rec_value = Some v, rec_timestamp = lsm_next_ts s\<rparr>"

definition delete_at :: "bytes \<Rightarrow> lsm \<Rightarrow> wal_record" where
  "delete_at k s = \<lparr>rec_type = Delete, rec_key = k, rec_value = None, rec_timestamp = lsm_next_ts s\<rparr>"

lemma lsm_put_written: "lsm_put env k v s = rotate_if_full env (written env (put_at k v s) s)"
  by (simp add: lsm_put_def written_def put_at_def apply_record_def Let_def)

lemma lsm_delete_written: "lsm_delete env k s = written env (delete_at k s) s"
  by (simp add: lsm_delete_def written_def delete_at_def apply_record_def Let_def)

lemma apply_record_map:
  "mt_map (apply_record r mt) = skip_insert (Key (rec_key r) (rec_timestamp r))
     (case rec_type r of Put \<Rightarrow> Some (case rec_value r of Some v \<Rightarrow> v | None \<Rightarrow> []) | Delete \<Rightarrow> None) (mt_map mt)"
  by (simp add: apply_record_def mt_put_def mt_delete_def Let_def split: record_type.split)

lemma written_simps [simp]:
  "lsm_immutables (written env r s) = lsm_immutables s" "lsm_levels (written env r s) = lsm_levels s"
  "lsm_manifest (written env r s) = lsm_manifest s" "lsm_cache (written env r s) = lsm_cache s"
  "lsm_options (written env r s) = lsm_options s"
  "lsm_next_ts (written env r s) = lsm_next_ts s + 1"
  "tables_in_order (written env r s) = tables_in_order s"
  "lsm_memtable (written env r s) = apply_record r (lsm_memtable s)"
  by (simp_all add: written_def tables_in_order_def level_tables_def)

lemma written_ok:
  assumes "lsm_ok env s" "rec_timestamp r = lsm_next_ts s" "lsm_next_ts s \<noteq> - 1"
  shows "lsm_ok env (written env r s)"
proof -
  note ok = lsm_okD [OF assms(1)]
  have less: "lsm_next_ts s < lsm_next_ts s + 1" by (rule less_successor [OF assms(3)])
  have "key_timestamp k < lsm_next_ts s + 1"
    if "(k, v) \<in> set (mt_map (apply_record r (lsm_memtable s)))" for k v
  proof -
    have "k = Key (rec_key r) (rec_timestamp r) \<or> (k, v) \<in> set (mt_map (lsm_memtable s))"
      using that skip_insert_mem unfolding apply_record_map by fast
    with ok(5) less assms(2) show ?thesis by (auto intro: less_trans)
  qed
  with ok show ?thesis
    by (auto simp: lsm_ok_def apply_record_map skip_ok_insert)
qed

lemma memtable_view_written:
  assumes "lsm_ok env s" "rec_timestamp r = lsm_next_ts s"
  shows "memtable_view (apply_record r (lsm_memtable s)) k' =
     (if k' = rec_key r
      then Some (case rec_type r of Put \<Rightarrow> Some (case rec_value r of Some v \<Rightarrow> v | None \<Rightarrow> []) | Delete \<Rightarrow> None)
      else memtable_view (lsm_memtable s) k')"
  unfolding memtable_view_def apply_record_map
  using newest_write [OF lsm_okD(1) [OF assms(1)] lsm_okD(5) [OF assms(1)]] assms(2) by simp

section \<open>Runs of puts\<close>

text \<open>
  The documented Bloom filter rate of one percent gives ten bits per key; what is needed is
  that a filter of a memtable stays within the format.
\<close>

definition env_ok :: "lsm_env \<Rightarrow> bool" where
  "env_ok env \<longleftrightarrow> lz4_block_ok (le_blocks env) \<and> le_bits_per_key env \<le> 32"

definition pair_ok :: "bytes \<times> bytes \<Rightarrow> bool" where
  "pair_ok kv \<longleftrightarrow> length (fst kv) \<le> 2 ^ 30 \<and> length (snd kv) \<le> 2 ^ 30"

definition mt_keys :: "memtable \<Rightarrow> bytes set" where
  "mt_keys mt = (key_data \<circ> fst) ` set (mt_map mt)"

text \<open>A state in which \<open>n\<close> more operations stay within the widths of counters and lengths.\<close>

definition room :: "nat \<Rightarrow> lsm \<Rightarrow> bool" where
  "room n s \<longleftrightarrow> mt_len (lsm_memtable s) + n < 2 ^ 29 \<and> unat (lsm_next_ts s) + n < 2 ^ 63 \<and>
     unat (next_sst_id (lsm_manifest s)) + n < 2 ^ 63"

definition clean_memtable :: "memtable \<Rightarrow> bool" where
  "clean_memtable mt \<longleftrightarrow> distinct (map (key_data \<circ> fst) (mt_map mt)) \<and>
     list_all entry_ok (data_entries (mt_map mt))"

lemma counter_step:
  assumes "unat (w :: u64) + 1 < 2 ^ 63"
  shows "w \<noteq> - 1" "unat (w + 1) = unat w + 1"
proof -
  have "unat (- 1 :: u64) = 2 ^ 64 - 1" by (simp add: unsigned_minus_1_eq_mask mask_eq_exp_minus_1)
  with assms show "w \<noteq> - 1" by auto
  then have "1 + w \<noteq> 0" by (metis add.commute add_eq_0_iff)
  then have "unat (1 + w) = Suc (unat w)" by (rule unatSuc)
  then show "unat (w + 1) = unat w + 1" by (simp add: add.commute)
qed

lemma room_counters:
  assumes "room (Suc n) s"
  shows "lsm_next_ts s \<noteq> - 1" "unat (lsm_next_ts s + 1) = unat (lsm_next_ts s) + 1"
  using assms counter_step [of "lsm_next_ts s"] by (auto simp: room_def)

lemma clean_flushable:
  assumes "skip_ok (mt_map mt)" "clean_memtable mt" "mt_len mt < 2 ^ 29" "env_ok env"
  shows "flushable env mt"
proof -
  have "max (max (mt_len mt) 1 * le_bits_per_key env) 64 \<le> 2 ^ 29 * 32"
    using assms(3,4) by (intro max.boundedI mult_mono) (auto simp: env_ok_def)
  then have "length (bits (bloom_new (max (mt_len mt) 1) (le_bits_per_key env) 0)) < 2 ^ 32"
    by (simp add: bloom_new_def Let_def del: max.bounded_iff)
  with assms show ?thesis
    by (simp add: flushable_def clean_memtable_def sizes_ok_def mt_len_def)
qed

lemma rotate_if_full_ok:
  assumes "env_ok env" "lsm_ok env s" "clean_memtable (lsm_memtable s)" "room n s"
    "unat (next_sst_id (lsm_manifest s)) + Suc n < 2 ^ 63"
  obtains s' where "rotate_if_full env s = (Ok (), s')" "lsm_ok env s'" "clean_memtable (lsm_memtable s')"
    "room n s'" "lsm_options s' = lsm_options s" "lsm_next_ts s' = lsm_next_ts s"
    "if mt_size (lsm_memtable s) \<ge> opt_memtable_size (lsm_options s)
     then lsm_memtable s' = new_memtable \<and> flushed env s s' \<and> (\<forall>k. view env s' k = first_some
       [live (memtable_view (lsm_memtable s) k), tables_view env (tables_in_order s) k])
     else s' = s"
proof (cases "mt_size (lsm_memtable s) \<ge> opt_memtable_size (lsm_options s)")
  case False
  with assms show thesis by (intro that [of s]) (auto simp: rotate_if_full_def room_def)
next
  case True
  have "flushable env (lsm_memtable s)"
    using assms lsm_okD(1) [OF assms(2)] by (intro clean_flushable) (auto simp: room_def)
  with rotate_memtable_ok [OF _ assms(2) _ counter_step(1)] assms(1,5) obtain s' where
    s': "rotate_memtable env s = (Ok (), s')" "lsm_ok env s'" "flushed env s s'" "lsm_memtable s' = new_memtable"
    "next_sst_id (lsm_manifest s') = next_sst_id (lsm_manifest s) + 1"
    "lsm_next_ts s' = lsm_next_ts s" "lsm_options s' = lsm_options s"
    "\<And>k. view env s' k = first_some [live (memtable_view (lsm_memtable s) k),
        tables_view env (tables_in_order s) k]"
    by (auto simp: env_ok_def)
  moreover have "room n s'"
    using assms(4,5) s' counter_step(2) [of "next_sst_id (lsm_manifest s)"]
    by (simp add: room_def mt_len_def skip_ok_new)
  ultimately show thesis
    using True by (intro that [of s']) (auto simp: rotate_if_full_def clean_memtable_def skip_ok_new data_entries_def)
qed

text \<open>No tombstone in the memtable: then a flush changes no answer.\<close>

definition all_values :: "memtable \<Rightarrow> bool" where
  "all_values mt \<longleftrightarrow> (\<forall>(k, v) \<in> set (mt_map mt). v \<noteq> None)"

lemma flush_keeps_view:
  assumes "all_values (lsm_memtable s)"
  shows "first_some [live (memtable_view (lsm_memtable s) k), tables_view env (tables_in_order s) k] = view env s k"
proof (cases "memtable_view (lsm_memtable s) k")
  case (Some v)
  then have "(k, v) \<in> set (data_entries (mt_map (lsm_memtable s)))"
    unfolding memtable_view_def by (rule map_of_SomeD)
  then obtain kk where "(kk, v) \<in> set (mt_map (lsm_memtable s))" by (auto simp: data_entries_def)
  with assms have "v \<noteq> None" by (auto simp: all_values_def)
  with Some show ?thesis by (auto simp: view_def first_some_Cons)
qed (simp add: view_def first_some_Cons split: option.split)

definition puts_inv :: "lsm_env \<Rightarrow> nat \<Rightarrow> lsm \<Rightarrow> bool" where
  "puts_inv env n s \<longleftrightarrow> lsm_ok env s \<and> clean_memtable (lsm_memtable s) \<and>
     all_values (lsm_memtable s) \<and> room n s"

lemma written_clean:
  assumes "lsm_ok env s" "rec_timestamp r = lsm_next_ts s" "clean_memtable (lsm_memtable s)"
    "rec_key r \<notin> mt_keys (lsm_memtable s)" "length (rec_key r) \<le> 2 ^ 30"
    "\<And>v. rec_value r = Some v \<Longrightarrow> length v \<le> 2 ^ 30"
  shows "clean_memtable (apply_record r (lsm_memtable s))"
    and "mt_len (apply_record r (lsm_memtable s)) = Suc (mt_len (lsm_memtable s))"
    and "set (mt_map (apply_record r (lsm_memtable s))) = insert (Key (rec_key r) (rec_timestamp r),
      case rec_type r of Put \<Rightarrow> Some (case rec_value r of Some v \<Rightarrow> v | None \<Rightarrow> []) | Delete \<Rightarrow> None)
      (set (mt_map (lsm_memtable s)))"
proof -
  let ?k = "Key (rec_key r) (rec_timestamp r)" and ?m = "mt_map (lsm_memtable s)"
  let ?v = "case rec_type r of Put \<Rightarrow> Some (case rec_value r of Some v \<Rightarrow> v | None \<Rightarrow> []) | Delete \<Rightarrow> None"
  have data: "key_data ?k \<notin> (key_data \<circ> fst) ` set ?m" using assms(4) by (simp add: mt_keys_def)
  then have new: "?k \<notin> fst ` set ?m" by force
  note ins = skip_insert_new [OF new]
  show "set (mt_map (apply_record r (lsm_memtable s))) = insert (?k, ?v) (set ?m)"
    unfolding apply_record_map by (rule ins(1))
  show "mt_len (apply_record r (lsm_memtable s)) = Suc (mt_len (lsm_memtable s))"
    unfolding apply_record_map mt_len_def by (rule ins(2))
  have "entry_ok (rec_key r, ?v)"
    using assms(5,6) by (auto simp: entry_ok_def split: record_type.split option.split)
  then have "list_all entry_ok (data_entries (skip_insert ?k ?v ?m))"
    using assms(3) by (auto simp: clean_memtable_def list_all_iff data_entries_def ins(1))
  moreover have "distinct (map (key_data \<circ> fst) (skip_insert ?k ?v ?m))"
    using skip_insert_distinct [OF data] assms(3) by (simp add: clean_memtable_def)
  ultimately show "clean_memtable (apply_record r (lsm_memtable s))"
    by (simp add: clean_memtable_def apply_record_map)
qed

lemma lsm_put_ok:
  assumes env: "env_ok env" and s: "puts_inv env (Suc n) s"
    and k: "k \<notin> mt_keys (lsm_memtable s)" "pair_ok (k, v)"
  obtains s' where "lsm_put env k v s = (Ok (), s')" "puts_inv env n s'"
    "\<And>k'. view env s' k' = (if k' = k then Some v else view env s k')"
    "s' = written env (put_at k v s) s \<or> flushed env (written env (put_at k v s) s) s'"
proof -
  let ?r = "put_at k v s"
  let ?s1 = "written env ?r s"
  have ok: "lsm_ok env s" "clean_memtable (lsm_memtable s)" "all_values (lsm_memtable s)" "room (Suc n) s"
    using s by (simp_all add: puts_inv_def)
  have r: "rec_timestamp ?r = lsm_next_ts s" "rec_type ?r = Put" "rec_value ?r = Some v" "rec_key ?r = k"
    by (simp_all add: put_at_def)
  note clean = written_clean [OF ok(1) r(1) ok(2), unfolded r(4)]
  have s1: "lsm_ok env ?s1" by (rule written_ok [OF ok(1) r(1) room_counters(1) [OF ok(4)]])
  have c1: "clean_memtable (lsm_memtable ?s1)" "all_values (lsm_memtable ?s1)"
    using clean k r ok(3) by (auto simp: pair_ok_def all_values_def)
  have room1: "room n ?s1"
    using clean(2) k r ok(4) room_counters [OF ok(4)] by (auto simp: room_def pair_ok_def)
  have view1: "view env ?s1 k' = (if k' = k then Some v else view env s k')" for k'
    using memtable_view_written [OF ok(1) r(1), of k'] r by (simp add: view_def split: option.split)
  have next_id: "unat (next_sst_id (lsm_manifest ?s1)) + Suc n < 2 ^ 63" using ok(4) by (simp add: room_def)
  from rotate_if_full_ok [OF env s1 c1(1) room1 next_id] obtain s' where
    s': "rotate_if_full env ?s1 = (Ok (), s')" "lsm_ok env s'" "clean_memtable (lsm_memtable s')"
    "room n s'" "s' = ?s1 \<or> lsm_memtable s' = new_memtable \<and> flushed env ?s1 s' \<and> (\<forall>k. view env s' k = first_some
       [live (memtable_view (lsm_memtable ?s1) k), tables_view env (tables_in_order ?s1) k])"
    by metis
  have "all_values (lsm_memtable s')" using s'(5) c1(2) by (auto simp: all_values_def skip_ok_new)
  moreover have "s' = ?s1 \<or> flushed env ?s1 s'" using s'(5) by blast
  moreover have "view env s' k' = view env ?s1 k'" for k'
    using s'(5) flush_keeps_view [OF c1(2)] by auto
  ultimately show thesis
    using s'(1-4) view1 by (intro that [of s']) (auto simp: lsm_put_written puts_inv_def)
qed

text \<open>One write, before the rotation.\<close>

lemma written_step:
  assumes "lsm_ok env s" "clean_memtable (lsm_memtable s)" "room (Suc n) s"
    "rec_timestamp r = lsm_next_ts s" "rec_key r \<notin> mt_keys (lsm_memtable s)"
    "length (rec_key r) \<le> 2 ^ 30" "\<And>v. rec_value r = Some v \<Longrightarrow> length v \<le> 2 ^ 30"
  shows "lsm_ok env (written env r s)" "clean_memtable (lsm_memtable (written env r s))"
    "room n (written env r s)"
proof -
  note clean = written_clean [OF assms(1,4,2,5,6,7)]
  show "lsm_ok env (written env r s)"
    by (rule written_ok [OF assms(1,4) room_counters(1) [OF assms(3)]])
  show "clean_memtable (lsm_memtable (written env r s))" using clean(1) by simp
  show "room n (written env r s)"
    using clean(2) assms(3) room_counters(2) [OF assms(3)] by (auto simp: room_def)
qed

lemma mt_size_put: "mt_size (apply_record (put_at k v s) mt) = mt_size mt + (length k + length v)"
  by (simp add: put_at_def apply_record_def mt_put_def)

text \<open>A put that fills the memtable leaves it empty.\<close>

lemma full_put:
  assumes env: "env_ok env" and s: "lsm_ok env s" "clean_memtable (lsm_memtable s)" "room (Suc n) s"
    and k: "k \<notin> mt_keys (lsm_memtable s)" "pair_ok (k, v)"
    and full: "opt_memtable_size (lsm_options s) \<le> length k + length v"
  obtains s' where "lsm_put env k v s = (Ok (), s')" "lsm_ok env s'" "clean_memtable (lsm_memtable s')"
    "room n s'" "lsm_memtable s' = new_memtable" "lsm_options s' = lsm_options s"
    "\<And>k'. view env s' k' = first_some [live (if k' = k then Some (Some v) else memtable_view (lsm_memtable s) k'),
       tables_view env (tables_in_order s) k']"
proof -
  let ?r = "put_at k v s"
  let ?s1 = "written env ?r s"
  have r: "rec_timestamp ?r = lsm_next_ts s" "rec_type ?r = Put" "rec_value ?r = Some v" "rec_key ?r = k"
    by (simp_all add: put_at_def)
  have s1: "lsm_ok env ?s1" "clean_memtable (lsm_memtable ?s1)" "room n ?s1"
    using written_step [OF s r(1), unfolded r(4)] k r by (auto simp: pair_ok_def)
  have next_id: "unat (next_sst_id (lsm_manifest ?s1)) + Suc n < 2 ^ 63" using s(3) by (simp add: room_def)
  have "mt_size (lsm_memtable ?s1) \<ge> opt_memtable_size (lsm_options ?s1)"
    using full by (simp add: mt_size_put)
  with rotate_if_full_ok [OF env s1 next_id] obtain s' where
    s': "rotate_if_full env ?s1 = (Ok (), s')" "lsm_ok env s'" "clean_memtable (lsm_memtable s')"
    "room n s'" "lsm_options s' = lsm_options ?s1" "lsm_memtable s' = new_memtable"
    "\<And>k. view env s' k = first_some
       [live (memtable_view (lsm_memtable ?s1) k), tables_view env (tables_in_order ?s1) k]"
    by (metis (full_types))
  have "memtable_view (lsm_memtable ?s1) k' = (if k' = k then Some (Some v) else memtable_view (lsm_memtable s) k')" for k'
    using memtable_view_written [OF s(1) r(1), of k'] r by simp
  with s' show thesis by (intro that [of s']) (simp_all add: lsm_put_written)
qed

section \<open>Runs from an empty directory\<close>

definition fresh_lsm :: "lsm_options \<Rightarrow> lsm" where
  "fresh_lsm opts = \<lparr>lsm_memtable = new_memtable, lsm_immutables = [], lsm_levels = [],
     lsm_wal = create_with_options default_wal_options, lsm_wal_id = 1, lsm_manifest = manifest_create,
     lsm_next_ts = 1, lsm_cache = [], lsm_options = opts, lsm_ssts = [], lsm_wals = []\<rparr>"

lemma lsm_open_empty: "lsm_open env empty_disk opts = Ok (fresh_lsm opts)"
  by (simp add: lsm_open_def empty_disk_def fresh_lsm_def manifest_create_def)

lemma no_levels: "lsm_levels s = [] \<Longrightarrow> tables_in_order s = []"
  by (simp add: tables_in_order_def level_tables_def upt_rec)

lemma fresh_view: "view env (fresh_lsm opts) k = None"
  by (simp add: view_def fresh_lsm_def memtable_view_def skip_ok_new data_entries_def
      no_levels tables_view_def)

lemma fresh_inv: "n < 2 ^ 29 \<Longrightarrow> puts_inv env n (fresh_lsm opts)"
  by (simp add: puts_inv_def lsm_ok_def fresh_lsm_def skip_ok_new skip_ok_nil clean_memtable_def
      data_entries_def all_values_def room_def mt_len_def manifest_create_def no_levels tables_valid_def)

fun run_puts :: "lsm_env \<Rightarrow> (bytes \<times> bytes) list \<Rightarrow> lsm \<Rightarrow> (error, unit) result \<times> lsm" where
  "run_puts env [] s = (Ok (), s)"
| "run_puts env ((k, v) # kvs) s =
     (case lsm_put env k v s of (Ok _, s') \<Rightarrow> run_puts env kvs s' | r \<Rightarrow> r)"

text \<open>No key is written twice between two flushes.\<close>

fun puts_spaced :: "lsm_env \<Rightarrow> (bytes \<times> bytes) list \<Rightarrow> lsm \<Rightarrow> bool" where
  "puts_spaced env [] s = True"
| "puts_spaced env ((k, v) # kvs) s =
     (k \<notin> mt_keys (lsm_memtable s) \<and> puts_spaced env kvs (snd (lsm_put env k v s)))"

lemma run_puts_ok:
  assumes "env_ok env" "puts_inv env (length kvs) s" "puts_spaced env kvs s" "list_all pair_ok kvs"
  shows "\<exists>s'. run_puts env kvs s = (Ok (), s') \<and> lsm_ok env s' \<and>
     (\<forall>k. view env s' k = (case map_of (rev kvs) k of Some v \<Rightarrow> Some v | None \<Rightarrow> view env s k))"
  using assms(2-4)
proof (induction kvs arbitrary: s)
  case Nil
  then show ?case by (auto simp: puts_inv_def)
next
  case (Cons kv kvs)
  obtain k v where kv: "kv = (k, v)" by fastforce
  obtain s1 where s1: "lsm_put env k v s = (Ok (), s1)" "puts_inv env (length kvs) s1"
    "\<And>k'. view env s1 k' = (if k' = k then Some v else view env s k')"
    using lsm_put_ok [OF assms(1), of "length kvs" s k v] Cons.prems kv by auto
  obtain s' where "run_puts env kvs s1 = (Ok (), s')" "lsm_ok env s'"
    "\<And>k. view env s' k = (case map_of (rev kvs) k of Some v \<Rightarrow> Some v | None \<Rightarrow> view env s1 k)"
    using Cons.IH [of s1] s1 Cons.prems kv by auto
  with s1 kv show ?case by (auto simp: map_add_def split: option.split)
qed

section \<open>Properties\<close>

text \<open>
  The engine is a map. From an empty directory, any sequence of puts that does not write
  a key twice between two flushes succeeds, whatever the memtable size and so however often
  memtables are rotated and flushed to tables in between, and afterwards a lookup of any key
  answers the value put last under that key, or nothing if there is none.
\<close>

theorem lsm_puts_refine_map:
  assumes "env_ok env" "length kvs < 2 ^ 29" "list_all pair_ok kvs"
    "lsm_open env empty_disk opts = Ok s0" "puts_spaced env kvs s0"
  shows "\<exists>s. run_puts env kvs s0 = (Ok (), s) \<and> fst (lsm_get env k s) = Ok (map_of (rev kvs) k)"
proof -
  have s0: "s0 = fresh_lsm opts" using assms(4) by (simp add: lsm_open_empty)
  from run_puts_ok [OF assms(1) fresh_inv [OF assms(2)] _ assms(3)] assms(5) s0
  obtain s where s: "run_puts env kvs s0 = (Ok (), s)" "lsm_ok env s"
    "\<And>k. view env s k = (case map_of (rev kvs) k of Some v \<Rightarrow> Some v | None \<Rightarrow> view env s0 k)" by auto
  have "view env s k = map_of (rev kvs) k" using s(3) by (simp add: s0 fresh_view split: option.split)
  with s lsm_get_view [OF s(2)] show ?thesis by simp
qed

text \<open>
  Deleted values come back. With a memtable that fills with every put, put a key and
  delete it: the lookup answers nothing. After another key is put, and so the tombstone is
  flushed to a table, the lookup of the deleted key answers the old value again.
\<close>

theorem deleted_value_returns:
  assumes "env_ok env" "pair_ok (k, v)" "pair_ok (k2, v2)" "k \<noteq> k2"
    "opt_memtable_size opts \<le> min (length k + length v) (length k2 + length v2)"
    "lsm_open env empty_disk opts = Ok s0"
  shows "\<exists>s1 s3. lsm_put env k v s0 = (Ok (), s1) \<and>
     fst (lsm_get env k (lsm_delete env k s1)) = Ok None \<and>
     lsm_put env k2 v2 (lsm_delete env k s1) = (Ok (), s3) \<and>
     fst (lsm_get env k s3) = Ok (Some v)"
proof -
  have s0: "s0 = fresh_lsm opts" using assms(6) by (simp add: lsm_open_empty)
  have fresh: "lsm_ok env s0" "clean_memtable (lsm_memtable s0)" "room (Suc (Suc (Suc 0))) s0"
    "lsm_options s0 = opts" "mt_keys (lsm_memtable s0) = {}"
    using fresh_inv [of "Suc (Suc (Suc 0))" env opts]
    by (simp_all add: puts_inv_def s0) (simp_all add: fresh_lsm_def mt_keys_def skip_ok_new)
  obtain s1 where s1: "lsm_put env k v s0 = (Ok (), s1)" "lsm_ok env s1" "clean_memtable (lsm_memtable s1)"
    "room (Suc (Suc 0)) s1" "lsm_memtable s1 = new_memtable" "lsm_options s1 = opts"
    "\<And>k'. view env s1 k' = first_some [live (if k' = k then Some (Some v) else memtable_view (lsm_memtable s0) k'),
       tables_view env (tables_in_order s0) k']"
    using full_put [OF assms(1) fresh(1-3), of k v] assms(2,5) fresh(4,5) by (auto simp: min_le_iff_disj)
  have empty: "mt_keys (lsm_memtable s1) = {}" "memtable_view (lsm_memtable s1) k' = None" for k'
    by (simp_all add: s1(5) mt_keys_def memtable_view_def skip_ok_new data_entries_def)
  have old: "tables_view env (tables_in_order s1) k = Some v"
    using s1(7) [of k] empty(2) by (simp add: view_def)
  let ?r = "delete_at k s1" and ?s2 = "lsm_delete env k s1"
  have r: "rec_timestamp ?r = lsm_next_ts s1" "rec_key ?r = k" "rec_type ?r = Delete" "rec_value ?r = None"
    by (simp_all add: delete_at_def)
  have s2: "lsm_ok env ?s2" "clean_memtable (lsm_memtable ?s2)" "room (Suc 0) ?s2"
    using written_step [OF s1(2-4) r(1), unfolded r(2)] empty(1) assms(2) r(4)
    by (auto simp: lsm_delete_written pair_ok_def)
  have mem2: "memtable_view (lsm_memtable ?s2) k' = (if k' = k then Some None else None)" for k'
    using memtable_view_written [OF s1(2) r(1), of k'] empty(2) r by (simp add: lsm_delete_written)
  have "set (mt_map (lsm_memtable ?s2)) = {(Key k (lsm_next_ts s1), None)}"
    using written_clean(3) [OF s1(2) r(1) s1(3)] empty(1) assms(2) r s1(5)
    by (simp add: lsm_delete_written pair_ok_def skip_ok_new)
  then have keys2: "k2 \<notin> mt_keys (lsm_memtable ?s2)" using assms(4) by (simp add: mt_keys_def)
  have opts2: "lsm_options ?s2 = opts" "tables_in_order ?s2 = tables_in_order s1"
    using s1(6) by (simp_all add: lsm_delete_written)
  obtain s3 where s3: "lsm_put env k2 v2 ?s2 = (Ok (), s3)" "lsm_ok env s3"
    "\<And>k'. view env s3 k' = first_some [live (if k' = k2 then Some (Some v2) else memtable_view (lsm_memtable ?s2) k'),
       tables_view env (tables_in_order ?s2) k']"
    using full_put [OF assms(1) s2 keys2 assms(3)] opts2(1) assms(5) by (auto simp: min_le_iff_disj)
  have "view env ?s2 k = None" using mem2 by (simp add: view_def)
  moreover have "view env s3 k = Some v" using s3(3) [of k] mem2 old assms(4) opts2(2) by simp
  ultimately show ?thesis
    using s1(1) s3(1) lsm_get_view [OF s2(1)] lsm_get_view [OF s3(2)] by auto
qed

section \<open>Witnesses\<close>

definition stored_lsm_env :: lsm_env where
  "stored_lsm_env = \<lparr>le_blocks = stored_env, le_wal_compress = stored_block,
     le_wal_decompress = load_stored_block, le_bits_per_key = 10, le_hashes = 7\<rparr>"

lemma env_ok_stored: "env_ok stored_lsm_env"
  by (simp add: env_ok_def stored_lsm_env_def lz4_block_ok_stored)

definition tiny_options :: lsm_options where
  "tiny_options = \<lparr>opt_memtable_size = 1, opt_block_size = 4096, opt_block_cache_capacity = 0,
     opt_compression = Lz4\<rparr>"

lemma lsm_puts_refine_map_witness:
  "\<exists>s. run_puts stored_lsm_env [([1], [7]), ([2], []), ([1], [8])] (fresh_lsm tiny_options) = (Ok (), s) \<and>
     fst (lsm_get stored_lsm_env [1] s) = Ok (Some [8])"
proof -
  let ?kvs = "[([1], [7]), ([2], []), ([1], [8])] :: (bytes \<times> bytes) list"
  let ?s0 = "fresh_lsm tiny_options"
  have s0: "lsm_ok stored_lsm_env ?s0" "clean_memtable (lsm_memtable ?s0)" "room (Suc (Suc (Suc 0))) ?s0"
    "mt_keys (lsm_memtable ?s0) = {}"
    using fresh_inv [of "Suc (Suc (Suc 0))" stored_lsm_env tiny_options]
    by (simp_all add: puts_inv_def) (simp_all add: fresh_lsm_def mt_keys_def skip_ok_new)
  have opts: "opt_memtable_size (lsm_options ?s0) = 1" by (simp add: fresh_lsm_def tiny_options_def)
  have empty: "mt_keys new_memtable = {}" by (simp add: mt_keys_def skip_ok_new)
  obtain s1 where s1: "lsm_put stored_lsm_env [1] [7] ?s0 = (Ok (), s1)" "lsm_ok stored_lsm_env s1"
    "clean_memtable (lsm_memtable s1)" "room (Suc (Suc 0)) s1" "lsm_memtable s1 = new_memtable"
    "lsm_options s1 = lsm_options ?s0"
    by (rule full_put [OF env_ok_stored s0(1-3), of "[1]" "[7]"])
      (use s0(4) opts in \<open>auto simp: pair_ok_def\<close>)
  obtain s2 where s2: "lsm_put stored_lsm_env [2] [] s1 = (Ok (), s2)" "lsm_memtable s2 = new_memtable"
    by (rule full_put [OF env_ok_stored s1(2-4), of "[2]" "[]"])
      (use s1(5,6) empty opts in \<open>auto simp: pair_ok_def\<close>)
  have "puts_spaced stored_lsm_env ?kvs ?s0"
    using s0(4) s1(1,5) s2 empty by simp
  from lsm_puts_refine_map [OF env_ok_stored _ _ lsm_open_empty this, of "[1]"]
  show ?thesis by (simp add: pair_ok_def)
qed

lemma deleted_value_returns_witness:
  "\<exists>s1 s3. lsm_put stored_lsm_env [1] [7] (fresh_lsm tiny_options) = (Ok (), s1) \<and>
     lsm_put stored_lsm_env [2] [8] (lsm_delete stored_lsm_env [1] s1) = (Ok (), s3) \<and>
     fst (lsm_get stored_lsm_env [1] s3) = Ok (Some [7])"
  using deleted_value_returns [OF env_ok_stored _ _ _ _ lsm_open_empty, of "[1]" "[7]" "[2]" "[8]" tiny_options]
  by (auto simp: pair_ok_def tiny_options_def)

end
