(* ===== verification/Lsm_Scan.thy ===== *)
theory Lsm_Scan
  imports Lsm_Reads
begin

text \<open>
  The scans of \<open>crabstash-storage/src/lsm.rs\<close>: which iterators \<open>build_scan_iterator\<close> opens and
  how it composes them, the iterators handed to the client, and what a client sees that
  drains one. An iterator has its own view of the block cache, which starts as the engine's.
\<close>

section \<open>Running a step that may fail or not return\<close>

fun bind_run ::
  "(error, 'a) result option \<Rightarrow> ('a \<Rightarrow> (error, 'b) result option) \<Rightarrow> (error, 'b) result option" where
  "bind_run None f = None"
| "bind_run (Some (Ok x)) f = f x"
| "bind_run (Some (Err e)) f = Some (Err e)"
| "bind_run (Some Panic) f = Some Panic"

fun state_result :: "'i \<times> (error, unit) result \<Rightarrow> (error, 'i) result" where
  "state_result (i, Ok _) = Ok i"
| "state_result (i, Err e) = Err e"
| "state_result (i, Panic) = Panic"

section \<open>The iterators of a scan\<close>

definition mem_ops :: "(mt_iter, mt_iter merge_iter) two_merge_iter storage_iter" where
  "mem_ops = two_merge_ops mt_iter_ops (merge_ops mt_iter_ops)"

definition tables_ops ::
  "lsm_env \<Rightarrow> (sst_iter merge_iter, sst_iter merge_iter) two_merge_iter storage_iter" where
  "tables_ops env =
     two_merge_ops (merge_ops (sst_iter_ops (le_blocks env))) (merge_ops (sst_iter_ops (le_blocks env)))"

type_synonym full_iter =
  "((mt_iter, mt_iter merge_iter) two_merge_iter,
    (sst_iter merge_iter, sst_iter merge_iter) two_merge_iter) two_merge_iter"

definition full_ops :: "lsm_env \<Rightarrow> full_iter storage_iter" where
  "full_ops env = two_merge_ops mem_ops (tables_ops env)"

type_synonym inner_lsm_iterator = "full_iter bounded_iter"

definition inner_ops :: "lsm_env \<Rightarrow> inner_lsm_iterator storage_iter" where
  "inner_ops env = bounded_ops (full_ops env)"

definition snapshot_lsm_ops :: "lsm_env \<Rightarrow> inner_lsm_iterator snapshot_iter storage_iter" where
  "snapshot_lsm_ops env = snapshot_ops (inner_ops env)"

section \<open>Building them\<close>

definition open_sst_iterator :: "lsm_env \<Rightarrow> lsm \<Rightarrow> sstable \<Rightarrow> (error, sst_iter) result" where
  "open_sst_iterator env s t =
     (case hm_get (lsm_ssts s) (sst_id t) of
        None \<Rightarrow> Err (Io NotFound)
      | Some contents \<Rightarrow>
          bind_result (open_sst (sst_id t) contents True) (\<lambda>t'.
            state_result (sst_iter_new (le_blocks env) t' (lsm_cache s))))"

definition start_sst_iter :: "lsm_env \<Rightarrow> bytes option \<Rightarrow> sst_iter \<Rightarrow> (error, sst_iter) result option" where
  "start_sst_iter env start_key it =
     (case start_key of
        None \<Rightarrow> Some (Ok it)
      | Some k \<Rightarrow> map_option state_result (sst_iter_seek (le_blocks env) k it))"

fun open_sst_iterators ::
  "lsm_env \<Rightarrow> lsm \<Rightarrow> bytes option \<Rightarrow> sstable list \<Rightarrow> (error, sst_iter list) result option" where
  "open_sst_iterators env s start_key [] = Some (Ok [])"
| "open_sst_iterators env s start_key (t # ts) =
     bind_run (Some (open_sst_iterator env s t)) (\<lambda>it.
     bind_run (start_sst_iter env start_key it) (\<lambda>it'.
     bind_run (open_sst_iterators env s start_key ts) (\<lambda>its. Some (Ok (it' # its)))))"

definition start_mt_iter :: "bytes option \<Rightarrow> memtable \<Rightarrow> mt_iter" where
  "start_mt_iter start_key mt =
     (case start_key of None \<Rightarrow> mt_iter_new mt | Some k \<Rightarrow> mt_iter_seek k (mt_iter_new mt))"

definition build_memtable_iterator ::
  "lsm \<Rightarrow> bytes option \<Rightarrow> (error, (mt_iter, mt_iter merge_iter) two_merge_iter) result" where
  "build_memtable_iterator s start_key =
     bind_result (merge_new mt_iter_ops (rev (map (start_mt_iter start_key) (lsm_immutables s)))) (\<lambda>imm.
       two_merge_new mt_iter_ops (merge_ops mt_iter_ops) (start_mt_iter start_key (lsm_memtable s)) imm)"

definition build_l0_iterator ::
  "lsm_env \<Rightarrow> lsm \<Rightarrow> bytes option \<Rightarrow> (error, sst_iter merge_iter) result option" where
  "build_l0_iterator env s start_key =
     bind_run (open_sst_iterators env s start_key (rev (level_tables s 0))) (\<lambda>its.
       Some (merge_new (sst_iter_ops (le_blocks env)) its))"

definition deep_tables :: "lsm \<Rightarrow> sstable list" where
  "deep_tables s = concat (map (\<lambda>level. level_tables s (of_nat level)) [1..<7])"

definition build_level_iterator ::
  "lsm_env \<Rightarrow> lsm \<Rightarrow> bytes option \<Rightarrow> (error, sst_iter merge_iter) result option" where
  "build_level_iterator env s start_key =
     bind_run (open_sst_iterators env s start_key (deep_tables s)) (\<lambda>its.
       Some (merge_new (sst_iter_ops (le_blocks env)) its))"

text \<open>\<open>while bounded.is_valid() && bounded.key().data() == excluded { bounded.next()? }\<close>\<close>

partial_function (option) skip_excluded ::
  "lsm_env \<Rightarrow> bytes \<Rightarrow> inner_lsm_iterator \<Rightarrow> (error, inner_lsm_iterator) result option" where
  "skip_excluded env excluded it =
     (if it_valid (inner_ops env) it then
        (case it_key (inner_ops env) it of
           Ok k \<Rightarrow>
             if key_data k = excluded then
               (case it_next (inner_ops env) it of
                  None \<Rightarrow> None
                | Some (it', Ok _) \<Rightarrow> skip_excluded env excluded it'
                | Some (it', Err e) \<Rightarrow> Some (Err e)
                | Some (it', Panic) \<Rightarrow> Some Panic)
             else Some (Ok it)
         | Err e \<Rightarrow> Some (Err e)
         | Panic \<Rightarrow> Some Panic)
      else Some (Ok it))"

fun start_key_of :: "bytes bound \<Rightarrow> bytes option" where
  "start_key_of Unbounded = None"
| "start_key_of (Included k) = Some k"
| "start_key_of (Excluded k) = Some k"

definition build_scan_iterator ::
  "lsm_env \<Rightarrow> bytes bound \<Rightarrow> bytes bound \<Rightarrow> lsm \<Rightarrow> (error, inner_lsm_iterator) result option" where
  "build_scan_iterator env start end s =
     bind_run (Some (build_memtable_iterator s (start_key_of start))) (\<lambda>mem_merge.
     bind_run (build_l0_iterator env s (start_key_of start)) (\<lambda>l0_merge.
     bind_run (build_level_iterator env s (start_key_of start)) (\<lambda>levels_merge.
     bind_run (Some (two_merge_new (merge_ops (sst_iter_ops (le_blocks env)))
       (merge_ops (sst_iter_ops (le_blocks env))) l0_merge levels_merge)) (\<lambda>sst_merge.
     bind_run (Some (two_merge_new mem_ops (tables_ops env) mem_merge sst_merge)) (\<lambda>full_iter.
     bind_run (Some (bounded_new (full_ops env) full_iter end)) (\<lambda>bounded.
       case start of Excluded k \<Rightarrow> skip_excluded env k bounded | _ \<Rightarrow> Some (Ok bounded)))))))"

definition lsm_scan_range ::
  "lsm_env \<Rightarrow> bytes bound \<Rightarrow> bytes bound \<Rightarrow> lsm \<Rightarrow> (error, inner_lsm_iterator) result option" where
  "lsm_scan_range env start end s = build_scan_iterator env start end s"

definition lsm_scan :: "lsm_env \<Rightarrow> lsm \<Rightarrow> (error, inner_lsm_iterator) result option" where
  "lsm_scan env s = lsm_scan_range env Unbounded Unbounded s"

definition lsm_scan_at_ts ::
  "lsm_env \<Rightarrow> bytes bound \<Rightarrow> bytes bound \<Rightarrow> ts \<Rightarrow> lsm \<Rightarrow>
   (error, inner_lsm_iterator snapshot_iter) result option" where
  "lsm_scan_at_ts env start end t s =
     bind_run (build_scan_iterator env start end s) (\<lambda>bounded. snapshot_new (inner_ops env) bounded t)"

section \<open>The client's iterator\<close>

definition lsm_iter_is_valid :: "'i storage_iter \<Rightarrow> 'i \<Rightarrow> bool" where
  "lsm_iter_is_valid ops i = it_valid ops i"

definition lsm_iter_key :: "'i storage_iter \<Rightarrow> 'i \<Rightarrow> (error, bytes option) result" where
  "lsm_iter_key ops i =
     (if lsm_iter_is_valid ops i then bind_result (it_key ops i) (\<lambda>k. Ok (Some (key_data k))) else Ok None)"

definition lsm_iter_value :: "'i storage_iter \<Rightarrow> 'i \<Rightarrow> (error, bytes option) result" where
  "lsm_iter_value ops i = (if lsm_iter_is_valid ops i then it_value ops i else Ok None)"

definition lsm_iter_advance :: "'i storage_iter \<Rightarrow> 'i \<Rightarrow> ('i \<times> (error, unit) result) option" where
  "lsm_iter_advance ops i = it_next ops i"

text \<open>A client's loop over the wrapper, with a bound on its rounds.\<close>

fun collect :: "'i storage_iter \<Rightarrow> nat \<Rightarrow> 'i \<Rightarrow> (error, (bytes \<times> bytes option) list) result option" where
  "collect ops 0 i = None"
| "collect ops (Suc n) i =
     (case lsm_iter_key ops i of
        Ok None \<Rightarrow> Some (Ok [])
      | Ok (Some k) \<Rightarrow>
          bind_run (Some (lsm_iter_value ops i)) (\<lambda>v.
          bind_run (map_option state_result (lsm_iter_advance ops i)) (\<lambda>i'.
          bind_run (collect ops n i') (\<lambda>r. Some (Ok ((k, v) # r)))))
      | Err e \<Rightarrow> Some (Err e)
      | Panic \<Rightarrow> Some Panic)"

end
