(* ===== verification/Ssi.thy ===== *)
theory Ssi
  imports Bloom
begin

text \<open>
  \<open>crabstash-lock/src/ssi.rs\<close>: conflict detection for serializable transactions. The hash of a
  key (crate rapidhash) is a parameter. The manager's maps and counters are one record: a
  commit holds the commit lock, the other operations each touch one transaction's set under
  its mutex. Log messages are left out.
\<close>

section \<open>Read and write sets\<close>

datatype conflict_type = ReadWrite | WriteRead

record rw_conflict =
  from_txn :: u64
  to_txn :: u64
  conflict_kind :: conflict_type

record read_write_set =
  read_keys :: "u64 list"
  write_keys :: "u64 list"
  read_ranges :: "(bytes bound \<times> bytes bound) list"
  inbound_conflicts :: "rw_conflict list"
  outbound_conflicts :: "rw_conflict list"

definition new_rw_set :: read_write_set where
  "new_rw_set = \<lparr>read_keys = [], write_keys = [], read_ranges = [], inbound_conflicts = [],
     outbound_conflicts = []\<rparr>"

definition rws_record_read :: "(bytes \<Rightarrow> u64) \<Rightarrow> bytes \<Rightarrow> read_write_set \<Rightarrow> read_write_set" where
  "rws_record_read hash_key key rw = rw\<lparr>read_keys := hs_insert (hash_key key) (read_keys rw)\<rparr>"

definition rws_record_write :: "(bytes \<Rightarrow> u64) \<Rightarrow> bytes \<Rightarrow> read_write_set \<Rightarrow> read_write_set" where
  "rws_record_write hash_key key rw = rw\<lparr>write_keys := hs_insert (hash_key key) (write_keys rw)\<rparr>"

definition rws_record_range_read ::
  "bytes bound \<Rightarrow> bytes bound \<Rightarrow> read_write_set \<Rightarrow> read_write_set" where
  "rws_record_range_read start end rw = rw\<lparr>read_ranges := read_ranges rw @ [(start, end)]\<rparr>"

definition add_inbound_conflict :: "rw_conflict \<Rightarrow> read_write_set \<Rightarrow> read_write_set" where
  "add_inbound_conflict c rw = rw\<lparr>inbound_conflicts := inbound_conflicts rw @ [c]\<rparr>"

definition add_outbound_conflict :: "rw_conflict \<Rightarrow> read_write_set \<Rightarrow> read_write_set" where
  "add_outbound_conflict c rw = rw\<lparr>outbound_conflicts := outbound_conflicts rw @ [c]\<rparr>"

definition has_inbound_conflict :: "read_write_set \<Rightarrow> bool" where
  "has_inbound_conflict rw = (inbound_conflicts rw \<noteq> [])"

definition has_outbound_conflict :: "read_write_set \<Rightarrow> bool" where
  "has_outbound_conflict rw = (outbound_conflicts rw \<noteq> [])"

definition is_disjoint :: "'a list \<Rightarrow> 'a list \<Rightarrow> bool" where
  "is_disjoint xs ys = list_all (\<lambda>x. x \<notin> set ys) xs"

definition has_dangerous_structure :: "read_write_set \<Rightarrow> bool" where
  "has_dangerous_structure rw =
     (if \<not> has_inbound_conflict rw \<or> \<not> has_outbound_conflict rw then False
      else is_disjoint (map from_txn (inbound_conflicts rw)) (map to_txn (outbound_conflicts rw)))"

definition has_read_write_overlap :: "u64 list \<Rightarrow> read_write_set \<Rightarrow> bool" where
  "has_read_write_overlap other_writes rw = (\<not> is_disjoint (read_keys rw) other_writes)"

definition has_write_read_overlap :: "u64 list \<Rightarrow> read_write_set \<Rightarrow> bool" where
  "has_write_read_overlap other_reads rw = (\<not> is_disjoint (write_keys rw) other_reads)"

definition key_in_ranges :: "bytes \<Rightarrow> (bytes bound \<times> bytes bound) list \<Rightarrow> bool" where
  "key_in_ranges key ranges = list_ex (\<lambda>(start, end).
     let after_start = (case start of Unbounded \<Rightarrow> True | Included s \<Rightarrow> key \<ge> s | Excluded s \<Rightarrow> key > s);
         before_end = (case end of Unbounded \<Rightarrow> True | Included e \<Rightarrow> key \<le> e | Excluded e \<Rightarrow> key < e)
     in after_start \<and> before_end) ranges"

definition has_range_overlap :: "bytes \<Rightarrow> read_write_set \<Rightarrow> bool" where
  "has_range_overlap key rw = key_in_ranges key (read_ranges rw)"

section \<open>The manager\<close>

record committed_txn =
  ct_start_ts :: u64
  ct_read_set :: "u64 list"
  ct_write_set :: "u64 list"
  ct_write_keys :: "bytes list"

record write_index_entry =
  wi_commit_ts :: u64
  wi_start_ts :: u64

record ssi_stats =
  commits :: u64
  aborts_write_skew :: u64
  aborts_phantom :: u64
  aborts_dangerous_structure :: u64
  conflicts_detected :: u64

definition new_stats :: ssi_stats where
  "new_stats = \<lparr>commits = 0, aborts_write_skew = 0, aborts_phantom = 0,
     aborts_dangerous_structure = 0, conflicts_detected = 0\<rparr>"

record ssi_manager =
  committed_txns :: "(u64, committed_txn) hmap"
  active_txns :: "(u64, read_write_set) hmap"
  active_start_ts :: "(u64, u64) hmap"
  read_only_txns :: "(u64, bool) hmap"
  active_writers :: u64
  write_bloom :: ssi_bloom
  write_index :: "(u64, write_index_entry list) hmap"
  watermark :: u64
  safe_snapshot :: u64
  stats :: ssi_stats
  recently_committed :: "(u64 \<times> u64) list"

definition MAX_RECENTLY_COMMITTED :: nat where
  "MAX_RECENTLY_COMMITTED = 1000"

definition new_ssi_manager :: ssi_manager where
  "new_ssi_manager =
     \<lparr>committed_txns = [], active_txns = [], active_start_ts = [], read_only_txns = [],
      active_writers = 0, write_bloom = ssi_bloom_new, write_index = [], watermark = 0,
      safe_snapshot = 0, stats = new_stats, recently_committed = []\<rparr>"

text \<open>\<open>iter().min()\<close>, and \<open>u64::MAX\<close> when nothing is active.\<close>

definition min_start_ts :: "(u64, u64) hmap \<Rightarrow> u64" where
  "min_start_ts m = fold (\<lambda>(_, t) acc. min t acc) m (- 1)"

definition update_safe_snapshot :: "ssi_manager \<Rightarrow> ssi_manager" where
  "update_safe_snapshot m = m\<lparr>safe_snapshot := min_start_ts (active_start_ts m)\<rparr>"

definition begin_txn_with_ts :: "u64 \<Rightarrow> u64 \<Rightarrow> ssi_manager \<Rightarrow> ssi_manager" where
  "begin_txn_with_ts txn_id start_ts m =
     update_safe_snapshot (m\<lparr>active_txns := hm_insert txn_id new_rw_set (active_txns m),
       active_start_ts := hm_insert txn_id start_ts (active_start_ts m)\<rparr>)"

definition begin_txn :: "u64 \<Rightarrow> ssi_manager \<Rightarrow> ssi_manager" where
  "begin_txn txn_id m = begin_txn_with_ts txn_id txn_id m"

definition begin_read_only_txn :: "u64 \<Rightarrow> u64 \<Rightarrow> ssi_manager \<Rightarrow> ssi_manager" where
  "begin_read_only_txn txn_id start_ts m =
     update_safe_snapshot (m\<lparr>active_start_ts := hm_insert txn_id start_ts (active_start_ts m),
       read_only_txns := hm_insert txn_id True (read_only_txns m)\<rparr>)"

definition is_read_only :: "u64 \<Rightarrow> ssi_manager \<Rightarrow> bool" where
  "is_read_only txn_id m = (hm_get (read_only_txns m) txn_id \<noteq> None)"

definition active_writer_count :: "ssi_manager \<Rightarrow> u64" where
  "active_writer_count m = active_writers m"

definition has_active_writers :: "ssi_manager \<Rightarrow> bool" where
  "has_active_writers m = (active_writer_count m > 0)"

definition record_read :: "(bytes \<Rightarrow> u64) \<Rightarrow> u64 \<Rightarrow> bytes \<Rightarrow> ssi_manager \<Rightarrow> ssi_manager" where
  "record_read hash_key txn_id key m =
     (case hm_get (active_txns m) txn_id of
        Some rw \<Rightarrow> m\<lparr>active_txns := hm_insert txn_id (rws_record_read hash_key key rw) (active_txns m)\<rparr>
      | None \<Rightarrow> m)"

definition record_write :: "(bytes \<Rightarrow> u64) \<Rightarrow> u64 \<Rightarrow> bytes \<Rightarrow> ssi_manager \<Rightarrow> ssi_manager" where
  "record_write hash_key txn_id key m =
     (case hm_get (active_txns m) txn_id of
        Some rw \<Rightarrow>
          m\<lparr>active_txns := hm_insert txn_id (rws_record_write hash_key key rw) (active_txns m),
            active_writers := active_writers m + (if write_keys rw = [] then 1 else 0),
            write_bloom := ssi_bloom_insert (hash_key key) (write_bloom m)\<rparr>
      | None \<Rightarrow> m)"

definition record_range_read :: "u64 \<Rightarrow> bytes bound \<Rightarrow> bytes bound \<Rightarrow> ssi_manager \<Rightarrow> ssi_manager" where
  "record_range_read txn_id start end m =
     (case hm_get (active_txns m) txn_id of
        Some rw \<Rightarrow> m\<lparr>active_txns := hm_insert txn_id (rws_record_range_read start end rw) (active_txns m)\<rparr>
      | None \<Rightarrow> m)"

section \<open>Validation\<close>

datatype ssi_conflict =
    SsiWriteSkew u64
  | SsiPhantom u64
  | SsiDangerousStructure u64 u64
  | SsiTxnNotFound

definition index_of :: "ssi_manager \<Rightarrow> u64 \<Rightarrow> write_index_entry list" where
  "index_of m h = (case hm_get (write_index m) h of Some es \<Rightarrow> es | None \<Rightarrow> [])"

text \<open>The index entries of the read keys that make an inbound conflict.\<close>

definition find_inbound ::
  "u64 \<Rightarrow> u64 \<Rightarrow> u64 \<Rightarrow> ssi_manager \<Rightarrow> read_write_set \<Rightarrow> rw_conflict list" where
  "find_inbound txn_id read_ts commit_ts m rw =
     concat (map (\<lambda>h.
       map (\<lambda>e. \<lparr>from_txn = wi_commit_ts e, to_txn = txn_id, conflict_kind = ReadWrite\<rparr>)
         (filter (\<lambda>e. wi_commit_ts e > read_ts \<and> wi_start_ts e < commit_ts) (index_of m h)))
       (read_keys rw))"

definition count_conflicts :: "nat \<Rightarrow> ssi_stats \<Rightarrow> ssi_stats" where
  "count_conflicts n st = st\<lparr>conflicts_detected := conflicts_detected st + of_nat n\<rparr>"

text \<open>The loop over the committed transactions; a phantom ends it.\<close>

fun scan_committed ::
  "u64 \<Rightarrow> u64 \<Rightarrow> u64 \<Rightarrow> (u64 \<times> committed_txn) list \<Rightarrow> read_write_set \<Rightarrow> ssi_stats \<Rightarrow>
   (ssi_conflict, unit) result \<times> read_write_set \<times> ssi_stats" where
  "scan_committed txn_id read_ts commit_ts [] rw st = (Ok (), rw, st)"
| "scan_committed txn_id read_ts commit_ts ((t, c) # cs) rw st =
     (if t > read_ts \<and> t < commit_ts then
        let overlap = has_write_read_overlap (ct_read_set c) rw;
            rw1 = (if overlap then add_outbound_conflict
                     \<lparr>from_txn = txn_id, to_txn = t, conflict_kind = WriteRead\<rparr> rw else rw);
            st1 = (if overlap then count_conflicts 1 st else st)
        in if list_ex (\<lambda>k. key_in_ranges k (read_ranges rw)) (ct_write_keys c)
           then (Err (SsiPhantom t), rw1, st1\<lparr>aborts_phantom := aborts_phantom st1 + 1\<rparr>)
           else scan_committed txn_id read_ts commit_ts cs rw1 st1
      else scan_committed txn_id read_ts commit_ts cs rw st)"

definition first_or_zero :: "u64 list \<Rightarrow> u64" where
  "first_or_zero xs = (case xs of [] \<Rightarrow> 0 | x # _ \<Rightarrow> x)"

text \<open>The verdict on a read and write set whose conflicts have been collected.\<close>

definition judge :: "read_write_set \<Rightarrow> ssi_stats \<Rightarrow> (ssi_conflict, unit) result \<times> ssi_stats" where
  "judge rw st =
     (if has_dangerous_structure rw then
        (Err (SsiDangerousStructure (first_or_zero (map from_txn (inbound_conflicts rw)))
                (first_or_zero (map to_txn (outbound_conflicts rw)))),
         st\<lparr>aborts_dangerous_structure := aborts_dangerous_structure st + 1\<rparr>)
      else if has_inbound_conflict rw then
        (case inbound_conflicts rw of
           c # _ \<Rightarrow> (Err (SsiWriteSkew (from_txn c)), st\<lparr>aborts_write_skew := aborts_write_skew st + 1\<rparr>)
         | [] \<Rightarrow> (Panic, st))
      else (Ok (), st))"

definition push_index :: "write_index_entry \<Rightarrow> u64 \<Rightarrow> (u64, write_index_entry list) hmap \<Rightarrow>
    (u64, write_index_entry list) hmap" where
  "push_index e h idx = hm_insert h ((case hm_get idx h of Some es \<Rightarrow> es | None \<Rightarrow> []) @ [e]) idx"

text \<open>\<open>while recent.len() > MAX { recent.pop_front() }\<close>\<close>

definition push_recent :: "u64 \<times> u64 \<Rightarrow> (u64 \<times> u64) list \<Rightarrow> (u64 \<times> u64) list" where
  "push_recent p r = (let r' = r @ [p] in drop (length r' - MAX_RECENTLY_COMMITTED) r')"

text \<open>What an accepted commit does.\<close>

definition install_commit ::
  "u64 \<Rightarrow> u64 \<Rightarrow> u64 \<Rightarrow> bytes list \<Rightarrow> read_write_set \<Rightarrow> ssi_manager \<Rightarrow> ssi_manager" where
  "install_commit txn_id read_ts commit_ts written_keys rw m =
     (let start_ts = (case hm_get (active_start_ts m) txn_id of Some t \<Rightarrow> t | None \<Rightarrow> read_ts);
          entry = \<lparr>wi_commit_ts = commit_ts, wi_start_ts = start_ts\<rparr>;
          m1 = update_safe_snapshot (m\<lparr>
            write_index := fold (push_index entry) (write_keys rw) (write_index m),
            committed_txns := hm_insert commit_ts
              \<lparr>ct_start_ts = start_ts, ct_read_set = read_keys rw, ct_write_set = write_keys rw,
               ct_write_keys = written_keys\<rparr> (committed_txns m),
            recently_committed := push_recent (txn_id, commit_ts) (recently_committed m),
            active_txns := hm_remove txn_id (active_txns m),
            active_start_ts := hm_remove txn_id (active_start_ts m),
            active_writers := active_writers m - (if write_keys rw \<noteq> [] then 1 else 0)\<rparr>)
      in m1\<lparr>stats := (stats m1)\<lparr>commits := commits (stats m1) + 1\<rparr>\<rparr>)"

definition validate_and_commit_with_keys ::
  "u64 \<Rightarrow> u64 \<Rightarrow> u64 \<Rightarrow> bytes list \<Rightarrow> ssi_manager \<Rightarrow> (ssi_conflict, unit) result \<times> ssi_manager" where
  "validate_and_commit_with_keys txn_id read_ts commit_ts written_keys m =
     (case hm_get (active_txns m) txn_id of
        None \<Rightarrow> (Err SsiTxnNotFound, m)
      | Some rw \<Rightarrow>
          (let inbound = find_inbound txn_id read_ts commit_ts m rw;
               rw1 = fold add_inbound_conflict inbound rw;
               st1 = count_conflicts (length inbound) (stats m);
               (r, rw2, st2) = scan_committed txn_id read_ts commit_ts (committed_txns m) rw1 st1
           in case r of
                Ok _ \<Rightarrow>
                  (let (r', st3) = judge rw2 st2;
                       m1 = m\<lparr>active_txns := hm_insert txn_id rw2 (active_txns m), stats := st3\<rparr>
                   in case r' of
                        Ok _ \<Rightarrow> (Ok (), install_commit txn_id read_ts commit_ts written_keys rw2 m1)
                      | _ \<Rightarrow> (r', m1))
              | _ \<Rightarrow> (r, m\<lparr>active_txns := hm_insert txn_id rw2 (active_txns m), stats := st2\<rparr>)))"

definition validate_and_commit ::
  "u64 \<Rightarrow> u64 \<Rightarrow> u64 \<Rightarrow> ssi_manager \<Rightarrow> (ssi_conflict, unit) result \<times> ssi_manager" where
  "validate_and_commit txn_id read_ts commit_ts m =
     validate_and_commit_with_keys txn_id read_ts commit_ts [] m"

section \<open>Ending, pruning and observing\<close>

definition abort_txn :: "u64 \<Rightarrow> ssi_manager \<Rightarrow> ssi_manager" where
  "abort_txn txn_id m =
     (let wrote = (case hm_get (active_txns m) txn_id of Some rw \<Rightarrow> write_keys rw \<noteq> [] | None \<Rightarrow> False)
      in update_safe_snapshot (m\<lparr>
           active_txns := hm_remove txn_id (active_txns m),
           active_writers := active_writers m - (if wrote then 1 else 0),
           active_start_ts := hm_remove txn_id (active_start_ts m),
           read_only_txns := hm_remove txn_id (read_only_txns m)\<rparr>))"

definition commit_read_only_txn :: "u64 \<Rightarrow> ssi_manager \<Rightarrow> ssi_manager" where
  "commit_read_only_txn txn_id m =
     (let m1 = update_safe_snapshot (m\<lparr>
           active_start_ts := hm_remove txn_id (active_start_ts m),
           read_only_txns := hm_remove txn_id (read_only_txns m)\<rparr>)
      in m1\<lparr>stats := (stats m1)\<lparr>commits := commits (stats m1) + 1\<rparr>\<rparr>)"

definition may_have_write_conflict :: "u64 list \<Rightarrow> ssi_manager \<Rightarrow> bool" where
  "may_have_write_conflict hashes m = list_ex (ssi_bloom_may_contain (write_bloom m)) hashes"

text \<open>
  The polling loop of \<open>wait_for_safe_snapshot\<close>: the argument holds the states the manager is
  in at the successive polls before the deadline.
\<close>

fun wait_for_safe_snapshot :: "ssi_manager list \<Rightarrow> u64 option" where
  "wait_for_safe_snapshot [] = None"
| "wait_for_safe_snapshot (m # ms) =
     (if \<not> has_active_writers m then Some (safe_snapshot m) else wait_for_safe_snapshot ms)"

definition advance_watermark :: "u64 \<Rightarrow> ssi_manager \<Rightarrow> ssi_manager" where
  "advance_watermark new_watermark m =
     (if new_watermark > watermark m then
        m\<lparr>watermark := new_watermark,
          committed_txns := filter (\<lambda>(t, _). t \<ge> new_watermark) (committed_txns m),
          write_index := filter (\<lambda>(_, es). es \<noteq> [])
            (map (\<lambda>(h, es). (h, filter (\<lambda>e. wi_commit_ts e \<ge> new_watermark) es)) (write_index m))\<rparr>
      else m)"

definition get_rw_set :: "u64 \<Rightarrow> ssi_manager \<Rightarrow> read_write_set option" where
  "get_rw_set txn_id m = hm_get (active_txns m) txn_id"

definition active_txn_count :: "ssi_manager \<Rightarrow> nat" where
  "active_txn_count m = length (active_txns m)"

definition committed_txn_count :: "ssi_manager \<Rightarrow> nat" where
  "committed_txn_count m = length (committed_txns m)"

text \<open>\<open>SSIManager::stats\<close>: the counters, read one by one.\<close>

definition stats_snapshot :: "ssi_manager \<Rightarrow> ssi_stats" where
  "stats_snapshot m =
     \<lparr>commits = commits (stats m), aborts_write_skew = aborts_write_skew (stats m),
      aborts_phantom = aborts_phantom (stats m),
      aborts_dangerous_structure = aborts_dangerous_structure (stats m),
      conflicts_detected = conflicts_detected (stats m)\<rparr>"

text \<open>\<open>Display for SSIConflict\<close>.\<close>

fun display_conflict :: "ssi_conflict \<Rightarrow> string" where
  "display_conflict (SsiWriteSkew t) = ''write skew conflict with txn at ts '' @ show_nat (unat t)"
| "display_conflict (SsiPhantom t) = ''phantom conflict with txn at ts '' @ show_nat (unat t)"
| "display_conflict (SsiDangerousStructure a b) =
     ''dangerous structure: T'' @ show_nat (unat a) @ '' -> this -> T'' @ show_nat (unat b)"
| "display_conflict SsiTxnNotFound = ''transaction not found''"

end
