(* ===== verification/Timestamp.thy ===== *)
theory Timestamp
  imports Prelude
begin

text \<open>
  \<open>crabstash-txn/src/timestamp.rs\<close>: the timestamp oracle. The reading of the wall clock in
  milliseconds is an argument of each call; a reading from before 1970 makes the call panic
  and is not an argument.
\<close>

record timestamp_oracle =
  to_logical :: u64
  last_physical :: u64

definition new_oracle :: timestamp_oracle where
  "new_oracle = \<lparr>to_logical = 0, last_physical = 0\<rparr>"

definition get_timestamp :: "u64 \<Rightarrow> timestamp_oracle \<Rightarrow> u64 \<times> timestamp_oracle" where
  "get_timestamp clock_ms o1 =
     (let last = last_physical o1 in
      if clock_ms > last then (push_bit 18 clock_ms, \<lparr>to_logical = 0, last_physical = clock_ms\<rparr>)
      else (push_bit 18 last OR (to_logical o1 AND 0x3FFFF), o1\<lparr>to_logical := to_logical o1 + 1\<rparr>))"

definition physical_part :: "u64 \<Rightarrow> u64" where
  "physical_part t = drop_bit 18 t"

definition logical_part :: "u64 \<Rightarrow> u64" where
  "logical_part t = t AND 0x3FFFF"

fun timestamps :: "u64 list \<Rightarrow> timestamp_oracle \<Rightarrow> u64 list" where
  "timestamps [] o1 = []"
| "timestamps (p # ps) o1 = (let (t, o2) = get_timestamp p o1 in t # timestamps ps o2)"

section \<open>As numbers\<close>

text \<open>The timestamp the oracle gives next when the clock has not moved.\<close>

definition next_stamp :: "timestamp_oracle \<Rightarrow> nat" where
  "next_stamp o1 = unat (last_physical o1) * 2 ^ 18 + unat (to_logical o1)"

lemma unat_push_18: "unat (p :: u64) < 2 ^ 46 \<Longrightarrow> unat (push_bit 18 p) = unat p * 2 ^ 18"
proof -
  assume p: "unat p < 2 ^ 46"
  then have "unat p * 2 ^ 18 < 2 ^ 64" by simp
  then show ?thesis by (simp add: push_bit_eq_mult unat_word_ariths)
qed

lemma unat_stamp:
  assumes "unat (p :: u64) < 2 ^ 46" "unat l < 2 ^ 18"
  shows "unat (push_bit 18 p OR (l AND 0x3FFFF)) = unat p * 2 ^ 18 + unat l"
proof -
  have low: "take_bit 18 l = l"
    using assms(2) by (simp add: word_unat_eq_iff unsigned_take_bit_eq take_bit_nat_eq_self)
  have mask: "l AND 0x3FFFF = l"
    using low by (simp add: take_bit_eq_mask mask_eq_exp_minus_1)
  have "push_bit 18 p AND take_bit 18 l = 0"
    by (rule bit_eqI) (auto simp: bit_simps)
  then have "push_bit 18 p OR l = push_bit 18 p + l"
    using low disjunctive_add_eq_or by metis
  moreover have "unat (push_bit 18 p + l) = unat (push_bit 18 p) + unat l"
  proof -
    have "unat p * 2 ^ 18 + unat l < 2 ^ 64" using assms by simp
    then show ?thesis using unat_push_18 [OF assms(1)] by (simp add: unat_word_ariths)
  qed
  ultimately show ?thesis using unat_push_18 [OF assms(1)] mask by simp
qed

text \<open>
  How many calls a clock that stands still may be asked: \<open>n\<close> is the counter, \<open>recent\<close> the greatest
  reading so far. The code keeps 18 bits of the counter.
\<close>

fun counter_fits :: "nat \<Rightarrow> u64 \<Rightarrow> u64 list \<Rightarrow> bool" where
  "counter_fits n recent [] = True"
| "counter_fits n recent (p # ps) =
     (if p > recent then counter_fits 0 p ps else n < 2 ^ 18 \<and> counter_fits (Suc n) recent ps)"

lemma counter_fits_few: "n + length ps \<le> 2 ^ 18 \<Longrightarrow> counter_fits n recent ps"
  by (induction ps arbitrary: n recent) auto

text \<open>How one call moves the oracle.\<close>

definition oracle_ok :: "u64 list \<Rightarrow> timestamp_oracle \<Rightarrow> bool" where
  "oracle_ok ps o1 \<longleftrightarrow> unat (last_physical o1) < 2 ^ 46 \<and> unat (to_logical o1) \<le> 2 ^ 18 \<and>
     counter_fits (unat (to_logical o1)) (last_physical o1) ps"

text \<open>The timestamp of a greatest reading \<open>p\<close>, as a number.\<close>

definition stamped :: "u64 \<Rightarrow> u64 \<Rightarrow> bool" where
  "stamped p t \<longleftrightarrow> physical_part t = p \<and> unat t = unat p * 2 ^ 18 + unat (logical_part t)"

lemma stamp_parts:
  assumes "unat t = unat p * 2 ^ 18 + k" "k < 2 ^ 18"
  shows "stamped p t"
proof -
  have "unat (drop_bit 18 t) = unat t div 2 ^ 18" by (metis drop_bit_eq_div unat_drop_bit_eq)
  then have "physical_part t = p" using assms by (simp add: physical_part_def word_unat_eq_iff)
  moreover have "logical_part t = take_bit 18 t"
    by (simp add: logical_part_def take_bit_eq_mask mask_eq_exp_minus_1)
  then have "unat (logical_part t) = unat t mod 2 ^ 18" by (metis unsigned_take_bit_eq take_bit_eq_mod)
  ultimately show ?thesis using assms by (simp add: stamped_def)
qed

lemma get_timestamp_step:
  assumes "oracle_ok (p # ps) o1" "unat p < 2 ^ 46" "get_timestamp p o1 = (t, o2)"
  shows "oracle_ok ps o2" "next_stamp o1 \<le> unat t" "unat t \<le> next_stamp o2"
    "unat t < next_stamp o2 \<or> to_logical o2 = 0" "to_logical o1 = 0 \<Longrightarrow> next_stamp o1 < next_stamp o2"
    "stamped (max p (last_physical o1)) t" "last_physical o2 = max p (last_physical o1)"
proof -
  let ?last = "last_physical o1" and ?l = "to_logical o1"
  have ok: "unat ?last < 2 ^ 46" "unat ?l \<le> 2 ^ 18" "counter_fits (unat ?l) ?last (p # ps)"
    using assms(1) by (auto simp: oracle_ok_def)
  have "oracle_ok ps o2 \<and> next_stamp o1 \<le> unat t \<and> unat t \<le> next_stamp o2 \<and>
      (unat t < next_stamp o2 \<or> to_logical o2 = 0) \<and> (?l = 0 \<longrightarrow> next_stamp o1 < next_stamp o2) \<and>
      stamped (max p ?last) t \<and> last_physical o2 = max p ?last"
  proof (cases "p > ?last")
    case True
    then have t: "t = push_bit 18 p" "o2 = \<lparr>to_logical = 0, last_physical = p\<rparr>"
      using assms(3) by (simp_all add: get_timestamp_def)
    have "unat ?last < unat p" using True by (simp add: word_less_nat_alt)
    then have "next_stamp o1 \<le> unat p * 2 ^ 18" "?l = 0 \<Longrightarrow> next_stamp o1 < unat p * 2 ^ 18"
      using ok(2) by (simp_all add: next_stamp_def)
    moreover have "unat t = unat p * 2 ^ 18" using unat_push_18 [OF assms(2)] t(1) by simp
    moreover have "stamped p t" using stamp_parts [of t p 0] calculation(3) by simp
    ultimately show ?thesis
      using True t(2) assms(2) ok(3) by (auto simp: oracle_ok_def next_stamp_def max_def)
  next
    case False
    then have t: "t = push_bit 18 ?last OR (?l AND 0x3FFFF)" "o2 = o1\<lparr>to_logical := ?l + 1\<rparr>"
      using assms(3) by (simp_all add: get_timestamp_def Let_def)
    have l: "unat ?l < 2 ^ 18" "counter_fits (Suc (unat ?l)) ?last ps" using ok(3) False by simp_all
    have "unat (?l + 1) = Suc (unat ?l)" using l(1) by (simp add: unat_word_ariths)
    moreover have st: "unat t = unat ?last * 2 ^ 18 + unat ?l" unfolding t(1) by (rule unat_stamp [OF ok(1) l(1)])
    moreover have "stamped ?last t" by (rule stamp_parts [OF st l(1)])
    ultimately show ?thesis
      using False t(2) ok(1) l by (auto simp: oracle_ok_def next_stamp_def max_def)
  qed
  then show "oracle_ok ps o2" "next_stamp o1 \<le> unat t" "unat t \<le> next_stamp o2"
    "unat t < next_stamp o2 \<or> to_logical o2 = 0" "?l = 0 \<Longrightarrow> next_stamp o1 < next_stamp o2"
    "stamped (max p ?last) t" "last_physical o2 = max p ?last" by simp_all
qed

lemma timestamps_above:
  assumes "oracle_ok ps o1" "\<forall>p \<in> set ps. unat p < 2 ^ 46" "t \<in> set (timestamps ps o1)"
  shows "next_stamp o1 \<le> unat t"
  using assms
proof (induction ps arbitrary: o1)
  case (Cons p ps)
  obtain t1 o2 where g: "get_timestamp p o1 = (t1, o2)" by fastforce
  have "unat p < 2 ^ 46" using Cons.prems(2) by simp
  note step = get_timestamp_step [OF Cons.prems(1) this g]
  show ?case
    using Cons.prems Cons.IH [of o2] step g by (auto intro: order_trans)
qed simp

lemma length_timestamps: "length (timestamps ps o1) = length ps"
  by (induction ps arbitrary: o1) (simp_all add: case_prod_unfold Let_def)

text \<open>A timestamp is below everything from the second call after it.\<close>

lemma timestamps_two_apart:
  assumes "oracle_ok (p # p2 # qs) o1" "\<forall>q \<in> set (p # p2 # qs). unat q < 2 ^ 46" "qs \<noteq> []"
  shows "timestamps (p # p2 # qs) o1 ! 0 < timestamps (p # p2 # qs) o1 ! 2"
proof -
  obtain t o2 t2 o3 where g: "get_timestamp p o1 = (t, o2)" "get_timestamp p2 o2 = (t2, o3)" by fastforce
  have small: "unat p < 2 ^ 46" "unat p2 < 2 ^ 46" "\<forall>q \<in> set qs. unat q < 2 ^ 46" using assms(2) by simp_all
  note one = get_timestamp_step [OF assms(1) small(1) g(1)]
  note two = get_timestamp_step [OF one(1) small(2) g(2)]
  have "timestamps qs o3 ! 0 \<in> set (timestamps qs o3)" using assms(3) by (simp add: length_timestamps)
  from timestamps_above [OF two(1) small(3) this] have "next_stamp o3 \<le> unat (timestamps qs o3 ! 0)" .
  moreover have "unat t < next_stamp o3" using one(3,4) two(2,3,5) by linarith
  ultimately have "t < timestamps qs o3 ! 0" by (simp add: word_less_nat_alt)
  then show ?thesis using g by (simp add: numeral_2_eq_2)
qed

section \<open>Property\<close>

text \<open>
  C21: timestamps do not go back. For calls one after the other with clock readings below 2^46
  milliseconds, whatever the order of the readings, as long as a clock that does not advance is
  not asked more than 2^18 times (\<open>counter_fits\<close>), the timestamps are ascending, a timestamp
  is strictly below the one after the next, and each is the greatest reading so far times 2^18
  plus the counter, as natural numbers: neither the shift nor the counter overflows.
\<close>

theorem timestamps_ascend:
  assumes "counter_fits 0 0 ps" "\<forall>p \<in> set ps. unat p < 2 ^ 46"
  shows "sorted (timestamps ps new_oracle) \<and>
    (\<forall>i. i + 2 < length ps \<longrightarrow> timestamps ps new_oracle ! i < timestamps ps new_oracle ! (i + 2)) \<and>
    (\<forall>i < length ps. stamped (fold max (take (Suc i) ps) 0) (timestamps ps new_oracle ! i))"
proof -
  have ok: "oracle_ok ps new_oracle" using assms(1) by (simp add: oracle_ok_def new_oracle_def)
  have "sorted (timestamps ps o1) \<and>
    (\<forall>i. i + 2 < length ps \<longrightarrow> timestamps ps o1 ! i < timestamps ps o1 ! (i + 2)) \<and>
    (\<forall>i < length ps. stamped (fold max (take (Suc i) ps) (last_physical o1)) (timestamps ps o1 ! i))"
    if "oracle_ok ps o1" for o1
    using that assms(2)
  proof (induction ps arbitrary: o1)
    case (Cons p ps)
    obtain t o2 where g: "get_timestamp p o1 = (t, o2)" by fastforce
    have p: "unat p < 2 ^ 46" and ps: "\<forall>p \<in> set ps. unat p < 2 ^ 46" using Cons.prems(2) by simp_all
    note step = get_timestamp_step [OF Cons.prems(1) p g]
    note IH = Cons.IH [OF step(1) ps]
    have "t \<le> t'" if "t' \<in> set (timestamps ps o2)" for t'
      using timestamps_above [OF step(1) ps that] step(3) by (simp add: word_le_nat_alt)
    moreover have "timestamps (p # ps) o1 ! i < timestamps (p # ps) o1 ! (i + 2)"
      if len: "i + 2 < length (p # ps)" for i
    proof (cases i)
      case 0
      with len obtain p2 qs where "ps = p2 # qs" "qs \<noteq> []" by (cases ps) auto
      with 0 timestamps_two_apart [of p p2 qs o1] Cons.prems show ?thesis
        by (simp del: timestamps.simps add: numeral_2_eq_2)
    qed (use len IH g in simp)
    moreover have "stamped (fold max (take (Suc i) (p # ps)) (last_physical o1)) (timestamps (p # ps) o1 ! i)"
      if "i < length (p # ps)" for i
      using that IH g step(6,7) by (cases i) simp_all
    ultimately show ?case using IH g by auto
  qed simp
  from this [OF ok] show ?thesis by (simp add: new_oracle_def)
qed

lemma timestamps_ascend_witness:
  "sorted (timestamps [5, 5, 4, 9] new_oracle) \<and> timestamps [5, 5, 4, 9] new_oracle ! 1 < timestamps [5, 5, 4, 9] new_oracle ! 3"
  using timestamps_ascend [of "[5, 5, 4, 9]"] by (simp del: timestamps.simps) (metis lessI numeral_3_eq_3)

text \<open>The first two timestamps of a millisecond are equal.\<close>

lemma first_two_timestamps_equal:
  "p > last_physical o1 \<Longrightarrow> fst (get_timestamp p o1) = fst (get_timestamp p (snd (get_timestamp p o1)))"
  by (simp add: get_timestamp_def)

text \<open>
  The bound on the counter is needed: after 2^18 calls without an advance of the clock the masked
  counter starts again at 0, and the timestamp is below the one before.
\<close>

lemma masked_counter_goes_back:
  assumes "p \<le> last_physical o1" "to_logical o1 = 2 ^ 18 - 1" "unat (last_physical o1) < 2 ^ 46"
  shows "fst (get_timestamp p (snd (get_timestamp p o1))) < fst (get_timestamp p o1)"
proof -
  let ?last = "last_physical o1"
  have "fst (get_timestamp p o1) = push_bit 18 ?last OR ((2 ^ 18 - 1) AND 0x3FFFF)"
    "fst (get_timestamp p (snd (get_timestamp p o1))) = push_bit 18 ?last"
    using assms(1,2) by (simp_all add: get_timestamp_def Let_def)
  moreover have "unat (push_bit 18 ?last OR ((2 ^ 18 - 1) AND 0x3FFFF)) = unat ?last * 2 ^ 18 + unat (2 ^ 18 - 1 :: u64)"
    by (rule unat_stamp [OF assms(3)]) simp
  ultimately show ?thesis using unat_push_18 [OF assms(3)] by (simp add: word_less_nat_alt)
qed

end
