(* ===== verification/Transaction.thy ===== *)
theory Transaction
  imports Common_Error
begin

text \<open>
  \<open>crabstash-txn/src/transaction.rs\<close>: write sets, transactions and the transaction manager. A
  transaction is shared between its handle and the manager's map of active transactions,
  which is only used by its identifiers; so the transaction is an argument of each operation
  and the map is the list of identifiers.
\<close>

section \<open>Isolation levels and states\<close>

datatype isolation_level = Snapshot | Serializable | SerializableReadOnly | SerializableDeferrable

definition is_serializable :: "isolation_level \<Rightarrow> bool" where
  "is_serializable l = (l \<in> {Serializable, SerializableReadOnly, SerializableDeferrable})"

definition iso_is_read_only :: "isolation_level \<Rightarrow> bool" where
  "iso_is_read_only l = (l \<in> {SerializableReadOnly, SerializableDeferrable})"

definition is_deferrable :: "isolation_level \<Rightarrow> bool" where
  "is_deferrable l = (l = SerializableDeferrable)"

datatype transaction_state = Active | Committed | Aborted

section \<open>Write sets\<close>

record write_set =
  ws_puts :: "(bytes, bytes) hmap"
  ws_deletes :: "bytes list"

definition new_write_set :: write_set where
  "new_write_set = \<lparr>ws_puts = [], ws_deletes = []\<rparr>"

definition ws_put :: "bytes \<Rightarrow> bytes \<Rightarrow> write_set \<Rightarrow> write_set" where
  "ws_put key value ws = ws\<lparr>ws_deletes := hs_remove key (ws_deletes ws), ws_puts := hm_insert key value (ws_puts ws)\<rparr>"

definition ws_delete :: "bytes \<Rightarrow> write_set \<Rightarrow> write_set" where
  "ws_delete key ws = ws\<lparr>ws_puts := hm_remove key (ws_puts ws), ws_deletes := hs_insert key (ws_deletes ws)\<rparr>"

definition ws_get :: "bytes \<Rightarrow> write_set \<Rightarrow> bytes option option" where
  "ws_get key ws =
     (if key \<in> set (ws_deletes ws) then Some None else map_option Some (hm_get (ws_puts ws) key))"

definition ws_keys :: "write_set \<Rightarrow> bytes list" where
  "ws_keys ws = fold hs_insert (map fst (ws_puts ws) @ ws_deletes ws) []"

section \<open>Transactions\<close>

record transaction =
  txn_ident :: u64
  txn_start_ts :: u64
  txn_commit_ts :: "u64 option"
  txn_isolation :: isolation_level
  txn_state :: transaction_state
  txn_write_set :: write_set
  txn_read_set :: "bytes list"

definition new_transaction :: "u64 \<Rightarrow> u64 \<Rightarrow> isolation_level \<Rightarrow> transaction" where
  "new_transaction i start_ts isolation =
     \<lparr>txn_ident = i, txn_start_ts = start_ts, txn_commit_ts = None, txn_isolation = isolation,
      txn_state = Active, txn_write_set = new_write_set, txn_read_set = []\<rparr>"

definition txn_record_read :: "bytes \<Rightarrow> transaction \<Rightarrow> transaction" where
  "txn_record_read key t =
     (if is_serializable (txn_isolation t) \<and> \<not> iso_is_read_only (txn_isolation t)
      then t\<lparr>txn_read_set := hs_insert key (txn_read_set t)\<rparr> else t)"

definition is_active :: "transaction \<Rightarrow> bool" where
  "is_active t = (txn_state t = Active)"

section \<open>The transaction manager\<close>

record txn_manager =
  tm_active :: "u64 list"
  tm_committed :: "(u64 \<times> u64 \<times> bytes list) list"

definition new_txn_manager :: txn_manager where
  "new_txn_manager = \<lparr>tm_active = [], tm_committed = []\<rparr>"

definition tm_begin :: "u64 \<Rightarrow> u64 \<Rightarrow> isolation_level \<Rightarrow> txn_manager \<Rightarrow> transaction \<times> txn_manager" where
  "tm_begin i start_ts isolation m =
     (new_transaction i start_ts isolation, m\<lparr>tm_active := hs_insert i (tm_active m)\<rparr>)"

definition validate_serializable :: "transaction \<Rightarrow> u64 \<Rightarrow> txn_manager \<Rightarrow> (error, unit) result" where
  "validate_serializable t commit_ts m =
     (if list_ex (\<lambda>(other_commit, other_start, other_writes).
           other_commit > txn_start_ts t \<and> other_start < commit_ts \<and>
           list_ex (\<lambda>k. k \<in> set other_writes) (txn_read_set t)) (tm_committed m)
      then Err TransactionConflict else Ok ())"

definition prepare_commit :: "transaction \<Rightarrow> u64 \<Rightarrow> txn_manager \<Rightarrow> (error, transaction) result" where
  "prepare_commit t commit_ts m =
     bind_result (if txn_isolation t = Serializable then validate_serializable t commit_ts m else Ok ())
       (\<lambda>_. Ok (t\<lparr>txn_commit_ts := Some commit_ts\<rparr>))"

definition tm_commit :: "transaction \<Rightarrow> txn_manager \<Rightarrow> (error, transaction \<times> txn_manager) result" where
  "tm_commit t m =
     (if \<not> is_active t then Err TransactionAborted
      else case txn_commit_ts t of
        None \<Rightarrow> Err TransactionAborted
      | Some commit_ts \<Rightarrow>
          Ok (t\<lparr>txn_state := Committed\<rparr>,
              m\<lparr>tm_committed := tm_committed m @ [(commit_ts, txn_start_ts t, ws_keys (txn_write_set t))],
                tm_active := hs_remove (txn_ident t) (tm_active m)\<rparr>))"

definition tm_abort :: "transaction \<Rightarrow> txn_manager \<Rightarrow> transaction \<times> txn_manager" where
  "tm_abort t m = (t\<lparr>txn_state := Aborted\<rparr>, m\<lparr>tm_active := hs_remove (txn_ident t) (tm_active m)\<rparr>)"

definition tm_gc :: "u64 \<Rightarrow> txn_manager \<Rightarrow> txn_manager" where
  "tm_gc watermark m = m\<lparr>tm_committed := filter (\<lambda>(c, _, _). c > watermark) (tm_committed m)\<rparr>"

section \<open>The write set as a map\<close>

text \<open>A write set stands for a map from keys to a value or a deletion.\<close>

definition ws_ok :: "write_set \<Rightarrow> bool" where
  "ws_ok ws \<longleftrightarrow> hm_wf (ws_puts ws) \<and> distinct (ws_deletes ws) \<and>
     (\<forall>k \<in> set (ws_deletes ws). hm_get (ws_puts ws) k = None)"

lemma ws_ok_ops [simp]:
  "ws_ok new_write_set" "ws_ok ws \<Longrightarrow> ws_ok (ws_put k v ws)" "ws_ok ws \<Longrightarrow> ws_ok (ws_delete k ws)"
  by (auto simp: ws_ok_def new_write_set_def ws_put_def ws_delete_def)

lemma ws_get_ops [simp]:
  "ws_get k new_write_set = None"
  "ws_get k (ws_put k' v ws) = (if k = k' then Some (Some v) else ws_get k ws)"
  "ws_get k (ws_delete k' ws) = (if k = k' then Some None else ws_get k ws)"
  by (auto simp: ws_get_def new_write_set_def ws_put_def ws_delete_def)

lemma set_ws_keys: "set (ws_keys ws) = fst ` set (ws_puts ws) \<union> set (ws_deletes ws)"
proof -
  have "set (fold hs_insert ks acc) = set ks \<union> set acc" for ks acc :: "bytes list"
    by (induction ks arbitrary: acc) auto
  then show ?thesis by (simp add: ws_keys_def Un_commute)
qed

end
