(* ===== verification/Mvcc.thy ===== *)
theory Mvcc
  imports Lsm_Scan Lock_Table Ssi Timestamp Transaction
begin

text \<open>
  \<open>crabstash-txn/src/mvcc.rs\<close>: transactions over the storage engine, the lock manager and the
  SSI manager. Every operation is given its transaction, as the code reaches it through the
  handle. Calls run one after the other; what other threads do while a lock call waits is its
  schedule. \<open>None\<close> is a lock call that does not return.
\<close>

section \<open>State\<close>

text \<open>Parameters: those of storage and the key hash.\<close>

record txn_env =
  te_lsm :: lsm_env
  te_hash :: "bytes \<Rightarrow> u64"

record mvcc_engine =
  me_storage :: lsm
  me_oracle :: timestamp_oracle
  me_txn_manager :: txn_manager
  me_next_txn_id :: u64
  me_locks :: lock_table
  me_lock_timeout :: u64
  me_ssi :: ssi_manager

definition with_lock_config :: "lsm \<Rightarrow> lock_config \<Rightarrow> mvcc_engine" where
  "with_lock_config st config =
     \<lparr>me_storage = st, me_oracle = new_oracle, me_txn_manager = new_txn_manager, me_next_txn_id = 1,
      me_locks = new_table config, me_lock_timeout = lock_timeout_ms config, me_ssi = new_ssi_manager\<rparr>"

definition new_engine :: "lsm \<Rightarrow> mvcc_engine" where
  "new_engine st = with_lock_config st default_lock_config"

section \<open>Errors\<close>

fun lock_error_to_common :: "lock_error \<Rightarrow> error" where
  "lock_error_to_common Timeout = error.LockTimeout"
| "lock_error_to_common lock_error.Deadlock = error.Deadlock"
| "lock_error_to_common lock_error.TransactionAborted = error.TransactionAborted"
| "lock_error_to_common LockEscalationFailed = error.LockConflict"
| "lock_error_to_common RangeConflict = error.LockConflict"
| "lock_error_to_common RangeLocksDisabled = error.LockConflict"
| "lock_error_to_common NotHeld = error.LockConflict"
| "lock_error_to_common InvalidUpgrade = error.LockConflict"

fun ssi_error_to_common :: "ssi_conflict \<Rightarrow> error" where
  "ssi_error_to_common (SsiWriteSkew t) = WriteSkew"
| "ssi_error_to_common (SsiPhantom t) = PhantomRead"
| "ssi_error_to_common (SsiDangerousStructure a b) = SerializableConflict"
| "ssi_error_to_common SsiTxnNotFound = error.TransactionAborted"

fun map_err :: "('e \<Rightarrow> 'f) \<Rightarrow> ('e, 'a) result \<Rightarrow> ('f, 'a) result" where
  "map_err f (Ok x) = Ok x"
| "map_err f (Err e) = Err (f e)"
| "map_err f Panic = Panic"

section \<open>Begin\<close>

text \<open>
  \<open>clock\<close> is the reading of the clock, \<open>polls\<close> the number of times a deferrable transaction looks
  at the manager before its deadline.
\<close>

definition begin_with_isolation ::
  "isolation_level \<Rightarrow> u64 \<Rightarrow> nat \<Rightarrow> mvcc_engine \<Rightarrow> transaction \<times> mvcc_engine" where
  "begin_with_isolation isolation clock polls e =
     (let txn_id = me_next_txn_id e;
          (now, oracle) = get_timestamp clock (me_oracle e);
          start_ts = (case (if is_deferrable isolation
                            then wait_for_safe_snapshot (replicate polls (me_ssi e)) else None) of
                        Some safe_ts \<Rightarrow> safe_ts | None \<Rightarrow> now);
          (txn, manager) = tm_begin txn_id start_ts isolation (me_txn_manager e)
      in (txn, e\<lparr>
           me_next_txn_id := txn_id + 1,
           me_oracle := oracle,
           me_locks := manager_register_txn txn_id start_ts (me_locks e),
           me_ssi := (if is_serializable isolation then
                        if iso_is_read_only isolation then begin_read_only_txn txn_id start_ts (me_ssi e)
                        else begin_txn_with_ts txn_id start_ts (me_ssi e)
                      else me_ssi e),
           me_txn_manager := manager\<rparr>))"

definition begin_txn_snapshot :: "u64 \<Rightarrow> mvcc_engine \<Rightarrow> transaction \<times> mvcc_engine" where
  "begin_txn_snapshot clock e = begin_with_isolation Snapshot clock 0 e"

section \<open>Reading and writing\<close>

definition engine_get ::
  "txn_env \<Rightarrow> bytes \<Rightarrow> transaction \<Rightarrow> mvcc_engine \<Rightarrow> (error, bytes option) result \<times> transaction \<times> mvcc_engine" where
  "engine_get env key txn e =
     (case ws_get key (txn_write_set txn) of
        Some local_value \<Rightarrow> (Ok local_value, txn, e)
      | None \<Rightarrow>
          (let ssi = (if txn_isolation txn = Serializable
                      then record_read (te_hash env) (txn_ident txn) key (me_ssi e) else me_ssi e);
               (r, st) = lsm_get_at_ts (te_lsm env) key (txn_start_ts txn) (me_storage e)
           in (r, txn_record_read key txn, e\<lparr>me_ssi := ssi, me_storage := st\<rparr>)))"

text \<open>What \<open>put\<close> and \<open>delete\<close> share: the exclusive lock and the note for the SSI manager.\<close>

definition lock_for_write ::
  "txn_env \<Rightarrow> (u64 \<Rightarrow> schedule) \<Rightarrow> bytes \<Rightarrow> transaction \<Rightarrow> mvcc_engine \<Rightarrow>
   ((error, unit) result \<times> mvcc_engine) option" where
  "lock_for_write env sched key txn e =
     map_option (\<lambda>(r, tbl).
         case r of
           Ok _ \<Rightarrow> (Ok (), e\<lparr>me_locks := tbl,
               me_ssi := (if txn_isolation txn = Serializable
                          then record_write (te_hash env) (txn_ident txn) key (me_ssi e) else me_ssi e)\<rparr>)
         | Err x \<Rightarrow> (Err (lock_error_to_common x), e\<lparr>me_locks := tbl\<rparr>)
         | Panic \<Rightarrow> (Panic, e\<lparr>me_locks := tbl\<rparr>))
       (manager_lock_key (txn_ident txn) key X (Some (me_lock_timeout e)) sched (me_locks e))"

definition engine_put ::
  "txn_env \<Rightarrow> (u64 \<Rightarrow> schedule) \<Rightarrow> bytes \<Rightarrow> bytes \<Rightarrow> transaction \<Rightarrow> mvcc_engine \<Rightarrow>
   ((error, unit) result \<times> transaction \<times> mvcc_engine) option" where
  "engine_put env sched key v txn e =
     (if iso_is_read_only (txn_isolation txn)
      then Some (Err (InvalidArgument ''cannot write in read-only transaction''), txn, e)
      else map_option (\<lambda>(r, e'). case r of
               Ok _ \<Rightarrow> (Ok (), txn\<lparr>txn_write_set := ws_put key v (txn_write_set txn)\<rparr>, e')
             | _ \<Rightarrow> (r, txn, e'))
           (lock_for_write env sched key txn e))"

definition engine_delete ::
  "txn_env \<Rightarrow> (u64 \<Rightarrow> schedule) \<Rightarrow> bytes \<Rightarrow> transaction \<Rightarrow> mvcc_engine \<Rightarrow>
   ((error, unit) result \<times> transaction \<times> mvcc_engine) option" where
  "engine_delete env sched key txn e =
     (if iso_is_read_only (txn_isolation txn)
      then Some (Err (InvalidArgument ''cannot delete in read-only transaction''), txn, e)
      else map_option (\<lambda>(r, e'). case r of
               Ok _ \<Rightarrow> (Ok (), txn\<lparr>txn_write_set := ws_delete key (txn_write_set txn)\<rparr>, e')
             | _ \<Rightarrow> (r, txn, e'))
           (lock_for_write env sched key txn e))"

section \<open>Commit and abort\<close>

text \<open>The loops over the write set; the first error ends them.\<close>

fun put_all :: "lsm_env \<Rightarrow> (bytes \<times> bytes) list \<Rightarrow> lsm \<Rightarrow> (error, unit) result \<times> lsm" where
  "put_all env [] s = (Ok (), s)"
| "put_all env ((k, v) # kvs) s =
     (case lsm_put env k v s of (Ok _, s') \<Rightarrow> put_all env kvs s' | r \<Rightarrow> r)"

definition delete_all :: "lsm_env \<Rightarrow> bytes list \<Rightarrow> lsm \<Rightarrow> lsm" where
  "delete_all env ks s = fold (lsm_delete env) ks s"

definition store_writes :: "lsm_env \<Rightarrow> write_set \<Rightarrow> lsm \<Rightarrow> (error, unit) result \<times> lsm" where
  "store_writes env ws s =
     (case put_all env (ws_puts ws) s of
        (Ok _, s') \<Rightarrow> (Ok (), delete_all env (ws_deletes ws) s')
      | r \<Rightarrow> r)"

definition finish_locks :: "u64 \<Rightarrow> mvcc_engine \<Rightarrow> mvcc_engine option" where
  "finish_locks txn_id e = map_option (\<lambda>tbl. e\<lparr>me_locks := tbl\<rparr>) (release_all txn_id (me_locks e))"

definition commit_read_only ::
  "transaction \<Rightarrow> mvcc_engine \<Rightarrow> ((error, unit) result \<times> transaction \<times> mvcc_engine) option" where
  "commit_read_only txn e =
     (case tm_commit txn (me_txn_manager e) of
        Ok (txn', manager) \<Rightarrow>
          map_option (\<lambda>e'. (Ok (), txn', e'))
            (finish_locks (txn_ident txn) (e\<lparr>me_txn_manager := manager,
               me_ssi := (if is_serializable (txn_isolation txn)
                          then commit_read_only_txn (txn_ident txn) (me_ssi e) else me_ssi e)\<rparr>))
      | Err x \<Rightarrow> Some (Err x, txn, e)
      | Panic \<Rightarrow> Some (Panic, txn, e))"

text \<open>The part of \<open>commit\<close> after the validation by the SSI manager.\<close>

definition commit_writes ::
  "txn_env \<Rightarrow> u64 \<Rightarrow> transaction \<Rightarrow> mvcc_engine \<Rightarrow> ((error, unit) result \<times> transaction \<times> mvcc_engine) option" where
  "commit_writes env commit_ts txn e =
     (case prepare_commit txn commit_ts (me_txn_manager e) of
        Ok txn1 \<Rightarrow>
          (case store_writes (te_lsm env) (txn_write_set txn1) (me_storage e) of
             (Ok _, st) \<Rightarrow>
               (case tm_commit txn1 (me_txn_manager e) of
                  Ok (txn2, manager) \<Rightarrow>
                    map_option (\<lambda>e'. (Ok (), txn2, e'))
                      (finish_locks (txn_ident txn) (e\<lparr>me_storage := st, me_txn_manager := manager\<rparr>))
                | Err x \<Rightarrow> Some (Err x, txn1, e\<lparr>me_storage := st\<rparr>)
                | Panic \<Rightarrow> Some (Panic, txn1, e\<lparr>me_storage := st\<rparr>))
           | (r, st) \<Rightarrow> Some (r, txn1, e\<lparr>me_storage := st\<rparr>))
      | Err x \<Rightarrow> Some (Err x, txn, e)
      | Panic \<Rightarrow> Some (Panic, txn, e))"

definition engine_commit ::
  "txn_env \<Rightarrow> u64 \<Rightarrow> transaction \<Rightarrow> mvcc_engine \<Rightarrow> ((error, unit) result \<times> transaction \<times> mvcc_engine) option" where
  "engine_commit env clock txn e0 =
     (let (commit_ts, oracle) = get_timestamp clock (me_oracle e0);
          e = e0\<lparr>me_oracle := oracle\<rparr>
      in if iso_is_read_only (txn_isolation txn) then commit_read_only txn e
         else if txn_isolation txn = Serializable then
           (case validate_and_commit (txn_ident txn) (txn_start_ts txn) commit_ts (me_ssi e) of
              (Ok _, ssi) \<Rightarrow> commit_writes env commit_ts txn (e\<lparr>me_ssi := ssi\<rparr>)
            | (Err x, ssi) \<Rightarrow> Some (Err (ssi_error_to_common x), txn, e\<lparr>me_ssi := ssi\<rparr>)
            | (Panic, ssi) \<Rightarrow> Some (Panic, txn, e\<lparr>me_ssi := ssi\<rparr>))
         else commit_writes env commit_ts txn e)"

definition engine_abort :: "transaction \<Rightarrow> mvcc_engine \<Rightarrow> (transaction \<times> mvcc_engine) option" where
  "engine_abort txn e =
     (let (txn', manager) = tm_abort txn (me_txn_manager e)
      in map_option (\<lambda>e'. (txn', e'))
           (finish_locks (txn_ident txn) (e\<lparr>me_txn_manager := manager,
              me_ssi := (if is_serializable (txn_isolation txn) then abort_txn (txn_ident txn) (me_ssi e)
                         else me_ssi e)\<rparr>)))"

definition engine_scan :: "txn_env \<Rightarrow> mvcc_engine \<Rightarrow> (error, inner_lsm_iterator) result option" where
  "engine_scan env e = lsm_scan (te_lsm env) (me_storage e)"

definition engine_scan_range ::
  "txn_env \<Rightarrow> bytes bound \<Rightarrow> bytes bound \<Rightarrow> mvcc_engine \<Rightarrow> (error, inner_lsm_iterator) result option" where
  "engine_scan_range env start end e = lsm_scan_range (te_lsm env) start end (me_storage e)"

end
