(* ===== verification/Db.thy ===== *)
theory Db
  imports Mvcc
begin

text \<open>
  \<open>crabstash/src/lib.rs\<close>: the database. A one-shot operation is a transaction of its own; a
  snapshot is a timestamp of the storage engine; iterators go through to it. Clock readings
  and the schedules of lock calls are arguments, as in \<open>Mvcc\<close>.
\<close>

section \<open>Opening\<close>

record db_options =
  do_memtable_size :: nat
  do_block_cache_capacity :: u64
  do_compression :: compression_type
  do_sync_writes :: bool

definition default_db_options :: db_options where
  "default_db_options =
     \<lparr>do_memtable_size = 4 * 1024 * 1024, do_block_cache_capacity = 64 * 1024 * 1024,
      do_compression = Lz4, do_sync_writes = False\<rparr>"

definition lsm_options_of :: "db_options \<Rightarrow> lsm_options" where
  "lsm_options_of options = default_lsm_options\<lparr>opt_memtable_size := do_memtable_size options,
     opt_block_cache_capacity := do_block_cache_capacity options, opt_compression := do_compression options\<rparr>"

definition open_with_options :: "txn_env \<Rightarrow> disk \<Rightarrow> db_options \<Rightarrow> (error, mvcc_engine) result" where
  "open_with_options env d options =
     bind_result (lsm_open (te_lsm env) d (lsm_options_of options)) (\<lambda>st. Ok (new_engine st))"

definition db_open :: "txn_env \<Rightarrow> disk \<Rightarrow> (error, mvcc_engine) result" where
  "db_open env d = open_with_options env d default_db_options"

section \<open>One-shot operations\<close>

text \<open>An early return leaves the transaction as it is, neither committed nor aborted.\<close>

definition db_get ::
  "txn_env \<Rightarrow> u64 \<Rightarrow> u64 \<Rightarrow> bytes \<Rightarrow> mvcc_engine \<Rightarrow> ((error, bytes option) result \<times> mvcc_engine) option" where
  "db_get env clock1 clock2 key e =
     (let (txn, e1) = begin_txn_snapshot clock1 e;
          (r, txn1, e2) = engine_get env key txn e1
      in case r of
           Ok v \<Rightarrow> map_option (\<lambda>(r', txn2, e3). (bind_result r' (\<lambda>_. Ok v), e3)) (engine_commit env clock2 txn1 e2)
         | _ \<Rightarrow> Some (r, e2))"

definition one_write ::
  "txn_env \<Rightarrow> u64 \<Rightarrow> ((error, unit) result \<times> transaction \<times> mvcc_engine) option \<Rightarrow>
   ((error, unit) result \<times> mvcc_engine) option" where
  "one_write env clock2 outcome =
     Option.bind outcome (\<lambda>(r, txn1, e2).
       case r of
         Ok _ \<Rightarrow> map_option (\<lambda>(r', txn2, e3). (r', e3)) (engine_commit env clock2 txn1 e2)
       | _ \<Rightarrow> Some (r, e2))"

definition db_put ::
  "txn_env \<Rightarrow> u64 \<Rightarrow> u64 \<Rightarrow> (u64 \<Rightarrow> schedule) \<Rightarrow> bytes \<Rightarrow> bytes \<Rightarrow> mvcc_engine \<Rightarrow>
   ((error, unit) result \<times> mvcc_engine) option" where
  "db_put env clock1 clock2 sched key v e =
     (let (txn, e1) = begin_txn_snapshot clock1 e
      in one_write env clock2 (engine_put env sched key v txn e1))"

definition db_delete ::
  "txn_env \<Rightarrow> u64 \<Rightarrow> u64 \<Rightarrow> (u64 \<Rightarrow> schedule) \<Rightarrow> bytes \<Rightarrow> mvcc_engine \<Rightarrow>
   ((error, unit) result \<times> mvcc_engine) option" where
  "db_delete env clock1 clock2 sched key e =
     (let (txn, e1) = begin_txn_snapshot clock1 e
      in one_write env clock2 (engine_delete env sched key txn e1))"

definition db_sync :: "mvcc_engine \<Rightarrow> mvcc_engine" where
  "db_sync e = e\<lparr>me_storage := lsm_sync (me_storage e)\<rparr>"

definition db_cache_stats ::
  "(block_cache \<Rightarrow> u64) \<Rightarrow> (block_cache \<Rightarrow> u64) \<Rightarrow> mvcc_engine \<Rightarrow> cache_stats" where
  "db_cache_stats entry_count weighted_size e = lsm_cache_stats entry_count weighted_size (me_storage e)"

definition db_write_batch :: "txn_env \<Rightarrow> write_batch \<Rightarrow> mvcc_engine \<Rightarrow> (error, unit) result \<times> mvcc_engine" where
  "db_write_batch env b e =
     (let (r, st) = lsm_write_batch (te_lsm env) b (me_storage e) in (r, e\<lparr>me_storage := st\<rparr>))"

section \<open>Interactive transactions\<close>

definition db_begin :: "u64 \<Rightarrow> mvcc_engine \<Rightarrow> transaction \<times> mvcc_engine" where
  "db_begin clock e = begin_txn_snapshot clock e"

definition db_begin_with_isolation ::
  "isolation_level \<Rightarrow> u64 \<Rightarrow> nat \<Rightarrow> mvcc_engine \<Rightarrow> transaction \<times> mvcc_engine" where
  "db_begin_with_isolation isolation clock waited e = begin_with_isolation isolation clock waited e"

definition txn_get ::
  "txn_env \<Rightarrow> bytes \<Rightarrow> transaction \<Rightarrow> mvcc_engine \<Rightarrow> (error, bytes option) result \<times> transaction \<times> mvcc_engine" where
  "txn_get env key txn e = engine_get env key txn e"

definition txn_commit ::
  "txn_env \<Rightarrow> u64 \<Rightarrow> transaction \<Rightarrow> mvcc_engine \<Rightarrow> ((error, unit) result \<times> transaction \<times> mvcc_engine) option" where
  "txn_commit env clock txn e = engine_commit env clock txn e"

definition txn_abort :: "transaction \<Rightarrow> mvcc_engine \<Rightarrow> (transaction \<times> mvcc_engine) option" where
  "txn_abort txn e = engine_abort txn e"

text \<open>\<open>Txn::put\<close> and \<open>Txn::delete\<close> unwrap: an error becomes a panic.\<close>

fun unwrap :: "('e, 'a) result \<Rightarrow> ('f, 'a) result" where
  "unwrap (Ok x) = Ok x"
| "unwrap (Err e) = Panic"
| "unwrap Panic = Panic"

definition txn_put ::
  "txn_env \<Rightarrow> (u64 \<Rightarrow> schedule) \<Rightarrow> bytes \<Rightarrow> bytes \<Rightarrow> transaction \<Rightarrow> mvcc_engine \<Rightarrow>
   ((error, unit) result \<times> transaction \<times> mvcc_engine) option" where
  "txn_put env sched key v txn e = map_option (\<lambda>(r, s). (unwrap r, s)) (engine_put env sched key v txn e)"

definition txn_delete ::
  "txn_env \<Rightarrow> (u64 \<Rightarrow> schedule) \<Rightarrow> bytes \<Rightarrow> transaction \<Rightarrow> mvcc_engine \<Rightarrow>
   ((error, unit) result \<times> transaction \<times> mvcc_engine) option" where
  "txn_delete env sched key txn e = map_option (\<lambda>(r, s). (unwrap r, s)) (engine_delete env sched key txn e)"

section \<open>Scans and snapshots\<close>

text \<open>The loop of \<open>prefix_end_bound\<close> from the last byte down.\<close>

fun prefix_end_from :: "nat \<Rightarrow> bytes \<Rightarrow> bytes bound" where
  "prefix_end_from 0 e = Unbounded"
| "prefix_end_from (Suc i) e =
     (if e ! i < 0xff then Excluded (take (Suc i) (e[i := e ! i + 1])) else prefix_end_from i e)"

definition prefix_end_bound :: "bytes \<Rightarrow> bytes bound" where
  "prefix_end_bound prefix = prefix_end_from (length prefix) prefix"

definition db_scan :: "txn_env \<Rightarrow> mvcc_engine \<Rightarrow> (error, inner_lsm_iterator) result option" where
  "db_scan env e = engine_scan env e"

definition db_scan_range ::
  "txn_env \<Rightarrow> bytes bound \<Rightarrow> bytes bound \<Rightarrow> mvcc_engine \<Rightarrow> (error, inner_lsm_iterator) result option" where
  "db_scan_range env start end e = engine_scan_range env start end e"

definition db_prefix_scan ::
  "txn_env \<Rightarrow> bytes \<Rightarrow> mvcc_engine \<Rightarrow> (error, inner_lsm_iterator) result option" where
  "db_prefix_scan env prefix e = engine_scan_range env (Included prefix) (prefix_end_bound prefix) e"

definition db_snapshot :: "mvcc_engine \<Rightarrow> ts" where
  "db_snapshot e = lsm_current_ts (me_storage e)"

definition snapshot_get ::
  "txn_env \<Rightarrow> ts \<Rightarrow> bytes \<Rightarrow> mvcc_engine \<Rightarrow> (error, bytes option) result \<times> mvcc_engine" where
  "snapshot_get env t key e =
     (let (r, st) = lsm_get_at_ts (te_lsm env) key t (me_storage e) in (r, e\<lparr>me_storage := st\<rparr>))"

definition snapshot_scan_range ::
  "txn_env \<Rightarrow> ts \<Rightarrow> bytes bound \<Rightarrow> bytes bound \<Rightarrow> mvcc_engine \<Rightarrow>
   (error, inner_lsm_iterator snapshot_iter) result option" where
  "snapshot_scan_range env t start end e = lsm_scan_at_ts (te_lsm env) start end t (me_storage e)"

definition snapshot_scan_all ::
  "txn_env \<Rightarrow> ts \<Rightarrow> mvcc_engine \<Rightarrow> (error, inner_lsm_iterator snapshot_iter) result option" where
  "snapshot_scan_all env t e = snapshot_scan_range env t Unbounded Unbounded e"

definition snapshot_prefix_scan ::
  "txn_env \<Rightarrow> ts \<Rightarrow> bytes \<Rightarrow> mvcc_engine \<Rightarrow> (error, inner_lsm_iterator snapshot_iter) result option" where
  "snapshot_prefix_scan env t prefix e =
     lsm_scan_at_ts (te_lsm env) (Included prefix) (prefix_end_bound prefix) t (me_storage e)"

text \<open>
  \<open>Iterator::next\<close> of the client's iterator: \<open>Ok None\<close> is the end. The \<open>?\<close> on the value makes
  an entry without one, a deletion, the end too.
\<close>

definition db_iter_next ::
  "'i storage_iter \<Rightarrow> 'i \<Rightarrow> ((error, (bytes \<times> bytes) option) result \<times> 'i) option" where
  "db_iter_next ops i =
     (if \<not> lsm_iter_is_valid ops i then Some (Ok None, i)
      else case (lsm_iter_key ops i, lsm_iter_value ops i) of
        (Ok (Some k), Ok (Some v)) \<Rightarrow>
          map_option (\<lambda>(i', r). (bind_result r (\<lambda>_. Ok (Some (k, v))), i')) (lsm_iter_advance ops i)
      | (Ok None, _) \<Rightarrow> Some (Ok None, i)
      | (Ok (Some k), Ok None) \<Rightarrow> Some (Ok None, i)
      | _ \<Rightarrow> Some (Panic, i))"

text \<open>A \<open>for\<close> loop over it that stops at the first error.\<close>

fun db_collect :: "'i storage_iter \<Rightarrow> nat \<Rightarrow> 'i \<Rightarrow> (error, (bytes \<times> bytes) list) result option" where
  "db_collect ops 0 i = None"
| "db_collect ops (Suc n) i =
     (case db_iter_next ops i of
        None \<Rightarrow> None
      | Some (Ok None, i') \<Rightarrow> Some (Ok [])
      | Some (Ok (Some p), i') \<Rightarrow> bind_run (db_collect ops n i') (\<lambda>r. Some (Ok (p # r)))
      | Some (Err x, i') \<Rightarrow> Some (Err x)
      | Some (Panic, i') \<Rightarrow> Some Panic)"

end
