(* ===== verification/Ordered_Scan.thy ===== *)
theory Ordered_Scan
  imports Lsm_Scan "HOL-Library.Multiset"
begin

text \<open>
  What a scan of the storage engine yields when no user key is in two sources: the entries of
  all of them, in the order of the user keys, within the bounds.
\<close>

section \<open>Sources without a common user key\<close>

definition plain :: "versions \<Rightarrow> bool" where
  "plain l \<longleftrightarrow> sorted_wrt (<) (map data_of l)"

lemma plain_Nil [simp]: "plain []"
  by (simp add: plain_def)

lemma plain_Cons: "plain (e # l) \<longleftrightarrow> (\<forall>x \<in> set l. data_of e < data_of x) \<and> plain l"
  by (auto simp: plain_def)

lemma plain_filter: "plain l \<Longrightarrow> plain (filter P l)"
  by (induction l) (auto simp: plain_Cons)

lemma plain_key_order: "plain l \<Longrightarrow> sorted_wrt (\<le>) (map fst l)"
  by (induction l) (auto simp: plain_Cons less_eq_key_def)

lemma plain_distinct: "plain l \<Longrightarrow> distinct (map data_of l)"
  using strict_sorted_iff by (auto simp: plain_def)

lemma plain_unique:
  assumes "plain xs" "plain ys" "set xs = set ys"
  shows "xs = ys"
proof -
  have "map data_of xs = map data_of ys"
    using assms by (intro strict_sorted_equal) (simp_all add: plain_def)
  moreover have "inj_on data_of (set xs \<union> set ys)"
    using plain_distinct [OF assms(1)] assms(3) by (simp add: distinct_map)
  ultimately show ?thesis by (rule map_inj_on)
qed

lemma data_le_key: "data_of a \<noteq> data_of b \<Longrightarrow> fst a \<le> fst b \<longleftrightarrow> data_of a < data_of b"
  by (auto simp: less_eq_key_def)

lemma merge2_plain:
  assumes "plain as" "plain bs" "data_of ` set as \<inter> data_of ` set bs = {}"
  shows "set (merge2 as bs) = set as \<union> set bs" "plain (merge2 as bs)"
proof -
  have "set (merge2 as bs) = set as \<union> set bs \<and> plain (merge2 as bs)"
    using assms
  proof (induction as bs rule: merge2.induct)
    case (3 a as b bs)
    then have ne: "data_of a \<noteq> data_of b" by auto
    show ?case
    proof (cases "fst a \<le> fst b")
      case True
      then have lt: "data_of a < data_of b" using ne data_le_key by blast
      have IH: "set (merge2 as (b # bs)) = set as \<union> set (b # bs) \<and> plain (merge2 as (b # bs))"
        using "3.IH"(1) [OF True] "3.prems" ne by (auto simp: plain_Cons)
      have "data_of a < data_of x" if "x \<in> set as \<union> set (b # bs)" for x
        using that lt "3.prems"(1,2) by (auto simp: plain_Cons)
      with IH True ne show ?thesis by (auto simp: plain_Cons)
    next
      case False
      then have lt: "data_of b < data_of a" using ne data_le_key [of a b] by auto
      have IH: "set (merge2 (a # as) bs) = set (a # as) \<union> set bs \<and> plain (merge2 (a # as) bs)"
        using "3.IH"(2) [OF False] "3.prems" by (auto simp: plain_Cons)
      have "data_of b < data_of x" if "x \<in> set (a # as) \<union> set bs" for x
        using that lt "3.prems"(1,2) by (auto simp: plain_Cons)
      with IH False show ?thesis by (auto simp: plain_Cons)
    qed
  qed auto
  then show "set (merge2 as bs) = set as \<union> set bs" "plain (merge2 as bs)" by simp_all
qed

lemma zip_index: "map snd (zip [0..<length ls] ls) = ls"
  by simp

lemma merge_out_plain:
  assumes "\<And>l. l \<in> set ls \<Longrightarrow> plain l" "distinct (map data_of (concat ls))"
  defines "out \<equiv> merge_out (zip [0..<length ls] ls)"
  shows "set out = set (concat ls)" "plain out"
proof -
  let ?L = "zip [0..<length ls] ls"
  have L: "sources_ok ?L" using assms(1) by (intro zip_sources_ok plain_key_order)
  have keys: "user_keys ?L = map data_of (concat ls)"
  proof -
    have "map (\<lambda>(ix, l). map data_of l) ?L = map (map data_of) ls"
      by (rule nth_equalityI) simp_all
    then show ?thesis by (simp add: user_keys_def map_concat)
  qed
  have sorted: "map data_of out = sort (remdups (map data_of (concat ls)))"
    unfolding out_def merge_out_props(1) [OF L] keys by simp
  show "plain out" unfolding plain_def sorted by (simp add: strict_sorted_iff)
  have sub: "set out \<subseteq> set (concat ls)"
  proof
    fix e assume "e \<in> set out"
    from merge_out_props(2) [OF L this [unfolded out_def]]
    obtain ix l where "(ix, l) \<in> set ?L" "e \<in> set l" by auto
    then show "e \<in> set (concat ls)" by (auto dest: set_zip_rightD)
  qed
  have "data_of ` set out = data_of ` set (concat ls)"
    using arg_cong [OF sorted, of set] by simp
  moreover have "inj_on data_of (set (concat ls))" using assms(2) by (simp add: distinct_map)
  ultimately show "set out = set (concat ls)"
    using sub inj_on_image_eq_iff [of data_of "set (concat ls)" "set out" "set (concat ls)"] by simp
qed

section \<open>Starting the iterators at a key\<close>

definition from_start :: "bytes option \<Rightarrow> bytes \<Rightarrow> bool" where
  "from_start start_key d = (case start_key of None \<Rightarrow> True | Some k \<Rightarrow> k \<le> d)"

lemma dropWhile_plain: "plain l \<Longrightarrow> dropWhile (\<lambda>e. data_of e < k) l = filter (\<lambda>e. k \<le> data_of e) l"
proof (induction l)
  case (Cons e l)
  show ?case
  proof (cases "data_of e < k")
    case True
    with Cons show ?thesis by (auto simp: plain_Cons)
  next
    case False
    with Cons have "k \<le> data_of x" if "x \<in> set l" for x
      using that by (auto simp: plain_Cons intro: order_trans less_imp_le)
    then have "filter (\<lambda>e. k \<le> data_of e) l = l" by (intro filter_True) blast
    with False show ?thesis by simp
  qed
qed simp

lemma start_mt_iter_rest:
  assumes "plain (mt_map mt)"
  shows "mt_iter_rest (start_mt_iter sk mt) = filter (\<lambda>e. from_start sk (data_of e)) (mt_map mt)"
proof (cases sk)
  case None
  then show ?thesis by (simp add: start_mt_iter_def from_start_def)
next
  case (Some k)
  let ?m = "mt_map mt"
  let ?f = "\<lambda>i. cmp (data_of (?m ! i)) k"
  have mono: "data_of (?m ! i) < data_of (?m ! j)" if "i < j" "j < length ?m" for i j
    using assms that by (auto simp: plain_def sorted_wrt_iff_nth_less)
  have part: "partitioned ?f (length ?m)"
    unfolding partitioned_def
  proof (intro allI impI conjI)
    fix i j
    assume "i < j" "j < length ?m"
    note lt = mono [OF this]
    show "?f j = Greater" if "?f i = Greater" using that lt by (simp add: less_trans)
    show "?f i = Less" if "?f j = Less" using that lt by (simp add: less_trans)
  qed
  define n where "n = mti_index (mt_iter_seek k (mt_iter_new mt))"
  have n: "n \<le> length ?m" "\<And>i. i < n \<Longrightarrow> data_of (?m ! i) < k"
      "\<And>i. n \<le> i \<Longrightarrow> i < length ?m \<Longrightarrow> k \<le> data_of (?m ! i)"
  proof -
    have "n \<le> length ?m \<and> (\<forall>i < n. data_of (?m ! i) < k) \<and> (\<forall>i. n \<le> i \<longrightarrow> i < length ?m \<longrightarrow> k \<le> data_of (?m ! i))"
      using part
    proof (cases rule: binary_search_by_cases)
      case (found i)
      then have "n = i" "data_of (?m ! i) = k" by (simp_all add: n_def mt_iter_seek_def mt_iter_new_def)
      with mono found(2) show ?thesis by (metis less_imp_le le_neq_implies_less order_refl)
    next
      case (missing i)
      then have "n = i" by (simp add: n_def mt_iter_seek_def mt_iter_new_def)
      with missing show ?thesis by (auto intro: less_imp_le)
    qed
    then show "n \<le> length ?m" "\<And>i. i < n \<Longrightarrow> data_of (?m ! i) < k"
      "\<And>i. n \<le> i \<Longrightarrow> i < length ?m \<Longrightarrow> k \<le> data_of (?m ! i)" by auto
  qed
  have "filter (\<lambda>e. k \<le> data_of e) (take n ?m) = []"
    unfolding filter_empty_conv not_le
  proof
    fix e assume "e \<in> set (take n ?m)"
    then obtain i where "e = ?m ! i" "i < n" by (auto simp: in_set_conv_nth)
    with n(2) show "data_of e < k" by simp
  qed
  moreover have "filter (\<lambda>e. k \<le> data_of e) (drop n ?m) = drop n ?m"
  proof (intro filter_True ballI)
    fix e assume "e \<in> set (drop n ?m)"
    then obtain i where "e = ?m ! (n + i)" "n + i < length ?m" by (auto simp: in_set_conv_nth)
    with n(3) [of "n + i"] show "k \<le> data_of e" by simp
  qed
  ultimately have "filter (\<lambda>e. k \<le> data_of e) ?m = drop n ?m"
    by (metis append_Nil append_take_drop_id filter_append)
  then show ?thesis
    using Some by (simp add: start_mt_iter_def from_start_def mt_iter_rest_def n_def)
      (simp add: mt_iter_seek_def mt_iter_new_def)
qed

definition table_versions :: "lsm_env \<Rightarrow> sstable \<Rightarrow> versions" where
  "table_versions env t = as_versions (table_entries (le_blocks env) t)"

definition on_disk :: "lsm \<Rightarrow> sstable \<Rightarrow> bool" where
  "on_disk s t \<longleftrightarrow> (\<exists>contents. hm_get (lsm_ssts s) (sst_id t) = Some contents \<and>
     open_sst (sst_id t) contents True = Ok t)"

lemma plain_as_versions: "plain (as_versions es) \<longleftrightarrow> sorted_wrt (<) (map fst es)"
  by (simp add: plain_def as_versions_def comp_def case_prod_unfold)

lemma table_plain: "table_good (le_blocks env) t \<Longrightarrow> plain (table_versions env t)"
  by (auto simp: table_good_def table_versions_def plain_as_versions table_entries_table_of)

lemma start_sst_iter_ok:
  assumes good: "table_good (le_blocks env) t" and cache: "cache_coherent (le_blocks env) t (lsm_cache s)"
    and disk: "on_disk s t"
  obtains it it' where "open_sst_iterator env s t = Ok it" "start_sst_iter env sk it = Some (Ok it')"
    "sst_iter_inv (le_blocks env) it'"
    "sst_iter_rest (le_blocks env) it' = filter (\<lambda>e. from_start sk (data_of e)) (table_versions env t)"
proof -
  let ?env = "le_blocks env"
  obtain c f blocks sst hc where t: "t = table_of ?env c f blocks sst hc" "blocks_ok ?env c blocks"
    "sorted_wrt (<) (map fst (concat (map fst blocks)))"
    using good unfolding table_good_def by blast
  obtain contents where f: "hm_get (lsm_ssts s) (sst_id t) = Some contents"
    "open_sst (sst_id t) contents True = Ok t" using disk by (auto simp: on_disk_def)
  obtain it where it: "sst_iter_new ?env t (lsm_cache s) = (it, Ok ())" "sst_iter_inv ?env it"
    "sst_iter_rest ?env it = as_versions (concat (map fst blocks))"
    "si_table it = t" "cache_coherent ?env (si_table it) (si_cache it)"
    using sst_iter_new_ok [OF t(2), of f sst hc "lsm_cache s"] cache t(1) by blast
  have opened: "open_sst_iterator env s t = Ok it"
    using f it(1) by (simp add: open_sst_iterator_def)
  have tv: "table_versions env t = as_versions (concat (map fst blocks))"
    by (simp add: table_versions_def t(1) table_entries_table_of [OF t(2)])
  show thesis
  proof (cases sk)
    case None
    then show thesis
      using it opened tv by (intro that [of it it]) (simp_all add: start_sst_iter_def from_start_def)
  next
    case (Some k)
    have "\<exists>it'. sst_iter_seek ?env k it = Some (it', Ok ()) \<and> sst_iter_inv ?env it' \<and>
        sst_iter_rest ?env it' = dropWhile (\<lambda>e. data_of e < k) (as_versions (concat (map fst blocks)))"
    proof (cases "blocks = []")
      case True
      let ?it = "\<lparr>si_table = t, si_cache = lsm_cache s, si_block_idx = 0, si_block_data = [],
        si_block_offset = 0, si_current_key = Key [] 0, si_current_value = None, si_valid = False\<rparr>"
      have metas: "sst_block_metas t = []" using True t(1) by simp
      then have "it = ?it" using it(1) by (simp add: sst_iter_new_def load_block_def parse_entry_def)
      then have "sst_iter_seek ?env k it = skip_below ?env k (?it\<lparr>si_block_idx := find_block t k\<rparr>)"
        using metas by (simp add: sst_iter_seek_def load_block_def parse_entry_def)
      then have "sst_iter_seek ?env k it = Some (?it\<lparr>si_block_idx := find_block t k\<rparr>, Ok ())"
        by (subst (asm) skip_below.simps) simp
      with True show ?thesis by (auto simp: sst_iter_inv_def sst_iter_rest_def as_versions_def)
    next
      case False
      have "list_all (\<lambda>bl. fst bl \<noteq> []) blocks" using t(2) by (auto simp: blocks_ok_def list_all_iff)
      note sorted = seek_sorted [OF t(3) this False, of k]
      have as: "dropWhile (\<lambda>e. data_of e < k) (as_versions es) = as_versions (dropWhile (\<lambda>e. fst e < k) es)" for es
        unfolding as_versions_def dropWhile_map by (simp add: comp_def case_prod_unfold)
      from sst_iter_seek_ok [OF t(2) False, of it f sst hc k] it(4,5) t(1) show ?thesis
        unfolding as sorted by simp
    qed
    moreover have "plain (as_versions (concat (map fst blocks)))" using t(3) by (simp add: plain_as_versions)
    ultimately show thesis
      using Some opened tv
      by (auto intro!: that [of it] simp: start_sst_iter_def from_start_def dropWhile_plain)
  qed
qed

lemma open_sst_iterators_ok:
  assumes "\<And>t. t \<in> set ts \<Longrightarrow> table_good (le_blocks env) t \<and> cache_coherent (le_blocks env) t (lsm_cache s) \<and> on_disk s t"
  shows "\<exists>its. open_sst_iterators env s sk ts = Some (Ok its) \<and>
    (\<forall>it \<in> set its. sst_iter_inv (le_blocks env) it) \<and>
    map (sst_iter_rest (le_blocks env)) its =
      map (\<lambda>t. filter (\<lambda>e. from_start sk (data_of e)) (table_versions env t)) ts"
  using assms
proof (induction ts)
  case (Cons t ts)
  then obtain its where its: "open_sst_iterators env s sk ts = Some (Ok its)"
    "\<forall>it \<in> set its. sst_iter_inv (le_blocks env) it"
    "map (sst_iter_rest (le_blocks env)) its =
      map (\<lambda>t. filter (\<lambda>e. from_start sk (data_of e)) (table_versions env t)) ts" by auto
  have t: "table_good (le_blocks env) t" "cache_coherent (le_blocks env) t (lsm_cache s)" "on_disk s t"
    using Cons.prems [of t] by simp_all
  obtain it it' where "open_sst_iterator env s t = Ok it" "start_sst_iter env sk it = Some (Ok it')"
    "sst_iter_inv (le_blocks env) it'"
    "sst_iter_rest (le_blocks env) it' = filter (\<lambda>e. from_start sk (data_of e)) (table_versions env t)"
    using start_sst_iter_ok [OF t, of sk] by blast
  with its show ?case by simp
qed simp

section \<open>The composed iterators\<close>

interpretation mem_two: two_iterators mt_iter_ops "\<lambda>_. True" mt_iter_rest
    "merge_ops mt_iter_ops" "merge_inv (\<lambda>_. True) mt_iter_rest" "merge_rest mt_iter_rest" ..

definition mem_inv where
  "mem_inv = two_merge_inv (\<lambda>_. True) mt_iter_rest (merge_inv (\<lambda>_. True) mt_iter_rest) (merge_rest mt_iter_rest)"

definition mem_rest where
  "mem_rest = two_merge_rest mt_iter_rest (merge_rest mt_iter_rest)"

interpretation mem: storage_iterator mem_ops mem_inv mem_rest
  unfolding mem_ops_def mem_inv_def mem_rest_def by (rule mem_two.two_merge_contract)

interpretation table_two: two_iterators
    "merge_ops (sst_iter_ops (le_blocks env))"
    "merge_inv (sst_iter_inv (le_blocks env)) (sst_iter_rest (le_blocks env))"
    "merge_rest (sst_iter_rest (le_blocks env))"
    "merge_ops (sst_iter_ops (le_blocks env))"
    "merge_inv (sst_iter_inv (le_blocks env)) (sst_iter_rest (le_blocks env))"
    "merge_rest (sst_iter_rest (le_blocks env))" ..

definition tables_inv where
  "tables_inv env = two_merge_inv
     (merge_inv (sst_iter_inv (le_blocks env)) (sst_iter_rest (le_blocks env)))
     (merge_rest (sst_iter_rest (le_blocks env)))
     (merge_inv (sst_iter_inv (le_blocks env)) (sst_iter_rest (le_blocks env)))
     (merge_rest (sst_iter_rest (le_blocks env)))"

definition tables_rest where
  "tables_rest env = two_merge_rest (merge_rest (sst_iter_rest (le_blocks env)))
     (merge_rest (sst_iter_rest (le_blocks env)))"

interpretation tables: storage_iterator "tables_ops env" "tables_inv env" "tables_rest env"
  unfolding tables_ops_def tables_inv_def tables_rest_def by (rule table_two.two_merge_contract)

interpretation full_two: two_iterators mem_ops mem_inv mem_rest "tables_ops env" "tables_inv env" "tables_rest env" ..

definition full_inv where
  "full_inv env = two_merge_inv mem_inv mem_rest (tables_inv env) (tables_rest env)"

definition full_rest where
  "full_rest env = two_merge_rest mem_rest (tables_rest env)"

interpretation full: storage_iterator "full_ops env" "full_inv env" "full_rest env"
  unfolding full_ops_def full_inv_def full_rest_def by (rule full_two.two_merge_contract)

definition inner_inv where
  "inner_inv env = bounded_inv (full_inv env) (full_rest env)"

definition inner_rest where
  "inner_rest env = bounded_rest (full_rest env)"

interpretation inner: storage_iterator "inner_ops env" "inner_inv env" "inner_rest env"
  unfolding inner_ops_def inner_inv_def inner_rest_def by (rule full.bounded_contract)

interpretation snap: storage_iterator "snapshot_lsm_ops env"
    "snapshot_inv (inner_inv env) (inner_rest env)" "snapshot_rest (inner_rest env)"
  unfolding snapshot_lsm_ops_def by (rule inner.snapshot_contract)

section \<open>What a scan yields\<close>

definition sources :: "lsm_env \<Rightarrow> lsm \<Rightarrow> versions list" where
  "sources env s = mt_map (lsm_memtable s) # map (table_versions env) (tables_in_order s)"

definition scan_ready :: "lsm_env \<Rightarrow> lsm \<Rightarrow> bool" where
  "scan_ready env s \<longleftrightarrow> lsm_ok env s \<and> plain (mt_map (lsm_memtable s)) \<and>
     (\<forall>t \<in> set (tables_in_order s). on_disk s t) \<and>
     distinct (map data_of (concat (sources env s)))"

lemma distinct_filtered:
  assumes "distinct (map data_of (concat ls))"
  shows "distinct (map data_of (concat (map (filter P) ls)))"
  using distinct_map_filter [OF assms, of P] by (simp add: filter_concat)

lemma merge_tables_ok:
  assumes "\<And>t. t \<in> set ts \<Longrightarrow> table_good (le_blocks env) t \<and> cache_coherent (le_blocks env) t (lsm_cache s) \<and> on_disk s t"
    "distinct (map data_of (concat (map (table_versions env) ts)))"
  defines "ok \<equiv> merge_inv (sst_iter_inv (le_blocks env)) (sst_iter_rest (le_blocks env))"
  defines "rest \<equiv> merge_rest (sst_iter_rest (le_blocks env))"
  obtains m where "bind_run (open_sst_iterators env s sk ts)
      (\<lambda>its. Some (merge_new (sst_iter_ops (le_blocks env)) its)) = Some (Ok m)"
    "ok m" "plain (rest m)"
    "set (rest m) = {e \<in> set (concat (map (table_versions env) ts)). from_start sk (data_of e)}"
proof -
  let ?F = "filter (\<lambda>e. from_start sk (data_of e))"
  let ?ls = "map ?F (map (table_versions env) ts)"
  obtain its where its: "open_sst_iterators env s sk ts = Some (Ok its)"
    "\<forall>it \<in> set its. sst_iter_inv (le_blocks env) it" "map (sst_iter_rest (le_blocks env)) its = ?ls"
    using open_sst_iterators_ok [OF assms(1), of ts sk] by (auto simp: comp_def)
  have pl: "plain l" if "l \<in> set ?ls" for l
    using that assms(1) table_plain plain_filter by fastforce
  have "sorted_wrt (\<le>) (map fst (sst_iter_rest (le_blocks env) it))" if "it \<in> set its" for it
    using that its(3) pl by (metis image_eqI list.set_map plain_key_order)
  with its(2) have "\<exists>m. merge_new (sst_iter_ops (le_blocks env)) its = Ok m \<and> ok m \<and>
      rest m = merge_out (zip [0..<length its] (map (sst_iter_rest (le_blocks env)) its))"
    unfolding ok_def rest_def by (intro si.merge_new_ok) blast
  moreover have "length its = length ?ls" using its(3) by (metis length_map)
  ultimately obtain m where m: "merge_new (sst_iter_ops (le_blocks env)) its = Ok m" "ok m"
    "rest m = merge_out (zip [0..<length ?ls] ?ls)"
    using its(3) by metis
  have "set (concat ?ls) = {e \<in> set (concat (map (table_versions env) ts)). from_start sk (data_of e)}"
    by auto
  with merge_out_plain [OF pl distinct_filtered [OF assms(2)]] m its(1) show thesis
    by (intro that [of m]) simp_all
qed

lemma takeWhile_plain:
  "plain l \<Longrightarrow> takeWhile (\<lambda>e. below_end hi (data_of e)) l = filter (\<lambda>e. below_end hi (data_of e)) l"
proof (induction l)
  case (Cons e l)
  show ?case
  proof (cases "below_end hi (data_of e)")
    case False
    have "\<not> below_end hi (data_of x)" if "x \<in> set l" for x
      using that False Cons.prems by (cases hi) (auto simp: plain_Cons dest: less_trans order_trans less_imp_le)
    with False show ?thesis by (auto simp: filter_empty_conv)
  qed (use Cons in \<open>simp add: plain_Cons\<close>)
qed simp

lemma skip_excluded_ok:
  "inner_inv env it \<Longrightarrow> \<exists>it'. skip_excluded env k it = Some (Ok it') \<and> inner_inv env it' \<and>
     inner_rest env it' = dropWhile (\<lambda>e. data_of e = k) (inner_rest env it)"
proof (induction "inner_rest env it" arbitrary: it)
  case Nil
  then show ?case by (subst skip_excluded.simps) (simp add: inner.valid_iff)
next
  case (Cons e r)
  from Cons.hyps(2) have r: "inner_rest env it = e # r" by simp
  obtain it1 where it1: "it_next (inner_ops env) it = Some (it1, Ok ())" "inner_inv env it1"
    "inner_rest env it1 = r"
    using inner.next_ok [OF Cons.prems] r by auto
  have key: "it_valid (inner_ops env) it" "it_key (inner_ops env) it = Ok (fst e)"
    using Cons.prems r by (simp_all add: inner.valid_iff inner.key_hd)
  show ?case
  proof (cases "data_of e = k")
    case True
    then have "skip_excluded env k it = skip_excluded env k it1"
      using key it1(1) by (subst skip_excluded.simps) simp
    with Cons.hyps(1) [OF it1(3) [symmetric] it1(2)] True r it1(3) show ?thesis by simp
  next
    case False
    then have "skip_excluded env k it = Some (Ok it)"
      using key by (subst skip_excluded.simps) simp
    with False r Cons.prems show ?thesis by simp
  qed
qed

lemma skip_plain: "plain l \<Longrightarrow> (\<forall>e \<in> set l. k \<le> data_of e) \<Longrightarrow>
    dropWhile (\<lambda>e. data_of e = k) l = filter (\<lambda>e. k < data_of e) l"
proof (induction l)
  case (Cons e l)
  then have "filter (\<lambda>e. k < data_of e) l = l"
    by (intro filter_True) (auto simp: plain_Cons dest: le_less_trans)
  with Cons show ?case by (auto simp: plain_Cons)
qed simp

lemma mset_concat_map: "mset xs = mset ys \<Longrightarrow> mset (concat (map f xs)) = mset (concat (map f ys))"
proof -
  have "mset (concat (map f zs)) = \<Sum>\<^sub># (image_mset (\<lambda>z. mset (f z)) (mset zs))" for zs
    by (induction zs) simp_all
  then show "mset xs = mset ys \<Longrightarrow> ?thesis" by simp
qed

lemma tables_split: "mset (rev (level_tables s 0) @ deep_tables s) = mset (tables_in_order s)"
  by (simp add: deep_tables_def tables_in_order_def upt_rec)

lemma build_scan_ok:
  assumes ready: "scan_ready env s"
  obtains it where "build_scan_iterator env lo hi s = Some (Ok it)" "inner_inv env it" "plain (inner_rest env it)"
    "set (inner_rest env it) = {e \<in> set (concat (sources env s)). in_bounds lo hi (data_of e)}"
proof -
  let ?sk = "start_key_of lo"
  let ?F = "\<lambda>l. {e \<in> l. from_start ?sk (data_of e)}"
  let ?mt = "mt_map (lsm_memtable s)" and ?l0 = "rev (level_tables s 0)" and ?deep = "deep_tables s"
  let ?all = "\<lambda>ts. set (concat (map (table_versions env) ts))"
  have ok: "lsm_ok env s" and plain_mt: "plain ?mt" and disk: "\<And>t. t \<in> set (tables_in_order s) \<Longrightarrow> on_disk s t"
    using ready by (auto simp: scan_ready_def)
  note ok' = lsm_okD [OF ok]
  have split: "set ?l0 \<union> set ?deep = set (tables_in_order s)"
    using arg_cong [OF tables_split, of set_mset s] by simp
  have good: "table_good (le_blocks env) t \<and> cache_coherent (le_blocks env) t (lsm_cache s) \<and> on_disk s t"
    if "t \<in> set ?l0 \<or> t \<in> set ?deep" for t
    using that split ok'(3) disk unfolding tables_valid_def by blast
  have dist: "distinct (map data_of (?mt @ concat (map (table_versions env) (?l0 @ ?deep))))"
  proof -
    have "mset (?mt @ concat (map (table_versions env) (?l0 @ ?deep))) = mset (concat (sources env s))"
      using mset_concat_map [OF tables_split, of "table_versions env" s] by (simp add: sources_def)
    then have "mset (map data_of (?mt @ concat (map (table_versions env) (?l0 @ ?deep)))) =
        mset (map data_of (concat (sources env s)))" by (simp only: mset_map)
    then have "distinct (map data_of (?mt @ concat (map (table_versions env) (?l0 @ ?deep)))) =
        distinct (map data_of (concat (sources env s)))" by (rule mset_eq_imp_distinct_iff)
    with ready show ?thesis by (simp add: scan_ready_def)
  qed
  obtain imm where imm: "merge_new mt_iter_ops [] = Ok imm" "merge_inv (\<lambda>_. True) mt_iter_rest imm"
    "merge_rest mt_iter_rest imm = []"
    using mi.merge_new_ok [of "[]"] by auto
  obtain mem where mem: "build_memtable_iterator s ?sk = Ok mem" "mem_inv mem"
    "mem_rest mem = filter (\<lambda>e. from_start ?sk (data_of e)) ?mt"
    using mem_two.two_merge_new_ok [OF TrueI imm(2), of "start_mt_iter ?sk (lsm_memtable s)"] imm(1,3) ok'(2)
      start_mt_iter_rest [OF plain_mt, of ?sk]
    by (auto simp: build_memtable_iterator_def mem_inv_def mem_rest_def)
  obtain l0 where l0: "build_l0_iterator env s ?sk = Some (Ok l0)"
    "merge_inv (sst_iter_inv (le_blocks env)) (sst_iter_rest (le_blocks env)) l0"
    "plain (merge_rest (sst_iter_rest (le_blocks env)) l0)"
    "set (merge_rest (sst_iter_rest (le_blocks env)) l0) = ?F (?all ?l0)"
    using merge_tables_ok [of ?l0 env s ?sk] good dist unfolding build_l0_iterator_def by auto
  obtain deep where deep: "build_level_iterator env s ?sk = Some (Ok deep)"
    "merge_inv (sst_iter_inv (le_blocks env)) (sst_iter_rest (le_blocks env)) deep"
    "plain (merge_rest (sst_iter_rest (le_blocks env)) deep)"
    "set (merge_rest (sst_iter_rest (le_blocks env)) deep) = ?F (?all ?deep)"
    using merge_tables_ok [of ?deep env s ?sk] good dist unfolding build_level_iterator_def by auto
  let ?la = "merge_rest (sst_iter_rest (le_blocks env)) l0" and ?lb = "merge_rest (sst_iter_rest (le_blocks env)) deep"
  obtain sst where sst: "two_merge_new (merge_ops (sst_iter_ops (le_blocks env)))
      (merge_ops (sst_iter_ops (le_blocks env))) l0 deep = Ok sst" "tables_inv env sst"
    "tables_rest env sst = merge2 ?la ?lb"
    using table_two.two_merge_new_ok [OF l0(2) deep(2)] by (auto simp: tables_inv_def tables_rest_def)
  have "data_of ` ?all ?l0 \<inter> data_of ` ?all ?deep = {}" using dist by (simp add: image_Un)
  then have apart: "data_of ` set ?la \<inter> data_of ` set ?lb = {}" unfolding l0(4) deep(4) by blast
  have tb: "set (tables_rest env sst) = ?F (?all (?l0 @ ?deep))" "plain (tables_rest env sst)"
    using merge2_plain [OF l0(3) deep(3) apart] by (auto simp: sst(3) l0(4) deep(4))
  obtain full where full: "two_merge_new mem_ops (tables_ops env) mem sst = Ok full" "full_inv env full"
    "full_rest env full = merge2 (mem_rest mem) (tables_rest env sst)"
    using full_two.two_merge_new_ok [OF mem(2) sst(2)] by (auto simp: full_inv_def full_rest_def)
  have "data_of ` set ?mt \<inter> data_of ` ?all (?l0 @ ?deep) = {}" using dist by (simp add: image_Un)
  then have apart': "data_of ` set (mem_rest mem) \<inter> data_of ` set (tables_rest env sst) = {}"
    unfolding tb(1) mem(3) by auto
  have "plain (mem_rest mem)" using mem(3) plain_filter [OF plain_mt] by simp
  note fr = merge2_plain [OF this tb(2) apart']
  have all: "set (concat (sources env s)) = set ?mt \<union> ?all (?l0 @ ?deep)"
    using split by (auto simp: sources_def)
  have full_set: "set (full_rest env full) = ?F (set (concat (sources env s)))" "plain (full_rest env full)"
    using fr unfolding full(3) tb(1) mem(3) all by auto
  obtain bd where bd: "bounded_new (full_ops env) full hi = Ok bd" "inner_inv env bd"
    "inner_rest env bd = takeWhile (\<lambda>e. below_end hi (data_of e)) (full_rest env full)"
    using full.bounded_new_ok [OF full(2), of hi] by (auto simp: inner_inv_def inner_rest_def)
  have bd_rest: "inner_rest env bd = filter (\<lambda>e. below_end hi (data_of e)) (full_rest env full)"
    using bd(3) takeWhile_plain [OF full_set(2)] by simp
  have built: "build_scan_iterator env lo hi s =
      (case lo of Excluded k \<Rightarrow> skip_excluded env k bd | _ \<Rightarrow> Some (Ok bd))"
    using mem(1) l0(1) deep(1) sst(1) full(1) bd(1) by (simp add: build_scan_iterator_def)
  have bd_set: "set (inner_rest env bd) = {e \<in> set (concat (sources env s)). from_start ?sk (data_of e) \<and> below_end hi (data_of e)}"
    "plain (inner_rest env bd)"
    unfolding bd_rest using full_set plain_filter by auto
  show thesis
  proof (cases lo)
    case (Excluded k)
    obtain it where it: "skip_excluded env k bd = Some (Ok it)" "inner_inv env it"
      "inner_rest env it = dropWhile (\<lambda>e. data_of e = k) (inner_rest env bd)"
      using skip_excluded_ok [OF bd(2)] by blast
    have "inner_rest env it = filter (\<lambda>e. k < data_of e) (inner_rest env bd)"
      unfolding it(3) using Excluded by (intro skip_plain [OF bd_set(2)]) (auto simp: bd_set(1) from_start_def)
    with it(1,2) built Excluded bd_set plain_filter show thesis
      by (intro that [of it]) (auto simp: in_bounds_def from_start_def)
  qed (use built bd(2) bd_set in \<open>auto intro!: that [of bd] simp: in_bounds_def from_start_def\<close>)
qed

section \<open>Puts keep the sources apart\<close>

definition contents :: "lsm_env \<Rightarrow> lsm \<Rightarrow> entry list" where
  "contents env s = data_entries (concat (sources env s))"

lemma data_entries_append [simp]: "data_entries (a @ b) = data_entries a @ data_entries b"
  by (simp add: data_entries_def)

lemma data_entries_as_versions [simp]: "data_entries (as_versions es) = es"
  by (induction es) (auto simp: data_entries_def as_versions_def)

lemma map_fst_data_entries: "map fst (data_entries l) = map data_of l"
  by (simp add: data_entries_def case_prod_unfold)

lemma contents_keys: "map data_of (concat (sources env s)) = map fst (contents env s)"
  by (simp add: contents_def map_fst_data_entries)

lemma contents_Cons:
  "contents env s = data_entries (mt_map (lsm_memtable s)) @
     concat (map (\<lambda>t. table_entries (le_blocks env) t) (tables_in_order s))"
proof -
  have "data_entries (concat (map (table_versions env) ts)) = concat (map (table_entries (le_blocks env)) ts)" for ts
    by (induction ts) (simp_all add: table_versions_def, simp add: data_entries_def)
  then show ?thesis by (simp add: contents_def sources_def)
qed

lemma clean_plain: "skip_ok (mt_map mt) \<Longrightarrow> clean_memtable mt \<Longrightarrow> plain (mt_map mt)"
  using flushable_sorted [of "mt_map mt"] by (simp add: clean_memtable_def plain_def map_fst_data_entries)

lemma flushed_ready:
  assumes "flushed env s s'" "lsm_ok env s" "lsm_ok env s'" "\<forall>t \<in> set (tables_in_order s). on_disk s t"
  shows "contents env s' = contents env s" "\<forall>t \<in> set (tables_in_order s'). on_disk s' t"
proof -
  obtain t contents where t: "lsm_memtable s' = new_memtable" "tables_in_order s' = t # tables_in_order s"
    "table_entries (le_blocks env) t = data_entries (mt_map (lsm_memtable s))"
    "sst_id t = next_sst_id (lsm_manifest s)" "lsm_ssts s' = hm_insert (sst_id t) contents (lsm_ssts s)"
    "open_sst (sst_id t) contents True = Ok t"
    using assms(1) by (auto simp: flushed_def)
  show "Ordered_Scan.contents env s' = Ordered_Scan.contents env s"
    using t(1-3) by (simp add: contents_Cons skip_ok_new data_entries_def)
  have "on_disk s' u" if "u \<in> set (tables_in_order s)" for u
  proof -
    have "sst_id u < sst_id t" using lsm_okD(4) [OF assms(2) that] t(4) by simp
    with assms(4) that t(5) show ?thesis by (auto simp: on_disk_def)
  qed
  with t(2,5,6) show "\<forall>t \<in> set (tables_in_order s'). on_disk s' t" by (auto simp: on_disk_def)
qed

lemma mt_keys_data: "mt_keys mt = fst ` set (data_entries (mt_map mt))"
  by (simp add: mt_keys_def data_entries_def image_image case_prod_unfold)

lemma put_scan_ready:
  assumes env: "env_ok env" and s: "puts_inv env (Suc n) s" "scan_ready env s"
    and k: "k \<notin> fst ` set (contents env s)" "pair_ok (k, v)"
  obtains s' where "lsm_put env k v s = (Ok (), s')" "puts_inv env n s'" "scan_ready env s'"
    "set (contents env s') = insert (k, Some v) (set (contents env s))"
proof -
  let ?s1 = "written env (put_at k v s) s"
  have k': "k \<notin> mt_keys (lsm_memtable s)"
    using k(1) by (simp add: contents_Cons mt_keys_data image_Un)
  obtain s' where s': "lsm_put env k v s = (Ok (), s')" "puts_inv env n s'"
    "s' = ?s1 \<or> flushed env ?s1 s'"
    using lsm_put_ok [OF env s(1) k' k(2)] by blast
  have inv: "lsm_ok env s" "clean_memtable (lsm_memtable s)" "room (Suc n) s"
    using s(1) by (simp_all add: puts_inv_def)
  have r: "rec_timestamp (put_at k v s) = lsm_next_ts s" "rec_key (put_at k v s) = k"
    "rec_value (put_at k v s) = Some v" "rec_type (put_at k v s) = Put" by (simp_all add: put_at_def)
  note clean = written_clean [OF inv(1) r(1) inv(2), unfolded r(2)]
  have ok1: "lsm_ok env ?s1" by (rule written_ok [OF inv(1) r(1) room_counters(1) [OF inv(3)]])
  have sizes: "length k \<le> 2 ^ 30" "length v \<le> 2 ^ 30" using k(2) by (simp_all add: pair_ok_def)
  have map1: "set (mt_map (lsm_memtable ?s1)) = insert (Key k (lsm_next_ts s), Some v) (set (mt_map (lsm_memtable s)))"
    "clean_memtable (lsm_memtable ?s1)"
    using clean(1,3) k' sizes r by simp_all
  have c1: "set (contents env ?s1) = insert (k, Some v) (set (contents env s))"
    using map1(1) by (simp add: contents_Cons data_entries_def)
  have disk1: "\<forall>t \<in> set (tables_in_order ?s1). on_disk ?s1 t"
    using s(2) by (simp add: scan_ready_def on_disk_def written_def tables_in_order_def level_tables_def)
  have dist1: "distinct (map fst (contents env ?s1))"
  proof -
    have d: "distinct (map fst (contents env s))"
      using s(2) by (simp add: scan_ready_def contents_keys)
    let ?rest = "concat (map (table_entries (le_blocks env)) (tables_in_order s))"
    have "fst ` set (data_entries (mt_map (lsm_memtable ?s1))) =
        insert k (fst ` set (data_entries (mt_map (lsm_memtable s))))"
      using map1(1) by (simp add: data_entries_def)
    moreover have "distinct (map fst (data_entries (mt_map (lsm_memtable ?s1))))"
      using map1(2) by (simp add: clean_memtable_def map_fst_data_entries comp_def)
    ultimately show ?thesis using d k(1) by (simp add: contents_Cons image_Un)
  qed
  have ready: "scan_ready env ?s1"
    using ok1 disk1 dist1 clean_plain [OF lsm_okD(1) [OF ok1] map1(2)]
    by (simp add: scan_ready_def contents_keys)
  from s'(3) show thesis
  proof
    assume "s' = ?s1"
    with s'(1,2) ready c1 show thesis by (intro that [of s']) simp_all
  next
    assume f: "flushed env ?s1 s'"
    have ok': "lsm_ok env s'" "clean_memtable (lsm_memtable s')" using s'(2) by (simp_all add: puts_inv_def)
    note fl = flushed_ready [OF f ok1 ok'(1) disk1]
    have "scan_ready env s'"
      using ok' fl dist1 clean_plain [OF lsm_okD(1) [OF ok'(1)] ok'(2)]
      by (simp add: scan_ready_def contents_keys)
    with s'(1,2) fl(1) c1 show thesis by (intro that [of s']) simp_all
  qed
qed

lemma run_puts_scan_ready:
  assumes "env_ok env" "puts_inv env (length kvs) s" "scan_ready env s" "distinct (map fst kvs)"
    "list_all pair_ok kvs" "fst ` set kvs \<inter> fst ` set (contents env s) = {}"
  shows "\<exists>s'. run_puts env kvs s = (Ok (), s') \<and> scan_ready env s' \<and>
     set (contents env s') = (\<lambda>(k, v). (k, Some v)) ` set kvs \<union> set (contents env s)"
  using assms(2-6)
proof (induction kvs arbitrary: s)
  case (Cons kv kvs)
  obtain k v where kv: "kv = (k, v)" by fastforce
  obtain s1 where s1: "lsm_put env k v s = (Ok (), s1)" "puts_inv env (length kvs) s1" "scan_ready env s1"
    "set (contents env s1) = insert (k, Some v) (set (contents env s))"
    using put_scan_ready [OF assms(1), of "length kvs" s k v] Cons.prems kv by auto
  obtain s' where "run_puts env kvs s1 = (Ok (), s')" "scan_ready env s'"
    "set (contents env s') = (\<lambda>(k, v). (k, Some v)) ` set kvs \<union> set (contents env s1)"
    using Cons.IH [OF s1(2,3)] Cons.prems kv s1(4) by auto
  with s1 kv show ?case by auto
qed simp

lemma fresh_scan_ready: "scan_ready env (fresh_lsm opts) \<and> contents env (fresh_lsm opts) = []"
proof -
  have "lsm_ok env (fresh_lsm opts)" using fresh_inv [of 0 env opts] by (simp add: puts_inv_def)
  then show ?thesis
    by (simp add: scan_ready_def contents_Cons sources_def fresh_lsm_def skip_ok_new no_levels data_entries_def)
qed

section \<open>The client's loop\<close>

context storage_iterator
begin

lemma collect_rest: "ok i \<Longrightarrow> length (rest i) < n \<Longrightarrow> collect ops n i = Some (Ok (data_entries (rest i)))"
proof (induction n arbitrary: i)
  case (Suc n)
  show ?case
  proof (cases "rest i")
    case Nil
    with Suc.prems show ?thesis
      by (simp add: lsm_iter_key_def lsm_iter_is_valid_def valid_iff data_entries_def)
  next
    case (Cons e r)
    then obtain i' where "it_next ops i = Some (i', Ok ())" "ok i'" "rest i' = r"
      using next_ok [OF Suc.prems(1)] by auto
    with Suc Cons show ?thesis
      by (simp add: lsm_iter_key_def lsm_iter_value_def lsm_iter_advance_def lsm_iter_is_valid_def
          valid_iff key_hd value_hd data_entries_def case_prod_unfold)
  qed
qed simp

end

lemma snap_from_plain:
  assumes "plain l" "\<forall>e \<in> set l. lk \<noteq> Some (data_of e) \<and> key_timestamp (fst e) \<le> t"
  shows "snap_from t lk l = l"
  using assms
proof (induction l arbitrary: lk)
  case (Cons e l)
  have "\<forall>x \<in> set l. Some (data_of e) \<noteq> Some (data_of x) \<and> key_timestamp (fst x) \<le> t"
    using Cons.prems by (auto simp: plain_Cons dest: less_imp_neq)
  then have "snap_from t (Some (data_of e)) l = l"
    using Cons.prems(1) by (intro Cons.IH) (simp_all add: plain_Cons)
  with Cons.prems show ?case by auto
qed simp

lemma ready_timestamps:
  assumes "scan_ready env s" "e \<in> set (concat (sources env s))"
  shows "key_timestamp (fst e) \<le> lsm_next_ts s"
proof -
  have ok: "lsm_ok env s" using assms(1) by (simp add: scan_ready_def)
  have "e \<in> set (mt_map (lsm_memtable s)) \<or> (\<exists>es. e \<in> set (as_versions es))"
    using assms(2) by (auto simp: sources_def table_versions_def)
  then show ?thesis
    using lsm_okD(5) [OF ok, of "fst e" "snd e"] by (auto simp: as_versions_def intro: less_imp_le)
qed

lemma sorted_contents:
  fixes es :: "('k::linorder \<times> 'v) list"
  assumes "sorted_wrt (<) (map fst es)" "sorted_wrt (<) (map fst es')" "set es = set es'"
  shows "es = es'"
proof -
  have "set (map fst es') = set (map fst es)" using assms(3) by simp
  then have "map fst es = map fst es'"
    using strict_sorted_equal [OF assms(1,2)] by simp
  moreover have "inj_on fst (set es \<union> set es')"
    using assms(1,3) strict_sorted_iff [of "map fst es"] by (simp add: distinct_map)
  ultimately show ?thesis by (rule map_inj_on)
qed

text \<open>The pairs within the bounds in the order of their keys, as the client sees them.\<close>

definition pairs_between :: "bytes bound \<Rightarrow> bytes bound \<Rightarrow> (bytes \<times> bytes) list \<Rightarrow> entry list" where
  "pairs_between lo hi kvs =
     map (\<lambda>(k, v). (k, Some v)) (filter (\<lambda>(k, v). in_bounds lo hi k) (sort_key fst kvs))"

lemma pairs_between_sorted:
  assumes "distinct (map fst kvs)"
  shows "sorted_wrt (<) (map fst (pairs_between lo hi kvs))"
proof -
  have "sorted (map fst (filter P (sort_key fst kvs)))" for P :: "bytes \<times> bytes \<Rightarrow> bool"
    by (intro sorted_filter) simp
  moreover have "distinct (map fst (filter P (sort_key fst kvs)))" for P :: "bytes \<times> bytes \<Rightarrow> bool"
    using assms by (intro distinct_map_filter) (simp add: distinct_map)
  ultimately have "sorted_wrt (<) (map fst (filter P (sort_key fst kvs)))" for P :: "bytes \<times> bytes \<Rightarrow> bool"
    by (simp add: strict_sorted_iff)
  then show ?thesis by (simp add: pairs_between_def comp_def case_prod_unfold)
qed

text \<open>The scan of an engine after puts of different keys.\<close>

lemma scan_after_puts:
  assumes "env_ok env" "length kvs < 2 ^ 29" "list_all pair_ok kvs" "distinct (map fst kvs)"
    "run_puts env kvs (fresh_lsm opts) = (Ok (), s)"
  obtains it where "build_scan_iterator env lo hi s = Some (Ok it)" "inner_inv env it" "plain (inner_rest env it)"
    "data_entries (inner_rest env it) = pairs_between lo hi kvs" "length (inner_rest env it) \<le> length kvs"
    "\<forall>e \<in> set (inner_rest env it). key_timestamp (fst e) \<le> lsm_next_ts s"
proof -
  let ?out = "pairs_between lo hi kvs"
  have s: "scan_ready env s" "set (contents env s) = (\<lambda>(k, v). (k, Some v)) ` set kvs"
    using run_puts_scan_ready [OF assms(1) fresh_inv [OF assms(2)] _ assms(4,3), of opts]
      fresh_scan_ready [of env opts] assms(5) by auto
  obtain it where it: "build_scan_iterator env lo hi s = Some (Ok it)" "inner_inv env it" "plain (inner_rest env it)"
    "set (inner_rest env it) = {e \<in> set (concat (sources env s)). in_bounds lo hi (data_of e)}"
    using build_scan_ok [OF s(1)] by blast
  let ?r = "inner_rest env it"
  have out: "data_entries ?r = ?out"
  proof (rule sorted_contents)
    show "sorted_wrt (<) (map fst (data_entries ?r))"
      using it(3) by (simp add: map_fst_data_entries plain_def)
    show "sorted_wrt (<) (map fst ?out)" by (rule pairs_between_sorted [OF assms(4)])
    have "set (data_entries ?r) = (\<lambda>e. (data_of e, snd e)) ` set ?r"
      by (simp add: data_entries_def case_prod_unfold)
    also have "\<dots> = {e \<in> (\<lambda>e. (data_of e, snd e)) ` set (concat (sources env s)). in_bounds lo hi (fst e)}"
      unfolding it(4) by (auto simp del: set_concat)
    also have "\<dots> = {e \<in> set (contents env s). in_bounds lo hi (fst e)}"
      by (simp add: contents_def data_entries_def case_prod_unfold)
    finally show "set (data_entries ?r) = set ?out"
      unfolding s(2) pairs_between_def by auto
  qed
  have "length ?r = length ?out" using arg_cong [OF out, of length] by (simp add: data_entries_def)
  also have "\<dots> \<le> length (sort_key fst kvs)" unfolding pairs_between_def length_map by (rule length_filter_le)
  finally have "length ?r \<le> length kvs" by simp
  moreover have "\<forall>e \<in> set ?r. key_timestamp (fst e) \<le> lsm_next_ts s"
    unfolding it(4) using ready_timestamps [OF s(1)] by auto
  ultimately show thesis using that it(1-3) out by blast
qed

lemma run_puts_ready:
  assumes "env_ok env" "length kvs < 2 ^ 29" "list_all pair_ok kvs" "distinct (map fst kvs)"
  obtains s where "run_puts env kvs (fresh_lsm opts) = (Ok (), s)" "scan_ready env s"
  using run_puts_scan_ready [OF assms(1) fresh_inv [OF assms(2)] _ assms(4,3), of opts]
    fresh_scan_ready [of env opts] by auto

section \<open>Property\<close>

text \<open>
  C39: a range scan of the engine. After any puts of different keys into an empty directory,
  whatever the memtable size and so however the pairs are spread over the memtable and the
  flushed tables, a scan between any two bounds opens, and a client that advances it to its
  end sees exactly the pairs within the bounds, each once, in ascending order of the keys; a
  snapshot scan at the current timestamp shows the same.
\<close>

theorem scan_lists_pairs:
  assumes "env_ok env" "length kvs < 2 ^ 29" "list_all pair_ok kvs" "distinct (map fst kvs)"
    "lsm_open env empty_disk opts = Ok s0" "length kvs < n"
  shows "\<exists>s it sit. run_puts env kvs s0 = (Ok (), s) \<and>
    lsm_scan_range env lo hi s = Some (Ok it) \<and>
    collect (inner_ops env) n it = Some (Ok (pairs_between lo hi kvs)) \<and>
    lsm_scan_at_ts env lo hi (lsm_current_ts s) s = Some (Ok sit) \<and>
    collect (snapshot_lsm_ops env) n sit = Some (Ok (pairs_between lo hi kvs))"
proof -
  obtain s where s: "run_puts env kvs (fresh_lsm opts) = (Ok (), s)"
    using run_puts_ready [OF assms(1-4)] by blast
  obtain it where it: "build_scan_iterator env lo hi s = Some (Ok it)" "inner_inv env it" "plain (inner_rest env it)"
    "data_entries (inner_rest env it) = pairs_between lo hi kvs" "length (inner_rest env it) \<le> length kvs"
    "\<forall>e \<in> set (inner_rest env it). key_timestamp (fst e) \<le> lsm_next_ts s"
    using scan_after_puts [OF assms(1-4) s] by blast
  have c: "collect (inner_ops env) n it = Some (Ok (pairs_between lo hi kvs))"
    using inner.collect_rest [OF it(2), of n] it(4,5) assms(6) by simp
  have same: "snap_from (lsm_next_ts s) None (inner_rest env it) = inner_rest env it"
    using it(3,6) by (intro snap_from_plain) auto
  obtain sit where sit: "snapshot_new (inner_ops env) it (lsm_next_ts s) = Some (Ok sit)"
    "snapshot_inv (inner_inv env) (inner_rest env) sit" "snapshot_rest (inner_rest env) sit = inner_rest env it"
    using inner.snapshot_new_ok [OF it(2), of "lsm_next_ts s"] same by auto
  have "collect (snapshot_lsm_ops env) n sit = Some (Ok (pairs_between lo hi kvs))"
    using snap.collect_rest [OF sit(2), of n] sit(3) it(4,5) assms(6) by simp
  with s it(1) c sit(1) assms(5) show ?thesis
    by (simp add: lsm_open_empty lsm_scan_range_def lsm_scan_at_ts_def lsm_current_ts_def)
qed

lemma scan_lists_pairs_witness:
  "\<exists>s it sit. run_puts stored_lsm_env [([3], [30]), ([1], [10]), ([2], [20])] (fresh_lsm tiny_options) = (Ok (), s) \<and>
    lsm_scan_range stored_lsm_env (Excluded [1]) Unbounded s = Some (Ok it) \<and>
    collect (inner_ops stored_lsm_env) 4 it = Some (Ok [([2], Some [20]), ([3], Some [30])]) \<and>
    lsm_scan_at_ts stored_lsm_env (Excluded [1]) Unbounded (lsm_current_ts s) s = Some (Ok sit) \<and>
    collect (snapshot_lsm_ops stored_lsm_env) 4 sit = Some (Ok [([2], Some [20]), ([3], Some [30])])"
  using scan_lists_pairs [OF env_ok_stored _ _ _ lsm_open_empty, where kvs = "[([3], [30]), ([1], [10]), ([2], [20])]"
      and n = 4 and lo = "Excluded [1]" and hi = Unbounded and opts = tiny_options]
  by (simp add: pair_ok_def in_bounds_def pairs_between_def)

end
