(* ===== verification/Ssi_Checks.thy ===== *)
theory Ssi_Checks
  imports Ssi
begin

text \<open>
  What the manager of \<open>Ssi\<close> guarantees over any sequence of its operations: an accepted
  commit has not missed a conflicting write, and the counter of writers and the safe snapshot
  agree with the active transactions.
\<close>

section \<open>Runs of the manager\<close>

datatype ssi_op =
    BeginTxn u64 u64
  | BeginReadOnly u64 u64
  | ReadKey u64 bytes
  | WriteKey u64 bytes
  | ReadRange u64 "bytes bound" "bytes bound"
  | Commit u64 u64 u64 "bytes list"
  | AbortTxn u64
  | CommitReadOnly u64
  | Advance u64

text \<open>
  The history beside the manager: the keys each active transaction read and wrote, and of
  every accepted commit the commit timestamp, the start timestamp and the keys written.
\<close>

record committed_entry =
  ce_commit :: u64
  ce_start :: u64
  ce_writes :: "bytes list"

record ssi_run =
  manager :: ssi_manager
  reads :: "u64 \<Rightarrow> bytes list"
  writes :: "u64 \<Rightarrow> bytes list"
  log :: "committed_entry list"

definition new_run :: ssi_run where
  "new_run = \<lparr>manager = new_ssi_manager, reads = (\<lambda>_. []), writes = (\<lambda>_. []), log = []\<rparr>"

definition txn_active :: "u64 \<Rightarrow> ssi_manager \<Rightarrow> bool" where
  "txn_active i m \<longleftrightarrow> hm_get (active_txns m) i \<noteq> None"

definition start_of :: "u64 \<Rightarrow> u64 \<Rightarrow> ssi_manager \<Rightarrow> u64" where
  "start_of i read_ts m = (case hm_get (active_start_ts m) i of Some t \<Rightarrow> t | None \<Rightarrow> read_ts)"

fun ssi_step :: "(bytes \<Rightarrow> u64) \<Rightarrow> ssi_op \<Rightarrow> ssi_run \<Rightarrow> ssi_run" where
  "ssi_step h (BeginTxn i t) r =
     r\<lparr>manager := begin_txn_with_ts i t (manager r), reads := (reads r)(i := []), writes := (writes r)(i := [])\<rparr>"
| "ssi_step h (BeginReadOnly i t) r = r\<lparr>manager := begin_read_only_txn i t (manager r)\<rparr>"
| "ssi_step h (ReadKey i k) r =
     r\<lparr>manager := record_read h i k (manager r),
       reads := (if txn_active i (manager r) then (reads r)(i := k # reads r i) else reads r)\<rparr>"
| "ssi_step h (WriteKey i k) r =
     r\<lparr>manager := record_write h i k (manager r),
       writes := (if txn_active i (manager r) then (writes r)(i := k # writes r i) else writes r)\<rparr>"
| "ssi_step h (ReadRange i lo hi) r = r\<lparr>manager := record_range_read i lo hi (manager r)\<rparr>"
| "ssi_step h (Commit i read_ts commit_ts ks) r =
     (case validate_and_commit_with_keys i read_ts commit_ts ks (manager r) of
        (Ok _, m) \<Rightarrow> r\<lparr>manager := m, log := \<lparr>ce_commit = commit_ts, ce_start = start_of i read_ts (manager r),
            ce_writes = writes r i\<rparr> # log r\<rparr>
      | (_, m) \<Rightarrow> r\<lparr>manager := m\<rparr>)"
| "ssi_step h (AbortTxn i) r = r\<lparr>manager := abort_txn i (manager r)\<rparr>"
| "ssi_step h (CommitReadOnly i) r = r\<lparr>manager := commit_read_only_txn i (manager r)\<rparr>"
| "ssi_step h (Advance t) r = r\<lparr>manager := advance_watermark t (manager r)\<rparr>"

definition ssi_run :: "(bytes \<Rightarrow> u64) \<Rightarrow> ssi_op list \<Rightarrow> ssi_run" where
  "ssi_run h ops = fold (ssi_step h) ops new_run"

section \<open>The parts of a validation\<close>

lemma hs_insert_nonempty [simp]: "hs_insert k s \<noteq> []"
  by (metis emptyE hs_insert_def insertI1 list.set(1) set_hs_insert)

lemma fold_add_inbound [simp]:
  "read_keys (fold add_inbound_conflict cs rw) = read_keys rw"
  "write_keys (fold add_inbound_conflict cs rw) = write_keys rw"
  "read_ranges (fold add_inbound_conflict cs rw) = read_ranges rw"
  "inbound_conflicts (fold add_inbound_conflict cs rw) = inbound_conflicts rw @ cs"
  "outbound_conflicts (fold add_inbound_conflict cs rw) = outbound_conflicts rw"
  by (induction cs arbitrary: rw) (simp_all add: add_inbound_conflict_def)

lemma scan_committed_sets:
  assumes "scan_committed i read_ts commit_ts cs rw st = (res, rw', st')"
  shows "read_keys rw' = read_keys rw" "write_keys rw' = write_keys rw"
    "inbound_conflicts rw' = inbound_conflicts rw"
proof -
  have "read_keys rw' = read_keys rw \<and> write_keys rw' = write_keys rw \<and> inbound_conflicts rw' = inbound_conflicts rw"
    using assms
  proof (induction cs arbitrary: rw st)
    case (Cons c cs)
    then show ?case
      by (cases c) (auto simp: Let_def add_outbound_conflict_def split: if_splits)
  qed simp
  then show "read_keys rw' = read_keys rw" "write_keys rw' = write_keys rw"
    "inbound_conflicts rw' = inbound_conflicts rw" by simp_all
qed

lemma scan_committed_step:
  obtains rw1 st1 where "read_ranges rw1 = read_ranges rw"
    "scan_committed i read_ts commit_ts ((t, c) # cs) rw st =
       (if t > read_ts \<and> t < commit_ts \<and> list_ex (\<lambda>k. key_in_ranges k (read_ranges rw)) (ct_write_keys c)
        then (Err (SsiPhantom t), rw1, st1\<lparr>aborts_phantom := aborts_phantom st1 + 1\<rparr>)
        else scan_committed i read_ts commit_ts cs rw1 st1)"
proof (cases "t > read_ts \<and> t < commit_ts")
  case False
  show thesis by (rule that [of rw st]) (use False in auto)
next
  case True
  let ?o = "has_write_read_overlap (ct_read_set c) rw"
  let ?rw1 = "if ?o then add_outbound_conflict \<lparr>from_txn = i, to_txn = t, conflict_kind = WriteRead\<rparr> rw else rw"
  show thesis
    by (rule that [of ?rw1 "if ?o then count_conflicts 1 st else st"])
      (use True in \<open>simp_all add: Let_def add_outbound_conflict_def\<close>)
qed

lemma scan_committed_result:
  "scan_committed i read_ts commit_ts cs rw st = (res, rw', st') \<Longrightarrow> res = Ok () \<or> (\<exists>t. res = Err (SsiPhantom t))"
proof (induction cs arbitrary: rw st)
  case (Cons d cs)
  obtain t c where d: "d = (t, c)" by fastforce
  show ?case
    using Cons.prems Cons.IH unfolding d
    by (rule_tac scan_committed_step [of rw i read_ts commit_ts t c cs st]) (auto split: if_splits)
qed simp

lemma scan_committed_phantom:
  assumes "scan_committed i read_ts commit_ts cs rw st = (Ok (), rw', st')" "(t, c) \<in> set cs"
    "t > read_ts" "t < commit_ts" "k \<in> set (ct_write_keys c)"
  shows "\<not> key_in_ranges k (read_ranges rw)"
  using assms(1,2)
proof (induction cs arbitrary: rw st)
  case (Cons d cs)
  obtain t' c' where d: "d = (t', c')" by fastforce
  obtain rw1 st1 where s: "read_ranges rw1 = read_ranges rw"
    "scan_committed i read_ts commit_ts ((t', c') # cs) rw st =
       (if t' > read_ts \<and> t' < commit_ts \<and> list_ex (\<lambda>k. key_in_ranges k (read_ranges rw)) (ct_write_keys c')
        then (Err (SsiPhantom t'), rw1, st1\<lparr>aborts_phantom := aborts_phantom st1 + 1\<rparr>)
        else scan_committed i read_ts commit_ts cs rw1 st1)"
    using scan_committed_step [of rw i read_ts commit_ts t' c' cs st] by blast
  show ?case
  proof (cases "(t, c) = d")
    case True
    with Cons.prems(1) d s(2) assms(3-5) show ?thesis by (auto simp: list_ex_iff split: if_splits)
  next
    case False
    then have "(t, c) \<in> set cs" using Cons.prems(2) by simp
    moreover have "scan_committed i read_ts commit_ts cs rw1 st1 = (Ok (), rw', st')"
      using Cons.prems(1) d s(2) by (auto split: if_splits)
    ultimately show ?thesis using Cons.IH s(1) by fastforce
  qed
qed simp

lemma judge_result: "fst (judge rw st) \<noteq> Ok () \<Longrightarrow> \<exists>e. fst (judge rw st) = Err e \<and> e \<noteq> SsiTxnNotFound"
  by (cases "inbound_conflicts rw")
    (auto simp: judge_def has_inbound_conflict_def has_dangerous_structure_def)

lemma judge_ok: "fst (judge rw st) = Ok () \<longleftrightarrow> \<not> has_inbound_conflict rw"
  by (auto simp: judge_def has_dangerous_structure_def has_inbound_conflict_def split: list.split)

text \<open>How a validation ends, and what it leaves in every case.\<close>

lemma validate_cases:
  obtains (missing) "hm_get (active_txns m) i = None"
      "validate_and_commit_with_keys i read_ts commit_ts ks m = (Err SsiTxnNotFound, m)"
  | (refused) rw rw' st e where "hm_get (active_txns m) i = Some rw"
      "read_keys rw' = read_keys rw" "write_keys rw' = write_keys rw"
      "validate_and_commit_with_keys i read_ts commit_ts ks m =
         (Err e, m\<lparr>active_txns := hm_insert i rw' (active_txns m), stats := st\<rparr>)" "e \<noteq> SsiTxnNotFound"
  | (accepted) rw rw' st where "hm_get (active_txns m) i = Some rw"
      "read_keys rw' = read_keys rw" "write_keys rw' = write_keys rw"
      "inbound_conflicts rw = []" "find_inbound i read_ts commit_ts m rw = []"
      "validate_and_commit_with_keys i read_ts commit_ts ks m =
         (Ok (), install_commit i read_ts commit_ts ks rw'
            (m\<lparr>active_txns := hm_insert i rw' (active_txns m), stats := st\<rparr>))"
      "\<forall>(t, c) \<in> set (committed_txns m). t > read_ts \<longrightarrow> t < commit_ts \<longrightarrow>
         (\<forall>k \<in> set (ct_write_keys c). \<not> key_in_ranges k (read_ranges rw))"
proof (cases "hm_get (active_txns m) i")
  case None
  then show thesis using missing by (simp add: validate_and_commit_with_keys_def)
next
  case (Some rw)
  let ?inb = "find_inbound i read_ts commit_ts m rw"
  let ?rw1 = "fold add_inbound_conflict ?inb rw"
  let ?st1 = "count_conflicts (length ?inb) (stats m)"
  obtain res rw2 st2 where sc: "scan_committed i read_ts commit_ts (committed_txns m) ?rw1 ?st1 = (res, rw2, st2)"
    by (metis prod_cases3)
  note sets = scan_committed_sets [OF sc, simplified]
  let ?m = "\<lambda>st. m\<lparr>active_txns := hm_insert i rw2 (active_txns m), stats := st\<rparr>"
  obtain r3 st3 where j: "judge rw2 st2 = (r3, st3)" by fastforce
  have v: "validate_and_commit_with_keys i read_ts commit_ts ks m =
      (if res = Ok () then
         if r3 = Ok () then (Ok (), install_commit i read_ts commit_ts ks rw2 (?m st3)) else (r3, ?m st3)
       else (res, ?m st2))"
    using Some sc j scan_committed_result [OF sc]
    by (auto simp: validate_and_commit_with_keys_def Let_def split: result.split)
  consider "res \<noteq> Ok ()" | "res = Ok ()" "r3 \<noteq> Ok ()" | "res = Ok ()" "r3 = Ok ()" by blast
  then show thesis
  proof cases
    case 1
    then obtain t where "res = Err (SsiPhantom t)" using scan_committed_result [OF sc] by blast
    with v show thesis by (intro refused [OF Some sets(1,2)]) auto
  next
    case 2
    then obtain e where "r3 = Err e" "e \<noteq> SsiTxnNotFound" using judge_result [of rw2 st2] j by auto
    with v 2 show thesis by (intro refused [OF Some sets(1,2)]) auto
  next
    case 3
    then have "\<not> has_inbound_conflict rw2" using judge_ok [of rw2 st2] j by simp
    then have none: "inbound_conflicts rw = []" "?inb = []"
      using sets(3) by (simp_all add: has_inbound_conflict_def)
    have "\<forall>(t, c) \<in> set (committed_txns m). t > read_ts \<longrightarrow> t < commit_ts \<longrightarrow>
         (\<forall>k \<in> set (ct_write_keys c). \<not> key_in_ranges k (read_ranges rw))"
      using scan_committed_phantom [of i read_ts commit_ts "committed_txns m" ?rw1 ?st1 rw2 st2] sc 3
      by fastforce
    with none v 3 show thesis by (intro accepted [OF Some sets(1,2)]) auto
  qed
qed

section \<open>The write index\<close>

lemma map_of_filter_value:
  "hm_wf xs \<Longrightarrow> map_of (filter (\<lambda>(k, v). P v) xs) k =
     (case map_of xs k of Some v \<Rightarrow> if P v then Some v else None | None \<Rightarrow> None)"
proof (induction xs)
  case (Cons x xs)
  obtain k' v where x: "x = (k', v)" by fastforce
  have "map_of xs k' = None" using Cons.prems x by (simp add: map_of_eq_None_iff)
  with Cons x show ?case by (auto split: option.split)
qed simp

lemma index_of_push [simp]:
  "index_of (m\<lparr>write_index := push_index e h idx\<rparr>) h' =
     (if h' = h then index_of (m\<lparr>write_index := idx\<rparr>) h @ [e] else index_of (m\<lparr>write_index := idx\<rparr>) h')"
  by (auto simp: index_of_def push_index_def)

lemma set_index_of_push_all:
  "set (index_of (m\<lparr>write_index := fold (push_index e) hs idx\<rparr>) h) =
     set (index_of (m\<lparr>write_index := idx\<rparr>) h) \<union> (if h \<in> set hs then {e} else {})"
  by (induction hs arbitrary: idx) auto

lemma hm_wf_push_all: "hm_wf idx \<Longrightarrow> hm_wf (fold (push_index e) hs idx)"
  by (induction hs arbitrary: idx) (simp_all add: push_index_def)

lemma index_of_advance:
  assumes "hm_wf (write_index m)"
  shows "index_of (advance_watermark t m) h =
    (if t > watermark m then filter (\<lambda>e. wi_commit_ts e \<ge> t) (index_of m h) else index_of m h)"
proof -
  let ?f = "filter (\<lambda>e :: write_index_entry. wi_commit_ts e \<ge> t)"
  have wf: "hm_wf (map (\<lambda>(h, es). (h, ?f es)) (write_index m))"
    using assms by (simp add: comp_def case_prod_unfold)
  have "map_of (map (\<lambda>(h, es). (h, ?f es)) xs) h = map_option ?f (map_of xs h)" for xs
    by (induction xs) auto
  with map_of_filter_value [OF wf, of "\<lambda>es. es \<noteq> []" h]
  have "hm_get (filter (\<lambda>(_, es). es \<noteq> []) (map (\<lambda>(h, es). (h, ?f es)) (write_index m))) h =
      (case map_option ?f (hm_get (write_index m) h) of Some v \<Rightarrow> if v \<noteq> [] then Some v else None | None \<Rightarrow> None)"
    by (simp only:)
  then show ?thesis
    by (cases "hm_get (write_index m) h") (auto simp: index_of_def advance_watermark_def)
qed

section \<open>The invariant\<close>

definition as_entry :: "committed_entry \<Rightarrow> write_index_entry" where
  "as_entry c = \<lparr>wi_commit_ts = ce_commit c, wi_start_ts = ce_start c\<rparr>"

text \<open>
  The sets of the active transactions hold the hashes of what they read and wrote, and the
  index holds the commits that are not below the watermark, and no others than commits.
\<close>

definition tracked :: "(bytes \<Rightarrow> u64) \<Rightarrow> ssi_run \<Rightarrow> bool" where
  "tracked h r \<longleftrightarrow>
     (\<forall>i rw. hm_get (active_txns (manager r)) i = Some rw \<longrightarrow>
        set (read_keys rw) = h ` set (reads r i) \<and> set (write_keys rw) = h ` set (writes r i))"

definition indexed :: "(bytes \<Rightarrow> u64) \<Rightarrow> ssi_run \<Rightarrow> bool" where
  "indexed h r \<longleftrightarrow> hm_wf (write_index (manager r)) \<and>
     (\<forall>c \<in> set (log r). ce_commit c \<ge> watermark (manager r) \<longrightarrow>
        (\<forall>k \<in> set (ce_writes c). as_entry c \<in> set (index_of (manager r) (h k)))) \<and>
     (\<forall>x e. e \<in> set (index_of (manager r) x) \<longrightarrow> (\<exists>c \<in> set (log r). e = as_entry c \<and> x \<in> h ` set (ce_writes c)))"

lemma tracked_active:
  assumes "tracked h r" "hm_get (active_txns (manager r)) i = Some rw"
  shows "set (read_keys rw) = h ` set (reads r i)" "set (write_keys rw) = h ` set (writes r i)"
  using assms unfolding tracked_def by blast+

lemma index_of_cong: "write_index m' = write_index m \<Longrightarrow> index_of m' x = index_of m x"
  by (simp add: index_of_def)

lemma indexed_cong:
  assumes "indexed h r" "write_index (manager r') = write_index (manager r)"
    "watermark (manager r') = watermark (manager r)" "log r' = log r"
  shows "indexed h r'"
  using assms index_of_cong [of "manager r'" "manager r"] by (simp add: indexed_def)

lemma active_keeps_index:
  "write_index (begin_txn_with_ts i t m) = write_index m" "watermark (begin_txn_with_ts i t m) = watermark m"
  "write_index (begin_read_only_txn i t m) = write_index m" "watermark (begin_read_only_txn i t m) = watermark m"
  "write_index (record_read h i k m) = write_index m" "watermark (record_read h i k m) = watermark m"
  "write_index (record_write h i k m) = write_index m" "watermark (record_write h i k m) = watermark m"
  "write_index (record_range_read i lo hi m) = write_index m" "watermark (record_range_read i lo hi m) = watermark m"
  "write_index (abort_txn i m) = write_index m" "watermark (abort_txn i m) = watermark m"
  "write_index (commit_read_only_txn i m) = write_index m" "watermark (commit_read_only_txn i m) = watermark m"
  by (simp_all add: begin_txn_with_ts_def begin_read_only_txn_def update_safe_snapshot_def record_read_def
      record_write_def record_range_read_def abort_txn_def commit_read_only_txn_def Let_def split: option.split)

lemma install_commit_simps:
  "active_txns (install_commit i read_ts commit_ts ks rw m) = hm_remove i (active_txns m)"
  "watermark (install_commit i read_ts commit_ts ks rw m) = watermark m"
  "write_index (install_commit i read_ts commit_ts ks rw m) =
     fold (push_index \<lparr>wi_commit_ts = commit_ts, wi_start_ts = start_of i read_ts m\<rparr>) (write_keys rw) (write_index m)"
  "active_start_ts (install_commit i read_ts commit_ts ks rw m) = hm_remove i (active_start_ts m)"
  by (simp_all add: install_commit_def Let_def update_safe_snapshot_def start_of_def)

lemma tracked_step:
  assumes "tracked h r"
  shows "tracked h (ssi_step h p r)"
proof (cases p)
  case (Commit i read_ts commit_ts ks)
  show ?thesis
  proof (cases rule: validate_cases [of "manager r" i read_ts commit_ts ks])
    case missing
    with Commit assms show ?thesis by (simp add: tracked_def)
  next
    case (refused rw rw' st e)
    with Commit assms show ?thesis by (auto simp: tracked_def)
  next
    case (accepted rw rw' st)
    with Commit assms show ?thesis by (auto simp: tracked_def install_commit_simps)
  qed
qed (use assms in \<open>auto simp: tracked_def begin_txn_with_ts_def begin_read_only_txn_def update_safe_snapshot_def
      record_read_def record_write_def record_range_read_def abort_txn_def commit_read_only_txn_def Let_def
      advance_watermark_def new_rw_set_def txn_active_def rws_record_read_def rws_record_write_def
      rws_record_range_read_def split: option.splits if_splits\<close>)

lemma indexed_commit:
  assumes ix: "indexed h r" and tr: "tracked h r"
    and rw: "hm_get (active_txns (manager r)) i = Some rw" "write_keys rw' = write_keys rw"
    and m: "manager r' = install_commit i read_ts commit_ts ks rw'
        (manager r\<lparr>active_txns := hm_insert i rw' (active_txns (manager r)), stats := st\<rparr>)"
    and log: "log r' = \<lparr>ce_commit = commit_ts, ce_start = start_of i read_ts (manager r), ce_writes = writes r i\<rparr> # log r"
  shows "indexed h r'"
proof -
  let ?e = "\<lparr>wi_commit_ts = commit_ts, wi_start_ts = start_of i read_ts (manager r)\<rparr>"
  let ?c = "\<lparr>ce_commit = commit_ts, ce_start = start_of i read_ts (manager r), ce_writes = writes r i\<rparr>"
  have idx: "write_index (manager r') = fold (push_index ?e) (write_keys rw) (write_index (manager r))"
    and wm: "watermark (manager r') = watermark (manager r)"
    using rw(2) by (simp_all add: m install_commit_simps start_of_def)
  have set_idx: "set (index_of (manager r') x) = set (index_of (manager r) x) \<union> (if x \<in> h ` set (writes r i) then {?e} else {})" for x
  proof -
    have "index_of (manager r') x = index_of (manager r\<lparr>write_index := fold (push_index ?e) (write_keys rw) (write_index (manager r))\<rparr>) x"
      by (simp add: index_of_def idx)
    then show ?thesis
      using set_index_of_push_all [where m = "manager r" and e = ?e and hs = "write_keys rw"
          and idx = "write_index (manager r)" and h = x]
        tracked_active(2) [OF tr rw(1)] by (simp add: index_of_def)
  qed
  have new: "as_entry ?c = ?e" by (simp add: as_entry_def)
  show ?thesis
    unfolding indexed_def
  proof (intro conjI ballI allI impI)
    show "hm_wf (write_index (manager r'))" using ix by (simp add: idx hm_wf_push_all indexed_def)
    fix c k assume c: "c \<in> set (log r')" "watermark (manager r') \<le> ce_commit c" "k \<in> set (ce_writes c)"
    then consider "c = ?c" | "c \<in> set (log r)" by (auto simp: log)
    then show "as_entry c \<in> set (index_of (manager r') (h k))"
    proof cases
      case 1
      with c(3) new show ?thesis by (simp add: set_idx)
    next
      case 2
      with ix c(2,3) wm show ?thesis by (auto simp: set_idx indexed_def)
    qed
  next
    fix x e assume "e \<in> set (index_of (manager r') x)"
    then consider "e = ?e" "x \<in> h ` set (writes r i)" | "e \<in> set (index_of (manager r) x)"
      by (auto simp: set_idx split: if_splits)
    then show "\<exists>c \<in> set (log r'). e = as_entry c \<and> x \<in> h ` set (ce_writes c)"
    proof cases
      case 1
      with new show ?thesis by (intro bexI [of _ ?c]) (simp_all add: log)
    next
      case 2
      with ix show ?thesis unfolding indexed_def log by (meson list.set_intros(2))
    qed
  qed
qed

lemma indexed_step:
  assumes ix: "indexed h r" and tr: "tracked h r"
  shows "indexed h (ssi_step h p r)"
proof (cases p)
  case (Commit i read_ts commit_ts ks)
  show ?thesis
  proof (cases rule: validate_cases [of "manager r" i read_ts commit_ts ks])
    case missing
    with Commit show ?thesis by (intro indexed_cong [OF ix]) simp_all
  next
    case (refused rw rw' st e)
    with Commit show ?thesis by (intro indexed_cong [OF ix]) simp_all
  next
    case (accepted rw rw' st)
    with Commit show ?thesis
      by (intro indexed_commit [OF ix tr accepted(1,3), of _ read_ts commit_ts ks st]) simp_all
  qed
next
  case (Advance t)
  let ?m = "manager r" and ?m' = "advance_watermark t (manager r)"
  have wf: "hm_wf (write_index ?m)" using ix by (simp add: indexed_def)
  have "hm_wf (filter (\<lambda>(_, es). es \<noteq> []) (map (\<lambda>(h, es). (h, filter (\<lambda>e. wi_commit_ts e \<ge> t) es)) (write_index ?m)))"
    using wf by (intro distinct_map_filter) (simp add: comp_def case_prod_unfold)
  then have wf': "hm_wf (write_index ?m')" using wf by (simp add: advance_watermark_def)
  have wm: "watermark ?m' = (if t > watermark ?m then t else watermark ?m)"
    by (simp add: advance_watermark_def)
  show ?thesis
    unfolding Advance indexed_def
  proof (intro conjI ballI allI impI)
    show "hm_wf (write_index (manager (ssi_step h (Advance t) r)))" using wf' by simp
    fix c k assume c: "c \<in> set (log (ssi_step h (Advance t) r))" "k \<in> set (ce_writes c)"
      and above: "watermark (manager (ssi_step h (Advance t) r)) \<le> ce_commit c"
    have "watermark ?m \<le> ce_commit c" using above by (auto simp: wm split: if_splits)
    with c ix have "as_entry c \<in> set (index_of ?m (h k))" by (simp add: indexed_def)
    with above show "as_entry c \<in> set (index_of (manager (ssi_step h (Advance t) r)) (h k))"
      by (auto simp: index_of_advance [OF wf] wm as_entry_def split: if_splits)
  next
    fix x e assume "e \<in> set (index_of (manager (ssi_step h (Advance t) r)) x)"
    then have "e \<in> set (index_of ?m x)" by (auto simp: index_of_advance [OF wf] split: if_splits)
    with ix show "\<exists>c \<in> set (log (ssi_step h (Advance t) r)). e = as_entry c \<and> x \<in> h ` set (ce_writes c)"
      by (simp add: indexed_def)
  qed
qed (auto intro!: indexed_cong [OF ix] simp: active_keeps_index)

lemma run_invariants: "tracked h (ssi_run h ops) \<and> indexed h (ssi_run h ops)"
proof -
  have "tracked h (fold (ssi_step h) ops r) \<and> indexed h (fold (ssi_step h) ops r)"
    if "tracked h r \<and> indexed h r" for r
    using that by (induction ops arbitrary: r) (simp_all add: tracked_step indexed_step)
  moreover have "tracked h new_run \<and> indexed h new_run"
    by (simp add: tracked_def indexed_def new_run_def new_ssi_manager_def index_of_def)
  ultimately show ?thesis by (simp add: ssi_run_def)
qed

section \<open>Counters\<close>

definition writers :: "ssi_manager \<Rightarrow> u64 set" where
  "writers m = {i. \<exists>rw. hm_get (active_txns m) i = Some rw \<and> write_keys rw \<noteq> []}"

definition counted :: "ssi_manager \<Rightarrow> bool" where
  "counted m \<longleftrightarrow> active_writers m = of_nat (card (writers m)) \<and>
     (\<forall>i t. hm_get (active_start_ts m) i = Some t \<longrightarrow> safe_snapshot m \<le> t) \<and>
     length (recently_committed m) \<le> MAX_RECENTLY_COMMITTED"

lemma finite_writers [simp]: "finite (writers m)"
proof -
  have "writers m \<subseteq> dom (hm_get (active_txns m))" by (auto simp: writers_def)
  then show ?thesis using finite_dom_map_of finite_subset by blast
qed

lemma min_start_ts_le: "hm_get m i = Some t \<Longrightarrow> min_start_ts m \<le> t"
proof -
  assume "hm_get m i = Some t"
  then have "(i, t) \<in> set m" by (rule map_of_SomeD)
  moreover have "fold (\<lambda>(_, t) acc. min t acc) m a \<le> a \<and>
      (\<forall>(i, t) \<in> set m. fold (\<lambda>(_, t) acc. min t acc) m a \<le> t)" for a :: u64
  proof (induction m arbitrary: a)
    case (Cons x m)
    obtain j u where x: "x = (j, u)" by fastforce
    show ?case using Cons [of "min u a"] x by auto
  qed simp
  ultimately show ?thesis unfolding min_start_ts_def by blast
qed

lemma writers_insert:
  "writers (m\<lparr>active_txns := hm_insert i rw (active_txns m)\<rparr>) =
     (if write_keys rw = [] then writers m - {i} else insert i (writers m))"
  by (auto simp: writers_def)

lemma writers_remove: "writers (m\<lparr>active_txns := hm_remove i (active_txns m)\<rparr>) = writers m - {i}"
  by (auto simp: writers_def)

lemma writers_cong: "active_txns m' = active_txns m \<Longrightarrow> writers m' = writers m"
  by (simp add: writers_def)

text \<open>A transaction is begun under an identifier that is not active.\<close>

fun fresh_begin :: "ssi_op \<Rightarrow> ssi_manager \<Rightarrow> bool" where
  "fresh_begin (BeginTxn i t) m \<longleftrightarrow> \<not> txn_active i m"
| "fresh_begin _ m \<longleftrightarrow> True"

fun fresh_begins :: "(bytes \<Rightarrow> u64) \<Rightarrow> ssi_op list \<Rightarrow> ssi_run \<Rightarrow> bool" where
  "fresh_begins h [] r \<longleftrightarrow> True"
| "fresh_begins h (p # ps) r \<longleftrightarrow> fresh_begin p (manager r) \<and> fresh_begins h ps (ssi_step h p r)"

lemma counted_set:
  assumes "counted m" "hm_get (active_txns m) i = Some rw" "write_keys rw' = [] \<longleftrightarrow> write_keys rw = []"
    "active_txns m' = hm_insert i rw' (active_txns m)" "active_writers m' = active_writers m"
    "active_start_ts m' = active_start_ts m" "safe_snapshot m' = safe_snapshot m"
    "recently_committed m' = recently_committed m"
  shows "counted m'"
proof -
  have "writers m' = writers m" using assms(2-4) by (auto simp: writers_def)
  with assms show ?thesis by (simp add: counted_def)
qed

lemma counted_remove:
  assumes "counted m" "\<And>j. hm_get (active_txns m') j = (if j = i then None else hm_get (active_txns m) j)"
    "active_writers m' = active_writers m - (if i \<in> writers m then 1 else 0)"
    "safe_snapshot m' = min_start_ts (active_start_ts m')"
    "length (recently_committed m') \<le> MAX_RECENTLY_COMMITTED"
  shows "counted m'"
proof -
  have w: "writers m' = writers m - {i}" using assms(2) by (auto simp: writers_def)
  have "active_writers m' = of_nat (card (writers m'))"
  proof (cases "i \<in> writers m")
    case True
    then have "card (writers m) = Suc (card (writers m'))"
      unfolding w using card_Suc_Diff1 [OF finite_writers True] by simp
    with assms(1,3) True show ?thesis by (simp add: counted_def)
  next
    case False
    with assms(1,3) w show ?thesis by (simp add: counted_def)
  qed
  with assms(4,5) min_start_ts_le show ?thesis by (simp add: counted_def)
qed

lemma counted_write:
  assumes "counted m"
  shows "counted (record_write h i k m)"
proof (cases "hm_get (active_txns m) i")
  case None
  with assms show ?thesis by (simp add: record_write_def)
next
  case (Some rw)
  let ?m = "record_write h i k m"
  have w: "writers ?m = insert i (writers m)" "i \<in> writers m \<longleftrightarrow> write_keys rw \<noteq> []"
    using Some by (auto simp: writers_def record_write_def rws_record_write_def)
  have "active_writers ?m = of_nat (card (writers ?m))"
    using assms Some w by (simp add: counted_def record_write_def card_insert_if)
  with assms Some show ?thesis by (simp add: counted_def record_write_def)
qed

lemma counted_step:
  assumes c: "counted (manager r)" and fresh: "fresh_begin p (manager r)"
  shows "counted (manager (ssi_step h p r))"
proof (cases p)
  case (BeginTxn i t)
  have "writers (begin_txn_with_ts i t (manager r)) = writers (manager r)"
    using fresh BeginTxn by (auto simp: writers_def begin_txn_with_ts_def update_safe_snapshot_def
        new_rw_set_def txn_active_def)
  with c BeginTxn min_start_ts_le show ?thesis
    by (auto simp: counted_def begin_txn_with_ts_def update_safe_snapshot_def)
next
  case (BeginReadOnly i t)
  have "writers (begin_read_only_txn i t (manager r)) = writers (manager r)"
    by (rule writers_cong) (simp add: begin_read_only_txn_def update_safe_snapshot_def)
  with c BeginReadOnly min_start_ts_le show ?thesis
    by (auto simp: counted_def begin_read_only_txn_def update_safe_snapshot_def)
next
  case (CommitReadOnly i)
  have "writers (commit_read_only_txn i (manager r)) = writers (manager r)"
    by (rule writers_cong) (simp add: commit_read_only_txn_def update_safe_snapshot_def)
  with c CommitReadOnly min_start_ts_le show ?thesis
    by (auto simp: counted_def commit_read_only_txn_def update_safe_snapshot_def)
next
  case (ReadKey i k)
  show ?thesis
  proof (cases "hm_get (active_txns (manager r)) i")
    case (Some rw)
    then show ?thesis unfolding ReadKey
      by (intro counted_set [OF c Some, of "rws_record_read h k rw"])
        (simp_all add: record_read_def rws_record_read_def)
  qed (use c ReadKey in \<open>simp add: record_read_def\<close>)
next
  case (ReadRange i lo hi)
  show ?thesis
  proof (cases "hm_get (active_txns (manager r)) i")
    case (Some rw)
    then show ?thesis unfolding ReadRange
      by (intro counted_set [OF c Some, of "rws_record_range_read lo hi rw"])
        (simp_all add: record_range_read_def rws_record_range_read_def)
  qed (use c ReadRange in \<open>simp add: record_range_read_def\<close>)
next
  case (WriteKey i k)
  with counted_write [OF c] show ?thesis by simp
next
  case (AbortTxn i)
  have "i \<in> writers (manager r) \<longleftrightarrow>
      (case hm_get (active_txns (manager r)) i of Some rw \<Rightarrow> write_keys rw \<noteq> [] | None \<Rightarrow> False)"
    by (auto simp: writers_def split: option.split)
  with c AbortTxn show ?thesis
    by (intro counted_remove [OF c, of _ i]) (simp_all add: abort_txn_def update_safe_snapshot_def Let_def counted_def)
next
  case (Advance t)
  have "writers (advance_watermark t (manager r)) = writers (manager r)"
    by (rule writers_cong) (simp add: advance_watermark_def)
  with c Advance show ?thesis by (simp add: counted_def advance_watermark_def)
next
  case (Commit i read_ts commit_ts ks)
  show ?thesis
  proof (cases rule: validate_cases [of "manager r" i read_ts commit_ts ks])
    case missing
    with Commit c show ?thesis by simp
  next
    case (refused rw rw' st e)
    with Commit show ?thesis by (intro counted_set [OF c refused(1), of rw']) simp_all
  next
    case (accepted rw rw' st)
    have "i \<in> writers (manager r) \<longleftrightarrow> write_keys rw' \<noteq> []"
      using accepted(1,3) by (simp add: writers_def)
    then show ?thesis
      using Commit accepted(6)
      by (intro counted_remove [OF c, of _ i])
        (simp_all add: install_commit_def update_safe_snapshot_def Let_def push_recent_def)
  qed
qed

lemma run_counted: "fresh_begins h ops r \<Longrightarrow> counted (manager r) \<Longrightarrow> counted (manager (fold (ssi_step h) ops r))"
  by (induction ops arbitrary: r) (simp_all add: counted_step)

lemma new_counted: "counted (manager new_run)"
  by (simp add: counted_def new_run_def new_ssi_manager_def writers_def)

section \<open>Properties\<close>

text \<open>
  C8: an accepted commit missed nothing. After any operations of the manager, a validation
  that accepts a transaction implies that no key it read was written by a transaction that
  committed after its read timestamp, started before its commit timestamp and is not below
  the watermark, whatever the key hash; and that no key reported as written by a transaction
  committed between the two timestamps is in a range it read. The transaction is then over.
\<close>

theorem accepted_commit_missed_nothing:
  assumes "r = ssi_run h ops" "validate_and_commit_with_keys i read_ts commit_ts ks (manager r) = (Ok (), m')"
    "c \<in> set (log r)" "ce_commit c > read_ts" "ce_start c < commit_ts" "ce_commit c \<ge> watermark (manager r)"
  shows "set (reads r i) \<inter> set (ce_writes c) = {} \<and> \<not> txn_active i m' \<and>
    (\<exists>rw. get_rw_set i (manager r) = Some rw \<and>
       (\<forall>(t, d) \<in> set (committed_txns (manager r)). read_ts < t \<and> t < commit_ts \<longrightarrow>
          list_all (\<lambda>k. \<not> key_in_ranges k (read_ranges rw)) (ct_write_keys d)))"
proof -
  have inv: "tracked h r" "indexed h r" using run_invariants assms(1) by simp_all
  show ?thesis
  proof (cases rule: validate_cases [of "manager r" i read_ts commit_ts ks])
    case (accepted rw rw' st)
    have "set (reads r i) \<inter> set (ce_writes c) = {}"
    proof (rule ccontr)
      assume "set (reads r i) \<inter> set (ce_writes c) \<noteq> {}"
      then obtain k where k: "k \<in> set (reads r i)" "k \<in> set (ce_writes c)" by auto
      have "h k \<in> set (read_keys rw)" using tracked_active(1) [OF inv(1) accepted(1)] k(1) by simp
      moreover have "as_entry c \<in> set (index_of (manager r) (h k))"
        using inv(2) assms(3,6) k(2) by (simp add: indexed_def)
      ultimately have "find_inbound i read_ts commit_ts (manager r) rw \<noteq> []"
        using assms(4,5) by (auto simp: find_inbound_def as_entry_def filter_empty_conv) (metis write_index_entry.select_convs)+
      with accepted(5) show False by simp
    qed
    moreover have "\<not> txn_active i m'"
      using accepted(6) assms(2) by (auto simp: txn_active_def install_commit_simps)
    ultimately show ?thesis
      using accepted(1,7) by (auto simp: get_rw_set_def list_all_iff)
  qed (use assms(2) in auto)
qed

text \<open>Two transactions on different keys: the one that ends first does not hinder the other.\<close>

definition length_hash :: "bytes \<Rightarrow> u64" where
  "length_hash k = of_nat (length k)"

definition two_writers :: "ssi_op list" where
  "two_writers = [BeginTxn 1 1, BeginTxn 2 2, ReadKey 2 [1], WriteKey 1 [7, 7], WriteKey 2 [1],
     Commit 1 0 10 []]"

lemmas ssi_run_simps = ssi_run_def new_run_def new_ssi_manager_def begin_txn_with_ts_def
  update_safe_snapshot_def min_start_ts_def record_read_def record_write_def rws_record_read_def
  rws_record_write_def new_rw_set_def txn_active_def hs_insert_def
  validate_and_commit_with_keys_def find_inbound_def judge_def has_dangerous_structure_def
  has_inbound_conflict_def install_commit_def count_conflicts_def push_index_def index_of_def
  start_of_def push_recent_def MAX_RECENTLY_COMMITTED_def new_stats_def has_write_read_overlap_def
  is_disjoint_def Let_def

lemma accepted_commit_missed_nothing_witness:
  "set (reads (ssi_run length_hash two_writers) 2) \<inter> set [[7, 7]] = {} \<and>
   fst (validate_and_commit_with_keys 2 2 20 [] (manager (ssi_run length_hash two_writers))) = Ok ()"
proof -
  let ?r = "ssi_run length_hash two_writers"
  obtain m' where ok: "validate_and_commit_with_keys 2 2 20 [] (manager ?r) = (Ok (), m')"
    by (simp add: two_writers_def ssi_run_simps length_hash_def)
  have log: "log ?r = [\<lparr>ce_commit = 10, ce_start = 1, ce_writes = [[7, 7]]\<rparr>]" "watermark (manager ?r) = 0"
    by (simp_all add: two_writers_def ssi_run_simps length_hash_def)
  from accepted_commit_missed_nothing [OF refl ok, of "\<lparr>ce_commit = 10, ce_start = 1, ce_writes = [[7, 7]]\<rparr>"] log ok
  show ?thesis by simp
qed

text \<open>
  C22: counters of the manager. When every transaction begins under an identifier that is not
  active, the writer counter counts exactly the active transactions that have written, the
  safe snapshot is not above the start of any active transaction, and the list of recent
  commits stays within its bound. So a deferrable transaction that is given a snapshot waited
  until nothing was writing.
\<close>

theorem counters_agree:
  assumes "fresh_begins h ops new_run" "m = manager (ssi_run h ops)"
  shows "active_writers m = of_nat (card (writers m)) \<and>
    (\<forall>i t. hm_get (active_start_ts m) i = Some t \<longrightarrow> safe_snapshot m \<le> t) \<and>
    length (recently_committed m) \<le> MAX_RECENTLY_COMMITTED \<and>
    (card (writers m) < 2 ^ 64 \<and> wait_for_safe_snapshot [m] = Some t \<longrightarrow> writers m = {} \<and> t = safe_snapshot m)"
proof -
  have c: "counted m" using run_counted [OF assms(1) new_counted] assms(2) by (simp add: ssi_run_def)
  have "writers m = {}" if "card (writers m) < 2 ^ 64" "active_writers m = 0"
  proof -
    have "unat (of_nat (card (writers m)) :: u64) = card (writers m)"
      using that(1) by (simp add: unsigned_of_nat take_bit_nat_eq_self)
    with c that(2) have "card (writers m) = 0" by (simp add: counted_def)
    then show ?thesis by simp
  qed
  then have "writers m = {}" if "card (writers m) < 2 ^ 64" "\<not> active_writers m > 0"
    using that word_neq_0_conv by blast
  with c show ?thesis by (simp add: counted_def has_active_writers_def active_writer_count_def split: if_splits)
qed

lemma counters_agree_witness:
  "active_writers (manager (ssi_run length_hash two_writers)) = 1 \<and>
   writers (manager (ssi_run length_hash two_writers)) = {2}"
proof -
  have fresh: "fresh_begins length_hash two_writers new_run"
    by (simp add: two_writers_def ssi_run_simps length_hash_def)
  have w: "writers (manager (ssi_run length_hash two_writers)) = {2}"
    by (auto simp: writers_def two_writers_def ssi_run_simps length_hash_def split: if_splits)
  from counters_agree [OF fresh refl] w show ?thesis by simp
qed

text \<open>With nothing active a deferrable transaction is given \<open>u64::MAX\<close> as its snapshot.\<close>

lemma idle_snapshot_is_maximum:
  "wait_for_safe_snapshot [snd (validate_and_commit 1 0 10 (begin_txn 1 new_ssi_manager))] = Some (- 1)"
  by (simp add: validate_and_commit_def begin_txn_def has_active_writers_def active_writer_count_def ssi_run_simps)

lemma set_hm_insert: "set (hm_insert k v m) \<subseteq> insert (k, v) (set m)"
  by (induction m) auto

text \<open>Commits that do not report the keys they wrote never make a phantom.\<close>

lemma no_reported_keys_no_phantom:
  assumes "\<forall>(t, c) \<in> set (committed_txns m). ct_write_keys c = []"
  shows "fst (validate_and_commit i read_ts commit_ts m) \<noteq> Err (SsiPhantom t)"
    "snd (validate_and_commit i read_ts commit_ts m) = m' \<Longrightarrow>
       \<forall>(t, c) \<in> set (committed_txns m'). ct_write_keys c = []"
proof -
  have sc: "fst (scan_committed i read_ts commit_ts cs rw st) = Ok ()"
    if "\<forall>(t, c) \<in> set cs. ct_write_keys c = []" for cs rw st
    using that
  proof (induction cs arbitrary: rw st)
    case (Cons d cs)
    then show ?case by (cases d) (simp add: Let_def)
  qed simp
  show "fst (validate_and_commit i read_ts commit_ts m) \<noteq> Err (SsiPhantom t)"
    using sc [OF assms]
    by (auto simp: validate_and_commit_def validate_and_commit_with_keys_def judge_def Let_def
        split: option.split result.split prod.split list.split) (metis fst_conv result.distinct)+
  show "snd (validate_and_commit i read_ts commit_ts m) = m' \<Longrightarrow>
       \<forall>(t, c) \<in> set (committed_txns m'). ct_write_keys c = []"
  proof (cases rule: validate_cases [of m i read_ts commit_ts "[]"])
    case (accepted rw rw' st)
    assume m': "snd (validate_and_commit i read_ts commit_ts m) = m'"
    have "\<exists>c. committed_txns m' = hm_insert commit_ts c (committed_txns m) \<and> ct_write_keys c = []"
      using accepted(6) m' by (auto simp: validate_and_commit_def install_commit_def Let_def update_safe_snapshot_def)
    with assms set_hm_insert show ?thesis by fastforce
  qed (use assms in \<open>auto simp: validate_and_commit_def\<close>)
qed

end
