(* ===== verification/Db_Checks.thy ===== *)
theory Db_Checks
  imports Db Ordered_Scan Ssi_Checks
begin

text \<open>
  What the database of \<open>Db\<close> answers, through the transaction engine, the lock manager and the
  storage engine together: one-shot puts and gets as a map, prefix scans, and what a failing
  commit and an old snapshot do.
\<close>

section \<open>Locks between one-shot operations\<close>

definition idle_locks :: "lock_table \<Rightarrow> bool" where
  "idle_locks tbl \<longleftrightarrow> range_locks tbl = [] \<and> (\<forall>e \<in> snd ` set (key_locks tbl). holders e = []) \<and>
     min (auto_escalate_threshold (lc_escalation (lt_config tbl)))
       (emergency_threshold (lc_escalation (lt_config tbl))) > 1"

lemma snd_update: "snd ` set (AList.update k v m) \<subseteq> insert v (snd ` set m)"
  using set_hm_insert [of k v m] by force

lemma release_idle:
  assumes "range_locks tbl = []" "\<forall>e \<in> snd ` set (key_locks tbl). holders e = [] \<or> holders e = [(t, m)]"
    "min (auto_escalate_threshold (lc_escalation (lt_config tbl)))
       (emergency_threshold (lc_escalation (lt_config tbl))) > 1"
  obtains tbl' where "release_all t tbl = Some tbl'" "idle_locks tbl'"
proof -
  let ?key_locks = "map (\<lambda>(k, e). (k, snd (release t e))) (key_locks tbl)"
  let ?tbl = "unregister_txn t (tbl\<lparr>key_locks := ?key_locks, range_locks := [],
      waiter_graph := remove_all_waits t (waiter_graph tbl)\<rparr>)"
  have "holders e' = []" if "e' \<in> snd ` set ?key_locks" for e'
  proof -
    obtain e where e: "e \<in> snd ` set (key_locks tbl)" "e' = snd (release t e)"
      using \<open>e' \<in> snd ` set ?key_locks\<close> by force
    with assms(2) show ?thesis by (auto simp: release_def AList.delete_eq)
  qed
  then have "idle_locks ?tbl" using assms(3) by (simp add: idle_locks_def unregister_txn_def)
  moreover have "release_all t tbl = Some ?tbl"
    using assms(1) by (simp add: release_all_def remove_by_txn_def rebuild_def)
  ultimately show thesis by (intro that)
qed

lemma register_idle: "idle_locks (manager_register_txn t start tbl) = idle_locks tbl"
  by (simp add: manager_register_txn_def register_txn_def idle_locks_def)

lemma lock_idle:
  assumes "idle_locks tbl" "hm_get (escalations tbl) t = Some new_escalation_state"
  obtains tbl' where "manager_lock_key t k X timeout sched tbl =
      Some (Ok \<lparr>guard_txn_id = t, guard_key = k, guard_mode = X\<rparr>, tbl')"
    "range_locks tbl' = []" "\<forall>e \<in> snd ` set (key_locks tbl'). holders e = [] \<or> holders e = [(t, X)]"
    "lt_config tbl' = lt_config tbl"
proof -
  let ?e = "entry_or_insert k tbl"
  have idle: "range_locks tbl = []" "\<And>e. e \<in> snd ` set (key_locks tbl) \<Longrightarrow> holders e = []"
    "min (auto_escalate_threshold (lc_escalation (lt_config tbl)))
       (emergency_threshold (lc_escalation (lt_config tbl))) > 1"
    using assms(1) by (auto simp: idle_locks_def)
  have "holders ?e = []"
    using idle(2) map_of_SomeD [of "key_locks tbl" k]
    by (force simp: entry_or_insert_def new_entry_def split: option.split)
  then have acq: "try_acquire t X ?e = (True, ?e\<lparr>holders := [(t, X)]\<rparr>)"
    by (simp add: try_acquire_def is_compatible_with_holders_def)
  let ?st = "record_key_lock k new_escalation_state"
  let ?action = "check_escalation (get_lock_count ?st) (lc_escalation (lt_config tbl))"
  have action: "?action \<in> {NoAction, Warn}"
    using idle(3) by (auto simp: check_escalation_def get_lock_count_def record_key_lock_def new_escalation_state_def)
  then obtain st2 where st2: "handle_escalation_action ?action ?st = (False, st2)"
    by (auto simp: handle_escalation_action_def)
  let ?tbl1 = "tbl\<lparr>key_locks := hm_insert k (?e\<lparr>holders := [(t, X)]\<rparr>) (key_locks tbl)\<rparr>"
  let ?tbl' = "?tbl1\<lparr>escalations := hm_insert t st2 (escalations tbl),
      waiter_graph := increment_lock_count t (waiter_graph tbl)\<rparr>"
  have "record_lock_acquired t k ?tbl1 = Some ?tbl'"
    using assms(2) st2 by (simp add: record_lock_acquired_def Let_def)
  then have "lock_key t k X s tbl = Some (Ok (), ?tbl')" for s
    using acq idle(1)
    by (simp add: lock_key_def check_range_locks_def find_containing_key_def find_overlapping_def take_key_lock_def)
  moreover have "\<forall>e \<in> snd ` set (key_locks ?tbl'). holders e = [] \<or> holders e = [(t, X)]"
    using snd_update [of k "?e\<lparr>holders := [(t, X)]\<rparr>" "key_locks tbl"] idle(2) by fastforce
  ultimately show thesis
    using idle(1) by (intro that [of ?tbl']) (simp_all add: manager_lock_key_def)
qed

section \<open>One-shot writes\<close>

text \<open>No lock is held, and the oracle is within its range.\<close>

definition quiet :: "mvcc_engine \<Rightarrow> bool" where
  "quiet e \<longleftrightarrow> idle_locks (me_locks e) \<and> unat (last_physical (me_oracle e)) < 2 ^ 46"

lemma get_timestamp_bound:
  "unat (last_physical o1) < 2 ^ 46 \<Longrightarrow> unat c < 2 ^ 46 \<Longrightarrow>
   unat (last_physical (snd (get_timestamp c o1))) < 2 ^ 46"
  by (simp add: get_timestamp_def Let_def)

text \<open>What begin does to locks, oracle and storage, for a snapshot transaction.\<close>

lemma begin_snapshot:
  assumes "begin_txn_snapshot c e = (txn, e1)"
  shows "txn = new_transaction (me_next_txn_id e) (fst (get_timestamp c (me_oracle e))) Snapshot"
    "me_storage e1 = me_storage e" "me_locks e1 = manager_register_txn (txn_ident txn) (txn_start_ts txn) (me_locks e)"
    "me_oracle e1 = snd (get_timestamp c (me_oracle e))" "me_lock_timeout e1 = me_lock_timeout e"
    "me_ssi e1 = me_ssi e"
  using assms by (auto simp: begin_txn_snapshot_def begin_with_isolation_def is_deferrable_def
      is_serializable_def tm_begin_def new_transaction_def Let_def case_prod_unfold)

lemma commit_snapshot:
  assumes txn: "txn_isolation txn = Snapshot" "is_active txn"
    and st: "store_writes (te_lsm env) (txn_write_set txn) (me_storage e) = (Ok (), st)"
    and rel: "release_all (txn_ident txn) (me_locks e) = Some tbl"
  obtains txn' e' where "engine_commit env c txn e = Some (Ok (), txn', e')" "me_storage e' = st"
    "me_locks e' = tbl" "me_oracle e' = snd (get_timestamp c (me_oracle e))"
proof -
  obtain t o1 where t: "get_timestamp c (me_oracle e) = (t, o1)" by fastforce
  show thesis
    by (rule that) (use txn st rel t in \<open>auto simp: engine_commit_def commit_writes_def prepare_commit_def
      iso_is_read_only_def tm_commit_def is_active_def finish_locks_def Let_def\<close>)
qed

lemma registered [simp]:
  "hm_get (escalations (manager_register_txn t start tbl)) t = Some new_escalation_state"
  "lt_config (manager_register_txn t start tbl) = lt_config tbl"
  by (simp_all add: manager_register_txn_def register_txn_def)

text \<open>A one-shot put is a put of the storage engine.\<close>

lemma db_put_ok:
  assumes quiet: "quiet e" and c: "unat c1 < 2 ^ 46" "unat c2 < 2 ^ 46"
    and st: "lsm_put (te_lsm env) k v (me_storage e) = (Ok (), st)"
  obtains e' where "db_put env c1 c2 sched k v e = Some (Ok (), e')" "quiet e'" "me_storage e' = st"
proof -
  obtain txn e1 where b: "begin_txn_snapshot c1 e = (txn, e1)" by fastforce
  note begin_facts = begin_snapshot [OF b]
  let ?t = "txn_ident txn"
  have idle: "idle_locks (me_locks e1)" "hm_get (escalations (me_locks e1)) ?t = Some new_escalation_state"
    using quiet by (simp_all add: begin_facts(3) quiet_def register_idle)
  obtain tbl where tbl: "manager_lock_key ?t k X (Some (me_lock_timeout e1)) sched (me_locks e1) =
      Some (Ok \<lparr>guard_txn_id = ?t, guard_key = k, guard_mode = X\<rparr>, tbl)"
    "range_locks tbl = []" "\<forall>e \<in> snd ` set (key_locks tbl). holders e = [] \<or> holders e = [(?t, X)]"
    "lt_config tbl = lt_config (me_locks e1)"
    using lock_idle [OF idle, of k "Some (me_lock_timeout e1)" sched] by metis
  let ?txn = "txn\<lparr>txn_write_set := ws_put k v (txn_write_set txn)\<rparr>" and ?e1 = "e1\<lparr>me_locks := tbl\<rparr>"
  have put: "engine_put env sched k v txn e1 = Some (Ok (), ?txn, ?e1)"
    using tbl(1) begin_facts(1)
    by (simp add: engine_put_def lock_for_write_def iso_is_read_only_def new_transaction_def)
  obtain tbl' where tbl': "release_all ?t tbl = Some tbl'" "idle_locks tbl'"
    using release_idle [OF tbl(2,3)] idle(1) tbl(4) by (metis idle_locks_def)
  have "store_writes (te_lsm env) (txn_write_set ?txn) (me_storage ?e1) = (Ok (), st)"
    using st by (simp add: begin_facts(1,2) new_transaction_def new_write_set_def ws_put_def store_writes_def
        delete_all_def hs_remove_def)
  from commit_snapshot [OF _ _ this, of tbl' c2] tbl'(1)
  obtain txn' e' where e': "engine_commit env c2 ?txn ?e1 = Some (Ok (), txn', e')" "me_storage e' = st"
    "me_locks e' = tbl'" "me_oracle e' = snd (get_timestamp c2 (me_oracle ?e1))"
    by (auto simp: begin_facts(1) new_transaction_def is_active_def)
  have "quiet e'"
    using e'(3,4) tbl'(2) quiet get_timestamp_bound c by (simp add: quiet_def begin_facts(4))
  moreover have "db_put env c1 c2 sched k v e = Some (Ok (), e')"
    using b put e'(1) by (simp add: db_put_def one_write_def)
  ultimately show thesis using e'(2) that by blast
qed

section \<open>One-shot reads\<close>

text \<open>A read at a timestamp above every version of the memtable, and what it leaves.\<close>

lemma lsm_get_at_ts_view:
  assumes "lsm_ok env s" "lsm_next_ts s \<le> t"
  obtains c where "lsm_get_at_ts env k t s = (Ok (view env s k), s\<lparr>lsm_cache := c\<rparr>)"
    "lsm_ok env (s\<lparr>lsm_cache := c\<rparr>)"
proof -
  note ok = lsm_okD [OF assms(1)]
  have "mt_get_at_ts (lsm_memtable s) k t = memtable_view (lsm_memtable s) k"
    using assms(2) by (intro memtable_newest [OF ok(1)]) (auto dest!: ok(5))
  moreover obtain r c where rc: "search_tables env (tables_in_order s) k (lsm_cache s) = (r, c)" by fastforce
  moreover have "r = Ok (tables_view env (tables_in_order s) k)" "tables_valid (le_blocks env) (tables_in_order s) c"
    using ts.search_each_ok [OF ok(3) order_refl, of k] rc by (simp_all add: search_tables_def tables_view_def)
  moreover have "tables_in_order (s\<lparr>lsm_cache := c\<rparr>) = tables_in_order s"
    by (rule tables_in_order_cong) simp
  ultimately show thesis
  proof (cases "memtable_view (lsm_memtable s) k")
    case None
    have "lsm_get_at_ts env k t s = (Ok (view env s k), s\<lparr>lsm_cache := c\<rparr>)"
      using None ok(2) \<open>mt_get_at_ts _ k t = _\<close> rc \<open>r = _\<close> by (simp add: lsm_get_at_ts_def view_def)
    moreover have "lsm_ok env (s\<lparr>lsm_cache := c\<rparr>)"
      using assms(1) \<open>tables_valid (le_blocks env) (tables_in_order s) c\<close>
        \<open>tables_in_order (s\<lparr>lsm_cache := c\<rparr>) = _\<close> by (simp add: lsm_ok_def)
    ultimately show thesis by (rule that)
  next
    case (Some v)
    have "lsm_get_at_ts env k t s = (Ok (view env s k), s\<lparr>lsm_cache := lsm_cache s\<rparr>)"
      using Some \<open>mt_get_at_ts _ k t = _\<close> by (simp add: lsm_get_at_ts_def view_def)
    with assms(1) show thesis by (intro that [of "lsm_cache s"]) simp_all
  qed
qed

lemma oracle_above:
  assumes "unat (last_physical o1) < 2 ^ 46" "unat c < 2 ^ 46" "2 ^ 12 \<le> unat c"
  shows "2 ^ 30 \<le> unat (fst (get_timestamp c o1))"
proof -
  have big: "2 ^ 30 \<le> unat (push_bit 18 p)" if "unat p < 2 ^ 46" "2 ^ 12 \<le> unat p" for p :: u64
    using unat_push_18 [OF that(1)] that(2) by simp
  have or: "unat a \<le> unat (a OR b)" for a b :: u64
  proof -
    have "a \<le> a OR b" unfolding word_le_def by (simp add: unsigned_or_eq or_greater_eq)
    then show ?thesis by (simp add: word_le_nat_alt)
  qed
  show ?thesis
  proof (cases "c > last_physical o1")
    case True
    with big [OF assms(2,3)] show ?thesis by (simp add: get_timestamp_def)
  next
    case False
    then have "unat c \<le> unat (last_physical o1)" by (simp add: word_le_nat_alt not_less)
    with big [OF assms(1)] assms(3) have "2 ^ 30 \<le> unat (push_bit 18 (last_physical o1))" by linarith
    also have "\<dots> \<le> unat (fst (get_timestamp c o1))"
      using False or by (simp add: get_timestamp_def Let_def)
    finally show ?thesis .
  qed
qed

lemma db_get_ok:
  assumes quiet: "quiet e" and c: "unat c1 < 2 ^ 46" "2 ^ 12 \<le> unat c1" "unat c2 < 2 ^ 46"
    and st: "lsm_ok (te_lsm env) (me_storage e)" "unat (lsm_next_ts (me_storage e)) \<le> 2 ^ 30"
  obtains e' where "db_get env c1 c2 k e = Some (Ok (view (te_lsm env) (me_storage e) k), e')" "quiet e'"
    "lsm_ok (te_lsm env) (me_storage e')"
proof -
  obtain txn e1 where b: "begin_txn_snapshot c1 e = (txn, e1)" by fastforce
  note begin_facts = begin_snapshot [OF b]
  let ?t = "txn_ident txn"
  have start: "txn_start_ts txn = fst (get_timestamp c1 (me_oracle e))" by (simp add: begin_facts(1) new_transaction_def)
  have "2 ^ 30 \<le> unat (txn_start_ts txn)"
    unfolding start using quiet c by (intro oracle_above) (simp_all add: quiet_def)
  with st(2) have above: "lsm_next_ts (me_storage e1) \<le> txn_start_ts txn"
    by (simp add: begin_facts(2) word_le_nat_alt)
  have st1: "lsm_ok (te_lsm env) (me_storage e1)" using st(1) by (simp add: begin_facts(2))
  obtain cache where g: "lsm_get_at_ts (te_lsm env) k (txn_start_ts txn) (me_storage e1) =
      (Ok (view (te_lsm env) (me_storage e1) k), me_storage e1\<lparr>lsm_cache := cache\<rparr>)"
    "lsm_ok (te_lsm env) (me_storage e1\<lparr>lsm_cache := cache\<rparr>)"
    using lsm_get_at_ts_view [OF st1 above] by blast
  let ?e2 = "e1\<lparr>me_ssi := me_ssi e1, me_storage := me_storage e1\<lparr>lsm_cache := cache\<rparr>\<rparr>"
  have get: "engine_get env k txn e1 = (Ok (view (te_lsm env) (me_storage e) k), txn, ?e2)"
    using g(1) begin_facts(2)
    by (simp add: engine_get_def begin_facts(1) new_transaction_def txn_record_read_def is_serializable_def)
  have idle: "idle_locks (me_locks ?e2)"
    using quiet by (simp add: begin_facts(3) quiet_def register_idle)
  obtain tbl' where tbl': "release_all ?t (me_locks ?e2) = Some tbl'" "idle_locks tbl'"
    using release_idle [of "me_locks ?e2" ?t X] idle by (auto simp: idle_locks_def)
  have "store_writes (te_lsm env) (txn_write_set txn) (me_storage ?e2) = (Ok (), me_storage ?e2)"
    by (simp add: begin_facts(1) new_transaction_def new_write_set_def store_writes_def delete_all_def)
  from commit_snapshot [OF _ _ this, of tbl' c2] tbl'(1)
  obtain txn' e' where e': "engine_commit env c2 txn ?e2 = Some (Ok (), txn', e')" "me_storage e' = me_storage ?e2"
    "me_locks e' = tbl'" "me_oracle e' = snd (get_timestamp c2 (me_oracle ?e2))"
    by (auto simp: begin_facts(1) new_transaction_def is_active_def)
  have "quiet e'"
    using e'(3,4) tbl'(2) quiet get_timestamp_bound c by (simp add: quiet_def begin_facts(4))
  moreover have "db_get env c1 c2 k e = Some (Ok (view (te_lsm env) (me_storage e) k), e')"
    using b get e'(1) by (simp add: db_get_def)
  ultimately show thesis using e'(2) g(2) that by auto
qed

section \<open>Runs of one-shot puts\<close>

record put_call =
  pc_clock1 :: u64
  pc_clock2 :: u64
  pc_schedule :: "u64 \<Rightarrow> schedule"
  pc_pair :: "bytes \<times> bytes"

definition clocks_ok :: "put_call \<Rightarrow> bool" where
  "clocks_ok p \<longleftrightarrow> unat (pc_clock1 p) < 2 ^ 46 \<and> unat (pc_clock2 p) < 2 ^ 46"

fun run_db_puts :: "txn_env \<Rightarrow> put_call list \<Rightarrow> mvcc_engine \<Rightarrow> ((error, unit) result \<times> mvcc_engine) option" where
  "run_db_puts env [] e = Some (Ok (), e)"
| "run_db_puts env (p # ps) e =
     (case db_put env (pc_clock1 p) (pc_clock2 p) (pc_schedule p) (fst (pc_pair p)) (snd (pc_pair p)) e of
        Some (Ok _, e') \<Rightarrow> run_db_puts env ps e'
      | r \<Rightarrow> r)"

lemma run_db_puts_storage:
  assumes "run_puts (te_lsm env) (map pc_pair ps) (me_storage e) = (Ok (), st)" "quiet e" "list_all clocks_ok ps"
  obtains e' where "run_db_puts env ps e = Some (Ok (), e')" "me_storage e' = st" "quiet e'"
proof -
  have "\<exists>e'. run_db_puts env ps e = Some (Ok (), e') \<and> me_storage e' = st \<and> quiet e'"
    using assms
  proof (induction ps arbitrary: e)
    case (Cons p ps)
    obtain k v where kv: "pc_pair p = (k, v)" by fastforce
    obtain s1 where s1: "lsm_put (te_lsm env) k v (me_storage e) = (Ok (), s1)"
      "run_puts (te_lsm env) (map pc_pair ps) s1 = (Ok (), st)"
      using Cons.prems(1) kv by (auto split: prod.splits result.splits)
    have "unat (pc_clock1 p) < 2 ^ 46" "unat (pc_clock2 p) < 2 ^ 46"
      using Cons.prems(3) by (simp_all add: clocks_ok_def)
    from db_put_ok [OF Cons.prems(2) this s1(1)] obtain e1 where
      "db_put env (pc_clock1 p) (pc_clock2 p) (pc_schedule p) k v e = Some (Ok (), e1)" "quiet e1" "me_storage e1 = s1"
      by blast
    with Cons.IH [of e1] s1(2) Cons.prems(3) kv show ?case by simp
  qed simp
  then show thesis using that by blast
qed

lemma open_empty_db:
  "open_with_options env empty_disk options = Ok (new_engine (fresh_lsm (lsm_options_of options)))"
  by (simp add: open_with_options_def lsm_open_empty)

lemma quiet_new: "quiet (new_engine st)"
  by (simp add: quiet_def new_engine_def with_lock_config_def idle_locks_def new_table_def empty_tree_def
      new_oracle_def default_lock_config_def default_escalation_config_def)

lemma rotate_next_ts: "lsm_next_ts (snd (rotate_if_full env s)) = lsm_next_ts s"
  by (simp add: rotate_if_full_def rotate_memtable_def flush_immutable_def Let_def case_prod_unfold
      split: result.split)

lemma run_puts_next_ts:
  "run_puts env kvs s = (Ok (), s') \<Longrightarrow> lsm_next_ts s' = lsm_next_ts s + of_nat (length kvs)"
proof (induction kvs arbitrary: s)
  case (Cons kv kvs)
  obtain k v where kv: "kv = (k, v)" by fastforce
  obtain s1 where s1: "lsm_put env k v s = (Ok (), s1)" "run_puts env kvs s1 = (Ok (), s')"
    using Cons.prems kv by (auto split: prod.splits result.splits)
  have "lsm_next_ts s1 = lsm_next_ts s + 1"
    using rotate_next_ts [of env "written env (put_at k v s) s"] s1(1) by (simp add: lsm_put_written)
  with Cons.IH [OF s1(2)] show ?case by simp
qed simp

lemma run_puts_ts_bound:
  assumes "run_puts env kvs (fresh_lsm opts) = (Ok (), s)" "length kvs < 2 ^ 29"
  shows "unat (lsm_next_ts s) \<le> 2 ^ 30"
proof -
  have "lsm_next_ts s = of_nat (Suc (length kvs))"
    using run_puts_next_ts [OF assms(1)] by (simp add: fresh_lsm_def)
  then have "unat (lsm_next_ts s) \<le> Suc (length kvs)"
    by (simp only: unsigned_of_nat of_nat_id take_bit_nat_less_eq_self)
  with assms(2) show ?thesis by simp
qed

section \<open>Prefixes\<close>

lemma byte_bound: "unat (b :: byte) \<le> 255"
  using unsigned_less [of b, where 'a = nat] by simp

lemma max_byte: "\<not> (b :: byte) < 0xff \<Longrightarrow> b = 0xff"
  using byte_bound [of b] by (simp add: word_less_nat_alt word_unat_eq_iff)

lemma byte_next: "(b :: byte) < 0xff \<Longrightarrow> c < b + 1 \<longleftrightarrow> c \<le> b"
proof -
  assume "b < 0xff"
  then have "unat (b + 1) = unat b + 1"
    using byte_bound [of b] by (simp add: word_less_nat_alt unat_word_ariths)
  then show ?thesis by (auto simp: word_less_nat_alt word_le_nat_alt)
qed

text \<open>Above a string of greatest bytes are only its extensions.\<close>

lemma above_max_bytes: "list_all (\<lambda>b. b = (0xff :: byte)) q \<Longrightarrow> q \<le> k \<longleftrightarrow> (\<exists>r. k = q @ r)"
proof (induction q arbitrary: k)
  case (Cons b q)
  then have b: "b = 0xff" and IH: "\<And>k. q \<le> k \<longleftrightarrow> (\<exists>r. k = q @ r)" by simp_all
  show ?case
  proof (cases k)
    case (Cons c k')
    have "\<not> (0xff :: byte) < c" using byte_bound [of c] by (simp add: word_less_nat_alt)
    with Cons b IH [of k'] show ?thesis by auto
  qed simp
qed simp

lemma between_increment:
  "(b :: byte) < 0xff \<Longrightarrow> a @ b # q \<le> k \<and> k < a @ [b + 1] \<longleftrightarrow> (\<exists>k'. k = a @ b # k' \<and> q \<le> k')"
proof (induction a arbitrary: k)
  case Nil
  show ?case
  proof (cases k)
    case (Cons c k')
    with byte_next [OF Nil, of c] show ?thesis by auto
  qed simp
next
  case (Cons x a)
  then show ?case by (cases k) auto
qed

lemma prefix_end_from_exact:
  "i \<le> length p \<Longrightarrow> list_all (\<lambda>b. b = 0xff) (drop i p) \<Longrightarrow>
   p \<le> k \<and> below_end (prefix_end_from i p) k \<longleftrightarrow> (\<exists>r. k = p @ r)"
proof (induction i)
  case 0
  then show ?case using above_max_bytes [of p k] by simp
next
  case (Suc i)
  then have i: "i < length p" by simp
  have p: "p = take i p @ p ! i # drop (Suc i) p" using id_take_nth_drop [OF i] .
  show ?case
  proof (cases "p ! i < 0xff")
    case True
    have "take (Suc i) (p[i := p ! i + 1]) = take i p @ [p ! i + 1]"
      using i by (simp add: take_Suc_conv_app_nth)
    then have "p \<le> k \<and> below_end (prefix_end_from (Suc i) p) k \<longleftrightarrow>
        take i p @ p ! i # drop (Suc i) p \<le> k \<and> k < take i p @ [p ! i + 1]"
      using True p by simp
    also have "\<dots> \<longleftrightarrow> (\<exists>r. k = take i p @ p ! i # drop (Suc i) p @ r)"
      unfolding between_increment [OF True] using above_max_bytes [OF Suc.prems(2)] by auto
    also have "\<dots> \<longleftrightarrow> (\<exists>r. k = p @ r)" using p by (metis append.assoc append_Cons)
    finally show ?thesis .
  next
    case False
    then have "list_all (\<lambda>b. b = 0xff) (drop i p)"
      using Suc.prems(2) max_byte by (subst Cons_nth_drop_Suc [OF i, symmetric]) simp
    with Suc.IH i False show ?thesis by simp
  qed
qed

section \<open>The client's loop\<close>

text \<open>A loop over the iterator ends before the first entry without a value.\<close>

context storage_iterator
begin

lemma db_collect_rest:
  "ok i \<Longrightarrow> length (rest i) < n \<Longrightarrow> db_collect ops n i =
     Some (Ok (map (\<lambda>e. (key_data (fst e), the (snd e))) (takeWhile (\<lambda>e. snd e \<noteq> None) (rest i))))"
proof (induction n arbitrary: i)
  case (Suc n)
  show ?case
  proof (cases "rest i")
    case Nil
    with Suc.prems show ?thesis
      by (simp add: db_iter_next_def lsm_iter_is_valid_def valid_iff)
  next
    case (Cons e r)
    then obtain i' where "it_next ops i = Some (i', Ok ())" "ok i'" "rest i' = r"
      using next_ok [OF Suc.prems(1)] by auto
    with Suc Cons show ?thesis
      by (cases "snd e") (simp_all add: db_iter_next_def lsm_iter_key_def lsm_iter_value_def
          lsm_iter_advance_def lsm_iter_is_valid_def valid_iff key_hd value_hd)
  qed
qed simp

end

section \<open>Properties\<close>

text \<open>
  C6: the database is a map. From an empty directory, any one-shot puts, with any clock
  readings and schedules, that do not put a key twice between two flushes all succeed, and a
  one-shot get of any key afterwards succeeds and answers the value put last under that key,
  or nothing; the locks of every operation are released when it returns. The clock of the get
  is at least four seconds past 1970, so that its timestamp is above those of the storage.
\<close>

theorem db_refines_map:
  assumes "env_ok (te_lsm env)" "length ps < 2 ^ 29" "list_all pair_ok (map pc_pair ps)" "list_all clocks_ok ps"
    "open_with_options env empty_disk options = Ok e0"
    "puts_spaced (te_lsm env) (map pc_pair ps) (me_storage e0)"
    "unat c1 < 2 ^ 46" "2 ^ 12 \<le> unat c1" "unat c2 < 2 ^ 46"
  shows "\<exists>e e'. run_db_puts env ps e0 = Some (Ok (), e) \<and> idle_locks (me_locks e) \<and>
    db_get env c1 c2 k e = Some (Ok (map_of (rev (map pc_pair ps)) k), e') \<and> idle_locks (me_locks e')"
proof -
  let ?opts = "lsm_options_of options" and ?kvs = "map pc_pair ps"
  have e0: "e0 = new_engine (fresh_lsm ?opts)" using assms(5) by (simp add: open_empty_db)
  then have st0: "me_storage e0 = fresh_lsm ?opts" by (simp add: new_engine_def with_lock_config_def)
  obtain st where st: "run_puts (te_lsm env) ?kvs (fresh_lsm ?opts) = (Ok (), st)" "lsm_ok (te_lsm env) st"
    "\<And>k. view (te_lsm env) st k = (case map_of (rev ?kvs) k of Some v \<Rightarrow> Some v
       | None \<Rightarrow> view (te_lsm env) (fresh_lsm ?opts) k)"
    using run_puts_ok [OF assms(1) fresh_inv [of "length ?kvs"] _ assms(3), of ?opts] assms(2,6) st0 by auto
  have v: "view (te_lsm env) st k = map_of (rev ?kvs) k"
    using st(3) by (simp add: fresh_view split: option.split)
  obtain e where e: "run_db_puts env ps e0 = Some (Ok (), e)" "me_storage e = st" "quiet e"
    using run_db_puts_storage [of env ps e0 st] st(1) st0 e0 quiet_new assms(4) by metis
  have "unat (lsm_next_ts (me_storage e)) \<le> 2 ^ 30"
    using run_puts_ts_bound [OF st(1)] assms(2) e(2) by simp
  from db_get_ok [where k = k, OF e(3) assms(7-9) _ this] e(2) st(2)
  obtain e' where "db_get env c1 c2 k e = Some (Ok (view (te_lsm env) st k), e')" "quiet e'" by auto
  with e v show ?thesis by (auto simp: quiet_def)
qed

definition stored_txn_env :: txn_env where
  "stored_txn_env = \<lparr>te_lsm = stored_lsm_env, te_hash = length_hash\<rparr>"

lemma stored_txn_env_lsm [simp]: "te_lsm stored_txn_env = stored_lsm_env"
  by (simp add: stored_txn_env_def)

definition put_at_clock :: "bytes \<Rightarrow> bytes \<Rightarrow> put_call" where
  "put_at_clock k v = \<lparr>pc_clock1 = 5000, pc_clock2 = 5000, pc_schedule = (\<lambda>_. []), pc_pair = (k, v)\<rparr>"

lemma put_at_clock_simps [simp]:
  "clocks_ok (put_at_clock k v)" "pc_pair (put_at_clock k v) = (k, v)"
  by (simp_all add: clocks_ok_def put_at_clock_def)

lemma db_refines_map_witness:
  "\<exists>e e'. run_db_puts stored_txn_env [put_at_clock [1] [7], put_at_clock [2] [8]]
       (new_engine (fresh_lsm default_lsm_options)) = Some (Ok (), e) \<and>
     db_get stored_txn_env 5000 5000 [1] e = Some (Ok (Some [7]), e')"
proof -
  have opts: "lsm_options_of default_db_options = default_lsm_options"
    by (simp add: lsm_options_of_def default_db_options_def default_lsm_options_def)
  have spaced: "puts_spaced (te_lsm stored_txn_env) (map pc_pair [put_at_clock [1] [7], put_at_clock [2] [8]])
      (me_storage (new_engine (fresh_lsm default_lsm_options)))"
    by (simp add: new_engine_def with_lock_config_def lsm_put_written fresh_lsm_def mt_keys_def skip_ok_new
        rotate_if_full_def apply_record_def put_at_def mt_put_def default_lsm_options_def written_def new_memtable_def)
  from db_refines_map [where k = "[1]" and ?c1.0 = 5000 and ?c2.0 = 5000, OF _ _ _ _
      open_empty_db [of stored_txn_env default_db_options, unfolded opts] spaced] env_ok_stored
  show ?thesis by (simp add: pair_ok_def) blast
qed

text \<open>
  C9: a prefix scan. After one-shot puts of different keys into an empty directory, a prefix
  scan opens for every prefix, also one that ends in bytes 0xFF, and a loop over its iterator
  ends without an error and has seen exactly the pairs whose key has the prefix, in
  ascending order of the keys.
\<close>

theorem prefix_scan_exact:
  assumes "env_ok (te_lsm env)" "length ps < 2 ^ 29" "list_all pair_ok (map pc_pair ps)" "list_all clocks_ok ps"
    "distinct (map (fst \<circ> pc_pair) ps)" "open_with_options env empty_disk options = Ok e0" "length ps < n"
  shows "\<exists>e it. run_db_puts env ps e0 = Some (Ok (), e) \<and> db_prefix_scan env pre e = Some (Ok it) \<and>
    db_collect (inner_ops (te_lsm env)) n it =
      Some (Ok (filter (\<lambda>(k, v). \<exists>r. k = pre @ r) (sort_key fst (map pc_pair ps))))"
proof -
  let ?opts = "lsm_options_of options" and ?kvs = "map pc_pair ps"
  have e0: "e0 = new_engine (fresh_lsm ?opts)" using assms(6) by (simp add: open_empty_db)
  then have st0: "me_storage e0 = fresh_lsm ?opts" by (simp add: new_engine_def with_lock_config_def)
  have dist: "distinct (map fst ?kvs)" "length ?kvs < 2 ^ 29" using assms(2,5) by simp_all
  obtain st where st: "run_puts (te_lsm env) ?kvs (fresh_lsm ?opts) = (Ok (), st)"
    using run_puts_ready [OF assms(1) dist(2) assms(3) dist(1)] by blast
  obtain e where e: "run_db_puts env ps e0 = Some (Ok (), e)" "me_storage e = st"
    using run_db_puts_storage [of env ps e0 st] st st0 e0 quiet_new assms(4) by metis
  obtain it where it: "build_scan_iterator (te_lsm env) (Included pre) (prefix_end_bound pre) st = Some (Ok it)"
    "inner_inv (te_lsm env) it" "data_entries (inner_rest (te_lsm env) it) =
       pairs_between (Included pre) (prefix_end_bound pre) ?kvs"
    "length (inner_rest (te_lsm env) it) \<le> length ?kvs"
    using scan_after_puts [OF assms(1) dist(2) assms(3) dist(1) st] by blast
  let ?r = "inner_rest (te_lsm env) it"
  have "map (\<lambda>e. (key_data (fst e), the (snd e))) (takeWhile (\<lambda>e. snd e \<noteq> None) ?r) =
      map (\<lambda>(k, v). (k, the v)) (takeWhile (\<lambda>(k, v). v \<noteq> None) (data_entries ?r))"
    by (simp add: data_entries_def takeWhile_map comp_def case_prod_unfold)
  also have "\<dots> = filter (\<lambda>(k, v). in_bounds (Included pre) (prefix_end_bound pre) k) (sort_key fst ?kvs)"
  proof -
    have "map (\<lambda>p. (fst p, the (snd p))) (takeWhile (\<lambda>p. \<exists>y. snd p = Some y)
        (map (\<lambda>p. (fst p, Some (snd p))) kvs)) = kvs" for kvs :: "(bytes \<times> bytes) list"
      by (induction kvs) auto
    then show ?thesis unfolding it(3) pairs_between_def by (simp add: comp_def case_prod_unfold)
  qed
  also have "\<dots> = filter (\<lambda>(k, v). \<exists>r. k = pre @ r) (sort_key fst ?kvs)"
    using prefix_end_from_exact [of "length pre" pre] by (simp add: in_bounds_def prefix_end_bound_def)
  finally have "db_collect (inner_ops (te_lsm env)) n it =
      Some (Ok (filter (\<lambda>(k, v). \<exists>r. k = pre @ r) (sort_key fst ?kvs)))"
    using inner.db_collect_rest [OF it(2), of n] it(4) assms(7) by simp
  with e it(1) show ?thesis
    by (auto simp: db_prefix_scan_def engine_scan_range_def lsm_scan_range_def)
qed

lemma prefix_scan_exact_witness:
  "\<exists>e it. run_db_puts stored_txn_env [put_at_clock [1, 0xFF, 3] [7], put_at_clock [2] [8]]
       (new_engine (fresh_lsm default_lsm_options)) = Some (Ok (), e) \<and>
     db_prefix_scan stored_txn_env [1, 0xFF] e = Some (Ok it) \<and>
     db_collect (inner_ops stored_lsm_env) 3 it = Some (Ok [([1, 0xFF, 3], [7])])"
proof -
  have opts: "lsm_options_of default_db_options = default_lsm_options"
    by (simp add: lsm_options_of_def default_db_options_def default_lsm_options_def)
  from prefix_scan_exact [OF _ _ _ _ _ open_empty_db [of stored_txn_env default_db_options, unfolded opts],
      of "[put_at_clock [1, 0xFF, 3] [7], put_at_clock [2] [8]]" 3 "[1, 0xFF]"] env_ok_stored
  show ?thesis by (simp add: pair_ok_def)
qed

text \<open>
  C23: an open snapshot transaction sees commits made after it began. Its read timestamp is a
  number of milliseconds since 1970 shifted by 18 bits, far above the storage engine's own
  counter, which numbers the versions. From an empty directory: begin a transaction, see no
  value under a key, let another operation put one, and the same transaction reads it.
\<close>

theorem snapshot_sees_later_commit:
  assumes "env_ok (te_lsm env)" "pair_ok (k, v)" "open_with_options env empty_disk options = Ok e0"
    "unat c0 < 2 ^ 46" "2 ^ 12 \<le> unat c0" "unat c1 < 2 ^ 46" "unat c2 < 2 ^ 46"
    "begin_txn_snapshot c0 e0 = (txn, e1)"
  shows "\<exists>e2. fst (engine_get env k txn e1) = Ok None \<and>
    db_put env c1 c2 sched k v e1 = Some (Ok (), e2) \<and> fst (engine_get env k txn e2) = Ok (Some v)"
proof -
  let ?opts = "lsm_options_of options"
  have e0: "e0 = new_engine (fresh_lsm ?opts)" using assms(3) by (simp add: open_empty_db)
  note b = begin_snapshot [OF assms(8)]
  have st1: "me_storage e1 = fresh_lsm ?opts" by (simp add: b(2) e0 new_engine_def with_lock_config_def)
  have quiet0: "quiet e0" by (simp add: e0 quiet_new)
  then have quiet1: "quiet e1"
    using get_timestamp_bound assms(4) by (simp add: quiet_def b(3,4) register_idle)
  have start: "2 ^ 30 \<le> unat (txn_start_ts txn)"
    unfolding b(1) new_transaction_def transaction.simps
    using quiet0 assms(4,5) by (intro oracle_above) (simp_all add: quiet_def)
  have inv: "puts_inv (te_lsm env) (Suc 0) (me_storage e1)" unfolding st1 by (rule fresh_inv) simp
  have "k \<notin> mt_keys (lsm_memtable (me_storage e1))" by (simp add: st1 fresh_lsm_def mt_keys_def skip_ok_new)
  from lsm_put_ok [OF assms(1) inv this assms(2)] obtain st where st: "lsm_put (te_lsm env) k v (me_storage e1) = (Ok (), st)"
    "puts_inv (te_lsm env) 0 st" "\<And>k'. view (te_lsm env) st k' = (if k' = k then Some v else view (te_lsm env) (me_storage e1) k')"
    by blast
  obtain e2 where e2: "db_put env c1 c2 sched k v e1 = Some (Ok (), e2)" "me_storage e2 = st"
    using db_put_ok [OF quiet1 assms(6,7) st(1)] by blast
  have get: "fst (engine_get env k txn e) = Ok (view (te_lsm env) (me_storage e) k)"
    if "lsm_ok (te_lsm env) (me_storage e)" "unat (lsm_next_ts (me_storage e)) \<le> 2 ^ 30" for e
  proof -
    have "lsm_next_ts (me_storage e) \<le> txn_start_ts txn" using that(2) start by (simp add: word_le_nat_alt)
    from lsm_get_at_ts_view [OF \<open>lsm_ok (te_lsm env) (me_storage e)\<close> this, of k]
    obtain c where "lsm_get_at_ts (te_lsm env) k (txn_start_ts txn) (me_storage e) =
        (Ok (view (te_lsm env) (me_storage e) k), me_storage e\<lparr>lsm_cache := c\<rparr>)" by blast
    moreover have "txn_write_set txn = new_write_set" by (simp add: b(1) new_transaction_def)
    ultimately show ?thesis by (simp add: engine_get_def)
  qed
  have "fst (engine_get env k txn e1) = Ok None"
    using get [of e1] inv by (simp add: puts_inv_def st1 fresh_view) (simp add: fresh_lsm_def)
  moreover have "fst (engine_get env k txn e2) = Ok (Some v)"
    using get [of e2] st(2,3) run_puts_ts_bound [of "te_lsm env" "[(k, v)]" ?opts st] st(1) e2(2)
    by (simp add: puts_inv_def st1)
  ultimately show ?thesis using e2(1) by blast
qed

lemma snapshot_sees_later_commit_witness:
  "\<exists>txn e1 e2. begin_txn_snapshot 5000 (new_engine (fresh_lsm (lsm_options_of default_db_options))) = (txn, e1) \<and>
    db_put stored_txn_env 5001 5001 (\<lambda>_. []) [1] [7] e1 = Some (Ok (), e2) \<and>
    fst (engine_get stored_txn_env [1] txn e2) = Ok (Some [7])"
proof -
  obtain txn e1 where b: "begin_txn_snapshot 5000 (new_engine (fresh_lsm (lsm_options_of default_db_options))) = (txn, e1)"
    by fastforce
  have env: "env_ok (te_lsm stored_txn_env)" "pair_ok ([1], [7])" using env_ok_stored by (simp_all add: pair_ok_def)
  from snapshot_sees_later_commit [OF env open_empty_db _ _ _ _ b, of 5001 5001 "\<lambda>_. []"] b show ?thesis by auto
qed

text \<open>
  A commit that fails leaves the transaction's locks in place and the transaction among
  the active ones, and so blocks the keys it has locked until somebody aborts it; and the
  commit of a read-only transaction always fails, because nothing sets its commit timestamp.
\<close>

theorem failed_commit_keeps_locks:
  "(engine_commit env c txn e = Some (Err x, txn', e') \<longrightarrow>
      me_locks e' = me_locks e \<and> tm_active (me_txn_manager e') = tm_active (me_txn_manager e)) \<and>
   (iso_is_read_only level \<and> begin_with_isolation level c1 polls e0 = (t1, e1) \<longrightarrow>
      (\<exists>e2. engine_commit env c2 t1 e1 = Some (Err error.TransactionAborted, t1, e2) \<and>
         me_ssi e2 = me_ssi e1 \<and> me_locks e2 = me_locks e1))"
proof (intro conjI impI)
  assume "engine_commit env c txn e = Some (Err x, txn', e')"
  then have "me_locks e' = me_locks e \<and> me_txn_manager e' = me_txn_manager e"
    by (auto simp: engine_commit_def commit_writes_def commit_read_only_def finish_locks_def Let_def
        split: prod.splits if_splits result.splits option.splits)
  then show "me_locks e' = me_locks e" "tm_active (me_txn_manager e') = tm_active (me_txn_manager e)" by simp_all
next
  assume a: "iso_is_read_only level \<and> begin_with_isolation level c1 polls e0 = (t1, e1)"
  then have t1: "txn_isolation t1 = level" "is_active t1" "txn_commit_ts t1 = None"
    by (auto simp: begin_with_isolation_def tm_begin_def new_transaction_def is_active_def Let_def case_prod_unfold)
  obtain t o1 where "get_timestamp c2 (me_oracle e1) = (t, o1)" by fastforce
  with a t1 show "\<exists>e2. engine_commit env c2 t1 e1 = Some (Err error.TransactionAborted, t1, e2) \<and>
         me_ssi e2 = me_ssi e1 \<and> me_locks e2 = me_locks e1"
    by (simp add: engine_commit_def commit_read_only_def tm_commit_def)
qed

lemma failed_commit_keeps_locks_witness:
  "\<exists>t1 e1 e2. begin_with_isolation SerializableReadOnly 5000 0 (new_engine (fresh_lsm default_lsm_options)) = (t1, e1) \<and>
     engine_commit stored_txn_env 5001 t1 e1 = Some (Err error.TransactionAborted, t1, e2) \<and>
     tm_active (me_txn_manager e2) = tm_active (me_txn_manager e1)"
proof -
  let ?e0 = "new_engine (fresh_lsm default_lsm_options)"
  obtain t1 e1 where b: "begin_with_isolation SerializableReadOnly 5000 0 ?e0 = (t1, e1)" by fastforce
  have ro: "iso_is_read_only SerializableReadOnly" by (simp add: iso_is_read_only_def)
  obtain e2 where e2: "engine_commit stored_txn_env 5001 t1 e1 = Some (Err error.TransactionAborted, t1, e2)"
    using failed_commit_keeps_locks [where env = stored_txn_env and level = SerializableReadOnly and ?c2.0 = 5001] ro b by metis
  with failed_commit_keeps_locks [where env = stored_txn_env and c = 5001 and txn = t1 and e = e1] b show ?thesis by metis
qed

end
