(* ===== verification/Txn_Checks.thy ===== *)
theory Txn_Checks
  imports Db_Checks
begin

text \<open>
  Interactive transactions of \<open>crabstash/src/lib.rs\<close>: the writes of a transaction stay its own
  until it commits, and then they are all there; an abort leaves nothing behind.
\<close>

section \<open>Locks of one running transaction\<close>

text \<open>Only transaction \<open>t\<close> holds locks, and \<open>n\<close> more stay below the escalation thresholds.\<close>

definition lockable :: "txn_id \<Rightarrow> nat \<Rightarrow> lock_table \<Rightarrow> bool" where
  "lockable t n tbl \<longleftrightarrow> range_locks tbl = [] \<and>
     (\<forall>e \<in> snd ` set (key_locks tbl). holders e = [] \<or> holders e = [(t, X)]) \<and>
     (\<exists>st. hm_get (escalations tbl) t = Some st \<and>
        key_lock_count st + n < min (auto_escalate_threshold (lc_escalation (lt_config tbl)))
          (emergency_threshold (lc_escalation (lt_config tbl))))"

lemma own_lock:
  assumes "lockable t (Suc n) tbl"
  obtains tbl' where "manager_lock_key t k X timeout sched tbl =
      Some (Ok \<lparr>guard_txn_id = t, guard_key = k, guard_mode = X\<rparr>, tbl')" "lockable t n tbl'"
    "lt_config tbl' = lt_config tbl"
proof -
  let ?e = "entry_or_insert k tbl"
  obtain st where st: "hm_get (escalations tbl) t = Some st"
    "key_lock_count st + Suc n < min (auto_escalate_threshold (lc_escalation (lt_config tbl)))
          (emergency_threshold (lc_escalation (lt_config tbl)))"
    using assms by (auto simp: lockable_def)
  have own: "range_locks tbl = []" "\<And>e. e \<in> snd ` set (key_locks tbl) \<Longrightarrow> holders e = [] \<or> holders e = [(t, X)]"
    using assms by (auto simp: lockable_def)
  have "holders ?e = [] \<or> holders ?e = [(t, X)]"
    using own(2) map_of_SomeD [of "key_locks tbl" k]
    by (force simp: entry_or_insert_def new_entry_def split: option.split)
  then obtain e' where acq: "try_acquire t X ?e = (True, e')" "holders e' = [(t, X)]"
    by (auto simp: try_acquire_def is_compatible_with_holders_def)
  let ?st = "record_key_lock k st"
  let ?action = "check_escalation (get_lock_count ?st) (lc_escalation (lt_config tbl))"
  have "?action \<in> {NoAction, Warn}"
    using st(2) by (auto simp: check_escalation_def get_lock_count_def record_key_lock_def)
  then obtain st2 where st2: "handle_escalation_action ?action ?st = (False, st2)"
    "key_lock_count st2 = Suc (key_lock_count st)"
    by (auto simp: handle_escalation_action_def record_key_lock_def)
  let ?tbl1 = "tbl\<lparr>key_locks := hm_insert k e' (key_locks tbl)\<rparr>"
  let ?tbl' = "?tbl1\<lparr>escalations := hm_insert t st2 (escalations tbl),
      waiter_graph := increment_lock_count t (waiter_graph tbl)\<rparr>"
  have "record_lock_acquired t k ?tbl1 = Some ?tbl'"
    using st(1) st2(1) by (simp add: record_lock_acquired_def Let_def)
  then have "lock_key t k X s tbl = Some (Ok (), ?tbl')" for s
    using acq(1) own(1)
    by (simp add: lock_key_def check_range_locks_def find_containing_key_def find_overlapping_def take_key_lock_def)
  moreover have "\<forall>e \<in> snd ` set (key_locks ?tbl'). holders e = [] \<or> holders e = [(t, X)]"
    using snd_update [of k e' "key_locks tbl"] own(2) acq(2) by fastforce
  then have "lockable t n ?tbl'" using own(1) st(2) st2(2) by (simp add: lockable_def)
  ultimately show thesis by (intro that [of ?tbl']) (simp_all add: manager_lock_key_def)
qed

section \<open>The writes of a transaction\<close>

text \<open>A put, or a deletion.\<close>

type_synonym txn_write = "bytes \<times> bytes option"

fun run_txn_writes :: "txn_env \<Rightarrow> (u64 \<Rightarrow> schedule) \<Rightarrow> txn_write list \<Rightarrow> transaction \<Rightarrow> mvcc_engine \<Rightarrow>
    ((error, unit) result \<times> transaction \<times> mvcc_engine) option" where
  "run_txn_writes env sched [] txn e = Some (Ok (), txn, e)"
| "run_txn_writes env sched ((k, v) # ws) txn e =
     (case (case v of Some x \<Rightarrow> txn_put env sched k x txn e | None \<Rightarrow> txn_delete env sched k txn e) of
        Some (Ok _, txn', e') \<Rightarrow> run_txn_writes env sched ws txn' e'
      | r \<Rightarrow> r)"

definition write_to :: "txn_write \<Rightarrow> write_set \<Rightarrow> write_set" where
  "write_to w s = (case w of (k, Some v) \<Rightarrow> ws_put k v s | (k, None) \<Rightarrow> ws_delete k s)"

lemma write_to_simps [simp]:
  "ws_get k (write_to (k', v) s) = (if k = k' then Some v else ws_get k s)"
  "ws_ok s \<Longrightarrow> ws_ok (write_to w s)"
  by (auto simp: write_to_def split: option.split prod.split)

lemma writes_get:
  "ws_get k (fold write_to ws s) = (case map_of (rev ws) k of Some v \<Rightarrow> Some v | None \<Rightarrow> ws_get k s)"
  by (induction ws arbitrary: s) (auto simp: map_add_def split: option.split)

lemma writes_ok: "ws_ok s \<Longrightarrow> ws_ok (fold write_to ws s)"
  by (induction ws arbitrary: s) simp_all

lemma length_update: "length (AList.update k v m) \<le> Suc (length m)"
  by (induction m) auto

lemma writes_size:
  "length (ws_puts (fold write_to ws s)) + length (ws_deletes (fold write_to ws s)) \<le>
     length (ws_puts s) + length (ws_deletes s) + length ws"
proof (induction ws arbitrary: s)
  case (Cons w ws)
  have "length (ws_puts (write_to w s)) + length (ws_deletes (write_to w s)) \<le>
      Suc (length (ws_puts s) + length (ws_deletes s))"
    using add_le_mono [OF length_update [of "fst w" "the (snd w)" "ws_puts s"]
        length_filter_le [of "\<lambda>x. x \<noteq> fst w" "ws_deletes s"]]
      length_delete_le [of "fst w" "ws_puts s"]
    by (cases w; cases "snd w") (auto simp: write_to_def ws_put_def ws_delete_def hs_remove_def hs_insert_def)
  with Cons.IH [of "write_to w s"] show ?case by simp
qed simp

lemma run_txn_writes_ok:
  assumes "txn_isolation txn = Snapshot" "lockable (txn_ident txn) (length ws) (me_locks e)"
  shows "\<exists>tbl. run_txn_writes env sched ws txn e =
      Some (Ok (), txn\<lparr>txn_write_set := fold write_to ws (txn_write_set txn)\<rparr>, e\<lparr>me_locks := tbl\<rparr>) \<and>
    lockable (txn_ident txn) 0 tbl \<and> lt_config tbl = lt_config (me_locks e)"
  using assms
proof (induction ws arbitrary: txn e)
  case Nil
  then show ?case by (intro exI [of _ "me_locks e"]) simp
next
  case (Cons w ws)
  obtain k v where w: "w = (k, v)" by fastforce
  obtain tbl where tbl: "manager_lock_key (txn_ident txn) k X (Some (me_lock_timeout e)) sched (me_locks e) =
      Some (Ok \<lparr>guard_txn_id = txn_ident txn, guard_key = k, guard_mode = X\<rparr>, tbl)"
    "lockable (txn_ident txn) (length ws) tbl" "lt_config tbl = lt_config (me_locks e)"
    using own_lock [of "txn_ident txn" "length ws" "me_locks e" k "Some (me_lock_timeout e)" sched] Cons.prems(2)
    by auto
  let ?txn = "txn\<lparr>txn_write_set := write_to w (txn_write_set txn)\<rparr>" and ?e = "e\<lparr>me_locks := tbl\<rparr>"
  have step: "(case v of Some x \<Rightarrow> txn_put env sched k x txn e | None \<Rightarrow> txn_delete env sched k txn e) =
      Some (Ok (), ?txn, ?e)"
    using tbl(1) Cons.prems(1) w
    by (simp add: txn_put_def txn_delete_def engine_put_def engine_delete_def lock_for_write_def
        iso_is_read_only_def write_to_def split: option.split)
  obtain tbl' where "run_txn_writes env sched ws ?txn ?e =
      Some (Ok (), ?txn\<lparr>txn_write_set := fold write_to ws (txn_write_set ?txn)\<rparr>, ?e\<lparr>me_locks := tbl'\<rparr>)"
    "lockable (txn_ident txn) 0 tbl'" "lt_config tbl' = lt_config tbl"
    using Cons.IH [of ?txn ?e] tbl(2) Cons.prems(1) by auto
  with step w tbl(3) show ?case by (intro exI [of _ tbl']) simp
qed

section \<open>Storing a write set\<close>

lemma put_all_run_puts: "put_all env kvs s = run_puts env kvs s"
  by (induction kvs arbitrary: s) (auto split: prod.split result.split)

lemma delete_all_ok:
  assumes "lsm_ok env s" "unat (lsm_next_ts s) + length ks < 2 ^ 63"
  shows "lsm_ok env (delete_all env ks s)"
    "view env (delete_all env ks s) k = (if k \<in> set ks then None else view env s k)"
proof -
  have "lsm_ok env (delete_all env ks s) \<and>
      view env (delete_all env ks s) k = (if k \<in> set ks then None else view env s k)"
    using assms
  proof (induction ks arbitrary: s)
    case (Cons x ks)
    let ?r = "delete_at x s" and ?s = "lsm_delete env x s"
    have r: "rec_timestamp ?r = lsm_next_ts s" "rec_key ?r = x" "rec_type ?r = Delete" "rec_value ?r = None"
      by (simp_all add: delete_at_def)
    have c: "lsm_next_ts s \<noteq> - 1" "unat (lsm_next_ts s + 1) = unat (lsm_next_ts s) + 1"
      using counter_step [of "lsm_next_ts s"] Cons.prems(2) by simp_all
    have "lsm_ok env ?s"
      unfolding lsm_delete_written by (rule written_ok [OF Cons.prems(1) r(1) c(1)])
    moreover have "view env ?s k = (if k = x then None else view env s k)"
      using memtable_view_written [OF Cons.prems(1) r(1), of k] r
      by (simp add: view_def lsm_delete_written split: option.split)
    moreover have "unat (lsm_next_ts ?s) + length ks < 2 ^ 63"
      using Cons.prems(2) c(2) by (simp add: lsm_delete_written)
    ultimately show ?case
      using Cons.IH [of ?s] by (auto simp: delete_all_def)
  qed (simp add: delete_all_def)
  then show "lsm_ok env (delete_all env ks s)"
    "view env (delete_all env ks s) k = (if k \<in> set ks then None else view env s k)" by simp_all
qed

lemma map_of_rev_wf: "hm_wf m \<Longrightarrow> map_of (rev m) k = hm_get m k"
  by (subst map_of_inject_set [of "rev m" m, THEN iffD2]) (simp_all add: rev_map [symmetric])

section \<open>Property\<close>

definition write_ok :: "txn_write \<Rightarrow> bool" where
  "write_ok w \<longleftrightarrow> length (fst w) \<le> 2 ^ 30 \<and> (\<forall>v. snd w = Some v \<longrightarrow> length v \<le> 2 ^ 30)"

lemma final_puts_ok:
  assumes "list_all write_ok ws"
  shows "list_all pair_ok (ws_puts (fold write_to ws new_write_set))"
proof -
  let ?s = "fold write_to ws new_write_set"
  have ok: "ws_ok ?s" by (rule writes_ok) simp
  have "pair_ok (k, v)" if "(k, v) \<in> set (ws_puts ?s)" for k v
  proof -
    have "hm_get (ws_puts ?s) k = Some v" using that ok by (simp add: ws_ok_def)
    with ok have "ws_get k ?s = Some (Some v)" by (auto simp: ws_get_def ws_ok_def)
    then have "map_of (rev ws) k = Some (Some v)" by (simp add: writes_get split: option.splits)
    then have "(k, Some v) \<in> set ws" by (auto dest: map_of_SomeD)
    with assms show ?thesis by (force simp: list_all_iff write_ok_def pair_ok_def)
  qed
  then show ?thesis by (auto simp: list_all_iff)
qed

text \<open>What storing a write set does to the view.\<close>

lemma store_writes_ok:
  assumes run: "run_puts env (ws_puts w) s = (Ok (), s1)" "lsm_ok env s1"
    "\<And>k. view env s1 k = (case map_of (rev (ws_puts w)) k of Some v \<Rightarrow> Some v | None \<Rightarrow> view env s k)"
    and w: "ws_ok w" "unat (lsm_next_ts s1) + length (ws_deletes w) < 2 ^ 63"
  obtains s2 where "store_writes env w s = (Ok (), s2)" "lsm_ok env s2"
    "\<And>k. view env s2 k = (case ws_get k w of Some v \<Rightarrow> v | None \<Rightarrow> view env s k)"
proof -
  let ?s2 = "delete_all env (ws_deletes w) s1"
  note del = delete_all_ok [OF run(2) w(2)]
  have puts: "map_of (rev (ws_puts w)) k = hm_get (ws_puts w) k" for k
    using w(1) by (intro map_of_rev_wf) (simp add: ws_ok_def)
  have "view env ?s2 k = (case ws_get k w of Some v \<Rightarrow> v | None \<Rightarrow> view env s k)" for k
    using del(2) [of k] run(3) [of k] puts [of k] by (auto simp: ws_get_def split: option.split)
  moreover have "store_writes env w s = (Ok (), ?s2)"
    using run(1) by (simp add: store_writes_def put_all_run_puts)
  ultimately show thesis using del(1) that by blast
qed

lemma run_puts_append:
  "run_puts env xs s = (Ok (), s1) \<Longrightarrow> run_puts env (xs @ ys) s = run_puts env ys s1"
  by (induction xs arbitrary: s) (auto split: prod.splits result.splits)

lemma puts_spaced_prefix: "puts_spaced env (xs @ ys) s \<Longrightarrow> puts_spaced env xs s"
  by (induction xs arbitrary: s) auto

lemma final_writes:
  assumes "list_all write_ok ws"
  defines "w \<equiv> fold write_to ws new_write_set"
  shows "ws_ok w" "length (ws_puts w) + length (ws_deletes w) \<le> length ws" "list_all pair_ok (ws_puts w)"
    "ws_get k w = map_of (rev ws) k"
proof -
  show "ws_ok w" "list_all pair_ok (ws_puts w)" "ws_get k w = map_of (rev ws) k"
    using writes_ok [of new_write_set ws] final_puts_ok [OF assms(1)]
    by (simp_all add: w_def writes_get split: option.split)
  show "length (ws_puts w) + length (ws_deletes w) \<le> length ws"
    using writes_size [of ws new_write_set] by (simp add: w_def new_write_set_def)
qed

definition escalation_limit :: "lock_table \<Rightarrow> nat" where
  "escalation_limit tbl = min (auto_escalate_threshold (lc_escalation (lt_config tbl)))
     (emergency_threshold (lc_escalation (lt_config tbl)))"

lemma fresh_run:
  assumes "env_ok env" "length kvs < 2 ^ 29" "puts_spaced env kvs (fresh_lsm opts)" "list_all pair_ok kvs"
  obtains s where "run_puts env kvs (fresh_lsm opts) = (Ok (), s)" "lsm_ok env s"
    "\<And>k. view env s k = map_of (rev kvs) k" "unat (lsm_next_ts s) \<le> 2 ^ 30"
proof -
  obtain s where s: "run_puts env kvs (fresh_lsm opts) = (Ok (), s)" "lsm_ok env s"
    "\<And>k. view env s k = (case map_of (rev kvs) k of Some v \<Rightarrow> Some v | None \<Rightarrow> view env (fresh_lsm opts) k)"
    using run_puts_ok [OF assms(1) fresh_inv [OF assms(2)] assms(3,4)] by blast
  have "view env s k = map_of (rev kvs) k" for k
    by (simp add: s(3) fresh_view split: option.split)
  with s(1,2) run_puts_ts_bound [OF s(1) assms(2)] show thesis by (intro that)
qed

text \<open>The database after one-shot puts, and what the write set would do to its storage.\<close>

lemma filled_database:
  assumes "env_ok (te_lsm env)" "length ps + length ws < 2 ^ 29" "list_all pair_ok (map pc_pair ps)"
    "list_all write_ok ws" "list_all clocks_ok ps" "open_with_options env empty_disk options = Ok e0"
    "run_db_puts env ps e0 = Some (Ok (), e)"
    "puts_spaced (te_lsm env) (map pc_pair ps @ ws_puts (fold write_to ws new_write_set)) (me_storage e0)"
  obtains st where "quiet e" "lsm_ok (te_lsm env) (me_storage e)" "unat (lsm_next_ts (me_storage e)) \<le> 2 ^ 30"
    "\<And>k. view (te_lsm env) (me_storage e) k = map_of (rev (map pc_pair ps)) k"
    "store_writes (te_lsm env) (fold write_to ws new_write_set) (me_storage e) = (Ok (), st)"
    "lsm_ok (te_lsm env) st"
    "\<And>k. view (te_lsm env) st k =
       (case map_of (rev ws) k of Some v \<Rightarrow> v | None \<Rightarrow> map_of (rev (map pc_pair ps)) k)"
proof -
  let ?env = "te_lsm env" and ?s0 = "fresh_lsm (lsm_options_of options)" and ?kvs = "map pc_pair ps"
  define w where "w = fold write_to ws new_write_set"
  note w = final_writes [OF assms(4), folded w_def]
  have e0: "e0 = new_engine ?s0" using assms(6) by (simp add: open_empty_db)
  then have st0: "me_storage e0 = ?s0" by (simp add: new_engine_def with_lock_config_def)
  have spaced: "puts_spaced ?env (?kvs @ ws_puts w) ?s0" using assms(8) by (simp add: w_def st0)
  have len: "length (?kvs @ ws_puts w) < 2 ^ 29" "length ?kvs < 2 ^ 29" using w(2) assms(2) by simp_all
  obtain s where s: "run_puts ?env ?kvs ?s0 = (Ok (), s)" "lsm_ok ?env s"
    "\<And>k. view ?env s k = map_of (rev ?kvs) k" "unat (lsm_next_ts s) \<le> 2 ^ 30"
    using fresh_run [OF assms(1) len(2) puts_spaced_prefix [OF spaced] assms(3)] by blast
  have "list_all pair_ok (?kvs @ ws_puts w)" using assms(3) w(3) by simp
  from fresh_run [OF assms(1) len(1) spaced this]
  obtain s1 where s1: "run_puts ?env (?kvs @ ws_puts w) ?s0 = (Ok (), s1)" "lsm_ok ?env s1"
    "\<And>k. view ?env s1 k = map_of (rev (?kvs @ ws_puts w)) k" "unat (lsm_next_ts s1) \<le> 2 ^ 30" by blast
  have puts: "run_puts ?env (ws_puts w) s = (Ok (), s1)"
    using s1(1) run_puts_append [OF s(1)] by simp
  have v1: "view ?env s1 k = (case map_of (rev (ws_puts w)) k of Some v \<Rightarrow> Some v | None \<Rightarrow> view ?env s k)" for k
    using s1(3) [of k] s(3) [of k] by (simp add: map_add_def split: option.split)
  have "unat (lsm_next_ts s1) + length (ws_deletes w) < 2 ^ 63"
    using s1(4) w(2) assms(2) by simp
  from store_writes_ok [OF puts s1(2) v1 w(1) this]
  obtain st where st: "store_writes ?env w s = (Ok (), st)" "lsm_ok ?env st"
    "\<And>k. view ?env st k = (case ws_get k w of Some v \<Rightarrow> v | None \<Rightarrow> view ?env s k)" by blast
  obtain e' where "run_db_puts env ps e0 = Some (Ok (), e')" "me_storage e' = s" "quiet e'"
    using run_db_puts_storage [of env ps e0 s] s(1) st0 e0 quiet_new assms(5) by metis
  with assms(7) have e: "me_storage e = s" "quiet e" by simp_all
  with st s(2-4) w(4) show thesis by (intro that [of st]) (simp_all add: w_def split: option.split)
qed

text \<open>
  The engine stores the writes before it looks at the state: committing a transaction that was
  aborted answers an error, but its writes are in the database.
\<close>

lemma aborted_commit_stores_writes:
  assumes "txn_isolation txn = Snapshot" "txn_state txn = Aborted"
    "store_writes (te_lsm env) (txn_write_set txn) (me_storage e) = (Ok (), st)"
  shows "\<exists>t' e'. engine_commit env c txn e = Some (Err error.TransactionAborted, t', e') \<and> me_storage e' = st"
proof -
  obtain t o1 where "get_timestamp c (me_oracle e) = (t, o1)" by fastforce
  with assms show ?thesis
    by (simp add: engine_commit_def commit_writes_def prepare_commit_def tm_commit_def is_active_def iso_is_read_only_def)
qed

text \<open>A snapshot transaction begun on a quiet database runs its writes and keeps storage as it is.\<close>

lemma begun_transaction:
  assumes quiet: "quiet e" and b: "db_begin c1 e = (txn, e1)" and limit: "length ws < escalation_limit (me_locks e)"
    and c: "unat c1 < 2 ^ 46" "2 ^ 12 \<le> unat c1"
  obtains tbl tbl' where "txn_isolation txn = Snapshot" "is_active txn" "2 ^ 30 \<le> unat (txn_start_ts txn)"
    "me_storage e1 = me_storage e" "run_txn_writes env sched ws txn e1 = Some (Ok (),
       txn\<lparr>txn_write_set := fold write_to ws new_write_set\<rparr>, e1\<lparr>me_locks := tbl\<rparr>)"
    "release_all (txn_ident txn) tbl = Some tbl'" "idle_locks tbl'"
proof -
  let ?t = "txn_ident txn"
  have "begin_txn_snapshot c1 e = (txn, e1)" using b by (simp add: db_begin_def)
  note begin_facts = begin_snapshot [OF this]
  have txn: "txn_isolation txn = Snapshot" "txn_write_set txn = new_write_set" "is_active txn"
    "txn_start_ts txn = fst (get_timestamp c1 (me_oracle e))"
    by (simp_all add: begin_facts(1) new_transaction_def is_active_def)
  have idle: "idle_locks (me_locks e1)" "hm_get (escalations (me_locks e1)) ?t = Some new_escalation_state"
    "lt_config (me_locks e1) = lt_config (me_locks e)"
    using quiet by (simp_all add: begin_facts(3) quiet_def register_idle)
  have "lockable ?t (length ws) (me_locks e1)"
    using idle limit by (simp add: lockable_def idle_locks_def escalation_limit_def new_escalation_state_def)
  from run_txn_writes_ok [OF txn(1) this, of env sched] obtain tbl where
    run: "run_txn_writes env sched ws txn e1 = Some (Ok (),
       txn\<lparr>txn_write_set := fold write_to ws new_write_set\<rparr>, e1\<lparr>me_locks := tbl\<rparr>)"
    and tbl: "lockable ?t 0 tbl" "lt_config tbl = lt_config (me_locks e1)"
    by (auto simp: txn(2))
  have "min (auto_escalate_threshold (lc_escalation (lt_config tbl)))
       (emergency_threshold (lc_escalation (lt_config tbl))) > 1"
    using idle(1) tbl(2) by (simp add: idle_locks_def)
  then obtain tbl' where tbl': "release_all ?t tbl = Some tbl'" "idle_locks tbl'"
    using release_idle [of tbl ?t X] tbl(1) unfolding lockable_def by blast
  have "2 ^ 30 \<le> unat (txn_start_ts txn)"
    unfolding txn(4) using quiet c by (intro oracle_above) (simp_all add: quiet_def)
  with txn(1,3) begin_facts(2) run tbl' show thesis by (intro that)
qed

text \<open>
  C7: interactive transactions are all or nothing. On a database filled by spaced one-shot
  puts begin a transaction at snapshot isolation and put and delete any keys, below the
  escalation threshold, such that the puts of the commit do not put a key twice between two
  flushes either: every write succeeds and leaves storage as it is, and a read in the
  transaction answers its own last write of the key, or else what the database holds.
  Committing installs exactly these writes over the contents of the database; aborting
  instead leaves storage unchanged. After either no lock is held.
\<close>

theorem transaction_all_or_nothing:
  assumes "env_ok (te_lsm env)" "length ps + length ws < 2 ^ 29" "length ws < escalation_limit (me_locks e)"
    "list_all pair_ok (map pc_pair ps)" "list_all write_ok ws" "list_all clocks_ok ps"
    "open_with_options env empty_disk options = Ok e0" "run_db_puts env ps e0 = Some (Ok (), e)"
    "puts_spaced (te_lsm env) (map pc_pair ps @ ws_puts (fold write_to ws new_write_set)) (me_storage e0)"
    "unat c1 < 2 ^ 46" "2 ^ 12 \<le> unat c1" "db_begin c1 e = (txn, e1)"
  defines "result \<equiv> \<lambda>k. case map_of (rev ws) k of Some v \<Rightarrow> v | None \<Rightarrow> map_of (rev (map pc_pair ps)) k"
  shows "\<exists>txn' e2. run_txn_writes env sched ws txn e1 = Some (Ok (), txn', e2) \<and>
     me_storage e2 = me_storage e \<and> fst (txn_get env k txn' e2) = Ok (result k) \<and>
     (\<exists>t3 e3. txn_commit env c2 txn' e2 = Some (Ok (), t3, e3) \<and>
        fst (lsm_get (te_lsm env) k (me_storage e3)) = Ok (result k) \<and> idle_locks (me_locks e3)) \<and>
     (\<exists>t3 e3. txn_abort txn' e2 = Some (t3, e3) \<and> me_storage e3 = me_storage e \<and> idle_locks (me_locks e3))"
proof -
  let ?env = "te_lsm env" and ?t = "txn_ident txn"
  obtain st where db: "quiet e" "lsm_ok ?env (me_storage e)" "unat (lsm_next_ts (me_storage e)) \<le> 2 ^ 30"
    "view ?env (me_storage e) k = map_of (rev (map pc_pair ps)) k"
    "store_writes ?env (fold write_to ws new_write_set) (me_storage e) = (Ok (), st)"
    "lsm_ok ?env st" "view ?env st k = result k"
    using filled_database [OF assms(1,2,4-9)] unfolding result_def by metis
  obtain tbl tbl' where txn: "txn_isolation txn = Snapshot" "is_active txn" "2 ^ 30 \<le> unat (txn_start_ts txn)"
    and "me_storage e1 = me_storage e" and run: "run_txn_writes env sched ws txn e1 = Some (Ok (),
       txn\<lparr>txn_write_set := fold write_to ws new_write_set\<rparr>, e1\<lparr>me_locks := tbl\<rparr>)"
    and tbl': "release_all ?t tbl = Some tbl'" "idle_locks tbl'"
    using begun_transaction [OF db(1) assms(12,3,10,11)] by metis
  let ?txn = "txn\<lparr>txn_write_set := fold write_to ws new_write_set\<rparr>" and ?e2 = "e1\<lparr>me_locks := tbl\<rparr>"
  have storage: "me_storage ?e2 = me_storage e" using \<open>me_storage e1 = _\<close> by simp
  have above: "lsm_next_ts (me_storage e) \<le> txn_start_ts txn"
    using db(3) txn(3) by (simp add: word_le_nat_alt)
  obtain cache where g: "lsm_get_at_ts ?env k (txn_start_ts txn) (me_storage e) =
      (Ok (view ?env (me_storage e) k), me_storage e\<lparr>lsm_cache := cache\<rparr>)"
    using lsm_get_at_ts_view [OF db(2) above] by blast
  have get: "fst (txn_get env k ?txn ?e2) = Ok (result k)"
    using g storage db(4) final_writes(4) [OF assms(5), of k]
    by (simp add: txn_get_def engine_get_def result_def Let_def split: option.split)
  have "store_writes ?env (txn_write_set ?txn) (me_storage ?e2) = (Ok (), st)"
    using db(5) storage by simp
  moreover have "txn_isolation ?txn = Snapshot" "is_active ?txn" "release_all (txn_ident ?txn) (me_locks ?e2) = Some tbl'"
    using txn tbl'(1) by (simp_all add: is_active_def)
  ultimately obtain t3 e3 where "engine_commit env c2 ?txn ?e2 = Some (Ok (), t3, e3)" "me_storage e3 = st"
    "me_locks e3 = tbl'" using commit_snapshot by metis
  then have commit: "\<exists>t3 e3. txn_commit env c2 ?txn ?e2 = Some (Ok (), t3, e3) \<and>
        fst (lsm_get ?env k (me_storage e3)) = Ok (result k) \<and> idle_locks (me_locks e3)"
    using tbl'(2) lsm_get_view [OF db(6), of k] db(7) by (auto simp: txn_commit_def)
  have abort: "\<exists>t3 e3. txn_abort ?txn ?e2 = Some (t3, e3) \<and> me_storage e3 = me_storage e \<and> idle_locks (me_locks e3)"
    using tbl' storage txn(1)
    by (simp add: txn_abort_def engine_abort_def tm_abort_def finish_locks_def is_serializable_def)
  from run storage get commit abort show ?thesis by blast
qed

lemma transaction_all_or_nothing_witness:
  "\<exists>txn e1 txn' e2 t3 e3. db_begin 5000 (new_engine (fresh_lsm default_lsm_options)) = (txn, e1) \<and>
     run_txn_writes stored_txn_env (\<lambda>_. []) [([1], Some [7]), ([2], Some [8]), ([1], None)] txn e1 =
       Some (Ok (), txn', e2) \<and>
     txn_commit stored_txn_env 5001 txn' e2 = Some (Ok (), t3, e3) \<and>
     fst (lsm_get stored_lsm_env [2] (me_storage e3)) = Ok (Some [8])"
proof -
  let ?ws = "[([1], Some [7]), ([2], Some [8]), ([1], None)] :: txn_write list"
    and ?e0 = "new_engine (fresh_lsm default_lsm_options)"
  have opts: "lsm_options_of default_db_options = default_lsm_options"
    by (simp add: lsm_options_of_def default_db_options_def default_lsm_options_def)
  obtain txn e1 where b: "db_begin 5000 ?e0 = (txn, e1)" by fastforce
  have "ws_puts (fold write_to ?ws new_write_set) = [([2], [8])]"
    by (simp add: write_to_def ws_put_def ws_delete_def new_write_set_def)
  then have spaced: "puts_spaced (te_lsm stored_txn_env)
      (map pc_pair [] @ ws_puts (fold write_to ?ws new_write_set)) (me_storage ?e0)"
    by (simp add: new_engine_def with_lock_config_def fresh_lsm_def mt_keys_def skip_ok_new)
  have limit: "length ?ws < escalation_limit (me_locks ?e0)"
    by (simp add: escalation_limit_def new_engine_def with_lock_config_def new_table_def
        default_lock_config_def default_escalation_config_def)
  have ok: "env_ok (te_lsm stored_txn_env)" "list_all write_ok ?ws"
    using env_ok_stored by (simp_all add: write_ok_def)
  from transaction_all_or_nothing [where ?c1.0 = 5000 and ?c2.0 = 5001 and k = "[2]" and ps = "[]" and sched = "\<lambda>_. []",
      OF ok(1) _ limit _ ok(2) _ open_empty_db [of stored_txn_env default_db_options, unfolded opts] _ spaced _ _ b]
  show ?thesis using b by simp blast
qed

end
