(* ===== verification/Compaction.thy ===== *)
theory Compaction
  imports Lsm_Scan
begin

text \<open>
  \<open>crabstash-storage/src/compaction.rs\<close> and the loop of the compaction thread in \<open>lsm.rs\<close>:
  which tables are merged, the merge, and what it does to the files and the manifest. The
  directory is the map of table files and the text of the manifest; the thread has a manifest
  of its own, read back from that text. File operations do not fail, but opening a missing
  file does; a table that was not finished is not kept.
\<close>

section \<open>Choosing the tables\<close>

definition LEVEL0_COMPACTION_TRIGGER :: nat where
  "LEVEL0_COMPACTION_TRIGGER = 4"

definition LEVEL_SIZE_MULTIPLIER :: u64 where
  "LEVEL_SIZE_MULTIPLIER = 10"

definition BASE_LEVEL_SIZE :: u64 where
  "BASE_LEVEL_SIZE = 10 * 1024 * 1024"

record compaction_task =
  task_level :: u32
  input_ssts :: "u64 list"
  output_level :: u32

text \<open>\<open>SSTable::open\<close>: without a cache.\<close>

definition open_file :: "(u64, bytes) hmap \<Rightarrow> u64 \<Rightarrow> (error, sstable) result" where
  "open_file ssts i =
     (case hm_get ssts i of None \<Rightarrow> Err (Io NotFound) | Some contents \<Rightarrow> open_sst i contents False)"

definition ranges_overlap :: "sstable \<Rightarrow> sstable \<Rightarrow> bool" where
  "ranges_overlap a b = (\<not> (sst_max_key a < sst_min_key b \<or> sst_max_key b < sst_min_key a))"

text \<open>The tables of the next level that open and overlap; one that does not open is left out.\<close>

fun overlapping_ids :: "(u64, bytes) hmap \<Rightarrow> sstable \<Rightarrow> u64 list \<Rightarrow> (error, u64 list) result" where
  "overlapping_ids ssts sst [] = Ok []"
| "overlapping_ids ssts sst (i # is) =
     (case open_file ssts i of
        Ok next_sst \<Rightarrow> bind_result (overlapping_ids ssts sst is) (\<lambda>js.
            Ok (if ranges_overlap sst next_sst then i # js else js))
      | Err e \<Rightarrow> overlapping_ids ssts sst is
      | Panic \<Rightarrow> Panic)"

definition level_inputs ::
  "(u64, bytes) hmap \<Rightarrow> manifest \<Rightarrow> u32 \<Rightarrow> u64 \<Rightarrow> (error, u64 list) result" where
  "level_inputs ssts m level input_id =
     (case hm_get (mf_levels m) (level + 1) of
        None \<Rightarrow> Ok [input_id]
      | Some next_level \<Rightarrow>
          (case open_file ssts input_id of
             Ok sst \<Rightarrow> bind_result (overlapping_ids ssts sst (lm_sst_ids next_level)) (\<lambda>js. Ok (input_id # js))
           | Err e \<Rightarrow> Ok [input_id]
           | Panic \<Rightarrow> Panic))"

text \<open>The loop over the levels from 1 on.\<close>

fun pick_level ::
  "(u64, bytes) hmap \<Rightarrow> manifest \<Rightarrow> nat list \<Rightarrow> (error, compaction_task option) result" where
  "pick_level ssts m [] = Ok None"
| "pick_level ssts m (l # ls) =
     (case hm_get (mf_levels m) (of_nat l) of
        None \<Rightarrow> pick_level ssts m ls
      | Some meta \<Rightarrow>
          let level_size = of_nat (length (lm_sst_ids meta)) * BASE_LEVEL_SIZE;
              max_size = BASE_LEVEL_SIZE * LEVEL_SIZE_MULTIPLIER ^ l
          in if level_size > max_size \<and> lm_sst_ids meta \<noteq> [] then
               bind_result (level_inputs ssts m (of_nat l) (hd (lm_sst_ids meta))) (\<lambda>inputs.
                 Ok (Some \<lparr>task_level = of_nat l, input_ssts = inputs, output_level = of_nat l + 1\<rparr>))
             else pick_level ssts m ls)"

definition pick_compaction ::
  "(u64, bytes) hmap \<Rightarrow> manifest \<Rightarrow> (error, compaction_task option) result" where
  "pick_compaction ssts m =
     (case hm_get (mf_levels m) 0 of
        Some level0 \<Rightarrow>
          if length (lm_sst_ids level0) \<ge> LEVEL0_COMPACTION_TRIGGER then
            Ok (Some \<lparr>task_level = 0,
                input_ssts = lm_sst_ids level0 @
                  (case hm_get (mf_levels m) 1 of Some level1 \<Rightarrow> lm_sst_ids level1 | None \<Rightarrow> []),
                output_level = 1\<rparr>)
          else pick_level ssts m [1..<6]
      | None \<Rightarrow> pick_level ssts m [1..<6])"

section \<open>The merged iterator\<close>

definition merged_is_valid :: "sst_iter list \<Rightarrow> bool" where
  "merged_is_valid its = list_ex si_valid its"

text \<open>\<open>min_by\<close> keeps the first of equal elements.\<close>

fun min_by_key :: "nat \<times> key \<Rightarrow> (nat \<times> key) list \<Rightarrow> nat \<times> key" where
  "min_by_key best [] = best"
| "min_by_key best (x # xs) = min_by_key (if snd x < snd best then x else best) xs"

definition current_idx :: "sst_iter list \<Rightarrow> nat option" where
  "current_idx its =
     (case map (\<lambda>(i, it). (i, si_current_key it)) (filter (\<lambda>(i, it). si_valid it) (enumerate 0 its)) of
        [] \<Rightarrow> None
      | x # xs \<Rightarrow> Some (fst (min_by_key x xs)))"

definition merged_advance :: "block_env \<Rightarrow> sst_iter list \<Rightarrow> (error, sst_iter list) result" where
  "merged_advance env its =
     (case current_idx its of
        None \<Rightarrow> Ok its
      | Some idx \<Rightarrow> bind_result (state_result (parse_entry env (its ! idx))) (\<lambda>it. Ok (its[idx := it])))"

section \<open>The merge\<close>

text \<open>\<open>key()\<close> and \<open>value()\<close> unwrap the current index, which panics when there is none.\<close>

partial_function (option) merge_loop ::
  "block_env \<Rightarrow> bytes option \<Rightarrow> sst_iter list \<Rightarrow> sst_builder \<Rightarrow> (error, sst_builder) result option" where
  "merge_loop env last_key its b =
     (if \<not> merged_is_valid its then Some (Ok b)
      else case current_idx its of
        None \<Rightarrow> Some Panic
      | Some idx \<Rightarrow>
          let key = si_current_key (its ! idx);
              v = si_current_value (its ! idx);
              dominated = (last_key = Some (key_data key))
          in case bind_result (if dominated then Ok b else builder_add env key v b) (\<lambda>b'.
               bind_result (merged_advance env its) (\<lambda>its'. Ok (its', b'))) of
               Ok (its', b') \<Rightarrow> merge_loop env (Some (key_data key)) its' b'
             | Err e \<Rightarrow> Some (Err e)
             | Panic \<Rightarrow> Some Panic)"

fun open_inputs :: "block_env \<Rightarrow> (u64, bytes) hmap \<Rightarrow> u64 list \<Rightarrow> (error, sst_iter list) result" where
  "open_inputs env ssts [] = Ok []"
| "open_inputs env ssts (i # is) =
     bind_result (open_file ssts i) (\<lambda>t.
     bind_result (state_result (sst_iter_new env t [])) (\<lambda>it.
     bind_result (open_inputs env ssts is) (\<lambda>its. Ok (it # its))))"

section \<open>Compacting\<close>

definition level_ids :: "manifest \<Rightarrow> u32 \<Rightarrow> u64 list" where
  "level_ids m level = (case hm_get (mf_levels m) level of Some meta \<Rightarrow> lm_sst_ids meta | None \<Rightarrow> [])"

definition remove_input ::
  "compaction_task \<Rightarrow> u64 \<Rightarrow> (u64, bytes) hmap \<times> manifest \<Rightarrow> (u64, bytes) hmap \<times> manifest" where
  "remove_input task i = (\<lambda>(ssts, m).
     let level = (if i \<in> set (level_ids m (task_level task)) then task_level task else output_level task)
     in (hm_remove i ssts, remove_sst level i m))"

definition install_table ::
  "compaction_task \<Rightarrow> u64 \<Rightarrow> bytes \<Rightarrow> (u64, bytes) hmap \<Rightarrow> manifest \<Rightarrow> (u64, bytes) hmap \<times> manifest" where
  "install_table task i contents ssts m =
     (let (ssts', m') = fold (remove_input task) (input_ssts task) (hm_insert i contents ssts, m)
      in (ssts', add_sst (output_level task) i m'))"

definition compact ::
  "lsm_env \<Rightarrow> compaction_task \<Rightarrow> (u64, bytes) hmap \<Rightarrow> manifest \<Rightarrow>
   ((error, u64 list) result \<times> (u64, bytes) hmap \<times> manifest) option" where
  "compact env task ssts m =
     (if input_ssts task = [] then Some (Ok [], ssts, m)
      else case open_inputs (le_blocks env) ssts (input_ssts task) of
        Ok its \<Rightarrow>
          (let (i, m1) = allocate_sst_id m;
               estimated_keys = length (input_ssts task) * 1000;
               builder = builder_new estimated_keys Uncompressed (le_bits_per_key env) (le_hashes env)
           in case merge_loop (le_blocks env) None its builder of
                None \<Rightarrow> None
              | Some merged \<Rightarrow>
                  Some (case bind_result merged (finish (le_blocks env)) of
                    Ok contents \<Rightarrow> (Ok [i], install_table task i contents ssts m1)
                  | Err e \<Rightarrow> (Err e, ssts, m1)
                  | Panic \<Rightarrow> (Panic, ssts, m1)))
      | Err e \<Rightarrow> Some (Err e, ssts, m)
      | Panic \<Rightarrow> Some (Panic, ssts, m))"

text \<open>
  One round of the compaction thread: \<open>None\<close> when it does not end, \<open>Panic\<close> when it kills the
  thread. A manifest that cannot be read skips the round.
\<close>

definition compaction_round ::
  "lsm_env \<Rightarrow> (u64, bytes) hmap \<Rightarrow> string \<Rightarrow> ((error, u64 list) result \<times> (u64, bytes) hmap \<times> string) option" where
  "compaction_round env ssts contents =
     (case manifest_open contents of
        Ok m \<Rightarrow>
          (case pick_compaction ssts m of
             Ok (Some task) \<Rightarrow>
               map_option (\<lambda>(r, ssts', m'). (r, ssts', mf_file m')) (compact env task ssts m)
           | Ok None \<Rightarrow> Some (Ok [], ssts, contents)
           | _ \<Rightarrow> Some (Panic, ssts, contents))
      | Err e \<Rightarrow> Some (Ok [], ssts, contents)
      | Panic \<Rightarrow> Some (Panic, ssts, contents))"

end
