(* ===== verification/Compaction_Checks.thy ===== *)
theory Compaction_Checks
  imports Compaction
begin

text \<open>
  What the compaction of \<open>Compaction\<close> does: the choice of tables stays within the levels, the
  merge loop ends and writes the overriding merge of its inputs, and the files and the
  manifest follow.
\<close>

section \<open>The smallest current key\<close>

lemma min_by_key_least:
  assumes "sorted_wrt (<) (map fst (b # xs))" "min_by_key b xs = (i, k)"
  shows "(i, k) \<in> set (b # xs) \<and> (\<forall>(j, k') \<in> set (b # xs). k \<le> k' \<and> (j < i \<longrightarrow> k < k'))"
  using assms
proof (induction xs arbitrary: b)
  case (Cons x xs)
  obtain bi bk xi xk where bx: "b = (bi, bk)" "x = (xi, xk)" by fastforce
  let ?c = "if xk < bk then x else b"
  have "sorted_wrt (<) (map fst (?c # xs))" using Cons.prems(1) bx by (auto split: if_splits)
  moreover have "min_by_key ?c xs = (i, k)"
    using Cons.prems(2) unfolding bx by (simp split del: if_split)
  ultimately have IH: "(i, k) \<in> set (?c # xs)" "\<forall>(j, k') \<in> set (?c # xs). k \<le> k' \<and> (j < i \<longrightarrow> k < k')"
    using Cons.IH [of ?c] by auto
  show ?case
  proof (cases "xk < bk")
    case True
    with IH bx show ?thesis by auto
  next
    case False
    have "k < xk" if "xi < i"
    proof -
      have "bi < xi" using Cons.prems(1) bx by simp
      with that IH(2) False bx show ?thesis by auto
    qed
    with False IH bx show ?thesis by auto
  qed
qed auto

lemma first_some_nth:
  "i < length xs \<Longrightarrow> xs ! i = Some v \<Longrightarrow> (\<And>j. j < i \<Longrightarrow> xs ! j = None) \<Longrightarrow> first_some xs = Some v"
proof (induction xs arbitrary: i)
  case (Cons x xs)
  show ?case
  proof (cases i)
    case 0
    with Cons.prems(2) show ?thesis by simp
  next
    case (Suc n)
    have "xs ! j = None" if "j < n" for j using Cons.prems(3) [of "Suc j"] that Suc by simp
    then have "first_some xs = Some v" using Cons.IH [of n] Cons.prems(1,2) Suc by simp
    moreover have "x = None" using Cons.prems(3) [of 0] Suc by simp
    ultimately show ?thesis by simp
  qed
qed simp

lemma first_some_None: "(\<And>x. x \<in> set xs \<Longrightarrow> x = None) \<Longrightarrow> first_some xs = None"
proof (induction xs)
  case (Cons x xs)
  have "x = None" using Cons.prems [of x] by simp
  moreover have "first_some xs = None" using Cons.IH Cons.prems by fastforce
  ultimately show ?case by simp
qed simp

section \<open>One step of the merged iterator\<close>

definition rests :: "block_env \<Rightarrow> sst_iter list \<Rightarrow> entry list list \<Rightarrow> bool" where
  "rests env its ess \<longleftrightarrow> (\<forall>it \<in> set its. sst_iter_inv env it) \<and>
     map (sst_iter_rest env) its = map as_versions ess"

lemma rests_nth:
  assumes "rests env its ess" "j < length its"
  shows "sst_iter_inv env (its ! j)" "sst_iter_rest env (its ! j) = as_versions (ess ! j)"
    "length ess = length its" "si_valid (its ! j) \<longleftrightarrow> ess ! j \<noteq> []"
proof -
  show inv: "sst_iter_inv env (its ! j)" using assms by (simp add: rests_def)
  show len: "length ess = length its" using assms(1) unfolding rests_def by (metis length_map)
  then show r: "sst_iter_rest env (its ! j) = as_versions (ess ! j)"
    using assms unfolding rests_def by (metis nth_map)
  show "si_valid (its ! j) \<longleftrightarrow> ess ! j \<noteq> []"
    using si.valid_iff [OF inv] r by (simp add: sst_iter_ops_def as_versions_def)
qed

lemma rests_head:
  assumes "rests env its ess" "j < length its" "ess ! j = (k, v) # es"
  shows "si_current_key (its ! j) = Key k 0" "si_current_value (its ! j) = v"
    "\<exists>it'. parse_entry env (its ! j) = (it', Ok ()) \<and> rests env (its[j := it']) (ess[j := es])"
proof -
  note n = rests_nth [OF assms(1,2)]
  have ne: "sst_iter_rest env (its ! j) = (Key k 0, v) # as_versions es"
    using n(2) assms(3) by (simp add: as_versions_def)
  then show "si_current_key (its ! j) = Key k 0" "si_current_value (its ! j) = v"
    by (auto simp: sst_iter_rest_def split: if_splits)
  from si.next_ok [OF n(1)] ne obtain it' where it': "parse_entry env (its ! j) = (it', Ok ())"
    "sst_iter_inv env it'" "sst_iter_rest env it' = as_versions es"
    by (auto simp: sst_iter_ops_def)
  have "rests env (its[j := it']) (ess[j := es])"
    using assms(1) it'(2,3) unfolding rests_def by (auto simp: map_update dest!: set_update_subset_insert [THEN subsetD])
  with it'(1) show "\<exists>it'. parse_entry env (its ! j) = (it', Ok ()) \<and> rests env (its[j := it']) (ess[j := es])"
    by blast
qed

text \<open>The current index is the first of those before the smallest key.\<close>

lemma current_idx_cases:
  assumes r: "rests env its ess"
  obtains (finished) "\<not> merged_is_valid its" "\<forall>es \<in> set ess. es = []"
  | (step) idx k v es where "merged_is_valid its" "current_idx its = Some idx" "idx < length its"
      "ess ! idx = (k, v) # es"
      "\<And>j. j < length its \<Longrightarrow> ess ! j \<noteq> [] \<Longrightarrow> k \<le> fst (hd (ess ! j)) \<and> (j < idx \<longrightarrow> k < fst (hd (ess ! j)))"
proof -
  let ?xs = "map (\<lambda>(i, it). (i, si_current_key it)) (filter (\<lambda>(i, it). si_valid it) (enumerate 0 its))"
  have mem: "(j, key) \<in> set ?xs \<longleftrightarrow> j < length its \<and> ess ! j \<noteq> [] \<and> key = Key (fst (hd (ess ! j))) 0" for j key
  proof -
    have "(j, key) \<in> set ?xs \<longleftrightarrow> j < length its \<and> si_valid (its ! j) \<and> key = si_current_key (its ! j)"
      by (auto simp: in_set_enumerate_eq image_iff)
    moreover have "si_current_key (its ! j) = Key (fst (hd (ess ! j))) 0" if "j < length its" "ess ! j \<noteq> []"
      using rests_head(1) [OF r that(1), of "fst (hd (ess ! j))" "snd (hd (ess ! j))" "tl (ess ! j)"] that(2)
      by simp
    ultimately show ?thesis using rests_nth(4) [OF r] by auto
  qed
  have len: "length ess = length its" using r unfolding rests_def by (metis length_map)
  show thesis
  proof (cases ?xs)
    case Nil
    then have "\<forall>j < length its. ess ! j = []" using mem by fastforce
    moreover from this have "\<not> merged_is_valid its"
      using rests_nth(4) [OF r] by (auto simp: merged_is_valid_def list_ex_iff in_set_conv_nth)
    ultimately show thesis using len by (intro finished) (auto simp: in_set_conv_nth)
  next
    case (Cons x xs)
    obtain idx key where m: "min_by_key x xs = (idx, key)" by fastforce
    have "sorted_wrt (<) (map fst ?xs)"
    proof -
      have "map fst ?xs = map fst (filter (\<lambda>(i, it). si_valid it) (enumerate 0 its))" by (auto simp: case_prod_unfold)
      moreover have "sorted_wrt (<) (map fst (filter P (enumerate n its)))" for P n
        by (induction its arbitrary: n) (auto simp: in_set_enumerate_eq)
      ultimately show ?thesis by metis
    qed
    from min_by_key_least [OF this [unfolded Cons] m]
    have least: "(idx, key) \<in> set ?xs" "\<And>j k'. (j, k') \<in> set ?xs \<Longrightarrow> key \<le> k' \<and> (j < idx \<longrightarrow> key < k')"
      unfolding Cons [symmetric] by auto
    have i: "idx < length its" "ess ! idx \<noteq> []" "key = Key (fst (hd (ess ! idx))) 0"
      using least(1) mem by blast+
    have cur: "current_idx its = Some idx" using Cons m by (simp add: current_idx_def)
    have v: "merged_is_valid its"
      using i rests_nth(4) [OF r i(1)] nth_mem [OF i(1)] unfolding merged_is_valid_def list_ex_iff by blast
    show thesis
    proof (rule step [OF v cur i(1)])
      show "ess ! idx = (fst (hd (ess ! idx)), snd (hd (ess ! idx))) # tl (ess ! idx)" using i(2) by simp
      show "fst (hd (ess ! idx)) \<le> fst (hd (ess ! j)) \<and> (j < idx \<longrightarrow> fst (hd (ess ! idx)) < fst (hd (ess ! j)))"
        if "j < length its" "ess ! j \<noteq> []" for j
        using least(2) [of j "Key (fst (hd (ess ! j))) 0"] mem that i(3) by (auto simp: key_le_iff key_less_iff)
    qed
  qed
qed

section \<open>The merge loop\<close>

text \<open>
  What is written: every key of the inputs once, ascending, with the entry of the first input
  that has it; \<open>lk\<close> is the key written before.
\<close>

definition overriding :: "bytes option \<Rightarrow> entry list list \<Rightarrow> entry list \<Rightarrow> bool" where
  "overriding lk ess es \<longleftrightarrow> sorted_wrt (<) (map fst es) \<and> length es \<le> sum_list (map length ess) \<and>
     set es \<subseteq> (\<Union>es' \<in> set ess. set es') \<and>
     (\<forall>k. map_of es k = (if lk = Some k then None else first_some (map (\<lambda>es'. map_of es' k) ess)))"

abbreviation ascending :: "entry list \<Rightarrow> bool" where
  "ascending es \<equiv> sorted_wrt (\<le>) (map fst es)"

lemma ascending_head: "ascending ((k, v) # es) \<Longrightarrow> k' < k \<Longrightarrow> map_of ((k, v) # es) k' = None"
  by (auto simp: map_of_eq_None_iff)

lemma sum_list_update_tl:
  "j < length ess \<Longrightarrow> ess ! j = e # es \<Longrightarrow> sum_list (map length ess) = Suc (sum_list (map length (ess[j := es])))"
proof (induction ess arbitrary: j)
  case (Cons x ess)
  then show ?case by (cases j) auto
qed simp

lemma above_least:
  assumes "\<forall>es \<in> set ess. ascending es" "i < length ess" "(k', v') \<in> set (ess ! i)"
    and least: "\<And>i. i < length ess \<Longrightarrow> ess ! i \<noteq> [] \<Longrightarrow> k \<le> fst (hd (ess ! i))"
  shows "k \<le> k'"
proof -
  have "ess ! i \<noteq> []" "ascending (ess ! i)" using assms(1-3) by auto
  then have "fst (hd (ess ! i)) \<le> k'" using assms(3) by (cases "ess ! i") auto
  with least [OF assms(2) \<open>ess ! i \<noteq> []\<close>] show ?thesis by auto
qed

lemma overriding_step:
  assumes asc: "\<forall>es \<in> set ess. ascending es" and j: "j < length ess" "ess ! j = (k, v) # es"
    and least: "\<And>i. i < length ess \<Longrightarrow> ess ! i \<noteq> [] \<Longrightarrow> k \<le> fst (hd (ess ! i)) \<and> (i < j \<longrightarrow> k < fst (hd (ess ! i)))"
    and out: "overriding (Some k) (ess[j := es]) out"
    and before: "\<And>l. lk = Some l \<Longrightarrow> l \<le> k"
  shows "overriding lk ess (if lk = Some k then out else (k, v) # out)"
proof -
  have len: "sum_list (map length ess) = Suc (sum_list (map length (ess[j := es])))"
    by (rule sum_list_update_tl [OF j])
  have sub: "(\<Union>es' \<in> set (ess[j := es]). set es') \<subseteq> (\<Union>es' \<in> set ess. set es')"
    using j nth_mem [OF j(1)] by (auto dest!: set_update_subset_insert [THEN subsetD])
  have kv: "(k, v) \<in> (\<Union>es' \<in> set ess. set es')" using j nth_mem [OF j(1)] by fastforce
  have low: "k \<le> k'" if "i < length ess" "(k', v') \<in> set (ess ! i)" for i k' v'
    using above_least [OF asc that] least by blast
  have at_k: "first_some (map (\<lambda>es'. map_of es' k) ess) = Some v"
  proof (rule first_some_nth [where i = j])
    show "map (\<lambda>es'. map_of es' k) ess ! i = None" if "i < j" for i
    proof (cases "ess ! i")
      case (Cons e es')
      have "ascending (ess ! i)" using asc that j(1) by simp
      moreover have "k < fst e" using least [of i] that j(1) Cons by simp
      ultimately show ?thesis using ascending_head [of "fst e" "snd e" es' k] Cons that j(1) by simp
    qed (use that j(1) in simp)
  qed (use j in simp_all)
  have other: "map (\<lambda>es'. map_of es' k') (ess[j := es]) = map (\<lambda>es'. map_of es' k') ess" if "k' \<noteq> k" for k'
    using j that by (intro nth_equalityI) (auto simp: nth_list_update)
  have above_k: "k < fst e" if e: "e \<in> set out" for e
  proof -
    obtain k' v' where e': "e = (k', v')" by fastforce
    have "e \<in> (\<Union>es' \<in> set ess. set es')" using out e sub unfolding overriding_def by blast
    then obtain i where i: "i < length ess" "e \<in> set (ess ! i)" by (metis UN_E in_set_conv_nth)
    then have "k \<le> k'" using low e' by blast
    moreover have "map_of out k = None" using out by (simp add: overriding_def)
    then have "k' \<noteq> k" using e e' by (force simp: map_of_eq_None_iff)
    ultimately show ?thesis using e' by simp
  qed
  have get: "map_of out k' = (if k' = k then None else first_some (map (\<lambda>es'. map_of es' k') ess))" for k'
    using out other [of k'] by (auto simp: overriding_def)
  have o: "sorted_wrt (<) (map fst out)" "length out < sum_list (map length ess)"
    "set out \<subseteq> (\<Union>es' \<in> set ess. set es')"
    using out len sub by (auto simp: overriding_def)
  show ?thesis
  proof (cases "lk = Some k")
    case True
    with o get show ?thesis by (simp add: overriding_def less_imp_le)
  next
    case False
    have "sorted_wrt (<) (map fst ((k, v) # out))" using o(1) above_k by simp
    moreover have "set ((k, v) # out) \<subseteq> (\<Union>es' \<in> set ess. set es')" using o(3) kv by simp
    moreover have "map_of ((k, v) # out) k' =
        (if lk = Some k' then None else first_some (map (\<lambda>es'. map_of es' k') ess))" for k'
    proof (cases "lk = Some k'")
      case True
      then have "k' < k" using before [of k'] False by auto
      then have "map_of (ess ! i) k' = None" if "i < length ess" for i
        using low [OF that, of k'] by (cases "map_of (ess ! i) k'") (use \<open>k' < k\<close> in \<open>auto simp: not_le [symmetric] dest!: map_of_SomeD\<close>)
      then have "x = None" if "x \<in> set (map (\<lambda>es'. map_of es' k') ess)" for x
        using that by (auto simp: in_set_conv_nth)
      then have "first_some (map (\<lambda>es'. map_of es' k') ess) = None" by (rule first_some_None)
      with get [of k'] True \<open>k' < k\<close> show ?thesis by simp
    next
      case False
      with get [of k'] at_k show ?thesis by simp
    qed
    ultimately show ?thesis using o(2) False by (simp add: overriding_def)
  qed
qed

lemma merge_loop_ok:
  assumes "rests env its ess" "\<forall>es \<in> set ess. ascending es"
    "\<And>l e. lk = Some l \<Longrightarrow> e \<in> set (concat ess) \<Longrightarrow> l \<le> fst e"
  shows "\<exists>es. overriding lk ess es \<and> (\<forall>b. merge_loop env lk its b = Some (builder_add_all env (as_versions es) b))"
  using assms
proof (induction "sum_list (map length ess)" arbitrary: lk its ess rule: less_induct)
  case less
  note len = rests_nth(3) [OF less.prems(1)]
  show ?case
  proof (cases rule: current_idx_cases [OF less.prems(1), case_names finished step])
    case finished
    then have "first_some (map (\<lambda>es'. map_of es' k) ess) = None" for k by (induction ess) auto
    then have "overriding lk ess []" by (simp add: overriding_def)
    moreover have "merge_loop env lk its b = Some (builder_add_all env (as_versions []) b)" for b
      using finished(1) by (simp add: merge_loop.simps as_versions_def)
    ultimately show ?thesis by blast
  next
    case (step idx k v es)
    have idx: "idx < length ess" using step(3) len [OF step(3)] by simp
    note hd = rests_head [OF less.prems(1) step(3,4)]
    obtain it' where it': "parse_entry env (its ! idx) = (it', Ok ())" "rests env (its[idx := it']) (ess[idx := es])"
      using hd(3) by blast
    have "ascending es" using less.prems(2) idx step(4) nth_mem [OF idx] by fastforce
    then have asc: "\<forall>es' \<in> set (ess[idx := es]). ascending es'"
      using less.prems(2) by (auto dest!: set_update_subset_insert [THEN subsetD])
    have "sum_list (map length (ess[idx := es])) < sum_list (map length ess)"
      using sum_list_update_tl [OF idx step(4)] by simp
    moreover have "l \<le> fst e" if l: "Some k = Some l" and e: "e \<in> set (concat (ess[idx := es]))" for l e
    proof -
      obtain i where "i < length ess" "(fst e, snd e) \<in> set (ess ! i)"
      proof -
        obtain es' where "es' \<in> insert es (set ess)" "e \<in> set es'"
          using e set_update_subset_insert [of ess idx es] by auto
        moreover have "set es \<subseteq> set (ess ! idx)" using step(4) by auto
        ultimately have "\<exists>es' \<in> set ess. e \<in> set es'" using nth_mem [OF idx] by blast
        then show thesis using that by (metis in_set_conv_nth prod.collapse)
      qed
      from above_least [OF less.prems(2) this] step(5) len [OF step(3)] l show ?thesis by simp
    qed
    ultimately obtain out where out: "overriding (Some k) (ess[idx := es]) out"
      "\<And>b. merge_loop env (Some k) (its[idx := it']) b = Some (builder_add_all env (as_versions out) b)"
      using less.hyps [OF _ it'(2) asc, of "Some k"] by blast
    have adv: "merged_advance env its = Ok (its[idx := it'])"
      using step(2) it'(1) by (simp add: merged_advance_def)
    let ?out = "if lk = Some k then out else (k, v) # out"
    have "merge_loop env lk its b = Some (builder_add_all env (as_versions ?out) b)" for b
      using step(1,2) hd(1,2) adv out(2)
      by (subst merge_loop.simps)
        (cases "lk = Some k"; cases "builder_add env (Key k 0) v b"; simp add: as_versions_def Let_def)
    moreover have "overriding lk ess ?out"
    proof (rule overriding_step [OF less.prems(2) idx step(4) _ out(1)])
      show "k \<le> fst (hd (ess ! i)) \<and> (i < idx \<longrightarrow> k < fst (hd (ess ! i)))" if "i < length ess" "ess ! i \<noteq> []" for i
        using step(5) [of i] len [OF step(3)] that by simp
      show "l \<le> k" if "lk = Some l" for l
        using less.prems(3) [OF that, of "(k, v)"] step(4) nth_mem [OF idx] by fastforce
    qed
    ultimately show ?thesis by blast
  qed
qed

section \<open>Opening the inputs\<close>

text \<open>A file that the builder wrote for these entries.\<close>

definition built :: "block_env \<Rightarrow> bytes \<Rightarrow> entry list \<Rightarrow> bool" where
  "built env contents es \<longleftrightarrow> (\<exists>estimated c bpk h vs. build_sst env estimated c bpk h vs = Ok contents \<and>
     sizes_ok estimated bpk vs \<and> data_entries vs = es)"

lemma built_open:
  assumes "lz4_block_ok env" "built env contents es"
  obtains c f blocks f0 where "\<And>i hc. open_sst i contents hc = Ok (table_of env c f blocks i hc)"
    "blocks_ok env c blocks" "concat (map fst blocks) = es"
    "f = fold bloom_add (map fst es) f0" "bloom_ok f0"
proof -
  from assms(2) obtain estimated c bpk h vs where vs: "build_sst env estimated c bpk h vs = Ok contents"
    "sizes_ok estimated bpk vs" "data_entries vs = es" unfolding built_def by blast
  obtain b blocks cur where b: "builder_add_all env vs (builder_new estimated c bpk h) = Ok b"
    "builds env (bloom_new (max estimated 1) bpk h) c (data_entries vs) blocks cur b"
    using builds_exists [OF assms(1) vs(2)] by blast
  note built = build_and_open [OF assms(1) vs(2) b]
  have "contents = table_bytes env c (fold bloom_add (map fst (data_entries vs)) (bloom_new (max estimated 1) bpk h))
      (if cur = [] then blocks else blocks @ [(cur, if blocks = [] then [] else snd (last blocks))])"
    using built(1) vs(1) by simp
  with built(2-4) vs(3) bloom_ok_new show thesis by (intro that) auto
qed

lemma built_get:
  assumes "lz4_block_ok env" "built env contents es" "sorted_wrt (<) (map fst es)"
  shows "\<exists>t. open_sst i contents hc = Ok t \<and> fst (sst_get env t k []) = Ok (live (map_of es k))"
proof -
  obtain c f blocks f0 where t: "\<And>i hc. open_sst i contents hc = Ok (table_of env c f blocks i hc)"
    "blocks_ok env c blocks" "concat (map fst blocks) = es" "f = fold bloom_add (map fst es) f0" "bloom_ok f0"
    using built_open [OF assms(1,2)] by metis
  have "fst (sst_get env (table_of env c f blocks i hc) k []) = Ok (live (map_of es k))"
    using sst_get_table(1) [OF t(2), of f f0 i hc "[]" k] t(3-5) assms(3) by simp
  with t(1) show ?thesis by blast
qed

lemma built_entries: "built env contents es \<Longrightarrow> list_all entry_ok es"
  by (auto simp: built_def sizes_ok_def)

lemma open_inputs_ok:
  assumes "lz4_block_ok env" "\<forall>i \<in> set is. \<exists>c. hm_get ssts i = Some c \<and> built env c (content i)"
  shows "\<exists>its. open_inputs env ssts is = Ok its \<and> rests env its (map content is)"
  using assms(2)
proof (induction "is")
  case Nil
  then show ?case by (simp add: rests_def)
next
  case (Cons i "is")
  obtain its where its: "open_inputs env ssts is = Ok its" "rests env its (map content is)"
    using Cons by auto
  obtain contents where i: "hm_get ssts i = Some contents" "built env contents (content i)" using Cons.prems by auto
  obtain c f blocks f0 where t: "\<And>hc. open_sst i contents hc = Ok (table_of env c f blocks i hc)"
    "blocks_ok env c blocks" "concat (map fst blocks) = content i"
    using built_open [OF assms(1) i(2)] by metis
  obtain it where "sst_iter_new env (table_of env c f blocks i False) [] = (it, Ok ())" "sst_iter_inv env it"
    "sst_iter_rest env it = as_versions (content i)"
    using sst_iter_new_ok [OF t(2), of f i False "[]"] t(3) by auto
  with its i(1) t(1) show ?case by (simp add: open_file_def rests_def)
qed

section \<open>Files and levels afterwards\<close>

lemma level_ids_ops [simp]:
  "level_ids (remove_sst level i m) l = (if l = level then filter (\<lambda>j. j \<noteq> i) (level_ids m l) else level_ids m l)"
  "level_ids (add_sst level i m) l = level_ids m l @ (if l = level then [i] else [])"
  "level_ids (snd (allocate_sst_id m)) l = level_ids m l"
  by (simp_all add: level_ids_def remove_sst_def add_sst_def drop_sst_def push_sst_def write_line_def
      allocate_sst_id_def Let_def split: option.split)

definition touched :: "compaction_task \<Rightarrow> u32 \<Rightarrow> bool" where
  "touched task l \<longleftrightarrow> l = task_level task \<or> l = output_level task"

lemma remove_inputs:
  assumes "fold (remove_input task) is (ssts, m) = (ssts', m')"
    "\<forall>i \<in> set is. i \<notin> set (level_ids m (task_level task)) \<or> i \<notin> set (level_ids m (output_level task))"
  shows "hm_get ssts' j = (if j \<in> set is then None else hm_get ssts j) \<and>
    level_ids m' l = (if touched task l then filter (\<lambda>j. j \<notin> set is) (level_ids m l) else level_ids m l)"
  using assms
proof (induction "is" arbitrary: ssts m)
  case (Cons i "is")
  obtain ssts1 m1 where s1: "remove_input task i (ssts, m) = (ssts1, m1)" by fastforce
  have f: "hm_get ssts1 j = (if j = i then None else hm_get ssts j)" for j
    using s1 by (auto simp: remove_input_def Let_def)
  have l: "level_ids m1 l = (if touched task l then filter (\<lambda>j. j \<noteq> i) (level_ids m l) else level_ids m l)" for l
    using s1 Cons.prems(2) by (auto simp: remove_input_def touched_def Let_def intro!: filter_True [symmetric] filter_cong)
  have IH: "hm_get ssts' j = (if j \<in> set is then None else hm_get ssts1 j) \<and>
    level_ids m' l = (if touched task l then filter (\<lambda>j. j \<notin> set is) (level_ids m1 l) else level_ids m1 l)"
    using Cons.prems s1 l by (intro Cons.IH) (auto simp: touched_def)
  then show ?case by (auto simp: f l conj_commute intro: filter_cong)
qed simp

section \<open>A whole compaction\<close>

lemma data_entries_versions: "data_entries (as_versions es) = es"
  by (induction es) (auto simp: data_entries_def as_versions_def)

lemma overriding_sizes:
  assumes "overriding lk (map content is) out" "env_ok env" "length is < 2 ^ 18"
    "sum_list (map (length \<circ> content) is) < 2 ^ 30" "\<forall>i \<in> set is. list_all entry_ok (content i)"
  shows "sizes_ok (length is * 1000) (le_bits_per_key env) (as_versions out)"
proof -
  have "max (max (length is * 1000) 1 * le_bits_per_key env) 64 \<le> 2 ^ 28 * 32"
    using assms(2,3) by (intro max.boundedI mult_mono) (auto simp: env_ok_def)
  then have "length (bits (bloom_new (max (length is * 1000) 1) (le_bits_per_key env) 0)) < 2 ^ 32"
    by (simp add: bloom_new_def Let_def del: max.bounded_iff)
  moreover have "list_all entry_ok out"
    using assms(1,5) by (fastforce simp: overriding_def list_all_iff)
  moreover have "length (as_versions out) < 2 ^ 30"
    using assms(1,4) by (simp add: overriding_def as_versions_def)
  ultimately show ?thesis by (simp add: sizes_ok_def data_entries_versions)
qed

text \<open>What the inputs of a compaction have to be.\<close>

definition inputs_ok ::
  "lsm_env \<Rightarrow> compaction_task \<Rightarrow> (u64, bytes) hmap \<Rightarrow> manifest \<Rightarrow> (u64 \<Rightarrow> entry list) \<Rightarrow> bool" where
  "inputs_ok env task ssts m content \<longleftrightarrow> input_ssts task \<noteq> [] \<and> length (input_ssts task) < 2 ^ 18 \<and>
     sum_list (map (length \<circ> content) (input_ssts task)) < 2 ^ 30 \<and> next_sst_id m \<notin> set (input_ssts task) \<and>
     (\<forall>i \<in> set (input_ssts task).
        (\<exists>f1. hm_get ssts i = Some f1 \<and> built (le_blocks env) f1 (content i)) \<and> ascending (content i) \<and>
        (i \<notin> set (level_ids m (task_level task)) \<or> i \<notin> set (level_ids m (output_level task))))"

lemma compact_ok:
  assumes env: "env_ok env" and inputs: "inputs_ok env task ssts m content"
  obtains f1 out m' ssts' where
    "compact env task ssts m = Some (Ok [next_sst_id m], ssts', m')"
    "overriding None (map content (input_ssts task)) out" "built (le_blocks env) f1 out"
    "\<And>j. hm_get ssts' j = (if j \<in> set (input_ssts task) then None else if j = next_sst_id m then Some f1 else hm_get ssts j)"
    "\<And>l. level_ids m' l = (if touched task l then filter (\<lambda>j. j \<notin> set (input_ssts task)) (level_ids m l)
       else level_ids m l) @ (if l = output_level task then [next_sst_id m] else [])"
proof -
  let ?is = "input_ssts task" and ?env = "le_blocks env"
  let ?b = "builder_new (length ?is * 1000) Uncompressed (le_bits_per_key env) (le_hashes env)"
  have lz4: "lz4_block_ok ?env" using env by (simp add: env_ok_def)
  have files: "\<forall>i \<in> set ?is. \<exists>f1. hm_get ssts i = Some f1 \<and> built ?env f1 (content i)"
    using inputs by (simp add: inputs_ok_def)
  obtain its where its: "open_inputs ?env ssts ?is = Ok its" "rests ?env its (map content ?is)"
    using open_inputs_ok [OF lz4 files] by blast
  have "\<forall>es \<in> set (map content ?is). ascending es" using inputs by (simp add: inputs_ok_def)
  from merge_loop_ok [OF its(2) this, of None] obtain out where out: "overriding None (map content ?is) out"
    "\<And>b. merge_loop ?env None its b = Some (builder_add_all ?env (as_versions out) b)" by auto
  have sizes: "sizes_ok (length ?is * 1000) (le_bits_per_key env) (as_versions out)"
    using inputs built_entries files by (intro overriding_sizes [OF out(1) env]) (auto simp: inputs_ok_def)
  obtain b blocks cur where b: "builder_add_all ?env (as_versions out) ?b = Ok b"
    "builds ?env (bloom_new (max (length ?is * 1000) 1) (le_bits_per_key env) (le_hashes env)) Uncompressed
       (data_entries (as_versions out)) blocks cur b"
    using builds_exists [OF lz4 sizes] by blast
  obtain f1 where f: "build_sst ?env (length ?is * 1000) Uncompressed (le_bits_per_key env) (le_hashes env)
      (as_versions out) = Ok f1"
    using build_and_open(1) [OF lz4 sizes b] by blast
  then have fin: "finish ?env b = Ok f1" using b(1) by (simp add: build_sst_def)
  have built: "built ?env f1 out"
    unfolding built_def using f sizes data_entries_versions by blast
  let ?m1 = "snd (allocate_sst_id m)"
  obtain ssts' m2 where fold: "fold (remove_input task) ?is (hm_insert (next_sst_id m) f1 ssts, ?m1) = (ssts', m2)"
    by fastforce
  have run: "compact env task ssts m = Some (Ok [next_sst_id m], ssts', add_sst (output_level task) (next_sst_id m) m2)"
    using inputs its(1) out(2) b(1) fin fold
    by (simp add: compact_def inputs_ok_def allocate_sst_id_def install_table_def)
  have eff: "hm_get ssts' j = (if j \<in> set ?is then None else hm_get (hm_insert (next_sst_id m) f1 ssts) j) \<and>
    level_ids m2 l = (if touched task l then filter (\<lambda>j. j \<notin> set ?is) (level_ids ?m1 l) else level_ids ?m1 l)" for j l
    using inputs by (intro remove_inputs [OF fold]) (simp add: inputs_ok_def)
  show thesis
    by (rule that [OF run out(1) built]) (use eff in simp_all)
qed

section \<open>The choice of the tables\<close>

text \<open>The products of the sizes do not wrap around for levels of less than \<open>2 ^ 40\<close> tables.\<close>

lemma level_full:
  assumes "n < 2 ^ 40" "l \<le> 5"
  shows "of_nat n * BASE_LEVEL_SIZE > BASE_LEVEL_SIZE * LEVEL_SIZE_MULTIPLIER ^ l \<longleftrightarrow> 10 ^ l < n"
proof -
  have e: "of_nat n * BASE_LEVEL_SIZE = of_nat (n * 10485760)"
    "BASE_LEVEL_SIZE * LEVEL_SIZE_MULTIPLIER ^ l = of_nat (10 ^ l * 10485760)"
    by (simp_all add: BASE_LEVEL_SIZE_def LEVEL_SIZE_MULTIPLIER_def)
  have "(10 :: nat) ^ l \<le> 10 ^ 5" using assms(2) by (intro power_increasing) simp_all
  then have "n * 10485760 < 2 ^ 64" "10 ^ l * 10485760 < (2 :: nat) ^ 64" using assms(1) by simp_all
  then have "unat (of_nat (n * 10485760) :: u64) = n * 10485760"
    "unat (of_nat (10 ^ l * 10485760) :: u64) = 10 ^ l * 10485760"
    using unat_u64 by blast+
  then show ?thesis unfolding e word_less_nat_alt by simp
qed

lemma bind_result_eq_Err:
  "bind_result r f = Err e \<longleftrightarrow> r = Err e \<or> (\<exists>x. r = Ok x \<and> f x = Err e)"
  by (cases r) auto

lemma overlapping_ids_sub: "overlapping_ids ssts sst is = Ok js \<Longrightarrow> set js \<subseteq> set is"
  by (induction "is" arbitrary: js) (fastforce split: result.splits if_splits)+

lemma level_inputs_ok:
  assumes "level_inputs ssts m l i = Ok js"
  shows "js \<noteq> [] \<and> hd js = i \<and> set js \<subseteq> insert i (set (level_ids m (l + 1)))"
  using assms overlapping_ids_sub
  by (auto simp: level_inputs_def level_ids_def split: option.splits result.splits) blast

definition picked :: "manifest \<Rightarrow> compaction_task \<Rightarrow> bool" where
  "picked m task \<longleftrightarrow> input_ssts task \<noteq> [] \<and> task_level task < 6 \<and> output_level task = task_level task + 1 \<and>
     set (input_ssts task) \<subseteq> set (level_ids m (task_level task)) \<union> set (level_ids m (output_level task)) \<and>
     (if task_level task = 0 then 4 \<le> length (level_ids m 0) \<and> set (level_ids m 0) \<subseteq> set (input_ssts task)
      else hd (input_ssts task) = hd (level_ids m (task_level task)) \<and>
        10 ^ unat (task_level task) < length (level_ids m (task_level task)))"

lemma pick_level_ok:
  assumes "\<forall>l. length (level_ids m l) < 2 ^ 40" "\<forall>l \<in> set ls. 1 \<le> l \<and> l \<le> 5"
  shows "case pick_level ssts m ls of
      Ok None \<Rightarrow> \<forall>l \<in> set ls. length (level_ids m (of_nat l)) \<le> 10 ^ l
    | Ok (Some task) \<Rightarrow> picked m task | Err e \<Rightarrow> False | Panic \<Rightarrow> True"
  using assms(2)
proof (induction ls)
  case (Cons l ls)
  have IH: "case pick_level ssts m ls of
      Ok None \<Rightarrow> \<forall>l \<in> set ls. length (level_ids m (of_nat l)) \<le> 10 ^ l
    | Ok (Some task) \<Rightarrow> picked m task | Err e \<Rightarrow> False | Panic \<Rightarrow> True" using Cons by simp
  have l: "1 \<le> l" "l \<le> 5" using Cons.prems by simp_all
  let ?ids = "level_ids m (of_nat l)"
  show ?case
  proof (cases "10 ^ l < length ?ids")
    case True
    then have ne: "?ids \<noteq> []" by auto
    then obtain meta where meta: "hm_get (mf_levels m) (of_nat l) = Some meta" "lm_sst_ids meta = ?ids"
      by (auto simp: level_ids_def split: option.splits)
    note meta = meta ne
    have pick: "pick_level ssts m (l # ls) = bind_result (level_inputs ssts m (of_nat l) (hd ?ids)) (\<lambda>inputs.
        Ok (Some \<lparr>task_level = of_nat l, input_ssts = inputs, output_level = of_nat l + 1\<rparr>))"
      using meta True level_full [OF assms(1) [rule_format, of "of_nat l"] l(2)] by simp
    have u: "unat (of_nat l :: u32) = l" using l(2) by (simp add: unsigned_of_nat take_bit_nat_eq_self)
    have "(of_nat l :: u32) \<noteq> 0" "(of_nat l :: u32) < 6"
      using l u by (auto simp: word_less_nat_alt simp flip: unat_eq_zero)
    then have "picked m \<lparr>task_level = of_nat l, input_ssts = js, output_level = of_nat l + 1\<rparr>"
      if "level_inputs ssts m (of_nat l) (hd ?ids) = Ok js" for js
      using level_inputs_ok [OF that] True meta(3) u by (auto simp: picked_def)
    moreover have "level_inputs ssts m (of_nat l) (hd ?ids) \<noteq> Err e" for e
    proof -
      have "overlapping_ids ssts sst is \<noteq> Err e" for sst "is"
      proof (induction "is")
        case (Cons i "is")
        then show ?case by (cases "overlapping_ids ssts sst is") (auto split: result.splits)
      qed simp
      then show ?thesis
        by (auto simp: level_inputs_def bind_result_eq_Err split: option.splits result.splits)
    qed
    ultimately show ?thesis unfolding pick by (cases "level_inputs ssts m (of_nat l) (hd ?ids)") auto
  next
    case False
    then have "pick_level ssts m (l # ls) = pick_level ssts m ls"
      using level_full [OF assms(1) [rule_format, of "of_nat l"] l(2)]
      by (auto simp: level_ids_def split: option.splits)
    with IH False show ?thesis by (auto split: result.splits option.splits)
  qed
qed simp

lemma pick_level0:
  assumes "4 \<le> length (level_ids m 0)"
  shows "pick_compaction ssts m =
    Ok (Some \<lparr>task_level = 0, input_ssts = level_ids m 0 @ level_ids m 1, output_level = 1\<rparr>)"
proof -
  obtain meta where "hm_get (mf_levels m) 0 = Some meta" "lm_sst_ids meta = level_ids m 0"
    using assms by (auto simp: level_ids_def split: option.splits)
  with assms show ?thesis
    by (simp add: pick_compaction_def LEVEL0_COMPACTION_TRIGGER_def level_ids_def [of m 1])
qed

section \<open>A small directory\<close>

text \<open>Four tables in level 0; the oldest and the newest have a value for the same key.\<close>

definition four_tables :: manifest where
  "four_tables = \<lparr>mf_file = [], mf_levels = [(0, \<lparr>lm_level = 0, lm_sst_ids = [1, 2, 3, 4]\<rparr>)],
     next_sst_id = 5, next_wal_id = 1\<rparr>"

definition four_contents :: "u64 \<Rightarrow> entry list" where
  "four_contents i = (if i = 1 then [([7], Some [1])] else if i = 4 then [([7], Some [2]), ([8], None)]
     else [([8], Some [3])])"

definition four_task :: compaction_task where
  "four_task = \<lparr>task_level = 0, input_ssts = [1, 2, 3, 4], output_level = 1\<rparr>"

lemma level_ids_four [simp]: "level_ids four_tables l = (if l = 0 then [1, 2, 3, 4] else [])"
  by (simp add: level_ids_def four_tables_def)

lemma built_exists:
  assumes "lz4_block_ok env" "list_all entry_ok es" "length es < 2 ^ 30"
  shows "\<exists>f1. built env f1 es"
proof -
  have "length (bits (bloom_new 1 0 0)) < 2 ^ 32" by (simp add: bloom_new_def)
  with assms(2,3) have s: "sizes_ok 1 0 (as_versions es)"
    by (simp add: sizes_ok_def data_entries_versions) (simp add: as_versions_def)
  obtain b blocks cur where b: "builder_add_all env (as_versions es) (builder_new 1 Uncompressed 0 0) = Ok b"
    "builds env (bloom_new (max 1 1) 0 0) Uncompressed (data_entries (as_versions es)) blocks cur b"
    using builds_exists [OF assms(1) s] by blast
  from build_and_open(1) [OF assms(1) s b] s show ?thesis
    unfolding built_def using data_entries_versions by blast
qed

lemma four_files:
  assumes "env_ok env"
  obtains ssts where "inputs_ok env four_task ssts four_tables four_contents"
proof -
  have lz4: "lz4_block_ok (le_blocks env)" using assms by (simp add: env_ok_def)
  have "\<exists>f1. built (le_blocks env) f1 (four_contents i)" for i
    by (rule built_exists [OF lz4]) (simp_all add: four_contents_def entry_ok_def)
  then obtain f where f: "\<And>i. built (le_blocks env) (f i) (four_contents i)" by metis
  have "inputs_ok env four_task [(1, f 1), (2, f 2), (3, f 3), (4, f 4)] four_tables four_contents"
    using f [of 1] f [of 2] f [of 3] f [of 4]
    by (simp add: inputs_ok_def four_task_def) (simp add: four_contents_def four_tables_def)
  then show thesis by (rule that)
qed

section \<open>The compacted table\<close>

lemma compacted:
  assumes "env_ok env" "inputs_ok env task ssts m content"
  shows "\<exists>ssts' m' f1 t. compact env task ssts m = Some (Ok [next_sst_id m], ssts', m') \<and>
    open_sst (next_sst_id m) f1 hc = Ok t \<and>
    (\<forall>k. fst (sst_get (le_blocks env) t k []) =
       Ok (live (first_some (map (\<lambda>i. map_of (content i) k) (input_ssts task))))) \<and>
    (\<forall>j. hm_get ssts' j = (if j \<in> set (input_ssts task) then None
       else if j = next_sst_id m then Some f1 else hm_get ssts j)) \<and>
    (\<forall>l. level_ids m' l =
       (if touched task l then filter (\<lambda>j. j \<notin> set (input_ssts task)) (level_ids m l) else level_ids m l) @
       (if l = output_level task then [next_sst_id m] else []))"
proof -
  obtain f1 out m' ssts' where c: "compact env task ssts m = Some (Ok [next_sst_id m], ssts', m')"
    "overriding None (map content (input_ssts task)) out" "built (le_blocks env) f1 out"
    "\<And>j. hm_get ssts' j = (if j \<in> set (input_ssts task) then None else if j = next_sst_id m then Some f1 else hm_get ssts j)"
    "\<And>l. level_ids m' l = (if touched task l then filter (\<lambda>j. j \<notin> set (input_ssts task)) (level_ids m l)
       else level_ids m l) @ (if l = output_level task then [next_sst_id m] else [])"
    using compact_ok [OF assms] by metis
  have lz4: "lz4_block_ok (le_blocks env)" using assms(1) by (simp add: env_ok_def)
  have out: "sorted_wrt (<) (map fst out)"
    "\<And>k. map_of out k = first_some (map (\<lambda>i. map_of (content i) k) (input_ssts task))"
    using c(2) by (auto simp: overriding_def comp_def)
  obtain t where t: "open_sst (next_sst_id m) f1 hc = Ok t" using built_get [OF lz4 c(3) out(1)] by blast
  have "fst (sst_get (le_blocks env) t k []) =
      Ok (live (first_some (map (\<lambda>i. map_of (content i) k) (input_ssts task))))" for k
    using built_get [OF lz4 c(3) out(1), of "next_sst_id m" hc k] t out(2) by auto
  with c(1,4,5) t show ?thesis by metis
qed

section \<open>Properties\<close>

text \<open>
  C14: a compaction is the overriding merge of its inputs. For built tables with ascending keys
  the merge ends and succeeds, the new table opens and answers for every key what the first
  input in the list that has the key answers, deletion markers included; the input files are
  gone, all others are as before, and in the manifest the inputs have left both levels and the
  new table is the last of the output level.
\<close>

theorem compaction_merges_tables:
  assumes "env_ok env" "inputs_ok env task ssts m content"
  shows "\<exists>ssts' m' f1 t. compact env task ssts m = Some (Ok [next_sst_id m], ssts', m') \<and>
    open_sst (next_sst_id m) f1 hc = Ok t \<and>
    (\<forall>k. fst (sst_get (le_blocks env) t k []) =
       Ok (live (first_some (map (\<lambda>i. map_of (content i) k) (input_ssts task))))) \<and>
    (\<forall>j. hm_get ssts' j = (if j \<in> set (input_ssts task) then None
       else if j = next_sst_id m then Some f1 else hm_get ssts j)) \<and>
    (\<forall>l. level_ids m' l =
       (if touched task l then filter (\<lambda>j. j \<notin> set (input_ssts task)) (level_ids m l) else level_ids m l) @
       (if l = output_level task then [next_sst_id m] else []))"
  by (rule compacted [OF assms])

lemma compaction_merges_tables_witness:
  "\<exists>ssts ssts' m' f1 t. compact stored_lsm_env four_task ssts four_tables = Some (Ok [5], ssts', m') \<and>
     open_sst 5 f1 False = Ok t \<and> fst (sst_get (le_blocks stored_lsm_env) t [8] []) = Ok (Some [3]) \<and>
     hm_get ssts' 5 = Some f1 \<and> hm_get ssts' 2 = None \<and> level_ids m' 1 = [5]"
proof -
  obtain ssts where ssts: "inputs_ok stored_lsm_env four_task ssts four_tables four_contents"
    using four_files [OF env_ok_stored] by blast
  have i: "next_sst_id four_tables = 5" by (simp add: four_tables_def)
  from compaction_merges_tables [OF env_ok_stored ssts, of False, unfolded i]
  obtain ssts' m' f1 t where c: "compact stored_lsm_env four_task ssts four_tables = Some (Ok [5], ssts', m')"
    "open_sst 5 f1 False = Ok t"
    "fst (sst_get (le_blocks stored_lsm_env) t [8] []) =
       Ok (live (first_some (map (\<lambda>i. map_of (four_contents i) [8]) (input_ssts four_task))))"
    "\<And>j. hm_get ssts' j = (if j \<in> set (input_ssts four_task) then None else if j = 5 then Some f1 else hm_get ssts j)"
    "level_ids m' 1 = (if touched four_task 1 then filter (\<lambda>j. j \<notin> set (input_ssts four_task)) (level_ids four_tables 1)
       else level_ids four_tables 1) @ (if 1 = output_level four_task then [5] else [])"
    by metis
  have "level_ids m' 1 = [5]" "hm_get ssts' 5 = Some f1" "hm_get ssts' 2 = None"
    "fst (sst_get (le_blocks stored_lsm_env) t [8] []) = Ok (Some [3])"
    using c(3,5) c(4) [of 5] c(4) [of 2] by (simp_all add: four_task_def four_contents_def)
  with c(1,2) show ?thesis by blast
qed

text \<open>
  The choice of a compaction. As long as no level has \<open>2 ^ 40\<close> tables, no size computation
  wraps around: nothing is chosen exactly when level 0 has fewer than four tables and no level
  \<open>l\<close> from 1 to 5 has more than \<open>10 ^ l\<close>; a chosen task has inputs, all from its level and the
  next one, takes all of level 0 or the first table of its level, and writes to the next level.
\<close>

theorem pick_within_levels:
  assumes "\<forall>l. length (level_ids m l) < 2 ^ 40"
  shows "case pick_compaction ssts m of
      Ok None \<Rightarrow> length (level_ids m 0) < 4 \<and> (\<forall>l \<in> {1..5}. length (level_ids m (of_nat l)) \<le> 10 ^ l)
    | Ok (Some task) \<Rightarrow> picked m task | Err e \<Rightarrow> False | Panic \<Rightarrow> True"
proof (cases "4 \<le> length (level_ids m 0)")
  case True
  note pick_level0 [OF this, of ssts]
  with True show ?thesis by (auto simp: picked_def)
next
  case False
  then have "pick_compaction ssts m = pick_level ssts m [1..<6]"
    by (auto simp: pick_compaction_def LEVEL0_COMPACTION_TRIGGER_def level_ids_def split: option.splits)
  moreover have "set [1..<6] = {1..5 :: nat}" by auto
  moreover obtain r where "pick_level ssts m [1..<6] = r" by simp
  ultimately show ?thesis
    using pick_level_ok [OF assms, of "[1..<6]" ssts] False by (auto split: result.splits option.splits)
qed

lemma pick_within_levels_witness:
  "picked four_tables four_task \<and> pick_compaction [] four_tables = Ok (Some four_task)"
proof -
  have "pick_compaction [] four_tables = Ok (Some four_task)"
    by (simp add: pick_level0 four_task_def)
  with pick_within_levels [of four_tables "[]"] show ?thesis by simp
qed

text \<open>
  C20: compacting level 0 brings overwritten values back. Its tables are merged in the order of
  the manifest, the oldest first, and between equal keys the merge prefers the first table:
  the new table answers the value of the oldest table, while the newest one, which lookups
  asked first, answered another, and is deleted.
\<close>

theorem compaction_keeps_oldest:
  assumes "env_ok env" "pick_compaction ssts m = Ok (Some task)" "task_level task = 0"
    "inputs_ok env task ssts m content" "\<forall>l. length (level_ids m l) < 2 ^ 40"
    "map_of (content (hd (level_ids m 0))) k = Some (Some old)"
    "map_of (content (last (level_ids m 0))) k = Some (Some new)"
    "sorted_wrt (<) (map fst (content (last (level_ids m 0))))"
  shows "\<exists>newest ssts' m' f1 t. open_file ssts (last (level_ids m 0)) = Ok newest \<and>
    fst (sst_get (le_blocks env) newest k []) = Ok (Some new) \<and>
    compact env task ssts m = Some (Ok [next_sst_id m], ssts', m') \<and> level_ids m' 0 = [] \<and>
    open_file ssts' (next_sst_id m) = Ok t \<and> fst (sst_get (le_blocks env) t k []) = Ok (Some old) \<and>
    open_file ssts' (last (level_ids m 0)) = Err (Io NotFound)"
proof -
  let ?ids = "level_ids m 0" and ?env = "le_blocks env"
  have lz4: "lz4_block_ok ?env" using assms(1) by (simp add: env_ok_def)
  have p: "picked m task" using pick_within_levels [OF assms(5), of ssts] assms(2) by simp
  then have len: "4 \<le> length ?ids" using assms(3) by (simp add: picked_def)
  then have ne: "?ids \<noteq> []" by auto
  have task: "input_ssts task = ?ids @ level_ids m 1" using pick_level0 [OF len, of ssts] assms(2) by simp
  let ?new = "last ?ids"
  have mem: "?new \<in> set (input_ssts task)" using task ne by simp
  then obtain f0 where f0: "hm_get ssts ?new = Some f0" "built ?env f0 (content ?new)"
    using assms(4) by (auto simp: inputs_ok_def)
  obtain newest where newest: "open_file ssts ?new = Ok newest" "fst (sst_get ?env newest k []) = Ok (Some new)"
    using built_get [OF lz4 f0(2) assms(8), of ?new False k] f0(1) assms(7) by (auto simp: open_file_def)
  obtain ssts' m' f1 t where c: "compact env task ssts m = Some (Ok [next_sst_id m], ssts', m')"
    "open_sst (next_sst_id m) f1 False = Ok t"
    "\<And>k. fst (sst_get ?env t k []) = Ok (live (first_some (map (\<lambda>i. map_of (content i) k) (input_ssts task))))"
    "\<And>j. hm_get ssts' j = (if j \<in> set (input_ssts task) then None else if j = next_sst_id m then Some f1 else hm_get ssts j)"
    "\<And>l. level_ids m' l = (if touched task l then filter (\<lambda>j. j \<notin> set (input_ssts task)) (level_ids m l) else level_ids m l) @
       (if l = output_level task then [next_sst_id m] else [])"
    using compacted [OF assms(1,4), of False] by metis
  have "input_ssts task = hd ?ids # tl ?ids @ level_ids m 1" using task ne by simp
  then have "first_some (map (\<lambda>i. map_of (content i) k) (input_ssts task)) = Some (Some old)"
    using assms(6) by simp
  then have old: "fst (sst_get ?env t k []) = Ok (Some old)" using c(3) [of k] by simp
  have out: "output_level task = 1" using p assms(3) by (simp add: picked_def)
  have "next_sst_id m \<notin> set (input_ssts task)" using assms(4) by (simp add: inputs_ok_def)
  then have t: "open_file ssts' (next_sst_id m) = Ok t" using c(2,4) by (simp add: open_file_def)
  have gone: "open_file ssts' ?new = Err (Io NotFound)" using c(4) mem by (simp add: open_file_def)
  have "level_ids m' 0 = []" using c(5) [of 0] task out assms(3) by (simp add: touched_def)
  with newest c(1) t old gone show ?thesis by blast
qed

lemma compaction_keeps_oldest_witness:
  "\<exists>ssts ssts' m' newest t. open_file ssts 4 = Ok newest \<and>
     fst (sst_get (le_blocks stored_lsm_env) newest [7] []) = Ok (Some [2]) \<and>
     compact stored_lsm_env four_task ssts four_tables = Some (Ok [5], ssts', m') \<and>
     open_file ssts' 5 = Ok t \<and> fst (sst_get (le_blocks stored_lsm_env) t [7] []) = Ok (Some [1])"
proof -
  obtain ssts where ssts: "inputs_ok stored_lsm_env four_task ssts four_tables four_contents"
    using four_files [OF env_ok_stored] by blast
  have "pick_compaction ssts four_tables = Ok (Some four_task)"
    by (simp add: pick_level0 four_task_def)
  moreover have "\<forall>l. length (level_ids four_tables l) < 2 ^ 40" by simp
  moreover have "task_level four_task = 0" "next_sst_id four_tables = 5"
    by (simp_all add: four_task_def four_tables_def)
  ultimately show ?thesis
    using compaction_keeps_oldest [OF env_ok_stored _ _ ssts, of "[7]" "[1]" "[2]"]
    by (simp add: four_contents_def del: level_ids_four) (simp, blast)
qed

text \<open>The open engine keeps the deleted table: its next scan does not find the file.\<close>

lemma scan_after_compaction_fails:
  assumes "level_tables s 0 \<noteq> []" "hm_get (lsm_ssts s) (sst_id (last (level_tables s 0))) = None"
  shows "build_l0_iterator env s start_key = Some (Err (Io NotFound))"
proof -
  obtain ts t where "level_tables s 0 = ts @ [t]" using assms(1) by (cases "level_tables s 0" rule: rev_cases) auto
  with assms(2) show ?thesis by (simp add: build_l0_iterator_def open_sst_iterator_def)
qed

end
