(* ===== verification/Lsm_Reopen.thy ===== *)
theory Lsm_Reopen
  imports Ordered_Scan
begin

text \<open>
  Closing and reopening the storage engine of \<open>crabstash-storage/src/lsm.rs\<close>: which writes of
  a run are read again from the manifest, the tables and the logs.
\<close>

section \<open>The manifest on disk\<close>

text \<open>The text of the manifest tells what the one in memory knows.\<close>

definition mirrors :: "manifest \<Rightarrow> bool" where
  "mirrors m \<longleftrightarrow> (\<exists>ops. mf_file m = lines_of ops \<and>
     (\<forall>f. follows True m (fold op_effect ops (manifest_create\<lparr>mf_file := f\<rparr>))))"

lemma mirrors_create: "mirrors manifest_create"
  unfolding mirrors_def by (rule exI [of _ "[]"]) (simp add: lines_of_def follows_def manifest_create_def)

lemma mirrors_run_ops:
  assumes "AllocateSst \<notin> set ops" "AllocateWal \<notin> set ops"
  shows "mirrors (run_ops ops)"
  unfolding mirrors_def
proof (intro exI [of _ ops] conjI allI)
  show "follows True (run_ops ops) (fold op_effect ops (manifest_create\<lparr>mf_file := f\<rparr>))" for f
    unfolding run_ops_def by (rule follows_run) (use assms in \<open>simp_all add: follows_def\<close>)
qed (rule run_ops_lines)

lemma mirrors_open:
  assumes "mirrors m"
  obtains m' where "manifest_open (mf_file m) = Ok m'" "follows True m m'"
proof -
  obtain ops where ops: "mf_file m = lines_of ops"
    "\<And>f. follows True m (fold op_effect ops (manifest_create\<lparr>mf_file := f\<rparr>))"
    using assms unfolding mirrors_def by blast
  from open_lines [of ops] ops(1)
  have "manifest_open (mf_file m) = Ok (fold op_effect ops (manifest_create\<lparr>mf_file := mf_file m\<rparr>))" by simp
  then show thesis using ops(2) that by blast
qed

definition rotation_ops :: "manifest \<Rightarrow> manifest_op list" where
  "rotation_ops m = [AllocateWal, AddWal (next_wal_id m), AllocateSst, AddSst 0 (next_sst_id m)]"

lemma max_successor: "(i :: u64) \<noteq> - 1 \<Longrightarrow> max i (i + 1) = i + 1"
  using less_successor [of i] by (simp add: max_def)

lemma mirrors_rotate:
  assumes "mirrors m" "next_wal_id m \<noteq> - 1" "next_sst_id m \<noteq> - 1"
  shows "mirrors (fold run_op (rotation_ops m) m)"
proof -
  obtain ops where ops: "mf_file m = lines_of ops"
    "\<And>f. follows True m (fold op_effect ops (manifest_create\<lparr>mf_file := f\<rparr>))"
    using assms(1) unfolding mirrors_def by blast
  have "mf_file (fold run_op (rotation_ops m) m) =
      lines_of (ops @ rotation_ops m)"
    by (simp add: run_ops_file ops(1) lines_of_def)
  moreover have "follows True (fold run_op (rotation_ops m) m)
      (fold op_effect (ops @ rotation_ops m) (manifest_create\<lparr>mf_file := f\<rparr>))" for f
    using ops(2) [of f] max_successor [OF assms(2)] max_successor [OF assms(3)]
    by (auto simp: rotation_ops_def follows_def add_sst_def add_wal_def write_line_def allocate_sst_id_def
        allocate_wal_id_def push_sst_def note_wal_def Let_def split: option.splits)
  ultimately show ?thesis unfolding mirrors_def by blast
qed

section \<open>A rotation, field by field\<close>

lemma rotate_memtable_fields:
  assumes "rotate_memtable env s = (Ok (), s')"
  obtains t contents where
    "open_sst (next_sst_id (lsm_manifest s)) contents True = Ok t"
    "lsm_ssts s' = hm_insert (next_sst_id (lsm_manifest s)) contents (lsm_ssts s)"
    "lsm_levels s' = hm_insert 0 (level_tables s 0 @ [t]) (lsm_levels s)"
    "lsm_manifest s' = fold run_op (rotation_ops (lsm_manifest s)) (lsm_manifest s)"
    "lsm_wals s' = hm_remove (next_wal_id (lsm_manifest s))
       (hm_insert (lsm_wal_id s) (drop_wal (lsm_wal s)) (lsm_wals s))"
    "lsm_wal s' = create_with_options default_wal_options" "lsm_wal_id s' = next_wal_id (lsm_manifest s)"
  using assms
  by (auto simp: rotate_memtable_def flush_immutable_def Let_def rotation_ops_def allocate_wal_id_def
      allocate_sst_id_def add_wal_def write_line_def note_wal_def level_tables_def
      split: result.splits)

section \<open>Replaying records\<close>

definition is_put :: "wal_record \<Rightarrow> bool" where
  "is_put r \<longleftrightarrow> rec_type r = Put \<and> rec_value r \<noteq> None \<and> record_ok r"

definition pair_of :: "wal_record \<Rightarrow> bytes \<times> bytes" where
  "pair_of r = (rec_key r, the (rec_value r))"

lemma replayed_memtable:
  assumes "sorted_wrt (<) (map rec_timestamp rs)" "list_all is_put rs"
  defines "mt \<equiv> fold apply_record rs new_memtable"
  shows "skip_ok (mt_map mt)" "(kt, v) \<in> set (mt_map mt) \<Longrightarrow> key_timestamp kt \<in> rec_timestamp ` set rs"
    "memtable_view mt k = map_option Some (map_of (rev (map pair_of rs)) k)"
proof -
  have "skip_ok (mt_map mt) \<and> (\<forall>(kt, v) \<in> set (mt_map mt). key_timestamp kt \<in> rec_timestamp ` set rs) \<and>
    memtable_view mt k = map_option Some (map_of (rev (map pair_of rs)) k)"
    using assms(1,2) unfolding mt_def
  proof (induction rs rule: rev_induct)
    case Nil
    then show ?case by (simp add: skip_ok_new skip_ok_nil memtable_view_def data_entries_def)
  next
    case (snoc r rs)
    let ?mt = "fold apply_record rs new_memtable"
    have IH: "skip_ok (mt_map ?mt)" "\<And>kt v. (kt, v) \<in> set (mt_map ?mt) \<Longrightarrow> key_timestamp kt \<in> rec_timestamp ` set rs"
      "memtable_view ?mt k = map_option Some (map_of (rev (map pair_of rs)) k)"
      using snoc by (auto simp: sorted_wrt_append)
    have newer: "key_timestamp kt < rec_timestamp r" if "(kt, v) \<in> set (mt_map ?mt)" for kt v
      using IH(2) [OF that] snoc.prems(1) by (auto simp: sorted_wrt_append)
    obtain v where r: "rec_type r = Put" "rec_value r = Some v"
      using snoc.prems(2) by (auto simp: is_put_def)
    let ?mt' = "skip_insert (Key (rec_key r) (rec_timestamp r)) (Some v) (mt_map ?mt)"
    have mt': "mt_map (fold apply_record (rs @ [r]) new_memtable) = ?mt'"
      using r by (simp add: apply_record_map)
    have "key_timestamp kt \<in> rec_timestamp ` set (rs @ [r])" if "(kt, w) \<in> set ?mt'" for kt w
      using skip_insert_mem [OF that] IH(2) by auto
    moreover have "map_of (data_entries ?mt') k =
        (if k = rec_key r then Some (Some v) else memtable_view ?mt k)"
      unfolding memtable_view_def by (rule newest_write [OF IH(1) newer])
    moreover have "pair_of r = (rec_key r, v)" using r by (simp add: pair_of_def)
    ultimately show ?case
      using r IH(1,3) mt' by (auto simp: memtable_view_def skip_ok_insert)
  qed
  then show "skip_ok (mt_map mt)" "(kt, v) \<in> set (mt_map mt) \<Longrightarrow> key_timestamp kt \<in> rec_timestamp ` set rs"
    "memtable_view mt k = map_option Some (map_of (rev (map pair_of rs)) k)" by auto
qed

abbreviation log_of :: "lsm_env \<Rightarrow> wal_record list \<Rightarrow> bytes" where
  "log_of env \<equiv> log_bytes (env_crc (le_blocks env)) (le_wal_compress env) default_wal_options"

lemma replay_logs_range:
  assumes "lz4_ok (le_wal_compress env) (le_wal_decompress env)"
    "\<And>i. i < length ls \<Longrightarrow> hm_get wals (of_nat (Suc (j + i))) = Some (log_of env (ls ! i))"
    "list_all (list_all record_ok) ls"
  shows "replay_logs env wals [Suc j..<Suc (j + length ls)] mt = Ok (fold apply_record (concat ls) mt)"
  using assms(2,3)
proof (induction ls arbitrary: j mt)
  case (Cons l ls)
  have "hm_get wals (of_nat (Suc j)) = Some (log_of env l)" using Cons.prems(1) [of 0] by simp
  moreover have "recover (env_crc (le_blocks env)) (le_wal_decompress env) (log_of env l) = Ok l"
    using Cons.prems(2) by (intro recover_log [OF _ assms(1)]) simp
  moreover have "replay_logs env wals [Suc (Suc j)..<Suc (Suc j + length ls)] mt' =
      Ok (fold apply_record (concat ls) mt')" for mt'
    using Cons.prems(1) [of "Suc _"] Cons.prems(2) by (intro Cons.IH) auto
  ultimately show ?case by (simp add: upt_conv_Cons del: upt_Suc)
qed simp

section \<open>What a run leaves on disk\<close>

text \<open>
  The tables of level 0 in the engine, in its manifest and in the files, and the manifest in
  its text.
\<close>

definition stored :: "sstable list \<Rightarrow> lsm \<Rightarrow> bool" where
  "stored ts s \<longleftrightarrow> lsm_levels s = (if ts = [] then [] else [(0, ts)]) \<and>
     mf_levels (lsm_manifest s) =
       (if ts = [] then [] else [(0, \<lparr>lm_level = 0, lm_sst_ids = map sst_id ts\<rparr>)]) \<and>
     (\<forall>t \<in> set ts. on_disk s t) \<and> mirrors (lsm_manifest s)"

lemma storedD:
  assumes "stored ts s"
  shows "lsm_levels s = (if ts = [] then [] else [(0, ts)])"
    "mf_levels (lsm_manifest s) =
       (if ts = [] then [] else [(0, \<lparr>lm_level = 0, lm_sst_ids = map sst_id ts\<rparr>)])"
    "t \<in> set ts \<Longrightarrow> on_disk s t" "mirrors (lsm_manifest s)"
  using assms unfolding stored_def by auto

lemma tables_of_level0: "lsm_levels s = (if ts = [] then [] else [(0, ts)]) \<Longrightarrow> tables_in_order s = rev ts"
  by (simp add: tables_in_order_def level_tables_def upt_rec)

lemma stored_cong:
  "lsm_levels s' = lsm_levels s \<Longrightarrow> lsm_manifest s' = lsm_manifest s \<Longrightarrow> lsm_ssts s' = lsm_ssts s \<Longrightarrow>
     stored ts s' = stored ts s"
  by (simp add: stored_def on_disk_def)

lemma stored_rotated:
  assumes st: "stored ts s"
    and s: "rotate_memtable env s = (Ok (), s')" "lsm_ok env s" "flushed env s s'"
    and ids: "next_wal_id (lsm_manifest s) \<noteq> - 1" "next_sst_id (lsm_manifest s) \<noteq> - 1"
  obtains t where "stored (ts @ [t]) s'" "next_wal_id (lsm_manifest s') = next_wal_id (lsm_manifest s) + 1"
proof -
  let ?m = "lsm_manifest s"
  note d = storedD [OF st]
  obtain t contents where t: "open_sst (next_sst_id ?m) contents True = Ok t"
    "lsm_ssts s' = hm_insert (next_sst_id ?m) contents (lsm_ssts s)"
    "lsm_levels s' = hm_insert 0 (level_tables s 0 @ [t]) (lsm_levels s)"
    "lsm_manifest s' = fold run_op (rotation_ops ?m) ?m"
    by (rule rotate_memtable_fields [OF s(1)])
  have levels: "lsm_levels s' = [(0, ts @ [t])]"
    using t(3) d(1) by (simp add: level_tables_def)
  obtain u where u: "tables_in_order s' = u # tables_in_order s" "sst_id u = next_sst_id ?m"
    using s(3) by (auto simp: flushed_def)
  have tid: "sst_id t = next_sst_id ?m"
    using u tables_of_level0 [of s' "ts @ [t]"] levels tables_of_level0 [OF d(1)] by simp
  have mlevels: "mf_levels (lsm_manifest s') = [(0, \<lparr>lm_level = 0, lm_sst_ids = map sst_id (ts @ [t])\<rparr>)]"
    and mnext: "next_wal_id (lsm_manifest s') = next_wal_id ?m + 1"
    using d(2) max_successor [OF ids(1)]
    by (simp_all add: t(4) rotation_ops_def add_sst_def add_wal_def write_line_def allocate_sst_id_def
        allocate_wal_id_def push_sst_def note_wal_def Let_def tid)
  have "on_disk s' v" if "v \<in> set (ts @ [t])" for v
  proof (cases "v = t")
    case False
    with that have v: "v \<in> set ts" by simp
    then have "sst_id v < next_sst_id ?m" using lsm_okD(4) [OF s(2), of v] tables_of_level0 [OF d(1)] by simp
    with d(3) [OF v] t(2) show ?thesis by (auto simp: on_disk_def)
  qed (use t(1,2) tid in \<open>auto simp: on_disk_def\<close>)
  then have "stored (ts @ [t]) s'"
    using levels mlevels mirrors_rotate [OF d(4) ids] t(4) by (simp add: stored_def)
  from that [OF this mnext] show thesis .
qed

text \<open>
  \<open>n\<close> puts are still to come. The puts so far are those in the tables whose log is gone
  (\<open>old\<close>), those of the closed logs, and those of the current log, which make up the memtable.
  Logs are named from 1 on; until the first rotation the current log has the next identifier.
\<close>

definition durable :: "lsm_env \<Rightarrow> nat \<Rightarrow> wal_record list \<Rightarrow> wal_record list list \<Rightarrow>
    wal_record list \<Rightarrow> sstable list \<Rightarrow> lsm \<Rightarrow> bool" where
  "durable env n old logs cur ts s \<longleftrightarrow>
     length logs = length ts - 1 \<and> (ts = [] \<longrightarrow> old = []) \<and> length ts + n < 2 ^ 62 \<and>
     list_all is_put (old @ concat logs @ cur) \<and>
     sorted_wrt (<) (map rec_timestamp (old @ concat logs @ cur)) \<and>
     (\<forall>r \<in> set (old @ concat logs @ cur). rec_timestamp r < lsm_next_ts s) \<and>
     lsm_memtable s = fold apply_record cur new_memtable \<and>
     stored ts s \<and> next_wal_id (lsm_manifest s) = of_nat (Suc (length ts)) \<and>
     lsm_wal_id s = of_nat (max 1 (length ts)) \<and>
     (\<forall>i < length logs. hm_get (lsm_wals s) (of_nat (Suc i)) = Some (log_of env (logs ! i))) \<and>
     stream (lsm_wal s) = log_of env cur \<and> wal_opts (lsm_wal s) = default_wal_options"

lemma durableD:
  assumes "durable env n old logs cur ts s"
  shows "length logs = length ts - 1" "ts = [] \<Longrightarrow> old = []" "length ts + n < 2 ^ 62"
    "list_all is_put (old @ concat logs @ cur)"
    "sorted_wrt (<) (map rec_timestamp (old @ concat logs @ cur))"
    "r \<in> set (old @ concat logs @ cur) \<Longrightarrow> rec_timestamp r < lsm_next_ts s"
    "lsm_memtable s = fold apply_record cur new_memtable"
    "lsm_levels s = (if ts = [] then [] else [(0, ts)])"
    "mf_levels (lsm_manifest s) =
       (if ts = [] then [] else [(0, \<lparr>lm_level = 0, lm_sst_ids = map sst_id ts\<rparr>)])"
    "t \<in> set ts \<Longrightarrow> on_disk s t" "mirrors (lsm_manifest s)"
    "next_wal_id (lsm_manifest s) = of_nat (Suc (length ts))" "lsm_wal_id s = of_nat (max 1 (length ts))"
    "i < length logs \<Longrightarrow> hm_get (lsm_wals s) (of_nat (Suc i)) = Some (log_of env (logs ! i))"
    "stream (lsm_wal s) = log_of env cur" "wal_opts (lsm_wal s) = default_wal_options"
  using assms unfolding durable_def stored_def by auto

lemma durable_fresh: "n < 2 ^ 62 \<Longrightarrow> durable env n [] [] [] [] (fresh_lsm opts)"
  by (simp add: durable_def stored_def fresh_lsm_def mirrors_create) (simp add: manifest_create_def)

lemma put_at_simps [simp]:
  "rec_timestamp (put_at k v s) = lsm_next_ts s" "pair_of (put_at k v s) = (k, v)"
  "pair_ok (k, v) \<Longrightarrow> is_put (put_at k v s)"
  by (simp_all add: put_at_def pair_of_def is_put_def pair_ok_def record_ok_def)

lemma durable_written:
  assumes "durable env (Suc n) old logs cur ts s" "pair_ok (k, v)" "lsm_next_ts s \<noteq> - 1"
  shows "durable env n old logs (cur @ [put_at k v s]) ts (written env (put_at k v s) s)"
proof -
  let ?r = "put_at k v s"
  note d = durableD [OF assms(1)]
  have less: "lsm_next_ts s < lsm_next_ts s + 1" by (rule less_successor [OF assms(3)])
  have fields: "lsm_ssts (written env ?r s) = lsm_ssts s" "lsm_wals (written env ?r s) = lsm_wals s"
    "lsm_wal_id (written env ?r s) = lsm_wal_id s"
    "stream (lsm_wal (written env ?r s)) = log_of env (cur @ [?r])"
    "wal_opts (lsm_wal (written env ?r s)) = default_wal_options"
    using d(15,16) by (simp_all add: written_def)
  have "sorted_wrt (<) (map rec_timestamp (old @ concat logs @ cur @ [?r]))"
    using d(5,6) by (auto simp: sorted_wrt_append)
  moreover have "rec_timestamp r < lsm_next_ts s + 1" if "r \<in> set (old @ concat logs @ cur @ [?r])" for r
    using that d(6) [of r] less by (auto intro: less_trans)
  ultimately show ?thesis
    using d(1-4,7-14) assms(2) fields by (auto simp: durable_def stored_def on_disk_def)
qed

lemma durable_rotated:
  assumes d: "durable env n old logs cur ts s" and room: "length ts + Suc n < 2 ^ 62"
    and s: "rotate_memtable env s = (Ok (), s')" "lsm_ok env s" "flushed env s s'"
    "lsm_next_ts s' = lsm_next_ts s" "next_sst_id (lsm_manifest s) \<noteq> - 1"
  shows "\<exists>old' logs' ts'. durable env n old' logs' [] ts' s' \<and> old' @ concat logs' = old @ concat logs @ cur"
proof -
  let ?m = "lsm_manifest s" and ?k = "length ts"
  have st: "stored ts s" using d by (simp add: durable_def)
  note d = durableD [OF d]
  have wals': "lsm_wals s' = hm_remove (next_wal_id ?m) (hm_insert (lsm_wal_id s) (drop_wal (lsm_wal s)) (lsm_wals s))"
    "lsm_wal s' = create_with_options default_wal_options" "lsm_wal_id s' = next_wal_id ?m"
    by (rule rotate_memtable_fields [OF s(1)]; assumption)+
  have ids: "(of_nat i :: u64) = of_nat j \<longleftrightarrow> i = j" if "i < 2 ^ 62" "j < 2 ^ 62" for i j
    using that by (intro of_nat_u64_inj) simp_all
  have next_unat: "unat (next_wal_id ?m) = Suc ?k" using d(3) by (simp add: d(12) unat_u64 del: of_nat_Suc)
  have wal_ne: "next_wal_id ?m \<noteq> - 1" using counter_step(1) [of "next_wal_id ?m"] next_unat d(3) by simp
  obtain t where t: "stored (ts @ [t]) s'" "next_wal_id (lsm_manifest s') = next_wal_id ?m + 1"
    by (rule stored_rotated [OF st s(1-3) wal_ne s(5)])
  define old' logs' where "old' = (if ts = [] then cur else old)" and "logs' = (if ts = [] then [] else logs @ [cur])"
  have all: "old' @ concat logs' = old @ concat logs @ cur"
    using d(1,2) by (auto simp: old'_def logs'_def)
  have wals: "hm_get (lsm_wals s') (of_nat (Suc i)) = Some (log_of env (logs' ! i))" if i: "i < length logs'" for i
  proof -
    have ts: "ts \<noteq> []" "logs' = logs @ [cur]" using i by (auto simp: logs'_def split: if_splits)
    then have k: "?k = Suc (length logs)" using d(1) by (cases ts) auto
    with i ts have le: "Suc i \<le> ?k" by simp
    have ne: "(of_nat (Suc i) :: u64) \<noteq> next_wal_id ?m"
      unfolding d(12) using ids [of "Suc i" "Suc ?k"] le room by simp
    have eq: "(of_nat (Suc i) :: u64) = lsm_wal_id s \<longleftrightarrow> i = length logs"
      unfolding d(13) using ids [of "Suc i" ?k] le room k by simp
    show ?thesis
    proof (cases "i = length logs")
      case True
      then show ?thesis using ne eq d(15) ts(2) by (simp add: wals'(1) drop_wal_stream del: of_nat_Suc)
    next
      case False
      with i ts have "i < length logs" by simp
      with d(14) [of i] False ne eq ts(2) show ?thesis by (simp add: wals'(1) nth_append del: of_nat_Suc)
    qed
  qed
  have "lsm_memtable s' = new_memtable" using s(3) by (simp add: flushed_def)
  then have "durable env n old' logs' [] (ts @ [t]) s'"
    unfolding durable_def
    using all d(1,4,5,6,12) t wals room wals'(2,3) s(4) by (simp add: logs'_def)
  with all show ?thesis by blast
qed

lemma durable_put:
  assumes env: "env_ok env" and inv: "puts_inv env (Suc n) s" and d: "durable env (Suc n) old logs cur ts s"
    and k: "k \<notin> mt_keys (lsm_memtable s)" "pair_ok (k, v)"
  obtains s' old' logs' cur' ts' where "lsm_put env k v s = (Ok (), s')" "puts_inv env n s'"
    "durable env n old' logs' cur' ts' s'"
    "map pair_of (old' @ concat logs' @ cur') = map pair_of (old @ concat logs @ cur) @ [(k, v)]"
proof -
  let ?s1 = "written env (put_at k v s) s"
  have room: "room (Suc n) s" and ok: "lsm_ok env s" using inv by (simp_all add: puts_inv_def)
  have d1: "durable env n old logs (cur @ [put_at k v s]) ts ?s1"
    by (rule durable_written [OF d k(2) room_counters(1) [OF room]])
  have ok1: "lsm_ok env ?s1" by (rule written_ok [OF ok _ room_counters(1) [OF room]]) simp
  obtain s' where s': "lsm_put env k v s = (Ok (), s')" "puts_inv env n s'"
    using lsm_put_ok [OF env inv k] by metis
  have "\<exists>old' logs' cur' ts'. durable env n old' logs' cur' ts' s' \<and>
      old' @ concat logs' @ cur' = old @ concat logs @ cur @ [put_at k v s]"
  proof (cases "mt_size (lsm_memtable ?s1) \<ge> opt_memtable_size (lsm_options ?s1)")
    case False
    with s'(1) have "s' = ?s1" by (simp add: lsm_put_written rotate_if_full_def)
    with d1 show ?thesis by fastforce
  next
    case True
    with s'(1) have rot: "rotate_memtable env ?s1 = (Ok (), s')"
      by (simp add: lsm_put_written rotate_if_full_def)
    have c1: "clean_memtable (lsm_memtable ?s1)" "room n ?s1"
      using written_step(2,3) [OF ok _ room, of "put_at k v s"] inv k
      by (auto simp: puts_inv_def put_at_def pair_ok_def)
    then have fl: "flushable env (lsm_memtable ?s1)"
      using lsm_okD(1) [OF ok1] env by (intro clean_flushable) (auto simp: room_def)
    have id: "next_sst_id (lsm_manifest ?s1) \<noteq> - 1"
      using room counter_step(1) [of "next_sst_id (lsm_manifest s)"] by (simp add: room_def)
    have "flushed env ?s1 s'" "lsm_next_ts s' = lsm_next_ts ?s1"
      using rotate_memtable_ok [OF _ ok1 fl id] env rot by (auto simp: env_ok_def)
    from durable_rotated [OF d1 _ rot ok1 this id] durableD(3) [OF d]
    obtain old' logs' ts' where "durable env n old' logs' [] ts' s'"
      "old' @ concat logs' = old @ concat logs @ cur @ [put_at k v s]" by auto
    then show ?thesis by (metis append_Nil2)
  qed
  then obtain old' logs' cur' ts' where d': "durable env n old' logs' cur' ts' s'"
      "old' @ concat logs' @ cur' = old @ concat logs @ cur @ [put_at k v s]" by blast
  have "map pair_of (old' @ concat logs' @ cur') = map pair_of (old @ concat logs @ cur) @ [(k, v)]"
    unfolding d'(2) by simp
  with s' d'(1) that show thesis by blast
qed

lemma durable_run:
  assumes "env_ok env" "puts_inv env (length kvs) s" "durable env (length kvs) old logs cur ts s"
    "puts_spaced env kvs s" "list_all pair_ok kvs"
  shows "\<exists>s' old' logs' cur' ts'. run_puts env kvs s = (Ok (), s') \<and> puts_inv env 0 s' \<and>
     durable env 0 old' logs' cur' ts' s' \<and>
     map pair_of (old' @ concat logs' @ cur') = map pair_of (old @ concat logs @ cur) @ kvs"
  using assms(2-5)
proof (induction kvs arbitrary: s old logs cur ts)
  case Nil
  then show ?case by auto
next
  case (Cons kv kvs)
  obtain k v where kv: "kv = (k, v)" by fastforce
  obtain s1 old1 logs1 cur1 ts1 where s1: "lsm_put env k v s = (Ok (), s1)" "puts_inv env (length kvs) s1"
    "durable env (length kvs) old1 logs1 cur1 ts1 s1"
    "map pair_of (old1 @ concat logs1 @ cur1) = map pair_of (old @ concat logs @ cur) @ [(k, v)]"
    using durable_put [OF assms(1), of "length kvs" s old logs cur ts k v] Cons.prems kv
    by (simp del: map_append) metis
  from Cons.IH [OF s1(2,3)] Cons.prems(3,4) kv s1(1)
  obtain s' old' logs' cur' ts' where "run_puts env kvs s1 = (Ok (), s')" "puts_inv env 0 s'"
     "durable env 0 old' logs' cur' ts' s'"
     "map pair_of (old' @ concat logs' @ cur') = map pair_of (old1 @ concat logs1 @ cur1) @ kvs"
    by auto
  with s1(1,4) kv show ?case by (auto simp del: map_append simp: map_append [symmetric])
qed

section \<open>Opening again\<close>

lemma open_tables_on_disk:
  "\<forall>t \<in> set ts. on_disk s t \<Longrightarrow> open_tables (lsm_ssts s) (map sst_id ts) = Ok ts"
  by (induction ts) (auto simp: on_disk_def)

lemma tables_valid_no_cache: "tables_valid env ts cache \<Longrightarrow> tables_valid env ts []"
  by (auto simp: tables_valid_def cache_coherent_empty)

text \<open>Until the first rotation nothing is found; afterwards the closed logs and the current one are replayed.\<close>

lemma reopened_state:
  assumes lz4: "lz4_ok (le_wal_compress env) (le_wal_decompress env)" and d: "durable env n old logs cur ts s"
  defines "rs \<equiv> if ts = [] then [] else concat logs @ cur"
  obtains s' where "lsm_open env (lsm_close (lsm_sync s)) opts = Ok s'" "lsm_immutables s' = []"
    "lsm_cache s' = []" "lsm_levels s' = lsm_levels s" "lsm_memtable s' = fold apply_record rs new_memtable"
    "lsm_next_ts s' = 1" "lsm_wal_id s' = of_nat (Suc (length ts))"
proof -
  let ?m = "lsm_manifest s" and ?k = "length ts"
  note d = durableD [OF d]
  obtain m' where m': "manifest_open (mf_file ?m) = Ok m'" "mf_levels m' = mf_levels ?m"
    "next_wal_id m' = of_nat (Suc ?k)"
    using mirrors_open [OF d(11)] d(12) by (metis follows_def)
  let ?wals = "hm_remove (of_nat (Suc ?k)) (hm_insert (lsm_wal_id s) (log_of env cur) (lsm_wals s))"
  have nw: "unat (of_nat (Suc ?k) :: u64) = Suc ?k" using d(3) by (simp add: unat_u64 del: of_nat_Suc)
  have ids: "(of_nat i :: u64) = of_nat j \<longleftrightarrow> i = j" if "i < 2 ^ 62 + 1" "j < 2 ^ 62 + 1" for i j
    using that by (intro of_nat_u64_inj) simp_all
  have levels: "open_levels (lsm_ssts s) (mf_levels ?m) = Ok (lsm_levels s)"
    using open_tables_on_disk [of ts s] d(8,9,10) by auto
  have replay: "replay_logs env ?wals [1..<Suc ?k] new_memtable = Ok (fold apply_record rs new_memtable)"
  proof (cases "ts = []")
    case True
    then show ?thesis by (simp add: rs_def)
  next
    case False
    then have k: "?k = Suc (length logs)" using d(1) by (cases ts) auto
    have "hm_get ?wals (of_nat (Suc (0 + i))) = Some (log_of env ((logs @ [cur]) ! i))"
      if i: "i < length (logs @ [cur])" for i
    proof -
      have ne: "(of_nat (Suc i) :: u64) \<noteq> of_nat (Suc ?k)" using ids [of "Suc i" "Suc ?k"] i k d(3) by simp
      have eq: "(of_nat (Suc i) :: u64) = lsm_wal_id s \<longleftrightarrow> i = length logs"
        unfolding d(13) using ids [of "Suc i" ?k] i d(3) k by simp
      show ?thesis using ne eq d(14) [of i] i by (auto simp: nth_append simp del: of_nat_Suc)
    qed
    moreover have "list_all (list_all record_ok) (logs @ [cur])"
      using d(4) by (auto simp: list_all_iff is_put_def)
    ultimately have "replay_logs env ?wals [Suc 0..<Suc (0 + length (logs @ [cur]))] new_memtable =
        Ok (fold apply_record (concat (logs @ [cur])) new_memtable)"
      by (intro replay_logs_range [OF lz4])
    with False k show ?thesis by (simp add: rs_def)
  qed
  have "drop_wal (sync (lsm_wal s)) = log_of env cur"
    using d(15) by (simp add: drop_wal_stream sync_def)
  then have "lsm_close (lsm_sync s) = \<lparr>d_manifest = Some (mf_file ?m), d_ssts = lsm_ssts s,
      d_wals = hm_insert (lsm_wal_id s) (log_of env cur) (lsm_wals s)\<rparr>"
    by (simp add: lsm_close_def lsm_sync_def)
  then have "lsm_open env (lsm_close (lsm_sync s)) opts = Ok
      \<lparr>lsm_memtable = fold apply_record rs new_memtable, lsm_immutables = [], lsm_levels = lsm_levels s,
       lsm_wal = create_with_options default_wal_options, lsm_wal_id = of_nat (Suc ?k), lsm_manifest = m',
       lsm_next_ts = 1, lsm_cache = [], lsm_options = opts, lsm_ssts = lsm_ssts s, lsm_wals = ?wals\<rparr>"
    using m' levels replay nw by (simp add: lsm_open_def del: of_nat_Suc upt_Suc bind_result_eq_Ok)
  from that [OF this] show thesis by simp
qed

text \<open>A key that was not replayed is in no log of the memtable, so the tables answer.\<close>

lemma replayed_over_tables:
  assumes d: "durable env n old logs cur ts s"
    and v: "view env s k = map_of (rev (map pair_of (old @ concat logs @ cur))) k"
  defines "rs \<equiv> if ts = [] then [] else concat logs @ cur"
  shows "(case map_of (rev (map pair_of rs)) k of
      Some w \<Rightarrow> Some w | None \<Rightarrow> tables_view env (tables_in_order s) k) =
    (if lsm_levels s = [] then None else map_of (rev (map pair_of (old @ concat logs @ cur))) k)"
proof (cases "ts = []")
  case True
  then show ?thesis using durableD(8) [OF d] by (simp add: rs_def no_levels tables_view_def)
next
  case False
  let ?kvs = "map pair_of (old @ concat logs @ cur)"
  note d' = durableD [OF d]
  have split: "map_of (rev ?kvs) k = (case map_of (rev (map pair_of rs)) k of
      Some w \<Rightarrow> Some w | None \<Rightarrow> map_of (rev (map pair_of old)) k)"
    using False by (simp add: rs_def map_add_def split: option.split)
  have "tables_view env (tables_in_order s) k = map_of (rev ?kvs) k"
    if none: "map_of (rev (map pair_of rs)) k = None"
  proof -
    have "map_of (rev (map pair_of cur)) k = None"
      using none False by (simp add: rs_def map_add_def split: option.splits)
    moreover have "sorted_wrt (<) (map rec_timestamp cur)" "list_all is_put cur"
      using d'(4,5) by (simp_all add: sorted_wrt_append)
    ultimately have "memtable_view (lsm_memtable s) k = None"
      using replayed_memtable(3) [of cur k] d'(7) by simp
    with v show ?thesis by (simp add: view_def)
  qed
  with False d'(8) split show ?thesis by (simp split: option.split)
qed

text \<open>
  C12: what a closed engine remembers. From an empty directory run any puts that do not write a
  key twice between two flushes, sync, close and open again. If a memtable was ever flushed,
  every later snapshot reads the same values as before; otherwise every write is lost, since
  the only log has the identifier the manifest would allocate next and opening truncates it.
\<close>

theorem reopened_engine_answers:
  assumes "env_ok env" "lz4_ok (le_wal_compress env) (le_wal_decompress env)"
    "length kvs < 2 ^ 29" "list_all pair_ok kvs" "lsm_open env empty_disk opts = Ok s0"
    "puts_spaced env kvs s0" "run_puts env kvs s0 = (Ok (), s)" "lsm_next_ts s \<le> t"
  shows "\<exists>s'. lsm_open env (lsm_close (lsm_sync s)) opts' = Ok s' \<and>
     fst (lsm_get_at_ts env k t s') = Ok (if lsm_levels s = [] then None else map_of (rev kvs) k)"
proof -
  have s0: "s0 = fresh_lsm opts" using assms(5) by (simp add: lsm_open_empty)
  have len: "length kvs < 2 ^ 62" using assms(3) by simp
  have runs: "puts_spaced env kvs (fresh_lsm opts)" "run_puts env kvs (fresh_lsm opts) = (Ok (), s)"
    using assms(6,7) s0 by simp_all
  from durable_run [OF assms(1) fresh_inv [OF assms(3)] durable_fresh [OF len] runs(1) assms(4)] runs(2)
  obtain old logs cur ts where d: "durable env 0 old logs cur ts s" and inv: "puts_inv env 0 s"
    and kvs: "map pair_of (old @ concat logs @ cur) = kvs" by auto
  note d' = durableD [OF d]
  have ok: "lsm_ok env s" using inv by (simp add: puts_inv_def)
  have v: "view env s k = map_of (rev kvs) k"
    using run_puts_ok [OF assms(1) fresh_inv [OF assms(3)] runs(1) assms(4)] runs(2)
    by (auto simp: fresh_view split: option.splits)
  define rs where "rs = (if ts = [] then [] else concat logs @ cur)"
  obtain s' where s': "lsm_open env (lsm_close (lsm_sync s)) opts' = Ok s'" "lsm_immutables s' = []"
    "lsm_cache s' = []" "lsm_levels s' = lsm_levels s" "lsm_memtable s' = fold apply_record rs new_memtable"
    unfolding rs_def by (rule reopened_state [OF assms(2) d])
  have sub: "set rs \<subseteq> set (old @ concat logs @ cur)" by (auto simp: rs_def)
  have rs: "sorted_wrt (<) (map rec_timestamp rs)" "list_all is_put rs"
    using d'(4,5) by (simp_all add: rs_def sorted_wrt_append)
  note mt = replayed_memtable [OF rs, folded s'(5)]
  have "key_timestamp kt < t" if "(kt, w) \<in> set (mt_map (lsm_memtable s'))" for kt w
    using mt(2) [OF that] sub d'(6) assms(8) by fastforce
  then have mem: "mt_get_at_ts (lsm_memtable s') k t = map_option Some (map_of (rev (map pair_of rs)) k)"
    using memtable_newest [OF mt(1)] mt(3) by auto
  have order: "tables_in_order s' = tables_in_order s" by (rule tables_in_order_cong [OF s'(4)])
  have tables: "fst (search_tables env (tables_in_order s') k []) = Ok (tables_view env (tables_in_order s) k)"
    using ts.search_each_ok(1) [OF tables_valid_no_cache [OF lsm_okD(3) [OF ok]] order_refl]
    by (simp add: search_tables_def tables_view_def order)
  have get: "fst (lsm_get_at_ts env k t s') = Ok (case map_of (rev (map pair_of rs)) k of
      Some w \<Rightarrow> Some w | None \<Rightarrow> tables_view env (tables_in_order s) k)"
    using mem tables s'(2,3) by (auto simp: lsm_get_at_ts_def split: option.split prod.split)
  have "view env s k = map_of (rev (map pair_of (old @ concat logs @ cur))) k" using v kvs by simp
  from replayed_over_tables [OF d this] have "(case map_of (rev (map pair_of rs)) k of
      Some w \<Rightarrow> Some w | None \<Rightarrow> tables_view env (tables_in_order s) k) =
    (if lsm_levels s = [] then None else map_of (rev kvs) k)"
    unfolding rs_def kvs .
  with get s'(1) show ?thesis by auto
qed

lemma reopened_engine_answers_witness:
  "\<exists>s s'. run_puts stored_lsm_env [([1], [7])] (fresh_lsm tiny_options) = (Ok (), s) \<and>
     lsm_open stored_lsm_env (lsm_close (lsm_sync s)) default_lsm_options = Ok s' \<and>
     fst (lsm_get_at_ts stored_lsm_env [1] (- 1) s') = Ok (Some [7])"
proof -
  let ?kvs = "[([1], [7])] :: (bytes \<times> bytes) list" and ?s0 = "fresh_lsm tiny_options"
  have s0: "lsm_ok stored_lsm_env ?s0" "clean_memtable (lsm_memtable ?s0)" "room (Suc 0) ?s0"
    "mt_keys (lsm_memtable ?s0) = {}"
    using fresh_inv [of "Suc 0" stored_lsm_env tiny_options]
    by (simp_all add: puts_inv_def) (simp_all add: fresh_lsm_def mt_keys_def skip_ok_new)
  have size: "opt_memtable_size (lsm_options ?s0) = 1" by (simp add: fresh_lsm_def tiny_options_def)
  obtain s where s: "lsm_put stored_lsm_env [1] [7] ?s0 = (Ok (), s)" "lsm_memtable s = new_memtable"
    "\<And>k'. view stored_lsm_env s k' = first_some [live (if k' = [1] then Some (Some [7]) else
       memtable_view (lsm_memtable ?s0) k'), tables_view stored_lsm_env (tables_in_order ?s0) k']"
    by (rule full_put [OF env_ok_stored s0(1-3), of "[1]" "[7]"])
      (use s0(4) size in \<open>auto simp: pair_ok_def\<close>)
  have "view stored_lsm_env s [1] = Some [7]" using s(3) [of "[1]"] by simp
  then have levels: "lsm_levels s \<noteq> []"
    using s(2) by (auto simp: view_def memtable_view_def skip_ok_new data_entries_def tables_view_def no_levels)
  have lz4: "lz4_ok (le_wal_compress stored_lsm_env) (le_wal_decompress stored_lsm_env)"
    by (simp add: stored_lsm_env_def lz4_ok_stored_block)
  have run: "run_puts stored_lsm_env ?kvs ?s0 = (Ok (), s)" using s(1) by simp
  have "puts_spaced stored_lsm_env ?kvs ?s0" using s0(4) by simp
  from reopened_engine_answers [OF env_ok_stored lz4 _ _ lsm_open_empty this run, of "- 1" default_lsm_options "[1]"]
  show ?thesis using run levels by (auto simp: pair_ok_def)
qed

section \<open>Writes after reopening\<close>

text \<open>A version below one that is visible changes no read at that snapshot.\<close>

context versioned_store
begin

lemma older_write_hidden:
  assumes "ok s" "contents s (Key kd t0) \<noteq> None" "t1 < t0" "t0 \<le> t"
  shows "read_at (put_version (Key kd t1) v s) kd t = read_at s kd t" "read_at s kd t \<noteq> None"
proof -
  let ?h = "contents s" and ?h' = "(contents s)(Key kd t1 \<mapsto> v)"
  show found: "read_at s kd t \<noteq> None" using assms read_at_None [OF assms(1)] by blast
  then obtain w where w: "read_at s kd t = Some w" by blast
  then have "visible_at ?h kd t w" using read_at_Some [OF assms(1)] by blast
  then obtain t2 where t2: "t2 \<le> t" "?h (Key kd t2) = Some w"
    "\<And>t3. t2 < t3 \<Longrightarrow> t3 \<le> t \<Longrightarrow> ?h (Key kd t3) = None"
    unfolding visible_at_def by blast
  have "t0 \<le> t2" using t2(3) assms(2,4) by (meson not_le)
  then have less: "t1 < t2" using assms(3) by simp
  have "visible_at ?h' kd t w"
    unfolding visible_at_def
    using t2 less by (intro exI [of _ t2]) auto
  then have "read_at (put_version (Key kd t1) v s) kd t = Some w"
    using read_at_Some [OF ok_put [OF assms(1)]] contents_put [OF assms(1)] by simp
  then show "read_at (put_version (Key kd t1) v s) kd t = read_at s kd t" using w by simp
qed

end

lemma replay_logs_skip_ok:
  "replay_logs env wals ids mt = Ok mt' \<Longrightarrow> skip_ok (mt_map mt) \<Longrightarrow> skip_ok (mt_map mt')"
proof (induction ids arbitrary: mt)
  case (Cons i ids)
  have "skip_ok (mt_map (fold apply_record rs mt))" for rs
    using Cons.prems(2) by (induction rs arbitrary: mt) (simp_all add: apply_record_map skip_ok_insert)
  with Cons show ?case by (auto split: option.splits)
qed simp

text \<open>
  C30: writes after reopening are hidden by what was replayed. The engine does not restore its
  clock: the first write after opening has timestamp 1. If the replayed log holds a version of
  the key with a later timestamp, a put of that key succeeds and changes no lookup at any
  snapshot that sees that version; the old value is answered.
\<close>

theorem reopened_write_hidden:
  assumes "lsm_open env d opts = Ok s" "hm_get (mt_map (lsm_memtable s)) (Key k t0) \<noteq> None"
    "1 < t0" "t0 \<le> t"
    "mt_size (lsm_memtable s) + length k + length v < opt_memtable_size opts"
  shows "\<exists>s' old. lsm_put env k v s = (Ok (), s') \<and>
     fst (lsm_get_at_ts env k t s) = Ok old \<and> fst (lsm_get_at_ts env k t s') = Ok old"
proof -
  have "\<exists>ids wals. replay_logs env wals ids new_memtable = Ok (lsm_memtable s) \<and>
      lsm_next_ts s = 1 \<and> lsm_options s = opts"
    using assms(1) unfolding lsm_open_def Let_def by auto blast
  then obtain ids wals where opened: "replay_logs env wals ids new_memtable = Ok (lsm_memtable s)"
    "lsm_next_ts s = 1" "lsm_options s = opts" by blast
  have ok: "skip_ok (mt_map (lsm_memtable s))"
    by (rule replay_logs_skip_ok [OF opened(1) skip_ok_new(1)])
  let ?s' = "written env (put_at k v s) s"
  have mem: "lsm_memtable ?s' = mt_write (Key k 1) (Some v) (lsm_memtable s)"
    using opened(2) by (simp add: put_at_def apply_record_def mt_write_def)
  have "\<not> opt_memtable_size (lsm_options ?s') \<le> mt_size (lsm_memtable ?s')"
    using assms(5) opened(3) by (simp add: mt_size_put)
  then have put: "lsm_put env k v s = (Ok (), ?s')" by (simp add: lsm_put_written rotate_if_full_def)
  obtain old where "mt_get_at_ts (lsm_memtable s) k t = Some old"
    "mt_get_at_ts (lsm_memtable ?s') k t = Some old"
    using mt.older_write_hidden [OF ok assms(2-4)] mem by (metis not_None_eq)
  then have "fst (lsm_get_at_ts env k t s) = Ok old" "fst (lsm_get_at_ts env k t ?s') = Ok old"
    by (simp_all add: lsm_get_at_ts_def)
  with put show ?thesis by blast
qed

definition one_log_disk :: disk where
  "one_log_disk = \<lparr>d_manifest = Some (mf_file (run_ops [AddWal 1])), d_ssts = [],
     d_wals = [(1, log_of stored_lsm_env [put_record [1] [7] 5])]\<rparr>"

lemma reopened_write_hidden_witness:
  "\<exists>s s' old. lsm_open stored_lsm_env one_log_disk default_lsm_options = Ok s \<and>
     lsm_put stored_lsm_env [1] [8] s = (Ok (), s') \<and>
     fst (lsm_get_at_ts stored_lsm_env [1] 9 s) = Ok old \<and> fst (lsm_get_at_ts stored_lsm_env [1] 9 s') = Ok old"
proof -
  let ?m = "run_ops [AddWal 1]"
  have "mirrors ?m" by (rule mirrors_run_ops) simp_all
  then obtain m' where m': "manifest_open (mf_file ?m) = Ok m'" "follows True ?m m'" by (rule mirrors_open)
  have m: "mf_levels ?m = []" "next_wal_id ?m = 2"
    by (simp_all add: run_ops_def add_wal_def note_wal_def write_line_def manifest_create_def)
  let ?log = "[put_record [1] [7] 5]"
  have r: "replay_logs stored_lsm_env [(1, log_of stored_lsm_env ?log)] [Suc 0..<Suc (0 + length [?log])] new_memtable =
      Ok (fold apply_record (concat [?log]) new_memtable)"
    by (rule replay_logs_range)
      (simp_all add: stored_lsm_env_def lz4_ok_stored_block record_ok_def put_record_def)
  have e: "[Suc 0..<Suc (0 + length [?log])] = [Suc 0..<2]" by (simp add: numeral_2_eq_2)
  have replay: "replay_logs stored_lsm_env [(1, log_of stored_lsm_env ?log)] [Suc 0..<2] new_memtable =
      Ok (apply_record (put_record [1] [7] 5) new_memtable)"
    using r unfolding e by (simp del: bind_result_eq_Ok log_bytes_simps replay_logs.simps)
  have "\<exists>s. lsm_open stored_lsm_env one_log_disk default_lsm_options = Ok s \<and>
    lsm_memtable s = apply_record (put_record [1] [7] 5) new_memtable"
    using m' m replay
    by (simp add: lsm_open_def one_log_disk_def follows_def Let_def
        del: bind_result_eq_Ok log_bytes_simps replay_logs.simps)
  then obtain s where s: "lsm_open stored_lsm_env one_log_disk default_lsm_options = Ok s"
    "lsm_memtable s = apply_record (put_record [1] [7] 5) new_memtable" by blast
  have "hm_get (mt_map (lsm_memtable s)) (Key [1] 5) \<noteq> None"
    by (simp add: s(2) apply_record_map put_record_def skip_ok_new)
  from reopened_write_hidden [OF s(1) this, of 9 "[8]"] s(1)
  show ?thesis
    by (simp add: s(2) apply_record_def put_record_def mt_put_def new_memtable_def default_lsm_options_def)
qed

end
