(* ===== verification/Compaction_Thread.thy ===== *)
theory Compaction_Thread
  imports Compaction_Checks Lsm_Reopen "HOL-Library.Multiset"
begin

text \<open>
  The compaction thread of \<open>crabstash-storage/src/lsm.rs\<close>: \<open>compaction_loop\<close> step by step, among
  the notifications, the shutdown and whatever the engine does to the directory they share;
  that every merge ends; and what the engine's next flush does to what a compaction left.
\<close>

section \<open>Every merge ends\<close>

text \<open>
  What an iterator has left: it is valid, blocks behind the one it reads, bytes of that block.
  A step of the merge makes this smaller for one of the iterators, whatever the files hold.
\<close>

definition left_to_read :: "sst_iter \<Rightarrow> nat \<times> nat \<times> nat" where
  "left_to_read it =
     (if si_valid it then 1 else 0, length (sst_block_metas (si_table it)) - si_block_idx it,
      length (si_block_data it) - si_block_offset it)"

definition further :: "(sst_iter \<times> sst_iter) set" where
  "further = inv_image (less_than <*lex*> less_than <*lex*> less_than) left_to_read"

lemma wf_further: "wf further"
  unfolding further_def by (intro wf_inv_image wf_lex_prod wf_less_than)

lemma parse_here_further:
  assumes "parse_here it = (it', Ok u)" "si_valid it'"
  shows "si_table it' = si_table it" "si_block_idx it' = si_block_idx it"
    "length (si_block_data it') - si_block_offset it' < length (si_block_data it) - si_block_offset it"
  using assms
  by (auto simp: parse_here_def Let_def split: if_splits result.splits prod.splits dest!: get_entry_shorter)

lemma load_block_further:
  assumes "load_block env n it = (it', Ok u)" "n < length (sst_block_metas (si_table it))"
  shows "si_table it' = si_table it" "si_block_idx it' = n"
  using assms by (auto simp: load_block_def Let_def split: prod.splits result.splits)

lemma parse_entry_further:
  assumes "parse_entry env it = (it', Ok u)" "si_valid it"
  shows "(it', it) \<in> further"
proof (cases "si_valid it'")
  case valid: True
  show ?thesis
  proof (cases "length (si_block_data it) \<le> si_block_offset it")
    case True
    with assms(1) valid obtain it1 v where it1: "load_block env (si_block_idx it + 1) it = (it1, Ok v)"
      "parse_here it1 = (it', Ok u)" and more: "si_block_idx it + 1 < length (sst_block_metas (si_table it))"
      by (auto simp: parse_entry_def split: if_splits prod.splits result.splits)
    from more have "length (sst_block_metas (si_table it)) - (si_block_idx it + 1) <
        length (sst_block_metas (si_table it)) - si_block_idx it" by linarith
    with load_block_further [OF it1(1) more] parse_here_further [OF it1(2) valid] assms(2) valid
    show ?thesis by (simp add: further_def left_to_read_def)
  next
    case False
    with assms(1) have "parse_here it = (it', Ok u)" by (simp add: parse_entry_def)
    from parse_here_further [OF this valid] assms(2) valid show ?thesis
      by (simp add: further_def left_to_read_def)
  qed
qed (use assms(2) in \<open>simp add: further_def left_to_read_def\<close>)

lemma current_idx_valid:
  assumes "current_idx its = Some i"
  shows "i < length its" "si_valid (its ! i)"
proof -
  let ?cands = "map (\<lambda>(i, it). (i, si_current_key it)) (filter (\<lambda>(i, it). si_valid it) (enumerate 0 its))"
  obtain x xs where x: "?cands = x # xs" "i = fst (min_by_key x xs)"
    using assms by (auto simp: current_idx_def split: list.splits)
  have "min_by_key x xs \<in> set (x # xs)" by (induction xs arbitrary: x) auto
  then have "min_by_key x xs \<in> set ?cands" by (simp only: x(1))
  then show "i < length its" "si_valid (its ! i)" by (auto simp: x(2) in_set_enumerate_eq)
qed

lemma replaced_less:
  assumes "i < length xs" "(y, xs ! i) \<in> r"
  shows "(mset (xs[i := y]), mset xs) \<in> mult r"
proof -
  have "mset (xs[i := y]) = (mset xs - {#xs ! i#}) + {#y#}" using assms(1) by (simp add: mset_update)
  moreover have "mset xs = (mset xs - {#xs ! i#}) + {#xs ! i#}" using assms(1) by simp
  ultimately show ?thesis
    using one_step_implies_mult [of "{#xs ! i#}" "{#y#}" r "mset xs - {#xs ! i#}"] assms(2) by simp
qed

lemma merged_advance_further:
  assumes "merged_advance env its = Ok its'" "current_idx its = Some i"
  shows "(mset its', mset its) \<in> mult further"
proof -
  obtain it u where "parse_entry env (its ! i) = (it, Ok u)" "its' = its[i := it]"
    using assms by (cases "parse_entry env (its ! i)" rule: state_result.cases) (auto simp: merged_advance_def)
  with parse_entry_further current_idx_valid [OF assms(2)] replaced_less show ?thesis by metis
qed

lemma merge_loop_ends: "merge_loop env last_key its b \<noteq> None"
proof (induction "mset its" arbitrary: last_key its b rule: wf_induct_rule [OF wf_mult [OF wf_further]])
  case less: 1
  show ?case
  proof (cases "merged_is_valid its")
    case True
    show ?thesis
    proof (cases "current_idx its")
      case (Some i)
      let ?key = "si_current_key (its ! i)"
      let ?step = "bind_result (if last_key = Some (key_data ?key) then Ok b
          else builder_add env ?key (si_current_value (its ! i)) b) (\<lambda>b'.
            bind_result (merged_advance env its) (\<lambda>its'. Ok (its', b')))"
      show ?thesis
      proof (cases ?step)
        case (Ok p)
        then obtain its' b' where p: "p = (its', b')" "merged_advance env its = Ok its'" by auto
        have "merge_loop env (Some (key_data ?key)) its' b' \<noteq> None"
          by (rule less) (use merged_advance_further [OF p(2) Some] in simp_all)
        with True Some Ok p(1) show ?thesis by (subst merge_loop.simps) (simp add: Let_def)
      qed (use True Some in \<open>(subst merge_loop.simps, simp add: Let_def)+\<close>)
    qed (use True in \<open>subst merge_loop.simps, simp\<close>)
  qed (subst merge_loop.simps, simp)
qed

lemma compact_ends: "compact env task ssts m \<noteq> None"
  by (auto simp: compact_def merge_loop_ends Let_def split: result.splits option.splits prod.splits)

section \<open>The thread\<close>

text \<open>The directory the engine and the thread share.\<close>

record directory =
  dir_manifest :: string
  dir_ssts :: "(u64, bytes) hmap"

text \<open>
  Where the thread stands: before it takes the mutex and waits; in \<open>wait_for\<close>; about to open
  the manifest; about to choose; with a task, about to open the manifest again; about to
  compact; after the loop; dead of a panic.
\<close>

datatype loop_pc =
    Entering_wait
  | In_wait
  | Opening
  | Picking manifest
  | Reopening compaction_task
  | Merging compaction_task manifest
  | Left_loop
  | Died

record compaction_state =
  cs_shutdown :: bool
  cs_work :: bool
  cs_thread :: loop_pc
  cs_dir :: directory

definition spawn_compaction :: "directory \<Rightarrow> compaction_state" where
  "spawn_compaction d = \<lparr>cs_shutdown = False, cs_work = False, cs_thread = Entering_wait, cs_dir = d\<rparr>"

text \<open>What \<open>compact\<close> wrote to its manifest goes to the end of the file.\<close>

definition appended_text :: "manifest \<Rightarrow> manifest \<Rightarrow> string" where
  "appended_text m m' = drop (length (mf_file m)) (mf_file m')"

text \<open>
  One step; \<open>timed_out\<close> is the answer of a wait that ends. \<open>Manifest::open\<close> of a text it cannot
  parse panics; an error of \<open>compact\<close> is printed. \<open>None\<close>: the step does not end.
\<close>

definition loop_step :: "lsm_env \<Rightarrow> bool \<Rightarrow> compaction_state \<Rightarrow> compaction_state option" where
  "loop_step env timed_out s =
     (let d = cs_dir s in
      case cs_thread s of
        Entering_wait \<Rightarrow> Some (s\<lparr>cs_thread := In_wait\<rparr>)
      | In_wait \<Rightarrow>
          Some (if cs_shutdown s then s\<lparr>cs_thread := Left_loop\<rparr>
            else if timed_out \<and> \<not> cs_work s then s\<lparr>cs_thread := Entering_wait\<rparr>
            else s\<lparr>cs_work := False, cs_thread := Opening\<rparr>)
      | Opening \<Rightarrow>
          Some (s\<lparr>cs_thread := (case manifest_open (dir_manifest d) of
              Ok m \<Rightarrow> Picking m | Err e \<Rightarrow> Entering_wait | Panic \<Rightarrow> Died)\<rparr>)
      | Picking m \<Rightarrow>
          Some (s\<lparr>cs_thread := (case pick_compaction (dir_ssts d) m of
              Ok (Some task) \<Rightarrow> Reopening task | Ok None \<Rightarrow> Entering_wait | _ \<Rightarrow> Died)\<rparr>)
      | Reopening task \<Rightarrow>
          Some (s\<lparr>cs_thread := (case manifest_open (dir_manifest d) of
              Ok m \<Rightarrow> Merging task m | Err e \<Rightarrow> Entering_wait | Panic \<Rightarrow> Died)\<rparr>)
      | Merging task m \<Rightarrow>
          map_option (\<lambda>(r, ssts, m').
              s\<lparr>cs_dir := \<lparr>dir_manifest = dir_manifest d @ appended_text m m', dir_ssts = ssts\<rparr>,
                cs_thread := (if r = Panic then Died else Entering_wait)\<rparr>)
            (compact env task (dir_ssts d) m)
      | Left_loop \<Rightarrow> Some s
      | Died \<Rightarrow> Some s)"

definition notify_compaction :: "compaction_state \<Rightarrow> compaction_state" where
  "notify_compaction s = s\<lparr>cs_work := True\<rparr>"

text \<open>\<open>drop\<close> of the engine sets the flag, wakes the thread and waits until it is gone.\<close>

definition drop_lsm :: "compaction_state \<Rightarrow> compaction_state" where
  "drop_lsm s = s\<lparr>cs_shutdown := True\<rparr>"

definition thread_gone :: "compaction_state \<Rightarrow> bool" where
  "thread_gone s \<longleftrightarrow> cs_thread s = Left_loop \<or> cs_thread s = Died"

text \<open>The engine may do anything to the directory between two steps.\<close>

datatype dir_event = LoopStep bool | Notify | DropLsm | Outside directory

fun dir_step :: "lsm_env \<Rightarrow> dir_event \<Rightarrow> compaction_state \<Rightarrow> compaction_state option" where
  "dir_step env (LoopStep timed_out) s = loop_step env timed_out s"
| "dir_step env Notify s = Some (notify_compaction s)"
| "dir_step env DropLsm s = Some (drop_lsm s)"
| "dir_step env (Outside d) s = Some (s\<lparr>cs_dir := d\<rparr>)"

fun run_dir :: "lsm_env \<Rightarrow> dir_event list \<Rightarrow> compaction_state \<Rightarrow> compaction_state option" where
  "run_dir env [] s = Some s"
| "run_dir env (e # es) s = Option.bind (dir_step env e s) (run_dir env es)"

fun is_loop_step :: "dir_event \<Rightarrow> bool" where
  "is_loop_step (LoopStep timed_out) = True"
| "is_loop_step _ = False"

section \<open>Steps and runs\<close>

lemma loop_step_ends: "\<exists>s'. loop_step env timed_out s = Some s'"
  using compact_ends by (auto simp: loop_step_def Let_def split: loop_pc.splits)

lemma dir_step_ends: "\<exists>s'. dir_step env e s = Some s'"
  using loop_step_ends by (cases e) auto

lemma run_dir_ends: "\<exists>s'. run_dir env es s = Some s'"
proof (induction es arbitrary: s)
  case (Cons e es)
  obtain s1 where "dir_step env e s = Some s1" using dir_step_ends by blast
  with Cons.IH [of s1] show ?case by simp
qed simp

lemma run_dir_append:
  "run_dir env (es @ es') s = Option.bind (run_dir env es s) (run_dir env es')"
proof (induction es arbitrary: s)
  case (Cons e es)
  then show ?case by (cases "dir_step env e s") simp_all
qed simp

fun loop_steps_left :: "loop_pc \<Rightarrow> nat" where
  "loop_steps_left Left_loop = 0"
| "loop_steps_left Died = 0"
| "loop_steps_left In_wait = 1"
| "loop_steps_left Entering_wait = 2"
| "loop_steps_left (Merging task m) = 3"
| "loop_steps_left (Reopening task) = 4"
| "loop_steps_left (Picking m) = 5"
| "loop_steps_left Opening = 6"

lemma loop_step_left:
  assumes "loop_step env timed_out s = Some s'" "cs_shutdown s"
  shows "loop_steps_left (cs_thread s') \<le> loop_steps_left (cs_thread s) - 1" "cs_shutdown s'"
  using assms by (auto simp: loop_step_def Let_def split: loop_pc.splits result.splits option.splits if_splits)

lemma other_event:
  assumes "dir_step env e s = Some s'" "\<not> is_loop_step e"
  shows "cs_thread s' = cs_thread s" "cs_shutdown s \<Longrightarrow> cs_shutdown s'" "cs_work s \<Longrightarrow> cs_work s'"
    "e \<noteq> DropLsm \<Longrightarrow> cs_shutdown s' = cs_shutdown s"
  using assms by (cases e; auto simp: notify_compaction_def drop_lsm_def)+

lemma steps_after_drop:
  assumes "run_dir env es s = Some s'" "cs_shutdown s"
  shows "loop_steps_left (cs_thread s') \<le> loop_steps_left (cs_thread s) - length (filter is_loop_step es)"
  using assms
proof (induction es arbitrary: s)
  case (Cons e es)
  then obtain s1 where s1: "dir_step env e s = Some s1" "run_dir env es s1 = Some s'"
    by (auto simp: bind_eq_Some_conv)
  show ?case
  proof (cases e)
    case (LoopStep timed_out)
    with s1(1) have step: "loop_step env timed_out s = Some s1" by simp
    from loop_step_left [OF step Cons.prems(2)] Cons.IH [OF s1(2)] LoopStep show ?thesis by simp
  qed (use other_event [OF s1(1)] Cons.IH [OF s1(2)] Cons.prems(2) in simp_all)
qed simp

lemma no_steps_left: "loop_steps_left pc = 0 \<longleftrightarrow> pc = Left_loop \<or> pc = Died"
  by (cases pc) simp_all

section \<open>Notifications\<close>

text \<open>How many steps the thread makes at most until it opens the manifest, once the flag is set.\<close>

fun until_opening :: "loop_pc \<Rightarrow> nat" where
  "until_opening Opening = 0"
| "until_opening In_wait = 1"
| "until_opening Entering_wait = 2"
| "until_opening (Merging task m) = 3"
| "until_opening (Reopening task) = 4"
| "until_opening (Picking m) = 5"
| "until_opening Left_loop = 0"
| "until_opening Died = 0"

definition notified :: "compaction_state \<Rightarrow> bool" where
  "notified s \<longleftrightarrow> cs_work s \<and> \<not> cs_shutdown s \<and> \<not> thread_gone s \<and> cs_thread s \<noteq> Opening"

lemma notified_step:
  assumes "notified s" "loop_step env timed_out s = Some s'"
  shows "cs_thread s' = Opening \<or> cs_thread s' = Died \<or>
    notified s' \<and> until_opening (cs_thread s') < until_opening (cs_thread s)"
  using assms
  by (auto simp: notified_def thread_gone_def loop_step_def Let_def
      split: loop_pc.splits result.splits option.splits if_splits)

lemma notified_until: "notified s \<Longrightarrow> 0 < until_opening (cs_thread s) \<and> until_opening (cs_thread s) \<le> 5"
  by (cases "cs_thread s") (auto simp: notified_def thread_gone_def)

lemma notified_other:
  assumes "notified s" "dir_step env e s = Some s'" "\<not> is_loop_step e" "e \<noteq> DropLsm"
  shows "notified s' \<and> cs_thread s' = cs_thread s"
  using assms other_event [OF assms(2,3)] by (auto simp: notified_def thread_gone_def)

lemma notified_run:
  assumes "notified s" "DropLsm \<notin> set es" "until_opening (cs_thread s) \<le> length (filter is_loop_step es)"
  shows "\<exists>es1 es2 s1. es = es1 @ es2 \<and> run_dir env es1 s = Some s1 \<and>
     (cs_thread s1 = Opening \<or> cs_thread s1 = Died)"
  using assms
proof (induction es arbitrary: s)
  case Nil
  with notified_until [OF Nil(1)] show ?case by simp
next
  case (Cons e es)
  obtain s1 where s1: "dir_step env e s = Some s1" using dir_step_ends by blast
  have prefix: ?case if "es = es1 @ es2" "run_dir env es1 s1 = Some s2" "cs_thread s2 = Opening \<or> cs_thread s2 = Died"
    for es1 es2 s2
    by (rule exI [of _ "e # es1"], rule exI [of _ es2], rule exI [of _ s2]) (use that s1 in simp)
  show ?case
  proof (cases "is_loop_step e")
    case True
    then obtain b where e: "e = LoopStep b" by (cases e) simp_all
    with s1 notified_step [OF Cons.prems(1)] consider (here) "cs_thread s1 = Opening \<or> cs_thread s1 = Died"
      | (on) "notified s1" "until_opening (cs_thread s1) < until_opening (cs_thread s)" by auto
    then show ?thesis
    proof cases
      case here
      then show ?thesis using prefix [of "[]" es s1] by simp
    next
      case on
      with Cons.prems(2,3) e Cons.IH [OF on(1)] prefix show ?thesis by fastforce
    qed
  next
    case False
    then have "notified s1 \<and> cs_thread s1 = cs_thread s"
      using notified_other [OF Cons.prems(1) s1] Cons.prems(2) by fastforce
    with False Cons.prems(2,3) Cons.IH [of s1] prefix show ?thesis by fastforce
  qed
qed

text \<open>A round nobody interferes with is \<open>compaction_round\<close>.\<close>

lemma updates_append:
  "\<exists>l. mf_file (add_sst level i m) = mf_file m @ l" "\<exists>l. mf_file (remove_sst level i m) = mf_file m @ l"
  by (simp_all add: add_sst_def remove_sst_def write_line_def)

lemma removals_append:
  "fold (remove_input task) is (ssts, m) = (ssts', m') \<Longrightarrow> \<exists>l. mf_file m' = mf_file m @ l"
proof (induction "is" arbitrary: ssts m)
  case (Cons i "is")
  obtain ssts1 m1 where one: "remove_input task i (ssts, m) = (ssts1, m1)" by fastforce
  then obtain l1 where "mf_file m1 = mf_file m @ l1"
    using updates_append(2) by (simp add: remove_input_def Let_def) blast
  with Cons.IH [of ssts1 m1] Cons.prems one show ?case by auto
qed simp

lemma compact_appends:
  assumes "compact env task ssts m = Some (r, ssts', m')"
  shows "mf_file m' = mf_file m @ appended_text m m'"
proof -
  have inst: "\<exists>l. mf_file (snd (install_table task i c ssts m1)) = mf_file m1 @ l" for i c m1
  proof -
    obtain ssts2 m2 where f: "fold (remove_input task) (input_ssts task) (hm_insert i c ssts, m1) = (ssts2, m2)"
      by fastforce
    then show ?thesis
      using removals_append [OF f] updates_append(1) [of "output_level task" i m2]
      by (auto simp: install_table_def)
  qed
  have "\<exists>l. mf_file m' = mf_file m @ l"
    using assms inst [of _ _ "snd (allocate_sst_id m)"]
    by (auto simp: compact_def Let_def allocate_sst_id_def split: if_splits result.splits prod.splits option.splits)
      (metis snd_conv)+
  then show ?thesis by (auto simp: appended_text_def)
qed

lemma load_line_file: "load_line l m = Ok m' \<Longrightarrow> mf_file m' = mf_file m"
  by (auto simp: load_line_def Let_def note_wal_def split: if_splits)

lemma load_lines_file: "load_lines ls m = Ok m' \<Longrightarrow> mf_file m' = mf_file m"
proof (induction ls arbitrary: m)
  case (Cons l ls)
  then obtain m1 where "load_line l m = Ok m1" "load_lines ls m1 = Ok m'" by auto
  with Cons.IH load_line_file show ?case by metis
qed simp

lemma manifest_open_file: "manifest_open file = Ok m \<Longrightarrow> mf_file m = file"
  by (auto simp: manifest_open_def dest: load_lines_file)

lemma undisturbed_round:
  assumes "cs_thread s = Opening"
    "compaction_round env (dir_ssts (cs_dir s)) (dir_manifest (cs_dir s)) = Some (r, ssts, file)"
  shows "\<exists>n. run_dir env (replicate n (LoopStep b)) s =
     Some (s\<lparr>cs_dir := \<lparr>dir_manifest = file, dir_ssts = ssts\<rparr>,
             cs_thread := (if r = Panic then Died else Entering_wait)\<rparr>)"
proof -
  let ?text = "dir_manifest (cs_dir s)" and ?ssts = "dir_ssts (cs_dir s)"
  have dir: "\<lparr>dir_manifest = ?text, dir_ssts = ?ssts\<rparr> = cs_dir s" by simp
  show ?thesis
  proof (cases "manifest_open ?text")
    case (Ok m)
    show ?thesis
    proof (cases "\<exists>task. pick_compaction ?ssts m = Ok (Some task)")
      case True
      then obtain task m' where task: "pick_compaction ?ssts m = Ok (Some task)"
        "compact env task ?ssts m = Some (r, ssts, m')" "file = mf_file m'"
        using assms(2) Ok by (auto simp: compaction_round_def)
      have "file = ?text @ appended_text m m'"
        using compact_appends [OF task(2)] manifest_open_file [OF Ok] task(3) by simp
      with assms(1) Ok task(1,2) have "run_dir env (replicate (Suc (Suc (Suc (Suc 0)))) (LoopStep b)) s =
          Some (s\<lparr>cs_dir := \<lparr>dir_manifest = file, dir_ssts = ssts\<rparr>,
            cs_thread := (if r = Panic then Died else Entering_wait)\<rparr>)"
        by (simp add: loop_step_def)
      then show ?thesis by blast
    next
      case False
      with assms Ok have "run_dir env (replicate (Suc (Suc 0)) (LoopStep b)) s =
          Some (s\<lparr>cs_dir := \<lparr>dir_manifest = file, dir_ssts = ssts\<rparr>,
            cs_thread := (if r = Panic then Died else Entering_wait)\<rparr>)"
        by (auto simp: loop_step_def compaction_round_def split: result.splits option.splits)
      then show ?thesis by blast
    qed
  next
    case (Err e)
    with assms have "run_dir env (replicate (Suc 0) (LoopStep b)) s =
        Some (s\<lparr>cs_dir := \<lparr>dir_manifest = file, dir_ssts = ssts\<rparr>,
          cs_thread := (if r = Panic then Died else Entering_wait)\<rparr>)"
      by (auto simp: loop_step_def compaction_round_def)
    then show ?thesis by blast
  next
    case Panic
    with assms have "run_dir env (replicate (Suc 0) (LoopStep b)) s =
        Some (s\<lparr>cs_dir := \<lparr>dir_manifest = file, dir_ssts = ssts\<rparr>,
          cs_thread := (if r = Panic then Died else Entering_wait)\<rparr>)"
      by (auto simp: loop_step_def compaction_round_def)
    then show ?thesis by blast
  qed
qed

text \<open>A thread that is not notified and only times out leaves the directory alone.\<close>

lemma quiet_thread:
  assumes "\<not> cs_work s" "\<not> cs_shutdown s" "cs_thread s = Entering_wait \<or> cs_thread s = In_wait"
  shows "\<exists>pc. run_dir env (replicate n (LoopStep True)) s = Some (s\<lparr>cs_thread := pc\<rparr>) \<and>
     (pc = Entering_wait \<or> pc = In_wait)"
  using assms
proof (induction n arbitrary: s)
  case 0
  then show ?case by (intro exI [of _ "cs_thread s"]) simp
next
  case (Suc n)
  obtain pc where "loop_step env True s = Some (s\<lparr>cs_thread := pc\<rparr>)" "pc = Entering_wait \<or> pc = In_wait"
    using Suc.prems by (auto simp: loop_step_def)
  with Suc.IH [of "s\<lparr>cs_thread := pc\<rparr>"] Suc.prems show ?case by auto
qed

section \<open>The engine's side\<close>

text \<open>
  The engine's handle on the manifest: \<open>create\<close> leaves one that writes at its position,
  \<open>open\<close> one that appends (\<open>None\<close>).
\<close>

definition write_at :: "nat option \<Rightarrow> string \<Rightarrow> string \<Rightarrow> nat option \<times> string" where
  "write_at handle l text =
     (case handle of
        None \<Rightarrow> (None, text @ l)
      | Some pos \<Rightarrow> (Some (pos + length l), take pos text @ l @ drop (pos + length l) text))"

text \<open>
  What a flush does to the directory: an identifier of the manifest in memory, a table file
  that replaces one of that name, a line in the manifest.
\<close>

definition flush_to_dir ::
  "bytes \<Rightarrow> manifest \<times> nat option \<Rightarrow> directory \<Rightarrow> (manifest \<times> nat option) \<times> directory" where
  "flush_to_dir table en d =
     (let (i, m) = allocate_sst_id (fst en);
          (handle, text) = write_at (snd en) (''SST:'' @ show_nat 0 @ '':'' @ show_nat (unat i) @ [CHR 0x0A]) (dir_manifest d)
      in ((push_sst 0 i m, handle),
          \<lparr>dir_manifest = text, dir_ssts = hm_insert i table (dir_ssts d)\<rparr>))"

lemma flush_to_dir_file:
  assumes "flush_to_dir table (m, handle) d = (en, d')"
  shows "hm_get (dir_ssts d') j = (if j = next_sst_id m then Some table else hm_get (dir_ssts d) j)"
  using assms by (auto simp: flush_to_dir_def allocate_sst_id_def split: prod.splits)

text \<open>With an appending handle a flush does to the directory what \<open>add_sst\<close> does to the text.\<close>

lemma flush_to_dir_add:
  "dir_manifest (snd (flush_to_dir table (m, None) \<lparr>dir_manifest = mf_file m, dir_ssts = ssts\<rparr>)) =
     mf_file (add_sst 0 (next_sst_id m) m)"
  by (simp add: flush_to_dir_def allocate_sst_id_def write_at_def add_sst_def write_line_def)

text \<open>A handle left by \<open>create\<close> overwrites what the compaction appended after its position.\<close>

lemma write_at_overwrites:
  "write_at (Some (length file)) l (file @ appended) = (Some (length file + length l), file @ l @ drop (length l) appended)"
  by (simp add: write_at_def)

text \<open>
  Two flushes after a compaction of the first four tables, by an engine that created the
  manifest: the lines that took tables 1 and 2 out of level 0 are lost.
\<close>

lemma removals_overwritten:
  "snd (write_at (Some (length (lines_of ops))) (lines_of [AddSst 0 5, AddSst 0 6])
      (lines_of (ops @ [RemoveSst 0 1, RemoveSst 0 2, RemoveSst 0 3, RemoveSst 0 4, AddSst 1 5]))) =
   lines_of (ops @ [AddSst 0 5, AddSst 0 6, RemoveSst 0 3, RemoveSst 0 4, AddSst 1 5])"
proof -
  have "drop (length (lines_of [AddSst 0 5, AddSst 0 6]))
      (lines_of [RemoveSst 0 1, RemoveSst 0 2, RemoveSst 0 3, RemoveSst 0 4, AddSst 1 5]) =
    lines_of [RemoveSst 0 3, RemoveSst 0 4, AddSst 1 5]"
    by (simp add: lines_of_def show_nat.simps)
  then show ?thesis
    using lines_of_append [of "[AddSst 0 5, AddSst 0 6]" "[RemoveSst 0 3, RemoveSst 0 4, AddSst 1 5]"]
    by (simp add: write_at_overwrites)
qed

section \<open>Properties\<close>

text \<open>
  C15: the compaction thread always stops. From any state of the thread and the directory, and
  whatever is notified or changed in the directory between its steps, every step of the thread
  ends, every merge included; once the engine has been dropped, the thread is gone after at
  most six steps of its own, so the join of \<open>drop\<close> returns.
\<close>

theorem compaction_thread_stops:
  "\<exists>s'. run_dir env es s = Some s' \<and>
     (cs_shutdown s \<longrightarrow> 6 \<le> length (filter is_loop_step es) \<longrightarrow> thread_gone s')"
proof -
  obtain s' where s': "run_dir env es s = Some s'" using run_dir_ends by blast
  have "thread_gone s'" if "cs_shutdown s" "6 \<le> length (filter is_loop_step es)"
  proof -
    have "loop_steps_left (cs_thread s) \<le> 6" by (cases "cs_thread s") simp_all
    with steps_after_drop [OF s' that(1)] that(2) have "loop_steps_left (cs_thread s') = 0" by linarith
    then show ?thesis by (simp add: no_steps_left thread_gone_def)
  qed
  with s' show ?thesis by blast
qed

lemma compaction_thread_stops_witness:
  "\<exists>s. run_dir stored_lsm_env (replicate 6 (LoopStep False))
       (drop_lsm (spawn_compaction \<lparr>dir_manifest = [], dir_ssts = []\<rparr>)) = Some s \<and> thread_gone s"
proof -
  let ?s = "drop_lsm (spawn_compaction \<lparr>dir_manifest = [], dir_ssts = []\<rparr>)"
  have "cs_shutdown ?s" by (simp add: drop_lsm_def)
  with compaction_thread_stops [of stored_lsm_env "replicate 6 (LoopStep False)" ?s] show ?thesis by auto
qed

text \<open>
  C16: no notification is lost. However the notification falls among the steps of the thread,
  while it waits, between two waits or during a round, and whatever happens afterwards short of
  dropping the engine, the thread opens the manifest again within five steps of its own, unless
  a panic kills it before.
\<close>

theorem notification_not_lost:
  assumes "\<not> cs_shutdown s" "\<not> thread_gone s" "DropLsm \<notin> set es" "5 \<le> length (filter is_loop_step es)"
  shows "\<exists>es1 es2 s1. es = es1 @ es2 \<and> run_dir env (Notify # es1) s = Some s1 \<and>
     (cs_thread s1 = Opening \<or> cs_thread s1 = Died)"
proof (cases "cs_thread s = Opening")
  case True
  then show ?thesis
    by (intro exI [of _ "[]"] exI [of _ es] exI [of _ "notify_compaction s"]) (simp add: notify_compaction_def)
next
  case False
  with assms have n: "notified (notify_compaction s)"
    by (simp add: notified_def notify_compaction_def thread_gone_def)
  from notified_run [OF n assms(3)] notified_until [OF n] assms(4) show ?thesis by simp
qed

lemma notification_not_lost_witness:
  "\<exists>es1 es2 s1. replicate 5 (LoopStep True) = es1 @ es2 \<and>
     run_dir stored_lsm_env (Notify # es1) (spawn_compaction \<lparr>dir_manifest = [], dir_ssts = []\<rparr>) = Some s1 \<and>
     (cs_thread s1 = Opening \<or> cs_thread s1 = Died)"
  by (rule notification_not_lost) (simp_all add: spawn_compaction_def thread_gone_def)

text \<open>
  C17: the next flush destroys what a compaction has merged. The thread allocates the
  identifier of the new table from a manifest of its own; the engine, whose manifest does not
  learn of it, gives the same identifier to its next flush and so replaces the merged table.
  After a round that merged tables as it should, undisturbed and on the directory of an engine
  whose manifest is the file's, that flush leaves neither the inputs nor the merged table.
\<close>

theorem flush_destroys_compacted:
  assumes "env_ok env" "mirrors m" "pick_compaction ssts m = Ok (Some task)" "inputs_ok env task ssts m content"
    "cs_thread s = Opening" "cs_dir s = \<lparr>dir_manifest = mf_file m, dir_ssts = ssts\<rparr>"
  shows "\<exists>n s' f1 t en d. run_dir env (replicate n (LoopStep b)) s = Some s' \<and> cs_thread s' = Entering_wait \<and>
     hm_get (dir_ssts (cs_dir s')) (next_sst_id m) = Some f1 \<and> open_sst (next_sst_id m) f1 hc = Ok t \<and>
     (\<forall>k. fst (sst_get (le_blocks env) t k []) =
        Ok (live (first_some (map (\<lambda>i. map_of (content i) k) (input_ssts task))))) \<and>
     flush_to_dir table (m, handle) (cs_dir s') = (en, d) \<and>
     hm_get (dir_ssts d) (next_sst_id m) = Some table \<and>
     (\<forall>i \<in> set (input_ssts task). hm_get (dir_ssts d) i = None)"
proof -
  obtain m1 where m1: "manifest_open (mf_file m) = Ok m1" "follows True m m1"
    using mirrors_open [OF assms(2)] by blast
  then have same: "m1 = m" using manifest_open_file [OF m1(1)] by (simp add: follows_def)
  obtain ssts' m' f1 t where c: "compact env task ssts m = Some (Ok [next_sst_id m], ssts', m')"
    "open_sst (next_sst_id m) f1 hc = Ok t"
    "\<forall>k. fst (sst_get (le_blocks env) t k []) =
       Ok (live (first_some (map (\<lambda>i. map_of (content i) k) (input_ssts task))))"
    "\<forall>j. hm_get ssts' j = (if j \<in> set (input_ssts task) then None
       else if j = next_sst_id m then Some f1 else hm_get ssts j)"
    using compacted [OF assms(1,4), of hc] by metis
  have round: "compaction_round env ssts (mf_file m) = Some (Ok [next_sst_id m], ssts', mf_file m')"
    using m1(1) same assms(3) c(1) by (simp add: compaction_round_def)
  let ?s = "s\<lparr>cs_dir := \<lparr>dir_manifest = mf_file m', dir_ssts = ssts'\<rparr>, cs_thread := Entering_wait\<rparr>"
  obtain n where n: "run_dir env (replicate n (LoopStep b)) s = Some ?s"
    using undisturbed_round [OF assms(5), of env "Ok [next_sst_id m]" ssts' "mf_file m'" b] round assms(6) by auto
  obtain en d where d: "flush_to_dir table (m, handle) (cs_dir ?s) = (en, d)" by fastforce
  have fresh: "next_sst_id m \<notin> set (input_ssts task)" using assms(4) by (simp add: inputs_ok_def)
  have "hm_get (dir_ssts d) i = None" if "i \<in> set (input_ssts task)" for i
    using flush_to_dir_file [OF d, of i] c(4) that fresh by auto
  moreover have "hm_get (dir_ssts d) (next_sst_id m) = Some table" using flush_to_dir_file [OF d] by simp
  ultimately show ?thesis using n d c(2,3,4) fresh by (intro exI [of _ n] exI [of _ ?s]) auto
qed

lemma flush_destroys_compacted_witness:
  "\<exists>m ssts n s' f1 t en d. run_dir stored_lsm_env (replicate n (LoopStep False))
       ((spawn_compaction \<lparr>dir_manifest = mf_file m, dir_ssts = ssts\<rparr>)\<lparr>cs_thread := Opening\<rparr>) = Some s' \<and>
     hm_get (dir_ssts (cs_dir s')) 5 = Some f1 \<and> open_sst 5 f1 True = Ok t \<and>
     fst (sst_get (le_blocks stored_lsm_env) t [8] []) = Ok (Some [3]) \<and>
     flush_to_dir [0] (m, None) (cs_dir s') = (en, d) \<and> hm_get (dir_ssts d) 5 = Some [0] \<and>
     hm_get (dir_ssts d) 2 = None"
proof -
  let ?m = "run_ops [AddSst 0 1, AddSst 0 2, AddSst 0 3, AddSst 0 4]"
  have m: "mirrors ?m" by (rule mirrors_run_ops) simp_all
  have ids: "level_ids ?m 0 = [1, 2, 3, 4]" "level_ids ?m 1 = []" "next_sst_id ?m = 5"
    by (simp_all add: run_ops_def add_sst_def write_line_def push_sst_def manifest_create_def level_ids_def Let_def)
  obtain ssts where ssts: "inputs_ok stored_lsm_env four_task ssts four_tables four_contents"
    using four_files [OF env_ok_stored] by blast
  then have inputs: "inputs_ok stored_lsm_env four_task ssts ?m four_contents"
    using ids by (simp add: inputs_ok_def four_task_def)
  have pick: "pick_compaction ssts ?m = Ok (Some four_task)"
    using ids by (simp add: pick_level0 four_task_def)
  let ?s = "(spawn_compaction \<lparr>dir_manifest = mf_file ?m, dir_ssts = ssts\<rparr>)\<lparr>cs_thread := Opening\<rparr>"
  have s: "cs_thread ?s = Opening" "cs_dir ?s = \<lparr>dir_manifest = mf_file ?m, dir_ssts = ssts\<rparr>"
    by (simp_all add: spawn_compaction_def)
  from flush_destroys_compacted [OF env_ok_stored m pick inputs s, of False True "[0]" None, unfolded ids(3)]
  obtain n s' f1 t en d where r: "run_dir stored_lsm_env (replicate n (LoopStep False)) ?s = Some s'"
    "hm_get (dir_ssts (cs_dir s')) 5 = Some f1" "open_sst 5 f1 True = Ok t"
    "\<forall>k. fst (sst_get (le_blocks stored_lsm_env) t k []) =
       Ok (live (first_some (map (\<lambda>i. map_of (four_contents i) k) (input_ssts four_task))))"
    "flush_to_dir [0] (?m, None) (cs_dir s') = (en, d)" "hm_get (dir_ssts d) 5 = Some [0]"
    "\<forall>i \<in> set (input_ssts four_task). hm_get (dir_ssts d) i = None" by blast
  have "fst (sst_get (le_blocks stored_lsm_env) t [8] []) = Ok (Some [3])" "hm_get (dir_ssts d) 2 = None"
    using r(4) [rule_format, of "[8]"] r(7) by (simp_all add: four_task_def four_contents_def)
  with r(1-3,5,6) show ?thesis by blast
qed

end
