(* ===== verification/Lsm_Ops.thy ===== *)
theory Lsm_Ops
  imports Lsm_Reopen
begin

text \<open>
  The storage engine under any sequence of its operations (puts, deletions, batches, lookups,
  syncs): what stays well-formed, and the abstract machine it refines, two maps of which the
  first covers the second and is poured into it by a flush.
\<close>

section \<open>Operations in any order\<close>

datatype engine_op =
    PutOp bytes bytes
  | DeleteOp bytes
  | BatchOp write_batch
  | GetOp bytes
  | SyncOp

text \<open>One operation; a lookup adds its answer to the list.\<close>

definition no_answer :: "(error, unit) result \<times> lsm \<Rightarrow> (error, bytes option list) result \<times> lsm" where
  "no_answer p = (bind_result (fst p) (\<lambda>_. Ok []), snd p)"

fun engine_step :: "lsm_env \<Rightarrow> engine_op \<Rightarrow> lsm \<Rightarrow> (error, bytes option list) result \<times> lsm" where
  "engine_step env (PutOp k v) s = no_answer (lsm_put env k v s)"
| "engine_step env (DeleteOp k) s = no_answer (Ok (), lsm_delete env k s)"
| "engine_step env (BatchOp b) s = no_answer (lsm_write_batch env b s)"
| "engine_step env (GetOp k) s = (let (r, s') = lsm_get env k s in (bind_result r (\<lambda>v. Ok [v]), s'))"
| "engine_step env SyncOp s = no_answer (Ok (), lsm_sync s)"

fun run_engine :: "lsm_env \<Rightarrow> engine_op list \<Rightarrow> lsm \<Rightarrow> (error, bytes option list) result \<times> lsm" where
  "run_engine env [] s = (Ok [], s)"
| "run_engine env (p # ps) s =
     (case engine_step env p s of
        (Ok vs, s') \<Rightarrow> (let (r, s'') = run_engine env ps s' in (bind_result r (\<lambda>ws. Ok (vs @ ws)), s''))
      | (r, s') \<Rightarrow> (r, s'))"

section \<open>The abstract machine\<close>

record overlay =
  ov_top :: "bytes \<rightharpoonup> bytes option"
  ov_base :: "bytes \<rightharpoonup> bytes"
  ov_size :: nat

definition ov_empty :: overlay where
  "ov_empty = \<lparr>ov_top = Map.empty, ov_base = Map.empty, ov_size = 0\<rparr>"

fun ov_write :: "batch_operation \<Rightarrow> overlay \<Rightarrow> overlay" where
  "ov_write (BatchPut k v) ov =
     ov\<lparr>ov_top := (ov_top ov)(k \<mapsto> Some v), ov_size := ov_size ov + (length k + length v)\<rparr>"
| "ov_write (BatchDelete k) ov = ov\<lparr>ov_top := (ov_top ov)(k \<mapsto> None), ov_size := ov_size ov + length k\<rparr>"

text \<open>A flush pours the top into the base. A deletion only leaves the top: what is below comes back.\<close>

definition ov_flush :: "nat \<Rightarrow> overlay \<Rightarrow> overlay" where
  "ov_flush limit ov =
     (if limit \<le> ov_size ov
      then \<lparr>ov_top = Map.empty,
            ov_base = (\<lambda>k. case ov_top ov k of Some (Some v) \<Rightarrow> Some v | _ \<Rightarrow> ov_base ov k), ov_size = 0\<rparr>
      else ov)"

definition ov_get :: "bytes \<Rightarrow> overlay \<Rightarrow> bytes option" where
  "ov_get k ov = (case ov_top ov k of Some v \<Rightarrow> v | None \<Rightarrow> ov_base ov k)"

fun op_writes :: "engine_op \<Rightarrow> batch_operation list" where
  "op_writes (PutOp k v) = [BatchPut k v]"
| "op_writes (DeleteOp k) = [BatchDelete k]"
| "op_writes (BatchOp b) = operations b"
| "op_writes (GetOp k) = []"
| "op_writes SyncOp = []"

text \<open>Deletions do not rotate the memtable, whatever its size.\<close>

fun op_rotates :: "engine_op \<Rightarrow> bool" where
  "op_rotates (PutOp k v) = True"
| "op_rotates (BatchOp b) = (operations b \<noteq> [])"
| "op_rotates _ = False"

definition ov_step :: "nat \<Rightarrow> engine_op \<Rightarrow> overlay \<Rightarrow> overlay" where
  "ov_step limit p ov =
     (let ov' = fold ov_write (op_writes p) ov in if op_rotates p then ov_flush limit ov' else ov')"

fun ov_answers :: "nat \<Rightarrow> engine_op list \<Rightarrow> overlay \<Rightarrow> bytes option list" where
  "ov_answers limit [] ov = []"
| "ov_answers limit (p # ps) ov =
     (case p of GetOp k \<Rightarrow> [ov_get k ov] | _ \<Rightarrow> []) @ ov_answers limit ps (ov_step limit p ov)"

fun written_key :: "batch_operation \<Rightarrow> bytes" where
  "written_key (BatchPut k v) = k"
| "written_key (BatchDelete k) = k"

text \<open>No key is written twice between two flushes.\<close>

fun ov_spaced :: "nat \<Rightarrow> engine_op list \<Rightarrow> overlay \<Rightarrow> bool" where
  "ov_spaced limit [] ov = True"
| "ov_spaced limit (p # ps) ov =
     (distinct (map written_key (op_writes p)) \<and>
      list_all (\<lambda>w. ov_top ov (written_key w) = None) (op_writes p) \<and> ov_spaced limit ps (ov_step limit p ov))"

fun write_ok :: "batch_operation \<Rightarrow> bool" where
  "write_ok (BatchPut k v) = pair_ok (k, v)"
| "write_ok (BatchDelete k) = pair_ok (k, [])"

section \<open>Several writes\<close>

lemma written_by_batch:
  "lsm_put env k v s = rotate_if_full env (written env (batch_record (BatchPut k v) (lsm_next_ts s)) s)"
  "lsm_delete env k s = written env (batch_record (BatchDelete k) (lsm_next_ts s)) s"
  by (simp_all add: lsm_put_written put_at_def lsm_delete_written delete_at_def)

fun write_each :: "lsm_env \<Rightarrow> batch_operation list \<Rightarrow> lsm \<Rightarrow> lsm" where
  "write_each env [] s = s"
| "write_each env (w # ws) s = write_each env ws (written env (batch_record w (lsm_next_ts s)) s)"

lemma write_each_fields:
  "lsm_memtable (write_each env ws s) = apply_batch ws (lsm_next_ts s) (lsm_memtable s)"
  "lsm_next_ts (write_each env ws s) = lsm_next_ts s + of_nat (length ws)"
  "write_each env ws s = s\<lparr>lsm_next_ts := lsm_next_ts (write_each env ws s),
     lsm_wal := lsm_wal (write_each env ws s), lsm_memtable := lsm_memtable (write_each env ws s)\<rparr>"
proof -
  have step: "apply_record (batch_record w t) mt =
      (case w of BatchPut k v \<Rightarrow> mt_put (Key k t) v mt | BatchDelete k \<Rightarrow> mt_delete (Key k t) mt)" for w t mt
    by (cases w) (simp_all add: apply_record_def)
  show "lsm_memtable (write_each env ws s) = apply_batch ws (lsm_next_ts s) (lsm_memtable s)"
    by (induction ws arbitrary: s) (auto simp: step split: batch_operation.split)
  show "lsm_next_ts (write_each env ws s) = lsm_next_ts s + of_nat (length ws)"
    by (induction ws arbitrary: s) (simp_all add: algebra_simps)
  show "write_each env ws s = s\<lparr>lsm_next_ts := lsm_next_ts (write_each env ws s),
     lsm_wal := lsm_wal (write_each env ws s), lsm_memtable := lsm_memtable (write_each env ws s)\<rparr>"
  proof (induction ws arbitrary: s)
    case (Cons w ws)
    show ?case by (subst write_each.simps, subst Cons.IH) (simp add: written_def)
  qed simp
qed

lemma write_batch_each:
  assumes "operations b \<noteq> []"
  obtains w where "lsm_write_batch env b s = rotate_if_full env ((write_each env (operations b) s)\<lparr>lsm_wal := w\<rparr>)"
proof -
  let ?w = "append_batch (env_crc (le_blocks env)) (le_wal_compress env)
    (map (\<lambda>(i, p). batch_record p (lsm_next_ts s + of_nat i)) (enumerate 0 (operations b))) (lsm_wal s)"
  let ?n = "lsm_next_ts s + of_nat (length (operations b))" and ?mt = "apply_batch (operations b) (lsm_next_ts s) (lsm_memtable s)"
  have "(write_each env (operations b) s)\<lparr>lsm_wal := ?w\<rparr> = s\<lparr>lsm_next_ts := ?n, lsm_wal := ?w, lsm_memtable := ?mt\<rparr>"
    by (subst write_each_fields(3)) (cases s; simp add: write_each_fields(1,2))
  with assms have "lsm_write_batch env b s = rotate_if_full env ((write_each env (operations b) s)\<lparr>lsm_wal := ?w\<rparr>)"
    by (simp add: lsm_write_batch_def Let_def)
  then show thesis by (rule that)
qed

section \<open>What stays well-formed\<close>

text \<open>
  Memtable and tables are in order, no key has two versions in the memtable, the tables are
  those of the manifest and of the files, the manifest is its text, and the counters leave
  room for \<open>n\<close> more writes.
\<close>

definition engine_ok :: "lsm_env \<Rightarrow> nat \<Rightarrow> lsm \<Rightarrow> bool" where
  "engine_ok env n s \<longleftrightarrow> lsm_ok env s \<and> clean_memtable (lsm_memtable s) \<and> room n s \<and>
     (\<exists>ts. stored ts s) \<and> unat (next_wal_id (lsm_manifest s)) + n < 2 ^ 63"

definition abs_engine :: "lsm_env \<Rightarrow> lsm \<Rightarrow> overlay" where
  "abs_engine env s =
     \<lparr>ov_top = memtable_view (lsm_memtable s), ov_base = tables_view env (tables_in_order s),
      ov_size = mt_size (lsm_memtable s)\<rparr>"

lemma engine_okD:
  assumes "engine_ok env n s"
  shows "lsm_ok env s" "clean_memtable (lsm_memtable s)" "room n s" "\<exists>ts. stored ts s"
    "unat (next_wal_id (lsm_manifest s)) + n < 2 ^ 63"
  using assms by (simp_all add: engine_ok_def)

lemma engine_ok_less: "engine_ok env n s \<Longrightarrow> m \<le> n \<Longrightarrow> engine_ok env m s"
  by (auto simp: engine_ok_def room_def)

text \<open>The log has no part in it, nor has the cache.\<close>

lemma engine_ok_wal:
  "engine_ok env n (s\<lparr>lsm_wal := w\<rparr>) = engine_ok env n s" "abs_engine env (s\<lparr>lsm_wal := w\<rparr>) = abs_engine env s"
proof -
  have "tables_in_order (s\<lparr>lsm_wal := w\<rparr>) = tables_in_order s" by (rule tables_in_order_cong) simp
  moreover have "stored ts (s\<lparr>lsm_wal := w\<rparr>) = stored ts s" for ts by (rule stored_cong) simp_all
  ultimately show "engine_ok env n (s\<lparr>lsm_wal := w\<rparr>) = engine_ok env n s"
    "abs_engine env (s\<lparr>lsm_wal := w\<rparr>) = abs_engine env s"
    by (simp_all add: engine_ok_def lsm_ok_def room_def abs_engine_def)
qed

lemma memtable_view_map: "memtable_view mt = map_of (data_entries (mt_map mt))"
  by (rule ext) (simp add: memtable_view_def)

lemma mt_keys_view: "mt_keys mt = dom (memtable_view mt)"
  by (simp add: mt_keys_def memtable_view_map data_entries_def dom_map_of_conv_image_fst image_image
      case_prod_unfold)

lemma memtable_view_new: "memtable_view new_memtable = Map.empty"
  by (simp add: memtable_view_map skip_ok_new data_entries_def)

lemma written_engine_ok:
  assumes "engine_ok env (Suc n) s" "write_ok w" "ov_top (abs_engine env s) (written_key w) = None"
  defines "s' \<equiv> written env (batch_record w (lsm_next_ts s)) s"
  shows "engine_ok env n s'" "abs_engine env s' = ov_write w (abs_engine env s)" "lsm_options s' = lsm_options s"
proof -
  let ?r = "batch_record w (lsm_next_ts s)"
  note ok = engine_okD [OF assms(1)]
  have r: "rec_timestamp ?r = lsm_next_ts s" "rec_key ?r = written_key w"
    "length (rec_key ?r) \<le> 2 ^ 30" "\<And>v. rec_value ?r = Some v \<Longrightarrow> length v \<le> 2 ^ 30"
    using assms(2) by (cases w; auto simp: pair_ok_def)+
  have new: "rec_key ?r \<notin> mt_keys (lsm_memtable s)"
    using assms(3) r(2) by (simp add: mt_keys_view abs_engine_def domIff)
  have "stored ts s' = stored ts s" for ts unfolding s'_def by (rule stored_cong) (simp_all add: written_def)
  with ok(4,5) show "engine_ok env n s'"
    using written_step [OF ok(1,2,3) r(1) new r(3,4)] by (simp add: engine_ok_def s'_def)
  have "memtable_view (apply_record ?r (lsm_memtable s)) =
      (memtable_view (lsm_memtable s))(written_key w \<mapsto> (case w of BatchPut k v \<Rightarrow> Some v | BatchDelete k \<Rightarrow> None))"
    using memtable_view_written [OF ok(1) r(1)] by (cases w) (simp_all add: fun_eq_iff)
  moreover have "mt_size (apply_record ?r (lsm_memtable s)) = mt_size (lsm_memtable s) +
      (case w of BatchPut k v \<Rightarrow> length k + length v | BatchDelete k \<Rightarrow> length k)"
    by (cases w) (simp_all add: apply_record_def mt_put_def mt_delete_def)
  ultimately show "abs_engine env s' = ov_write w (abs_engine env s)"
    by (cases w) (simp_all add: abs_engine_def s'_def)
  show "lsm_options s' = lsm_options s" by (simp add: s'_def)
qed

lemma write_each_engine_ok:
  assumes "engine_ok env (length ws + n) s" "list_all write_ok ws" "distinct (map written_key ws)"
    "list_all (\<lambda>w. ov_top (abs_engine env s) (written_key w) = None) ws"
  shows "engine_ok env n (write_each env ws s) \<and>
    abs_engine env (write_each env ws s) = fold ov_write ws (abs_engine env s) \<and>
    lsm_options (write_each env ws s) = lsm_options s"
  using assms
proof (induction ws arbitrary: s)
  case (Cons w ws)
  let ?s = "written env (batch_record w (lsm_next_ts s)) s"
  have w: "engine_ok env (length ws + n) ?s" "abs_engine env ?s = ov_write w (abs_engine env s)"
    "lsm_options ?s = lsm_options s"
    using written_engine_ok [where env = env and n = "length ws + n" and s = s and w = w] Cons.prems(1,2,4) by simp_all
  have top: "ov_top (ov_write w ov) k = None" if "ov_top ov k = None" "k \<noteq> written_key w" for ov k
    using that by (cases w) simp_all
  have "ov_top (abs_engine env ?s) (written_key v) = None" if v: "v \<in> set ws" for v
  proof -
    have "ov_top (abs_engine env s) (written_key v) = None"
      using bspec [OF Cons.prems(4) [unfolded list_all_iff], of v] v by simp
    moreover have "written_key v \<noteq> written_key w"
    proof
      assume "written_key v = written_key w"
      then have "written_key w \<in> set (map written_key ws)" using v by (metis image_eqI set_map)
      with Cons.prems(3) show False by simp
    qed
    ultimately show ?thesis unfolding w(2) by (rule top)
  qed
  then have "list_all (\<lambda>v. ov_top (abs_engine env ?s) (written_key v) = None) ws" by (simp add: list_all_iff)
  with Cons.IH [OF w(1)] Cons.prems w(2,3) show ?case by simp
qed simp

lemma rotate_engine_ok:
  assumes env: "env_ok env" and ok: "engine_ok env (Suc n) s"
  obtains s' where "rotate_if_full env s = (Ok (), s')" "engine_ok env n s'"
    "abs_engine env s' = ov_flush (opt_memtable_size (lsm_options s)) (abs_engine env s)"
    "lsm_options s' = lsm_options s"
proof (cases "opt_memtable_size (lsm_options s) \<le> mt_size (lsm_memtable s)")
  case False
  with engine_ok_less [OF ok, of n] show thesis
    by (intro that [of s]) (auto simp: rotate_if_full_def ov_flush_def abs_engine_def)
next
  case True
  note o = engine_okD [OF ok]
  have r: "room n s" "unat (next_sst_id (lsm_manifest s)) + Suc n < 2 ^ 63" using o(3) by (auto simp: room_def)
  from rotate_if_full_ok [OF env o(1,2) r] True obtain s' where
    s': "rotate_if_full env s = (Ok (), s')" "lsm_ok env s'" "clean_memtable (lsm_memtable s')"
    "room n s'" "lsm_options s' = lsm_options s" "lsm_memtable s' = new_memtable" "flushed env s s'"
    by (metis (full_types))
  have rot: "rotate_memtable env s = (Ok (), s')" using s'(1) True by (simp add: rotate_if_full_def)
  have ids: "next_wal_id (lsm_manifest s) \<noteq> - 1" "next_sst_id (lsm_manifest s) \<noteq> - 1"
    "unat (next_wal_id (lsm_manifest s) + 1) = unat (next_wal_id (lsm_manifest s)) + 1"
    using counter_step [of "next_wal_id (lsm_manifest s)"] counter_step(1) [of "next_sst_id (lsm_manifest s)"] o(5) r(2)
    by simp_all
  obtain ts where "stored ts s" using o(4) by blast
  then obtain t where t: "stored (ts @ [t]) s'" "next_wal_id (lsm_manifest s') = next_wal_id (lsm_manifest s) + 1"
    by (rule stored_rotated [OF _ rot o(1) s'(7) ids(1,2)])
  have "tables_view env (tables_in_order s') = (\<lambda>k. case memtable_view (lsm_memtable s) k of
      Some (Some v) \<Rightarrow> Some v | _ \<Rightarrow> tables_view env (tables_in_order s) k)"
    using s'(7) by (intro ext) (auto simp: flushed_def tables_view_def memtable_view_map first_some_Cons
        split: option.split)
  then have "abs_engine env s' = ov_flush (opt_memtable_size (lsm_options s)) (abs_engine env s)"
    using True s'(6) memtable_view_new by (simp add: abs_engine_def ov_flush_def new_memtable_def cong: option.case_cong)
  with s' t ids(3) o(5) show thesis by (intro that [of s']) (auto simp: engine_ok_def)
qed

section \<open>Every operation\<close>

lemma get_engine_ok:
  assumes "engine_ok env n s"
  obtains s' where "lsm_get env k s = (Ok (ov_get k (abs_engine env s)), s')" "engine_ok env n s'"
    "abs_engine env s' = abs_engine env s" "lsm_options s' = lsm_options s"
proof -
  note ok = engine_okD [OF assms]
  let ?ts = "tables_in_order s"
  obtain s' cache where s': "s' = s\<lparr>lsm_cache := cache\<rparr>" "snd (lsm_get env k s) = s'"
    "tables_valid (le_blocks env) ?ts cache"
  proof (cases "memtable_view (lsm_memtable s) k")
    case None
    note k = memtable_newest [OF lsm_okD(1,5) [OF ok(1)], where k = k]
    have "tables_valid (le_blocks env) ?ts (snd (search_tables env ?ts k (lsm_cache s)))"
      unfolding search_tables_def by (rule ts.search_each_ok(2) [OF lsm_okD(3) [OF ok(1)] order_refl])
    with None k lsm_okD(2) [OF ok(1)] show thesis
      by (intro that) (auto simp: lsm_get_def lsm_get_at_ts_def split: prod.split)
  next
    case (Some v)
    note k = memtable_newest [OF lsm_okD(1,5) [OF ok(1)], where k = k]
    from Some k have "snd (lsm_get env k s) = s\<lparr>lsm_cache := lsm_cache s\<rparr>"
      by (simp add: lsm_get_def lsm_get_at_ts_def)
    with lsm_okD(3) [OF ok(1)] show thesis by (intro that) simp_all
  qed
  have tables: "tables_in_order s' = ?ts" by (rule tables_in_order_cong) (simp add: s'(1))
  have "stored ts s' = stored ts s" for ts by (rule stored_cong) (simp_all add: s'(1))
  with ok s'(1,3) tables have "engine_ok env n s'"
    by (simp add: engine_ok_def lsm_ok_def room_def)
  moreover have "abs_engine env s' = abs_engine env s" using tables s'(1) by (simp add: abs_engine_def)
  moreover have "view env s k = ov_get k (abs_engine env s)"
    by (simp add: view_def ov_get_def abs_engine_def split: option.split)
  ultimately show thesis
    using lsm_get_view [OF ok(1), of k] s'(1,2) that by (metis prod.collapse lsm.surjective lsm.update_convs(8) lsm.select_convs(9))
qed

definition op_cost :: "engine_op \<Rightarrow> nat" where
  "op_cost p = Suc (length (op_writes p))"

lemma engine_step_ok:
  assumes env: "env_ok env" and ok: "engine_ok env (op_cost p + n) s"
    and p: "list_all write_ok (op_writes p)" "distinct (map written_key (op_writes p))"
    "list_all (\<lambda>w. ov_top (abs_engine env s) (written_key w) = None) (op_writes p)"
  obtains s' where "engine_step env p s = (Ok (case p of GetOp k \<Rightarrow> [ov_get k (abs_engine env s)] | _ \<Rightarrow> []), s')"
    "engine_ok env n s'" "abs_engine env s' = ov_step (opt_memtable_size (lsm_options s)) p (abs_engine env s)"
    "lsm_options s' = lsm_options s"
proof -
  note result = that
  let ?ws = "op_writes p" and ?limit = "opt_memtable_size (lsm_options s)"
  let ?s1 = "write_each env ?ws s"
  have less: "engine_ok env n s" by (rule engine_ok_less [OF ok]) (simp add: op_cost_def)
  have "engine_ok env (length ?ws + Suc n) s" using ok by (simp add: op_cost_def)
  from write_each_engine_ok [OF this p] have s1: "engine_ok env (Suc n) ?s1"
    "abs_engine env ?s1 = fold ov_write ?ws (abs_engine env s)" "lsm_options ?s1 = lsm_options s" by simp_all
  have rotated: thesis if q: "op_rotates p" "engine_step env p s = no_answer (rotate_if_full env (?s1\<lparr>lsm_wal := w\<rparr>))"
    "\<forall>k. p \<noteq> GetOp k" for w
  proof -
    have "engine_ok env (Suc n) (?s1\<lparr>lsm_wal := w\<rparr>)" using s1(1) by (simp add: engine_ok_wal)
    from rotate_engine_ok [OF env this] obtain s' where s': "rotate_if_full env (?s1\<lparr>lsm_wal := w\<rparr>) = (Ok (), s')"
      "engine_ok env n s'" "abs_engine env s' = ov_flush ?limit (abs_engine env ?s1)" "lsm_options s' = lsm_options s"
      using s1(3) by (auto simp: engine_ok_wal)
    with q s1(2) show thesis
      by (intro result [of s']) (auto simp: no_answer_def ov_step_def split: engine_op.split)
  qed
  show thesis
  proof (cases p)
    case (PutOp k v)
    then have "?s1\<lparr>lsm_wal := lsm_wal ?s1\<rparr> = written env (batch_record (BatchPut k v) (lsm_next_ts s)) s" by simp
    with PutOp show thesis by (intro rotated [of "lsm_wal ?s1"]) (simp_all add: written_by_batch)
  next
    case (DeleteOp k)
    have "engine_ok env n ?s1" by (rule engine_ok_less [OF s1(1)]) simp
    with DeleteOp s1(2,3) show thesis
      by (intro result [of ?s1]) (simp_all add: no_answer_def written_by_batch ov_step_def)
  next
    case (BatchOp b)
    show thesis
    proof (cases "operations b = []")
      case True
      with BatchOp less show thesis
        by (intro result [of s]) (simp_all add: no_answer_def lsm_write_batch_def ov_step_def)
    next
      case False
      obtain w where "lsm_write_batch env b s = rotate_if_full env (?s1\<lparr>lsm_wal := w\<rparr>)"
        using write_batch_each [OF False] BatchOp by auto
      with BatchOp False show thesis by (intro rotated [of w]) simp_all
    qed
  next
    case (GetOp k)
    obtain s' where "lsm_get env k s = (Ok (ov_get k (abs_engine env s)), s')" "engine_ok env n s'"
      "abs_engine env s' = abs_engine env s" "lsm_options s' = lsm_options s"
      by (rule get_engine_ok [OF less])
    with GetOp show thesis by (intro result [of s']) (simp_all add: ov_step_def)
  next
    case SyncOp
    with less show thesis
      by (intro result [of "lsm_sync s"]) (simp_all add: no_answer_def ov_step_def lsm_sync_def engine_ok_wal)
  qed
qed

lemma run_engine_ok:
  assumes env: "env_ok env" and "engine_ok env (sum_list (map op_cost ps) + n) s"
    "list_all (\<lambda>p. list_all write_ok (op_writes p)) ps"
    "ov_spaced limit ps (abs_engine env s)" "limit = opt_memtable_size (lsm_options s)"
  shows "\<exists>s'. run_engine env ps s = (Ok (ov_answers limit ps (abs_engine env s)), s') \<and> engine_ok env n s' \<and>
     abs_engine env s' = fold (ov_step limit) ps (abs_engine env s) \<and> lsm_options s' = lsm_options s"
  using assms(2-)
proof (induction ps arbitrary: s)
  case (Cons p ps)
  have "engine_ok env (op_cost p + (sum_list (map op_cost ps) + n)) s" using Cons.prems(1) by (simp add: add.assoc)
  from engine_step_ok [OF env this] Cons.prems(2-4) obtain s1 where
    s1: "engine_step env p s = (Ok (case p of GetOp k \<Rightarrow> [ov_get k (abs_engine env s)] | _ \<Rightarrow> []), s1)"
    "engine_ok env (sum_list (map op_cost ps) + n) s1"
    "abs_engine env s1 = ov_step limit p (abs_engine env s)" "lsm_options s1 = lsm_options s"
    by auto
  with Cons.IH [OF s1(2)] Cons.prems(2-4) show ?case by auto
qed simp

lemma fresh_engine_ok: "n < 2 ^ 29 \<Longrightarrow> engine_ok env n (fresh_lsm opts)"
proof -
  assume n: "n < 2 ^ 29"
  have "stored [] (fresh_lsm opts)" by (simp add: stored_def fresh_lsm_def mirrors_create) (simp add: manifest_create_def)
  then have "\<exists>ts. stored ts (fresh_lsm opts)" by blast
  with fresh_inv [OF n, of env opts] n show ?thesis
    by (simp add: engine_ok_def puts_inv_def) (simp add: fresh_lsm_def manifest_create_def)
qed

lemma fresh_abs: "abs_engine env (fresh_lsm opts) = ov_empty"
proof -
  have "tables_in_order (fresh_lsm opts) = []" by (rule no_levels) (simp add: fresh_lsm_def)
  then show ?thesis
    by (simp add: abs_engine_def ov_empty_def tables_view_def fun_eq_iff)
      (simp add: fresh_lsm_def new_memtable_def memtable_view_new [unfolded new_memtable_def])
qed

section \<open>Properties\<close>

text \<open>
  C11: the engine stays well-formed and never fails. From an empty directory, any sequence of
  puts, deletions, batches, lookups and syncs that does not write a key twice between two
  flushes is answered without an error or a panic, whatever the memtable size. After it, and so
  after each of its prefixes, the memtable is in order with one version per key below the next
  timestamp, the tables are well-formed with distinct identifiers below the next one, they are
  the tables of level 0 in the manifest and each opens from its file, and the text of the
  manifest tells what the manifest in memory knows.
\<close>

theorem engine_stays_well_formed:
  assumes "env_ok env" "sum_list (map op_cost ps) < 2 ^ 29" "list_all (\<lambda>p. list_all write_ok (op_writes p)) ps"
    "lsm_open env empty_disk opts = Ok s0" "ov_spaced (opt_memtable_size opts) ps ov_empty"
  shows "\<exists>answers s. run_engine env ps s0 = (Ok answers, s) \<and> engine_ok env 0 s"
proof -
  have s0: "s0 = fresh_lsm opts" using assms(4) by (simp add: lsm_open_empty)
  have ok: "engine_ok env (sum_list (map op_cost ps) + 0) s0"
    unfolding s0 by (rule fresh_engine_ok) (use assms(2) in simp)
  have "ov_spaced (opt_memtable_size opts) ps (abs_engine env s0)" using assms(5) by (simp add: s0 fresh_abs)
  moreover have "opt_memtable_size opts = opt_memtable_size (lsm_options s0)" by (simp add: s0 fresh_lsm_def)
  ultimately show ?thesis using run_engine_ok [OF assms(1) ok assms(3)] by metis
qed

text \<open>
  C10: the engine is two maps. The same runs answer every lookup as the abstract machine
  \<open>overlay\<close> does: writes go to the upper map, deletions as markers; a lookup takes the upper map
  before the lower; a put or a batch that leaves the upper map at least as large as the
  memtable size pours its values, but not its markers, into the lower map and empties it.
\<close>

theorem engine_refines_overlay:
  assumes "env_ok env" "sum_list (map op_cost ps) < 2 ^ 29" "list_all (\<lambda>p. list_all write_ok (op_writes p)) ps"
    "lsm_open env empty_disk opts = Ok s0" "ov_spaced (opt_memtable_size opts) ps ov_empty"
  shows "fst (run_engine env ps s0) = Ok (ov_answers (opt_memtable_size opts) ps ov_empty) \<and>
    abs_engine env (snd (run_engine env ps s0)) = fold (ov_step (opt_memtable_size opts)) ps ov_empty"
proof -
  have s0: "s0 = fresh_lsm opts" using assms(4) by (simp add: lsm_open_empty)
  have ok: "engine_ok env (sum_list (map op_cost ps) + 0) s0"
    unfolding s0 by (rule fresh_engine_ok) (use assms(2) in simp)
  have "opt_memtable_size opts = opt_memtable_size (lsm_options s0)" by (simp add: s0 fresh_lsm_def)
  from run_engine_ok [OF assms(1) ok assms(3) _ this] assms(5) show ?thesis
    by (auto simp: s0 fresh_abs)
qed

definition some_ops :: "engine_op list" where
  "some_ops = [PutOp [1] [7], DeleteOp [1], GetOp [1], SyncOp,
     BatchOp \<lparr>operations = [BatchPut [2] [8], BatchDelete [3]], approximate_size = 4\<rparr>, GetOp [1], GetOp [3]]"

lemma some_ops_ok:
  "sum_list (map op_cost some_ops) < 2 ^ 29" "list_all (\<lambda>p. list_all write_ok (op_writes p)) some_ops"
  "ov_spaced (opt_memtable_size tiny_options) some_ops ov_empty"
  "ov_answers (opt_memtable_size tiny_options) some_ops ov_empty = [None, Some [7], None]"
  by (simp_all add: some_ops_def op_cost_def pair_ok_def ov_empty_def ov_step_def ov_flush_def ov_get_def
      tiny_options_def Let_def cong: option.case_cong)

lemma engine_stays_well_formed_witness:
  "\<exists>answers s. run_engine stored_lsm_env some_ops (fresh_lsm tiny_options) = (Ok answers, s) \<and>
     engine_ok stored_lsm_env 0 s"
  by (rule engine_stays_well_formed [OF env_ok_stored some_ops_ok(1,2) lsm_open_empty some_ops_ok(3)])

lemma engine_refines_overlay_witness:
  "fst (run_engine stored_lsm_env some_ops (fresh_lsm tiny_options)) = Ok [None, Some [7], None]"
  using engine_refines_overlay [OF env_ok_stored some_ops_ok(1,2) lsm_open_empty some_ops_ok(3)] some_ops_ok(4)
  by simp

end
