(* ===== verification/Lsm_Faults.thy ===== *)
theory Lsm_Faults
  imports Lsm_Ops
begin

text \<open>
  The write path of \<open>crabstash-storage/src/lsm.rs\<close> when operations on files fail: which error is
  answered, what is left behind, and what is read afterwards.
\<close>

section \<open>Failing operations\<close>

text \<open>
  Which operation of a call fails and what it leaves: an append or a sync the log, a line of the
  manifest the text, the building of a table the file, if it was created. The first that is reached ends the call.
\<close>

record io_faults =
  at_append :: "(io_error \<times> wal) option"
  at_sync :: "(io_error \<times> wal) option"
  at_wal_line :: "(io_error \<times> string) option"
  at_wal_create :: "io_error option"
  at_table :: "(io_error \<times> bytes option) option"
  at_table_line :: "(io_error \<times> string) option"
  at_table_open :: "io_error option"

definition no_faults :: io_faults where
  "no_faults = \<lparr>at_append = None, at_sync = None, at_wal_line = None, at_wal_create = None,
     at_table = None, at_table_line = None, at_table_open = None\<rparr>"

definition flush_immutable_io ::
  "lsm_env \<Rightarrow> io_faults \<Rightarrow> memtable \<Rightarrow> lsm \<Rightarrow> (error, unit) result \<times> lsm" where
  "flush_immutable_io env f imm s =
     (let (i, m1) = allocate_sst_id (lsm_manifest s); s1 = s\<lparr>lsm_manifest := m1\<rparr> in
      case at_table f of
        Some (e, partial) \<Rightarrow>
          (Err (Io e), s1\<lparr>lsm_ssts := (case partial of
              None \<Rightarrow> lsm_ssts s1 | Some file \<Rightarrow> hm_insert i file (lsm_ssts s1))\<rparr>)
      | None \<Rightarrow>
          (case build_sst (le_blocks env) (mt_len imm) (opt_compression (lsm_options s))
                 (le_bits_per_key env) (le_hashes env) (mt_map imm) of
             Ok file \<Rightarrow>
               (let s2 = s1\<lparr>lsm_ssts := hm_insert i file (lsm_ssts s1)\<rparr> in
                case at_table_line f of
                  Some (e, text) \<Rightarrow> (Err (Io e), s2\<lparr>lsm_manifest := m1\<lparr>mf_file := text\<rparr>\<rparr>)
                | None \<Rightarrow>
                    (let s3 = s2\<lparr>lsm_manifest := add_sst 0 i m1\<rparr> in
                     case at_table_open f of
                       Some e \<Rightarrow> (Err (Io e), s3)
                     | None \<Rightarrow>
                         (case open_sst i file True of
                            Ok t \<Rightarrow>
                              (Ok (), s3\<lparr>lsm_levels := hm_insert 0 (level_tables s3 0 @ [t]) (lsm_levels s3),
                                        lsm_immutables := butlast (lsm_immutables s3)\<rparr>)
                          | Err e \<Rightarrow> (Err e, s3)
                          | Panic \<Rightarrow> (Panic, s3))))
           | Err e \<Rightarrow> (Err e, s1)
           | Panic \<Rightarrow> (Panic, s1)))"

text \<open>A failed line leaves the identifiers of the manifest in memory as they were.\<close>

definition rotate_memtable_io :: "lsm_env \<Rightarrow> io_faults \<Rightarrow> lsm \<Rightarrow> (error, unit) result \<times> lsm" where
  "rotate_memtable_io env f s =
     (let imm = lsm_memtable s;
          s1 = s\<lparr>lsm_memtable := new_memtable, lsm_immutables := lsm_immutables s @ [imm]\<rparr> in
      case at_sync f of
        Some (e, w) \<Rightarrow> (Err (Io e), s1\<lparr>lsm_wal := w\<rparr>)
      | None \<Rightarrow>
          (let (i, m1) = allocate_wal_id (lsm_manifest s);
               s2 = s1\<lparr>lsm_wal := sync (lsm_wal s)\<rparr> in
           case at_wal_line f of
             Some (e, text) \<Rightarrow> (Err (Io e), s2\<lparr>lsm_manifest := m1\<lparr>mf_file := text\<rparr>\<rparr>)
           | None \<Rightarrow>
               (case at_wal_create f of
                  Some e \<Rightarrow> (Err (Io e), s2\<lparr>lsm_manifest := add_wal i m1\<rparr>)
                | None \<Rightarrow> flush_immutable_io env f imm (s1\<lparr>
                      lsm_manifest := add_wal i m1,
                      lsm_wals := hm_remove i (hm_insert (lsm_wal_id s) (drop_wal (lsm_wal s)) (lsm_wals s)),
                      lsm_wal := create_with_options default_wal_options,
                      lsm_wal_id := i\<rparr>))))"

definition rotate_if_full_io :: "lsm_env \<Rightarrow> io_faults \<Rightarrow> lsm \<Rightarrow> (error, unit) result \<times> lsm" where
  "rotate_if_full_io env f s =
     (if mt_size (lsm_memtable s) \<ge> opt_memtable_size (lsm_options s)
      then rotate_memtable_io env f s else (Ok (), s))"

text \<open>The timestamp is taken before the append and is not given back.\<close>

definition lsm_put_io ::
  "lsm_env \<Rightarrow> io_faults \<Rightarrow> bytes \<Rightarrow> bytes \<Rightarrow> lsm \<Rightarrow> (error, unit) result \<times> lsm" where
  "lsm_put_io env f k v s =
     (let t = lsm_next_ts s; s1 = s\<lparr>lsm_next_ts := t + 1\<rparr>;
          r = \<lparr>rec_type = Put, rec_key = k, rec_value = Some v, rec_timestamp = t\<rparr> in
      case at_append f of
        Some (e, w) \<Rightarrow> (Err (Io e), s1\<lparr>lsm_wal := w\<rparr>)
      | None \<Rightarrow> rotate_if_full_io env f (s1\<lparr>
           lsm_wal := append (env_crc (le_blocks env)) (le_wal_compress env) r (lsm_wal s),
           lsm_memtable := mt_put (Key k t) v (lsm_memtable s)\<rparr>))"

definition lsm_delete_io :: "lsm_env \<Rightarrow> io_faults \<Rightarrow> bytes \<Rightarrow> lsm \<Rightarrow> (error, unit) result \<times> lsm" where
  "lsm_delete_io env f k s =
     (let t = lsm_next_ts s; s1 = s\<lparr>lsm_next_ts := t + 1\<rparr>;
          r = \<lparr>rec_type = Delete, rec_key = k, rec_value = None, rec_timestamp = t\<rparr> in
      case at_append f of
        Some (e, w) \<Rightarrow> (Err (Io e), s1\<lparr>lsm_wal := w\<rparr>)
      | None \<Rightarrow> (Ok (), s1\<lparr>
           lsm_wal := append (env_crc (le_blocks env)) (le_wal_compress env) r (lsm_wal s),
           lsm_memtable := mt_delete (Key k t) (lsm_memtable s)\<rparr>))"

definition lsm_write_batch_io ::
  "lsm_env \<Rightarrow> io_faults \<Rightarrow> write_batch \<Rightarrow> lsm \<Rightarrow> (error, unit) result \<times> lsm" where
  "lsm_write_batch_io env f b s =
     (let ops = operations b; base = lsm_next_ts s;
          s1 = s\<lparr>lsm_next_ts := base + of_nat (length ops)\<rparr>;
          records = map (\<lambda>(i, p). batch_record p (base + of_nat i)) (enumerate 0 ops)
      in if ops = [] then (Ok (), s)
         else case at_append f of
           Some (e, w) \<Rightarrow> (Err (Io e), s1\<lparr>lsm_wal := w\<rparr>)
         | None \<Rightarrow> rotate_if_full_io env f (s1\<lparr>
              lsm_wal := append_batch (env_crc (le_blocks env)) (le_wal_compress env) records (lsm_wal s),
              lsm_memtable := apply_batch ops base (lsm_memtable s)\<rparr>))"

section \<open>Without faults\<close>

lemma no_faults_simps [simp]:
  "at_append no_faults = None" "at_sync no_faults = None" "at_wal_line no_faults = None"
  "at_wal_create no_faults = None" "at_table no_faults = None" "at_table_line no_faults = None"
  "at_table_open no_faults = None"
  by (simp_all add: no_faults_def)

lemma flush_no_faults: "flush_immutable_io env no_faults imm s = flush_immutable env imm s"
  by (simp add: flush_immutable_io_def flush_immutable_def Let_def split: prod.split result.split)

lemma rotate_no_faults: "rotate_if_full_io env no_faults s = rotate_if_full env s"
  by (simp add: rotate_if_full_io_def rotate_if_full_def rotate_memtable_io_def rotate_memtable_def
      flush_no_faults Let_def split: prod.split)

lemma writes_no_faults:
  "lsm_put_io env no_faults k v s = lsm_put env k v s"
  "lsm_delete_io env no_faults k s = (Ok (), lsm_delete env k s)"
  "lsm_write_batch_io env no_faults b s = lsm_write_batch env b s"
  by (simp_all add: lsm_put_io_def lsm_put_def lsm_delete_io_def lsm_delete_def lsm_write_batch_io_def
      lsm_write_batch_def rotate_no_faults Let_def)

section \<open>What a failure leaves\<close>

lemma failed_rotation:
  assumes "rotate_if_full_io env f s = (Err e, s')"
  shows "lsm_memtable s' = new_memtable" "lsm_immutables s' = lsm_immutables s @ [lsm_memtable s]"
    "lsm_levels s' = lsm_levels s" "lsm_cache s' = lsm_cache s" "lsm_next_ts s' = lsm_next_ts s"
    "lsm_options s' = lsm_options s"
  using assms
  by (auto simp: rotate_if_full_io_def rotate_memtable_io_def flush_immutable_io_def Let_def
      split: if_splits option.splits prod.splits result.splits)

text \<open>A lookup goes through the memtables, newest first, and then the tables.\<close>

lemma get_with_immutable:
  assumes ok: "lsm_ok env s"
    and s': "lsm_memtable s' = new_memtable" "lsm_immutables s' = [lsm_memtable s]"
    "lsm_levels s' = lsm_levels s" "lsm_cache s' = lsm_cache s" "lsm_next_ts s' = lsm_next_ts s"
  shows "fst (lsm_get env k s') = Ok (view env s k)"
proof -
  note o = lsm_okD [OF ok]
  have "mt_get_at_ts (lsm_memtable s) k (lsm_next_ts s) = memtable_view (lsm_memtable s) k"
    by (rule memtable_newest [OF o(1,5)])
  moreover have "mt_get_at_ts new_memtable k (lsm_next_ts s) = None"
    using memtable_newest [of new_memtable "lsm_next_ts s" k] by (simp add: skip_ok_new skip_ok_nil memtable_view_new)
  moreover have "tables_in_order s' = tables_in_order s" by (rule tables_in_order_cong [OF s'(3)])
  moreover have "fst (search_tables env (tables_in_order s) k (lsm_cache s)) =
      Ok (tables_view env (tables_in_order s) k)"
    using ts.search_each_ok(1) [OF o(3) order_refl] by (simp add: search_tables_def tables_view_def)
  ultimately show ?thesis
    using s' by (auto simp: lsm_get_def lsm_get_at_ts_def view_def split: option.split prod.split)
qed

text \<open>A put with its append done.\<close>

lemma put_io_written:
  assumes "at_append f = None"
  shows "lsm_put_io env f k v s = rotate_if_full_io env f (written env (batch_record (BatchPut k v) (lsm_next_ts s)) s)"
  using assms by (simp add: lsm_put_io_def written_def apply_record_def Let_def)

lemma failed_append_view:
  assumes "lsm_ok env s" "lsm_next_ts s \<noteq> - 1"
  shows "fst (lsm_get env k (s\<lparr>lsm_next_ts := lsm_next_ts s + 1, lsm_wal := w\<rparr>)) = Ok (view env s k)"
proof -
  let ?s = "s\<lparr>lsm_next_ts := lsm_next_ts s + 1, lsm_wal := w\<rparr>"
  have order: "tables_in_order ?s = tables_in_order s" by (rule tables_in_order_cong) simp
  have "lsm_ok env ?s"
    using assms(1) less_successor [OF assms(2)] by (auto simp: lsm_ok_def order intro: less_trans)
  from lsm_get_view [OF this] show ?thesis by (simp add: view_def order cong: option.case_cong)
qed

lemma view_overlay: "view env s k = ov_get k (abs_engine env s)"
  by (simp add: view_def ov_get_def abs_engine_def split: option.split)

text \<open>A rotation flushes the memtable it is called on, and leaves older immutable ones.\<close>

lemma rotate_leaves_immutables:
  assumes "lz4_block_ok (le_blocks env)" "flushable env (lsm_memtable s)"
  obtains s' where "rotate_memtable env s = (Ok (), s')" "lsm_memtable s' = new_memtable"
    "lsm_immutables s' = lsm_immutables s" "lsm_next_ts s' = lsm_next_ts s"
proof -
  let ?i = "next_sst_id (lsm_manifest s)"
  obtain contents t where built: "build_sst (le_blocks env) (mt_len (lsm_memtable s)) (opt_compression (lsm_options s))
      (le_bits_per_key env) (le_hashes env) (mt_map (lsm_memtable s)) = Ok contents" "open_sst ?i contents True = Ok t"
    using build_flushable [OF assms] by blast
  have "\<exists>s'. rotate_memtable env s = (Ok (), s') \<and> lsm_memtable s' = new_memtable \<and>
      lsm_immutables s' = lsm_immutables s \<and> lsm_next_ts s' = lsm_next_ts s"
    using built by (simp add: rotate_memtable_def flush_immutable_def allocate_wal_id_def allocate_sst_id_def
        add_wal_def write_line_def note_wal_def Let_def)
  with that show thesis by blast
qed

lemma single_put_flushable:
  assumes "env_ok env" "pair_ok (k, v)"
  shows "flushable env (mt_put (Key k t) v new_memtable)"
proof (rule clean_flushable [OF _ _ _ assms(1)])
  let ?mt = "mt_put (Key k t) v new_memtable"
  have mt: "mt_map ?mt = [(Key k t, Some v)]" by (simp add: mt_put_def skip_ok_new)
  show "skip_ok (mt_map ?mt)" unfolding mt by (simp add: skip_ok_Cons skip_ok_nil)
  show "clean_memtable ?mt" using assms(2)
    by (simp add: clean_memtable_def mt data_entries_def pair_ok_def entry_ok_def)
  show "mt_len ?mt < 2 ^ 29" by (simp add: mt_len_def mt)
qed

section \<open>Properties\<close>

text \<open>
  C18: a put that answers an error may be stored. Whichever operation on a file fails during a put
  into a well-formed engine, and whatever it leaves behind, every lookup is answered
  afterwards, and no other key changes; but only a failed append keeps the value out. After
  any later failure, of the rotation or the flush, the put answers an error and the value is
  read.
\<close>

theorem failed_put_stored:
  assumes "engine_ok env (Suc n) s" "pair_ok (k, v)" "ov_top (abs_engine env s) k = None"
    "lsm_put_io env f k v s = (Err e, s')"
  shows "fst (lsm_get env k' s') =
    Ok (if k' = k \<and> at_append f = None then Some v else ov_get k' (abs_engine env s))"
proof (cases "at_append f")
  case (Some ew)
  note ok = engine_okD [OF assms(1)]
  obtain w where "s' = s\<lparr>lsm_next_ts := lsm_next_ts s + 1, lsm_wal := w\<rparr>"
    using assms(4) Some by (cases ew) (auto simp: lsm_put_io_def Let_def)
  with failed_append_view [OF ok(1) room_counters(1) [OF ok(3)]] Some show ?thesis by (simp add: view_overlay)
next
  case None
  let ?s1 = "written env (batch_record (BatchPut k v) (lsm_next_ts s)) s"
  have s1: "engine_ok env n ?s1" "abs_engine env ?s1 = ov_write (BatchPut k v) (abs_engine env s)"
    using written_engine_ok [OF assms(1), of "BatchPut k v"] assms(2,3) by simp_all
  have fails: "rotate_if_full_io env f ?s1 = (Err e, s')" using assms(4) put_io_written [OF None] by simp
  note left = failed_rotation [OF fails]
  have "lsm_immutables s' = [lsm_memtable ?s1]"
    using left(2) lsm_okD(2) [OF engine_okD(1) [OF s1(1)]] by simp
  from get_with_immutable [OF engine_okD(1) [OF s1(1)] left(1) this left(3-5)] None s1(2) show ?thesis
    by (simp add: view_overlay) (simp add: ov_get_def cong: option.case_cong)
qed

text \<open>
  C19: a flush that failed once makes lookups stale. A memtable whose flush failed stays among the
  immutable ones, which later flushes do not touch and which lookups ask before the tables. If
  the key is put again and that memtable is flushed, the put succeeds, and the lookup answers
  the old value.
\<close>

theorem stale_after_failed_flush:
  assumes "env_ok env" "engine_ok env (Suc (Suc (Suc n))) s" "ov_top (abs_engine env s) k = None"
    "pair_ok (k, old)" "pair_ok (k, new)"
    "opt_memtable_size (lsm_options s) \<le> length k + min (length old) (length new)"
    "at_append f = None" "at_sync f = None" "at_wal_line f = None" "at_wal_create f = None" "at_table f = Some (e, partial)"
  shows "\<exists>s1 s2. lsm_put_io env f k old s = (Err (Io e), s1) \<and> lsm_put env k new s1 = (Ok (), s2) \<and>
    fst (lsm_get env k s2) = Ok (Some old)"
proof -
  let ?w1 = "written env (batch_record (BatchPut k old) (lsm_next_ts s)) s"
  have w1: "engine_ok env (Suc (Suc n)) ?w1" "abs_engine env ?w1 = ov_write (BatchPut k old) (abs_engine env s)"
    "lsm_options ?w1 = lsm_options s"
    using written_engine_ok [OF assms(2), of "BatchPut k old"] assms(3,4) by simp_all
  note ok = engine_okD [OF w1(1)]
  have "mt_size (lsm_memtable ?w1) = ov_size (abs_engine env ?w1)" by (simp add: abs_engine_def)
  then have "opt_memtable_size (lsm_options ?w1) \<le> mt_size (lsm_memtable ?w1)"
    using assms(6) w1(2,3) by simp
  then have "\<exists>s1. rotate_if_full_io env f ?w1 = (Err (Io e), s1)"
    using assms(8-11) by (simp add: rotate_if_full_io_def rotate_memtable_io_def flush_immutable_io_def Let_def
        split: prod.split)
  then obtain s1 where fails: "rotate_if_full_io env f ?w1 = (Err (Io e), s1)" by blast
  note left = failed_rotation [OF fails]
  have put1: "lsm_put_io env f k old s = (Err (Io e), s1)" using fails put_io_written [OF assms(7)] by simp
  let ?t = "lsm_next_ts ?w1"
  let ?w2 = "written env (put_at k new s1) s1"
  have w2: "lsm_memtable ?w2 = mt_put (Key k ?t) new new_memtable" "lsm_immutables ?w2 = [lsm_memtable ?w1]"
    "lsm_next_ts ?w2 = ?t + 1" "lsm_options ?w2 = lsm_options s"
    using left lsm_okD(2) [OF ok(1)] by (simp_all add: put_at_def apply_record_def)
  have lz4: "lz4_block_ok (le_blocks env)" using assms(1) by (simp add: env_ok_def)
  have "flushable env (lsm_memtable ?w2)" unfolding w2(1) by (rule single_put_flushable [OF assms(1,5)])
  then obtain s2 where s2: "rotate_memtable env ?w2 = (Ok (), s2)" "lsm_memtable s2 = new_memtable"
    "lsm_immutables s2 = [lsm_memtable ?w1]" "lsm_next_ts s2 = ?t + 1"
    using rotate_leaves_immutables [OF lz4] w2(2,3) by metis
  have put2: "lsm_put env k new s1 = (Ok (), s2)"
    using s2(1) w2(1,4) assms(6) by (simp add: lsm_put_written rotate_if_full_def mt_put_def new_memtable_def)
  have less: "?t < ?t + 1" by (rule less_successor [OF room_counters(1) [OF ok(3)]])
  have "mt_get_at_ts (lsm_memtable ?w1) k (?t + 1) = memtable_view (lsm_memtable ?w1) k"
    using lsm_okD(5) [OF ok(1)] less by (intro memtable_newest [OF lsm_okD(1) [OF ok(1)]]) (blast intro: less_trans)
  moreover have "memtable_view (lsm_memtable ?w1) k = ov_top (abs_engine env ?w1) k"
    by (simp add: abs_engine_def)
  ultimately have "mt_get_at_ts (lsm_memtable ?w1) k (?t + 1) = Some (Some old)" using w1(2) by simp
  moreover have "mt_get_at_ts new_memtable k (?t + 1) = None"
    using memtable_newest [of new_memtable "?t + 1" k] by (simp add: skip_ok_new skip_ok_nil memtable_view_new)
  ultimately have "fst (lsm_get env k s2) = Ok (Some old)"
    using s2(2-4) by (simp add: lsm_get_def lsm_get_at_ts_def)
  with put1 put2 show ?thesis by blast
qed

definition full_disk :: io_faults where
  "full_disk = no_faults\<lparr>at_table := Some (OtherIo, Some [])\<rparr>"

lemma fresh_tiny: "engine_ok stored_lsm_env 3 (fresh_lsm tiny_options)" "opt_memtable_size (lsm_options (fresh_lsm tiny_options)) = 1"
  by (rule fresh_engine_ok, simp) (simp add: fresh_lsm_def tiny_options_def)

lemma stale_after_failed_flush_witness:
  "\<exists>s1 s2. lsm_put_io stored_lsm_env full_disk [1] [7] (fresh_lsm tiny_options) = (Err (Io OtherIo), s1) \<and>
     lsm_put stored_lsm_env [1] [8] s1 = (Ok (), s2) \<and> fst (lsm_get stored_lsm_env [1] s2) = Ok (Some [7])"
  by (rule stale_after_failed_flush [OF env_ok_stored, of 0 _ _ _ _ _ OtherIo "Some []"])
    (use fresh_tiny in \<open>simp_all add: numeral_3_eq_3 fresh_abs ov_empty_def pair_ok_def full_disk_def\<close>)

lemma failed_put_stored_witness:
  "\<exists>s1. lsm_put_io stored_lsm_env full_disk [1] [7] (fresh_lsm tiny_options) = (Err (Io OtherIo), s1) \<and>
     fst (lsm_get stored_lsm_env [1] s1) = Ok (Some [7])"
proof -
  let ?s = "fresh_lsm tiny_options"
  have "\<exists>s1. lsm_put_io stored_lsm_env full_disk [1] [7] ?s = (Err (Io OtherIo), s1)"
    using fresh_tiny(2)
    by (simp add: lsm_put_io_def rotate_if_full_io_def rotate_memtable_io_def flush_immutable_io_def full_disk_def
        mt_put_def Let_def split: prod.split)
  then obtain s1 where s1: "lsm_put_io stored_lsm_env full_disk [1] [7] ?s = (Err (Io OtherIo), s1)" by blast
  have ok: "engine_ok stored_lsm_env (Suc 2) ?s" using fresh_tiny(1) by (simp add: numeral_3_eq_3 numeral_2_eq_2)
  from failed_put_stored [OF ok _ _ s1, of "[1]"] s1 show ?thesis
    by (simp add: fresh_abs ov_empty_def pair_ok_def full_disk_def)
qed

end
