(* ===== verification/Spec2Isabelle.thy ===== *)
theory Spec2Isabelle
  imports Wal_Segments Lock_Waits Txn_Checks Compaction_Thread Lsm_Faults
begin

text \<open>
  Verification of CrabStash, an embedded transactional key-value store written in Rust. This
  theory imports the whole development; every definition is translated from
  \<open>src/crates\<close>, named as in the code where Isabelle allows it.

  \<^bold>\<open>The program.\<close> A database (\<open>crabstash/src/lib.rs\<close>) runs every operation as a
  transaction of the engine (\<open>crabstash-txn\<close>). The engine stamps transactions with the
  timestamp oracle, takes an exclusive lock per written key from the lock manager
  (\<open>crabstash-lock\<close>), validates serializable transactions with the SSI manager, keeps writes in
  a write set, and at commit puts them one by one into the storage engine
  (\<open>crabstash-storage\<close>). The storage engine appends to a log, inserts into a memtable, and
  turns a full memtable into a sorted table of level 0; lookups and scans search memtable and
  tables; a thread of its own merges tables; the manifest names tables and logs, and opening
  replays the logs.

  \<^bold>\<open>Common parts.\<close> \<open>Prelude\<close>: machine words, byte strings and their order, \<open>Result\<close>
  with panics, \<open>Ordering\<close>, bounds, the standard library's binary search, hash maps and sets as
  lists whose order stands for the iteration order. \<open>Common_Error\<close>: \<open>error.rs\<close>.
  \<open>Simd_Key\<close>: \<open>simd.rs\<close> and \<open>key.rs\<close>, with the equality of the vectorised and the scalar
  comparisons. \<open>Codec\<close>: the integers and length-prefixed strings of both file formats, with
  the locale \<open>codec\<close> for their round trips.

  \<^bold>\<open>Storage.\<close> \<open>Wal\<close>: the log of \<open>wal.rs\<close> behind its buffered writer, encoding,
  sync modes, recovery; what is recovered from a whole, a cut and a damaged file.
  \<open>Wal_Manager\<close>, \<open>Wal_Segments\<close>: segmented logs, archiving and recovery over all segments.
  \<open>Bloom\<close>: both filters as instances of \<open>membership_filter\<close>. \<open>Memtable\<close>: \<open>memtable.rs\<close> and
  \<open>batch.rs\<close>; snapshot reads against the locale \<open>versioned_store\<close>. \<open>Sstable\<close>: \<open>sstable.rs\<close>
  and \<open>cache.rs\<close>, from building through the file format to lookups under any coherent cache.
  \<open>Iterators\<close>, \<open>Merge\<close>, \<open>Table_Iterator\<close>, \<open>Scan\<close>: \<open>iterator.rs\<close> with the contract
  \<open>storage_iterator\<close>, which every adaptor keeps, and what draining each composition yields.
  \<open>Manifest\<close>: \<open>manifest.rs\<close> down to the characters of its lines. \<open>Lsm\<close>, \<open>Lsm_Scan\<close>:
  \<open>lsm.rs\<close>; \<open>Lsm_Reads\<close>: lookups as an overriding search over the locale \<open>table_stack\<close>,
  flushes, and the refinement of a map by runs of puts; \<open>Ordered_Scan\<close>: scans list the pairs
  in order; \<open>Lsm_Reopen\<close>: what closing and opening again keeps; \<open>Lsm_Ops\<close>: any run of puts,
  deletions, batches, lookups and syncs keeps the engine well-formed and refines the abstract
  machine \<open>overlay\<close>; \<open>Lsm_Faults\<close>: the write path when an operation on a file fails.
  \<open>Compaction\<close>, \<open>Compaction_Checks\<close>: \<open>compaction.rs\<close> and a round of the compaction thread.
  \<open>Compaction_Thread\<close>: that thread step by step on the directory it shares with the engine; a
  merge always ends, by a multiset of what its iterators have left to read.

  \<^bold>\<open>Locks.\<close> \<open>Lock_Entry\<close>: \<open>lock_mode.rs\<close> and \<open>lock_entry.rs\<close>; blocking calls take the
  schedule of what others do to the entry, and the invariant holds for every schedule.
  \<open>Range_Lock\<close>: the interval tree over a vector of nodes, exact against the locale
  \<open>overlap_index\<close>. \<open>Escalation\<close>, \<open>Lock_Table\<close>: \<open>escalation.rs\<close>, \<open>lock_table.rs\<close> and the
  manager of \<open>lib.rs\<close>. \<open>Deadlock\<close>, \<open>Deadlock_Search\<close>: the wait-for graph, Tarjan's search
  proved to return and to be exact, the victim. \<open>Detector\<close>: the detector's threads step by
  step among everybody else's operations; clearing of deadlocks and the end of \<open>stop\<close>.
  \<open>Lock_Waits\<close>: \<open>lock_key\<close> as a sequence of critical sections that interleave with those of
  the other transactions, the whole call as a run of them, and what the detector then sees: it
  is exact while all locks are exclusive and none is released, and neither complete nor sound
  with shared modes.
  \<open>Ssi\<close>, \<open>Ssi_Checks\<close>: \<open>ssi.rs\<close> and its guarantees over any run of its operations.

  \<^bold>\<open>Transactions and database.\<close> \<open>Timestamp\<close>, \<open>Transaction\<close>, \<open>Mvcc\<close>: the three files of
  \<open>crabstash-txn\<close>. \<open>Db\<close>: the facade. \<open>Db_Checks\<close>: one-shot operations refine a map, prefix
  scans, snapshots. \<open>Txn_Checks\<close>: interactive transactions install all of their writes or none.

  \<^bold>\<open>How the code is rendered.\<close> A struct is a record, an enum a datatype, \<open>u8\<close>, \<open>u32\<close> and
  \<open>u64\<close> are words with their wrap-around, \<open>usize\<close> is a natural number. A fallible function
  returns \<open>Ok\<close>, \<open>Err\<close> or \<open>Panic\<close>; state is passed explicitly, and an error keeps the state
  it leaves. Loops are structural recursions, functions with a termination proof, or, where
  the code alone does not bound them, \<open>partial_function (option)\<close>, with \<open>None\<close> for not
  returning; each of these is proved to return where a property speaks of its result. No
  proof rests on fuel: the only step bounds are \<open>db_collect\<close> and the polls of
  \<open>wait_for_safe_snapshot\<close>, given by the caller, and any bound above the number of entries
  gives the same list. Concurrency is made explicit: critical sections are single steps, and
  what other threads do between them is a schedule or a list of events the theorems quantify
  over. A flushed or replayed state is compared with a map under \<open>puts_spaced\<close>: no key is put
  twice between two flushes, because two versions of a key in one table are not told apart
  (\<open>Sstable.overwritten_value_read\<close>).

  \<^bold>\<open>Parameters.\<close> Third-party code is a parameter: CRC-32 (crc32fast), LZ4 (lz4\_flex), the lane
  comparison (wide), the key hash of the SSI filters (rapidhash), the sizing formulas of the
  Bloom filters, the wall clock, and the eviction of the block cache (moka), which is covered
  by quantifying over coherent caches. What is assumed of them is stated where it is used:
  \<open>lz4_ok\<close>, \<open>lz4_block_ok\<close>, \<open>lanes_ok\<close>, at most 32 bits per key in \<open>env_ok\<close>; each is met by
  a concrete instance in the witnesses.

  \<^bold>\<open>Not modelled.\<close> Outside \<open>Lsm_Faults\<close> file operations do not fail, but for opening a missing
  file, and a file's contents after a crash are modelled for the log only. The position of the
  manifest's handle after \<open>create\<close> is in \<open>Compaction_Thread\<close> only (\<open>write_at\<close>). Table iterators
  read the file they were opened from; \<open>read_block_cached\<close>, which opens it again, is shown equal
  while the file is in place. The channel by which victims reach \<open>get_abort_receiver\<close> has no
  reader in the code. Left out are tracing and log messages, how long a thread sleeps or waits,
  and calls on the storage engine that overlap (each holds the engine's lock for its whole
  length, but for the allocation of its timestamp before it).
\<close>

end
